(* ===== verification/Prelude.thy ===== *)
theory Prelude
  imports Main "HOL-Library.Word"
begin

unbundle bit_operations_syntax

text \<open>
  The shared prelude of the development.

  \<^item> Machine types: a C \<open>uint\<close>/\<open>uint32\<close> is \<open>32 word\<close>, a \<open>short\<close>/\<open>ushort\<close> is \<open>16 word\<close>,
    a \<open>uchar\<close>/\<open>char\<close> is \<open>8 word\<close>; a C \<open>int\<close> that is only counted up and down is \<open>int\<close>
    (signed overflow is undefined in C).
  \<^item> \<open>res\<close>, the outcome of running kernel code: it returns (\<open>Ok\<close>), calls \<open>panic\<close>
    (\<open>Panic\<close>), spins for ever with interrupts off (\<open>Spin\<close>), or gives up the CPU in
    \<open>swtch\<close> (\<open>Swtch\<close>) with the state at that moment and the continuation that the
    scheduler resumes later. The type is coinductive because a sleep loop may be resumed
    and go back to sleep without bound.
  \<^item> \<open>andthen\<close>, sequencing; \<open>for_each\<close>, a counted loop with early exit; \<open>wloop\<close>, a
    \<open>while\<close> loop whose body may sleep.
  \<^item> Little-endian access to byte arrays, for on-disk structures and page tables.
\<close>

named_theorems wp \<open>rules that push a postcondition through a program\<close>
named_theorems mem_simps \<open>reading back what was stored in a byte array\<close>
named_theorems const_defs \<open>constants of the C headers\<close>

type_synonym byte = "8 word"
type_synonym uint16 = "16 word"
type_synonym uint32 = "32 word"
type_synonym bytes = "nat \<Rightarrow> byte"
type_synonym block = "nat \<Rightarrow> byte"

section \<open>Outcomes of kernel code\<close>

codatatype ('s, 'a) res =
    Ok 'a 's
  | Panic string
  | Spin
  | Swtch 's "'s \<Rightarrow> ('s, 'a) res"

primcorec andthen :: "('s, 'a) res \<Rightarrow> ('a \<Rightarrow> 's \<Rightarrow> ('s, 'b) res) \<Rightarrow> ('s, 'b) res" where
  "andthen r f = (case r of
      Ok a s \<Rightarrow> f a s
    | Panic m \<Rightarrow> Panic m
    | Spin \<Rightarrow> Spin
    | Swtch s k \<Rightarrow> Swtch s (\<lambda>s'. andthen (k s') f))"

lemma andthen_simps [simp]:
  "andthen (Ok a s) f = f a s"
  "andthen (Panic m) f = Panic m"
  "andthen Spin f = Spin"
  "andthen (Swtch s k) f = Swtch s (\<lambda>s'. andthen (k s') f)"
  by (subst andthen.code; simp)+

lemma andthen_assoc: "andthen (andthen r f) g = andthen r (\<lambda>a s. andthen (f a s) g)"
proof (coinduction arbitrary: r rule: res.coinduct_strong)
  case (Eq_res r)
  then show ?case by (cases r) auto
qed

lemma andthen_Ok_id [simp]: "andthen r Ok = r"
proof (coinduction arbitrary: r rule: res.coinduct_strong)
  case (Eq_res r)
  then show ?case by (cases r) auto
qed

lemma andthen_eq_Ok_iff:
  "andthen r f = Ok b t \<longleftrightarrow> (\<exists>a s. r = Ok a s \<and> f a s = Ok b t)"
  by (cases r) auto

lemma andthen_eq_Panic_iff:
  "andthen r f = Panic m \<longleftrightarrow> r = Panic m \<or> (\<exists>a s. r = Ok a s \<and> f a s = Panic m)"
  by (cases r) auto

lemma if_andthen: "andthen (if b then r1 else r2) f = (if b then andthen r1 f else andthen r2 f)"
  by simp

text \<open>\<open>returns r P\<close>: the code runs to completion, without panicking, spinning or giving up the
  CPU, and its result and final state satisfy \<open>P\<close>.\<close>

definition returns :: "('s, 'a) res \<Rightarrow> ('a \<Rightarrow> 's \<Rightarrow> bool) \<Rightarrow> bool" where
  "returns r P = (case r of Ok a s \<Rightarrow> P a s | _ \<Rightarrow> False)"

lemma returns_simps [simp]:
  "returns (Ok a s) P = P a s"
  "\<not> returns (Panic m) P"
  "\<not> returns Spin P"
  "\<not> returns (Swtch s k) P"
  by (simp_all add: returns_def)

lemma returns_iff: "returns r P \<longleftrightarrow> (\<exists>a s. r = Ok a s \<and> P a s)"
  by (cases r) auto

lemma returns_andthen [wp]:
  "returns (andthen r f) P \<longleftrightarrow> returns r (\<lambda>a s. returns (f a s) P)"
  by (cases r) auto

lemma returns_mono: "returns r P \<Longrightarrow> (\<And>a s. P a s \<Longrightarrow> Q a s) \<Longrightarrow> returns r Q"
  by (auto simp: returns_iff)

lemma returns_conj: "returns r (\<lambda>a s. P a s \<and> Q a s) \<longleftrightarrow> returns r P \<and> returns r Q"
  by (auto simp: returns_iff)

lemma returns_if [wp]:
  "returns (if b then r1 else r2) P \<longleftrightarrow> (if b then returns r1 P else returns r2 P)"
  by simp

section \<open>Loops\<close>

text \<open>\<open>for_each is f s\<close> runs \<open>f i\<close> for each index in turn; a body that yields \<open>Some v\<close> leaves
  the loop with \<open>v\<close> (a \<open>break\<close> or \<open>return\<close> in the loop), \<open>None\<close> goes on.\<close>

primrec for_each :: "'i list \<Rightarrow> ('i \<Rightarrow> 's \<Rightarrow> ('s, 'a option) res) \<Rightarrow> 's \<Rightarrow> ('s, 'a option) res" where
  "for_each [] f s = Ok None s"
| "for_each (i # is) f s =
     andthen (f i s) (\<lambda>r s'. case r of None \<Rightarrow> for_each is f s' | Some v \<Rightarrow> Ok (Some v) s')"

lemma for_each_append:
  "for_each (is @ js) f s =
     andthen (for_each is f s) (\<lambda>r s'. case r of None \<Rightarrow> for_each js f s' | Some v \<Rightarrow> Ok (Some v) s')"
  by (induction "is" arbitrary: s)
     (auto simp: andthen_assoc fun_eq_iff split: option.splits intro!: arg_cong [where f = "andthen _"])

lemma for_each_id:
  "(\<And>i. i \<in> set is \<Longrightarrow> f i s = Ok None s) \<Longrightarrow> for_each is f s = Ok None s"
  by (induction "is") auto

text \<open>The rule for a loop that runs to its end: \<open>I\<close> holds before each iteration, indexed by what
  is left to do.\<close>

lemma for_each_rule:
  assumes "I is s"
    and "\<And>i js s'. I (i # js) s' \<Longrightarrow> returns (f i s') (\<lambda>r s''. r = None \<and> I js s'')"
  shows "returns (for_each is f s) (\<lambda>r s'. r = None \<and> I [] s')"
  using assms(1)
proof (induction "is" arbitrary: s)
  case (Cons i js)
  have "returns (f i s) (\<lambda>r s''. r = None \<and> I js s'')"
    using Cons.prems by (rule assms(2))
  then obtain s'' where "f i s = Ok None s''" and "I js s''"
    by (auto simp: returns_iff)
  with Cons.IH show ?case by simp
qed simp

text \<open>The rule for a search loop: every index before the first hit leaves the state alone.\<close>

lemma for_each_upt:
  assumes "I 0 s"
    and "\<And>k s'. k < n \<Longrightarrow> I k s' \<Longrightarrow> returns (f k s') (\<lambda>r s''. r = None \<and> I (Suc k) s'')"
  shows "returns (for_each [0..<n] f s) (\<lambda>r s'. r = None \<and> I n s')"
  using assms(2)
proof (induction n)
  case (Suc n)
  then obtain s' where s': "for_each [0..<n] f s = Ok None s'" "I n s'"
    by (auto simp: returns_iff)
  moreover obtain s'' where "f n s' = Ok None s''" "I (Suc n) s''"
    using Suc.prems [OF _ s'(2)] by (auto simp: returns_iff)
  ultimately show ?case
    by (simp add: for_each_append)
qed (use assms(1) in simp)

lemma for_each_skip:
  assumes "\<And>i. i \<in> set is \<Longrightarrow> f i s = Ok None s"
  shows "for_each (is @ js) f s = for_each js f s"
  using assms by (induction "is") auto

text \<open>\<open>wloop m f (Ok (Inl l) s)\<close> is \<open>while\<close> with loop variables \<open>l\<close>: the body yields \<open>Inl l'\<close> to go
  round again and \<open>Inr a\<close> to leave. Rounds that do not give up the CPU are bounded by the
  measure \<open>m\<close> of the loop variables; a body that went round for ever without sleeping would
  be \<open>Spin\<close>.\<close>

primrec burst :: "nat \<Rightarrow> ('l \<Rightarrow> 's \<Rightarrow> ('s, 'l + 'a) res) \<Rightarrow> 'l \<Rightarrow> 's \<Rightarrow> ('s, 'l + 'a) res" where
  "burst 0 f l s = Spin"
| "burst (Suc n) f l s =
     (case f l s of
        Ok v s' \<Rightarrow> (case v of Inl l' \<Rightarrow> burst n f l' s' | Inr a \<Rightarrow> Ok (Inr a) s')
      | Panic msg \<Rightarrow> Panic msg | Spin \<Rightarrow> Spin | Swtch s' k \<Rightarrow> Swtch s' k)"

primcorec wloop :: "('l \<Rightarrow> nat) \<Rightarrow> ('l \<Rightarrow> 's \<Rightarrow> ('s, 'l + 'a) res) \<Rightarrow> ('s, 'l + 'a) res \<Rightarrow> ('s, 'a) res" where
  "wloop m f r = (case r of
      Ok v s \<Rightarrow> (case v of
          Inr a \<Rightarrow> Ok a s
        | Inl l \<Rightarrow> (case burst (Suc (m l)) f l s of
              Ok v' s' \<Rightarrow> (case v' of Inr a \<Rightarrow> Ok a s' | Inl _ \<Rightarrow> Spin)
            | Panic msg \<Rightarrow> Panic msg
            | Spin \<Rightarrow> Spin
            | Swtch s' k \<Rightarrow> Swtch s' (\<lambda>x. wloop m f (k x))))
    | Panic msg \<Rightarrow> Panic msg
    | Spin \<Rightarrow> Spin
    | Swtch s k \<Rightarrow> Swtch s (\<lambda>x. wloop m f (k x)))"

lemma wloop_simps [simp]:
  "wloop m f (Ok (Inr a) s) = Ok a s"
  "wloop m f (Panic msg) = Panic msg"
  "wloop m f Spin = Spin"
  "wloop m f (Swtch s k) = Swtch s (\<lambda>x. wloop m f (k x))"
  by (subst wloop.code; simp)+

lemma wloop_Inl:
  "wloop m f (Ok (Inl l) s) = (case burst (Suc (m l)) f l s of
      Ok v' s' \<Rightarrow> (case v' of Inr a \<Rightarrow> Ok a s' | Inl _ \<Rightarrow> Spin)
    | Panic msg \<Rightarrow> Panic msg
    | Spin \<Rightarrow> Spin
    | Swtch s' k \<Rightarrow> Swtch s' (\<lambda>x. wloop m f (k x)))"
  by (subst wloop.code) simp

lemma burst_fuel:
  assumes dec: "\<And>l s l' s'. f l s = Ok (Inl l') s' \<Longrightarrow> m l' < m l"
    and "m l < n" "m l < n'"
  shows "burst n f l s = burst n' f l s"
  using assms(2,3)
proof (induction n arbitrary: n' l s)
  case (Suc n)
  then obtain k where k: "n' = Suc k" by (cases n') auto
  show ?case
  proof (cases "f l s")
    case (Ok v s')
    show ?thesis
    proof (cases v)
      case (Inl l')
      with Ok have "m l' < m l" by (auto intro: dec)
      with Suc.prems k have "m l' < n" and "m l' < k" by auto
      with Suc.IH have "burst n f l' s' = burst k f l' s'" by blast
      with Ok Inl k show ?thesis by simp
    qed (simp add: Ok k)
  qed (simp_all add: k)
qed simp

text \<open>With the measure in hand the loop is its usual unrolling: run the body, go round with what
  it left.\<close>

lemma wloop_unroll:
  assumes dec: "\<And>l s l' s'. f l s = Ok (Inl l') s' \<Longrightarrow> m l' < m l"
  shows "wloop m f (Ok (Inl l) s) = wloop m f (f l s)"
proof (cases "f l s")
  case (Ok v s')
  show ?thesis
  proof (cases v)
    case (Inl l')
    with Ok have lt: "m l' < m l" by (auto intro: dec)
    have "burst (m l) f l' s' = burst (Suc (m l')) f l' s'"
      using dec lt by (intro burst_fuel [where m = m]) auto
    with Ok Inl show ?thesis by (simp add: wloop_Inl)
  qed (simp add: Ok wloop_Inl)
qed (simp_all add: wloop_Inl)

text \<open>The rule for a loop that never gives up the CPU: an invariant and the measure give termination and
  the postcondition.\<close>

lemma burst_rule:
  assumes "\<And>l s. I l s \<Longrightarrow> returns (f l s) (\<lambda>v s'. case v of Inl l' \<Rightarrow> I l' s' \<and> m l' < m l | Inr a \<Rightarrow> P a s')"
    and "I l s" and "m l < n"
  shows "\<exists>a s'. burst n f l s = Ok (Inr a) s' \<and> P a s'"
  using assms(2,3)
proof (induction n arbitrary: l s)
  case (Suc n)
  then obtain v s' where v: "f l s = Ok v s'" "case v of Inl l' \<Rightarrow> I l' s' \<and> m l' < m l | Inr a \<Rightarrow> P a s'"
    using assms(1) [of l s] by (auto simp: returns_iff)
  with Suc show ?case by (cases v) auto
qed simp

lemma wloop_rule:
  assumes "I l s"
    and "\<And>l s. I l s \<Longrightarrow> returns (f l s) (\<lambda>v s'. case v of Inl l' \<Rightarrow> I l' s' \<and> m l' < m l | Inr a \<Rightarrow> P a s')"
  shows "returns (wloop m f (Ok (Inl l) s)) P"
proof -
  obtain a s' where "burst (Suc (m l)) f l s = Ok (Inr a) s'" "P a s'"
    using burst_rule [of I f m P l s "Suc (m l)"] assms by blast
  then show ?thesis by (simp add: wloop_Inl)
qed

text \<open>The same with a measure of one's own, when it is at most \<open>m\<close> to begin with.\<close>

lemma wloop_rule_measure:
  assumes "I l s" and "m' l \<le> m l"
    and "\<And>l s. I l s \<Longrightarrow> returns (f l s) (\<lambda>v s'. case v of Inl l' \<Rightarrow> I l' s' \<and> m' l' < m' l | Inr a \<Rightarrow> P a s')"
  shows "returns (wloop m f (Ok (Inl l) s)) P"
proof -
  obtain a s' where "burst (Suc (m l)) f l s = Ok (Inr a) s'" "P a s'"
    using burst_rule [of I f m' P l s "Suc (m l)"] assms by auto
  then show ?thesis by (simp add: wloop_Inl)
qed

section \<open>Byte arrays\<close>

text \<open>Little-endian 16- and 32-bit loads and stores on any byte array, indexed by \<open>nat\<close> (a disk
  block, a C array) or by \<open>32 word\<close> (physical memory).\<close>

definition byte_of :: "nat \<Rightarrow> 'a::len word \<Rightarrow> byte" where
  "byte_of i w = ucast (drop_bit (8 * i) w)"

definition le16 :: "byte \<Rightarrow> byte \<Rightarrow> uint16" where
  "le16 a b = ucast a OR push_bit 8 (ucast b)"

definition le32 :: "byte \<Rightarrow> byte \<Rightarrow> byte \<Rightarrow> byte \<Rightarrow> uint32" where
  "le32 a b c d =
     ucast a OR push_bit 8 (ucast b) OR push_bit 16 (ucast c) OR push_bit 24 (ucast d)"

lemma le32_bytes [mem_simps]:
  "le32 (byte_of 0 w) (byte_of (Suc 0) w) (byte_of 2 w) (byte_of 3 w) = w"
proof (rule bit_word_eqI)
  fix n
  assume "n < LENGTH(32)"
  then show "bit (le32 (byte_of 0 w) (byte_of (Suc 0) w) (byte_of 2 w) (byte_of 3 w)) n = bit w n"
    by (cases "n < 8"; cases "n < 16"; cases "n < 24")
       (auto simp: le32_def byte_of_def bit_simps)
qed

lemma le16_bytes [mem_simps]: "le16 (byte_of 0 w) (byte_of (Suc 0) w) = w"
  by (rule bit_word_eqI) (auto simp: le16_def byte_of_def bit_simps)

definition get16 :: "('i::{plus,numeral} \<Rightarrow> byte) \<Rightarrow> 'i \<Rightarrow> uint16" where
  "get16 m a = le16 (m a) (m (a + 1))"

definition put16 :: "('i::{plus,numeral} \<Rightarrow> byte) \<Rightarrow> 'i \<Rightarrow> uint16 \<Rightarrow> 'i \<Rightarrow> byte" where
  "put16 m a v = m(a := byte_of 0 v, a + 1 := byte_of 1 v)"

definition get32 :: "('i::{plus,numeral} \<Rightarrow> byte) \<Rightarrow> 'i \<Rightarrow> uint32" where
  "get32 m a = le32 (m a) (m (a + 1)) (m (a + 2)) (m (a + 3))"

definition put32 :: "('i::{plus,numeral} \<Rightarrow> byte) \<Rightarrow> 'i \<Rightarrow> uint32 \<Rightarrow> 'i \<Rightarrow> byte" where
  "put32 m a v =
     m(a := byte_of 0 v, a + 1 := byte_of 1 v, a + 2 := byte_of 2 v, a + 3 := byte_of 3 v)"

lemma get32_put32_nat [mem_simps]: "get32 (put32 m (a::nat) v) a = v"
  by (simp add: get32_def put32_def mem_simps)

lemma get16_put16_nat [mem_simps]: "get16 (put16 m (a::nat) v) a = v"
  by (simp add: get16_def put16_def mem_simps)

lemma get32_put32_word [mem_simps]: "get32 (put32 m (a::uint32) v) a = v"
  by (simp add: get32_def put32_def mem_simps)

lemma put32_other: "x \<noteq> a \<Longrightarrow> x \<noteq> a + 1 \<Longrightarrow> x \<noteq> a + 2 \<Longrightarrow> x \<noteq> a + 3 \<Longrightarrow> put32 m a v x = m x"
  by (simp add: put32_def)

lemma get32_put32_nat_other:
  "b + 4 \<le> a \<or> a + 4 \<le> b \<Longrightarrow> get32 (put32 m (a::nat) v) b = get32 m b"
  by (auto simp: get32_def put32_def)

lemma get16_put16_nat_other:
  "b + 2 \<le> a \<or> a + 2 \<le> b \<Longrightarrow> get16 (put16 m (a::nat) v) b = get16 m b"
  by (auto simp: get16_def put16_def)

lemma get32_put16_nat_other:
  "b + 4 \<le> a \<or> a + 2 \<le> b \<Longrightarrow> get32 (put16 m (a::nat) v) b = get32 m b"
  by (auto simp: get32_def put16_def)

lemma get16_put32_nat_other:
  "b + 2 \<le> a \<or> a + 4 \<le> b \<Longrightarrow> get16 (put32 m (a::nat) v) b = get16 m b"
  by (auto simp: get16_def put32_def)

lemma put32_outside_nat: "i < a \<or> a + 4 \<le> i \<Longrightarrow> put32 m (a::nat) v i = m i"
  by (auto simp: put32_def)

text \<open>Arrays of 32-bit little-endian words inside a block: \<open>n\<close> stores at \<open>a\<close>, \<open>a + 4\<close>, \<dots>\<close>

primrec put32s :: "(nat \<Rightarrow> byte) \<Rightarrow> nat \<Rightarrow> nat \<Rightarrow> (nat \<Rightarrow> uint32) \<Rightarrow> nat \<Rightarrow> byte" where
  "put32s m a 0 f = m"
| "put32s m a (Suc n) f = put32 (put32s m a n f) (a + 4 * n) (f n)"

lemma get32_put32s:
  "i < n \<Longrightarrow> get32 (put32s m a n f) (a + 4 * i) = f i"
proof (induction n)
  case (Suc n)
  then show ?case
    by (cases "i = n") (simp_all add: mem_simps get32_put32_nat_other)
qed simp

lemma put32s_outside: "i < a \<or> a + 4 * n \<le> i \<Longrightarrow> put32s m a n f i = m i"
  by (induction n) (auto simp: put32_outside_nat)

lemma get32_put32s_other:
  "b + 4 \<le> a \<or> a + 4 * n \<le> b \<Longrightarrow> get32 (put32s m a n f) b = get32 m b"
  by (auto simp: get32_def put32s_outside)

end
