(* ===== verification/Kstate.thy ===== *)
theory Kstate
  imports Prelude
begin

text \<open>
  The constants and data structures of the kernel's headers and the kernel state.

  \<^item> Constants: \<open>param.h\<close>, \<open>fs.h\<close>, \<open>stat.h\<close>, \<open>fcntl.h\<close>, \<open>riscv.h\<close>, \<open>memlayout.h\<close>.
  \<^item> Structures: \<open>spinlock.h\<close>, \<open>sleeplock.h\<close>, \<open>proc.h\<close>, \<open>buf.h\<close>, \<open>fs.h\<close>, \<open>file.h\<close>, the
    anonymous structures of \<open>log.c\<close>, \<open>pipe.c\<close>, \<open>console.c\<close> and the platform's UART.
  \<^item> \<open>kstate\<close>: every global variable of the kernel, the physical memory it hands out by pages,
    the disk, and the supervisor control registers it reads and writes.

  A C array is a function from its index; a pointer into a table (\<open>struct proc *\<close>,
  \<open>struct buf *\<close>, \<open>struct inode *\<close>, \<open>struct file *\<close>) is the index of the entry, and \<open>None\<close>
  is the null pointer. Page addresses are \<open>32 word\<close> with 0 as the null pointer. The spin lock
  and sleep lock embedded in a structure are kept in \<open>locks\<close> and \<open>slocks\<close>, indexed by the
  structure that contains them. Structures that live in a \<open>kalloc\<close>ed page (\<open>struct pipe\<close>,
  \<open>struct trapframe\<close>) are typed stores indexed by the page address; page tables and user
  pages are bytes of \<open>mem\<close>.
\<close>

section \<open>Constants\<close>

definition NPROC :: nat where [const_defs]: "NPROC = 8"
definition NCPU :: nat where [const_defs]: "NCPU = 1"
definition NOFILE :: nat where [const_defs]: "NOFILE = 8"
definition NFILE :: nat where [const_defs]: "NFILE = 8"
definition NINODE :: nat where [const_defs]: "NINODE = 8"
definition NDEV :: nat where [const_defs]: "NDEV = 8"
definition ROOTDEV :: uint32 where [const_defs]: "ROOTDEV = 1"
definition MAXARG :: nat where [const_defs]: "MAXARG = 16"
definition MAXOPBLOCKS :: nat where [const_defs]: "MAXOPBLOCKS = 16"
definition LOGSIZE :: nat where [const_defs]: "LOGSIZE = MAXOPBLOCKS"
definition NBUF :: nat where [const_defs]: "NBUF = MAXOPBLOCKS"
definition FSSIZE :: nat where [const_defs]: "FSSIZE = 2000"
definition MAXPATH :: nat where [const_defs]: "MAXPATH = 128"

definition ROOTINO :: uint32 where [const_defs]: "ROOTINO = 1"
definition BSIZE :: nat where [const_defs]: "BSIZE = 512"
definition FSMAGIC :: uint32 where [const_defs]: "FSMAGIC = 0x10203040"
definition NDIRECT :: nat where [const_defs]: "NDIRECT = 12"
definition NINDIRECT :: nat where [const_defs]: "NINDIRECT = BSIZE div 4"
definition MAXFILE :: nat where [const_defs]: "MAXFILE = NDIRECT + NINDIRECT"
definition DINODE_SIZE :: nat where [const_defs]: "DINODE_SIZE = 12 + 4 * (NDIRECT + 1)"
definition IPB :: nat where [const_defs]: "IPB = BSIZE div DINODE_SIZE"
definition BPB :: nat where [const_defs]: "BPB = BSIZE * 8"
definition DIRSIZ :: nat where [const_defs]: "DIRSIZ = 14"
definition DIRENT_SIZE :: nat where [const_defs]: "DIRENT_SIZE = 2 + DIRSIZ"

definition T_DIR :: uint16 where [const_defs]: "T_DIR = 1"
definition T_FILE :: uint16 where [const_defs]: "T_FILE = 2"
definition T_DEVICE :: uint16 where [const_defs]: "T_DEVICE = 3"

definition O_RDONLY :: uint32 where [const_defs]: "O_RDONLY = 0"
definition O_WRONLY :: uint32 where [const_defs]: "O_WRONLY = 1"
definition O_RDWR :: uint32 where [const_defs]: "O_RDWR = 2"
definition O_CREATE :: uint32 where [const_defs]: "O_CREATE = 0x200"
definition O_TRUNC :: uint32 where [const_defs]: "O_TRUNC = 0x400"

definition PGSIZE :: uint32 where [const_defs]: "PGSIZE = 4096"
definition PGROUNDUP :: "uint32 \<Rightarrow> uint32" where "PGROUNDUP sz = (sz + PGSIZE - 1) AND NOT (PGSIZE - 1)"
definition PGROUNDDOWN :: "uint32 \<Rightarrow> uint32" where "PGROUNDDOWN a = a AND NOT (PGSIZE - 1)"

definition PTE_V :: uint32 where [const_defs]: "PTE_V = 1"
definition PTE_R :: uint32 where [const_defs]: "PTE_R = 2"
definition PTE_W :: uint32 where [const_defs]: "PTE_W = 4"
definition PTE_X :: uint32 where [const_defs]: "PTE_X = 8"
definition PTE_U :: uint32 where [const_defs]: "PTE_U = 16"
definition PTE_A :: uint32 where [const_defs]: "PTE_A = 64"
definition PTE_D :: uint32 where [const_defs]: "PTE_D = 128"

definition PA2PTE :: "uint32 \<Rightarrow> uint32" where "PA2PTE pa = push_bit 10 (drop_bit 12 pa)"
definition PTE2PA :: "uint32 \<Rightarrow> uint32" where "PTE2PA pte = push_bit 12 (drop_bit 10 pte)"
definition PTE_FLAGS :: "uint32 \<Rightarrow> uint32" where "PTE_FLAGS pte = pte AND 0x3FF"
definition PX :: "nat \<Rightarrow> uint32 \<Rightarrow> uint32" where "PX level va = drop_bit (12 + 10 * level) va AND 0x3FF"
definition MAXVA :: uint32 where [const_defs]: "MAXVA = 0xFFFFFFFF"

definition KERNBASE :: uint32 where [const_defs]: "KERNBASE = 0x80000000"
definition PHYSTOP :: uint32 where [const_defs]: "PHYSTOP = KERNBASE + 16 * 1024 * 1024"
definition TRAMPOLINE :: uint32 where [const_defs]: "TRAMPOLINE = MAXVA - PGSIZE + 1"
definition TRAPFRAME :: uint32 where [const_defs]: "TRAPFRAME = TRAMPOLINE - PGSIZE"
definition KSTACK :: "nat \<Rightarrow> uint32" where "KSTACK p = TRAMPOLINE - of_nat (p + 1) * 2 * PGSIZE"
definition MAKE_SATP :: "uint32 \<Rightarrow> uint32" where "MAKE_SATP pagetable = 0x80000000 OR drop_bit 12 pagetable"

definition PIPESIZE :: nat where [const_defs]: "PIPESIZE = 512"
definition INPUT_BUF_SIZE :: nat where [const_defs]: "INPUT_BUF_SIZE = 128"
definition UART_TX_BUF_SIZE :: nat where [const_defs]: "UART_TX_BUF_SIZE = 32"
definition CONSOLE :: nat where [const_defs]: "CONSOLE = 1"

section \<open>Locks and channels\<close>

text \<open>The sleep locks of the kernel, by the structure that contains them, and the spin locks.\<close>

datatype slid = SlBuf nat | SlInode nat

datatype lockid =
    LkKmem | LkPid | LkWait | LkProc nat | LkBcache | LkLog | LkItable | LkFtable
  | LkPipe uint32 | LkTicks | LkCons | LkPr | LkUart | LkDisk | LkSleep slid

text \<open>The kernel addresses that processes sleep on; nobody sleeps on the null pointer.\<close>

datatype chan =
    ChNull | ChProc nat | ChLog | ChSleep slid | ChPipeRead uint32 | ChPipeWrite uint32
  | ChTicks | ChCons | ChUart | ChDiskFree | ChDiskInfo nat

record spinlock =
  lk_locked :: bool
  lk_name :: string
  lk_cpu :: "nat option"

record sleeplock =
  sl_locked :: bool
  sl_name :: string
  sl_pid :: int

section \<open>Processes\<close>

record kcontext =
  ctx_ra :: uint32
  ctx_sp :: uint32
  ctx_s :: "nat \<Rightarrow> uint32"

record cpu =
  c_proc :: "nat option"
  c_noff :: int
  c_intena :: bool

record trapframe =
  tf_kernel_satp :: uint32
  tf_kernel_sp :: uint32
  tf_kernel_trap :: uint32
  tf_epc :: uint32
  tf_kernel_hartid :: uint32
  tf_ra :: uint32
  tf_sp :: uint32
  tf_gp :: uint32
  tf_tp :: uint32
  tf_t :: "nat \<Rightarrow> uint32"
  tf_s :: "nat \<Rightarrow> uint32"
  tf_a :: "nat \<Rightarrow> uint32"

datatype procstate = UNUSED | USED | SLEEPING | RUNNABLE | RUNNING | ZOMBIE

record proc =
  p_state :: procstate
  p_chan :: "chan option"
  p_killed :: bool
  p_xstate :: int
  p_pid :: int
  p_parent :: "nat option"
  p_kstack :: uint32
  p_sz :: uint32
  p_pagetable :: uint32
  p_trapframe :: uint32
  p_context :: kcontext
  p_ofile :: "nat \<Rightarrow> nat option"
  p_cwd :: "nat option"
  p_name :: bytes

section \<open>Disk blocks, inodes, files\<close>

record buf =
  b_valid :: bool
  b_disk :: bool
  b_dev :: uint32
  b_blockno :: uint32
  b_refcnt :: uint32
  b_prev :: nat
  b_next :: nat
  b_data :: block

record superblock =
  sb_magic :: uint32
  sb_size :: uint32
  sb_nblocks :: uint32
  sb_ninodes :: uint32
  sb_nlog :: uint32
  sb_logstart :: uint32
  sb_inodestart :: uint32
  sb_bmapstart :: uint32

record log =
  log_start :: int
  log_size :: int
  log_outstanding :: int
  log_committing :: bool
  log_dev :: int
  lh_n :: int
  lh_block :: "nat \<Rightarrow> uint32"

record inode =
  i_dev :: uint32
  i_inum :: uint32
  i_ref :: int
  i_valid :: bool
  i_type :: uint16
  i_major :: uint16
  i_minor :: uint16
  i_nlink :: uint16
  i_size :: uint32
  i_addrs :: "nat \<Rightarrow> uint32"

datatype filetype = FD_NONE | FD_PIPE | FD_INODE | FD_DEVICE

record kfile =
  f_type :: filetype
  f_ref :: int
  f_readable :: bool
  f_writable :: bool
  f_pipe :: uint32
  f_ip :: "nat option"
  f_off :: uint32
  f_major :: uint16

record pipe =
  pi_data :: bytes
  pi_nread :: uint32
  pi_nwrite :: uint32
  pi_readopen :: bool
  pi_writeopen :: bool

section \<open>Console and UART\<close>

datatype devfn = DevNone | DevConsole

record cons =
  cons_buf :: bytes
  cons_r :: uint32
  cons_w :: uint32
  cons_e :: uint32

record uart =
  tx_buf :: bytes
  tx_w :: uint32
  tx_r :: uint32
  uart_sent :: "byte list"
  uart_idle :: nat
  uart_rx :: "byte list"

section \<open>Platform devices\<close>

text \<open>The NEMU keyboard: the scan codes waiting in the controller and the modifier state of the
  driver.\<close>

record nemu_kbd =
  kbd_codes :: "uint32 list"
  nemu_shift_down :: bool
  nemu_ctrl_down :: bool
  nemu_caps_lock :: bool

text \<open>The QEMU virtio disk: the descriptor table, the rings and the driver's bookkeeping. The
  device writes \<open>vd_used_dev\<close>, \<open>vd_used_ring\<close> and \<open>vd_status\<close>.\<close>

record virtq_desc =
  vq_addr :: "64 word"
  vq_len :: uint32
  vq_flags :: uint16
  vq_next :: uint16

record virtio_blk_req =
  rq_type :: uint32
  rq_reserved :: uint32
  rq_sector :: "64 word"

record qemu_disk =
  vd_desc_pa :: uint32
  vd_avail_pa :: uint32
  vd_used_pa :: uint32
  vd_desc :: "nat \<Rightarrow> virtq_desc"
  vd_avail_idx :: uint16
  vd_avail_ring :: "nat \<Rightarrow> uint16"
  vd_used_dev :: uint16
  vd_used_ring :: "nat \<Rightarrow> uint32"
  vd_free :: "nat \<Rightarrow> bool"
  vd_used_idx :: uint16
  vd_status :: "nat \<Rightarrow> byte"
  vd_done :: "nat \<Rightarrow> bool"
  vd_ops :: "nat \<Rightarrow> virtio_blk_req"

section \<open>Control registers\<close>

record csrs =
  csr_sepc :: uint32
  csr_scause :: uint32
  csr_stval :: uint32
  csr_stvec :: uint32
  csr_satp :: uint32
  csr_spp :: bool
  csr_spie :: bool
  csr_sie :: bool
  csr_sip :: uint32

section \<open>The kernel state\<close>

text \<open>\<open>csr_sie\<close> is the \<open>SIE\<close> bit of \<open>sstatus\<close> that \<open>intr_on\<close>, \<open>intr_off\<close> and \<open>intr_get\<close>
  handle. \<open>k_end\<close>, \<open>k_etext\<close> and \<open>k_trampoline\<close> are the symbols \<open>end\<close>, \<open>etext\<close> and
  \<open>trampoline\<close> that the linker defines, \<open>k_sym\<close> the address of any other symbol; \<open>frame\<close> is the address, on the kernel stack, of a local
  variable whose address the code takes. \<open>disk\<close> is the contents of the block device and
  \<open>dwrites\<close> the history of the block writes it has received, newest first; it is what a power
  failure can cut short. \<open>irq_pending\<close> is what successive reads of the interrupt controller's claim
  register return, \<open>mmio_in\<close> the values other device registers read as, and \<open>mmio_out\<close> the register
  writes made so far, newest first.\<close>

record kstate =
  csr :: csrs
  cpu :: cpu
  locks :: "lockid \<Rightarrow> spinlock"
  slocks :: "slid \<Rightarrow> sleeplock"
  procs :: "nat \<Rightarrow> proc"
  initproc :: "nat option"
  nextpid :: int
  mem :: "uint32 \<Rightarrow> byte"
  freelist :: uint32
  kernel_pagetable :: uint32
  pipes :: "uint32 \<Rightarrow> pipe"
  trapframes :: "uint32 \<Rightarrow> trapframe"
  bufs :: "nat \<Rightarrow> buf"
  disk :: "uint32 \<Rightarrow> block"
  dwrites :: "(uint32 \<times> block) list"
  klog :: log
  sb :: superblock
  itable :: "nat \<Rightarrow> inode"
  ftable :: "nat \<Rightarrow> kfile"
  devsw_read :: "nat \<Rightarrow> devfn"
  devsw_write :: "nat \<Rightarrow> devfn"
  cons :: cons
  uart :: uart
  ticks :: uint32
  panicked :: bool
  pr_locking :: bool
  forkret_first :: bool
  kbd :: nemu_kbd
  vdisk :: qemu_disk
  irq_pending :: "uint32 list"
  mmio_in :: "uint32 \<Rightarrow> uint32"
  mmio_out :: "(uint32 \<times> uint32) list"
  k_end :: uint32
  k_etext :: uint32
  k_trampoline :: uint32
  frame :: uint32
  k_sym :: "string \<Rightarrow> uint32"

type_synonym 'a kres = "(kstate, 'a) res"

text \<open>The state at reset: the kernel's globals are zero (\<open>bss\<close>), the machine's memory and disk
  hold \<open>m\<close> and \<open>d\<close>.\<close>

definition zero_proc :: proc where
  "zero_proc = \<lparr>p_state = UNUSED, p_chan = None, p_killed = False, p_xstate = 0, p_pid = 0,
     p_parent = None, p_kstack = 0, p_sz = 0, p_pagetable = 0, p_trapframe = 0,
     p_context = \<lparr>ctx_ra = 0, ctx_sp = 0, ctx_s = (\<lambda>_. 0)\<rparr>, p_ofile = (\<lambda>_. None), p_cwd = None,
     p_name = (\<lambda>_. 0)\<rparr>"

definition zero_buf :: buf where
  "zero_buf = \<lparr>b_valid = False, b_disk = False, b_dev = 0, b_blockno = 0, b_refcnt = 0, b_prev = 0,
     b_next = 0, b_data = (\<lambda>_. 0)\<rparr>"

definition zero_inode :: inode where
  "zero_inode = \<lparr>i_dev = 0, i_inum = 0, i_ref = 0, i_valid = False, i_type = 0, i_major = 0,
     i_minor = 0, i_nlink = 0, i_size = 0, i_addrs = (\<lambda>_. 0)\<rparr>"

definition zero_file :: kfile where
  "zero_file = \<lparr>f_type = FD_NONE, f_ref = 0, f_readable = False, f_writable = False, f_pipe = 0,
     f_ip = None, f_off = 0, f_major = 0\<rparr>"

definition bss :: "(uint32 \<Rightarrow> byte) \<Rightarrow> (uint32 \<Rightarrow> block) \<Rightarrow> kstate" where
  "bss m d = \<lparr>
     csr = \<lparr>csr_sepc = 0, csr_scause = 0, csr_stval = 0, csr_stvec = 0, csr_satp = 0,
       csr_spp = False, csr_spie = False, csr_sie = False, csr_sip = 0\<rparr>,
     cpu = \<lparr>c_proc = None, c_noff = 0, c_intena = False\<rparr>,
     locks = (\<lambda>_. \<lparr>lk_locked = False, lk_name = [], lk_cpu = None\<rparr>),
     slocks = (\<lambda>_. \<lparr>sl_locked = False, sl_name = [], sl_pid = 0\<rparr>),
     procs = (\<lambda>_. zero_proc), initproc = None, nextpid = 1, mem = m, freelist = 0,
     kernel_pagetable = 0,
     pipes = (\<lambda>_. \<lparr>pi_data = (\<lambda>_. 0), pi_nread = 0, pi_nwrite = 0, pi_readopen = False,
       pi_writeopen = False\<rparr>),
     trapframes = (\<lambda>_. \<lparr>tf_kernel_satp = 0, tf_kernel_sp = 0, tf_kernel_trap = 0, tf_epc = 0,
       tf_kernel_hartid = 0, tf_ra = 0, tf_sp = 0, tf_gp = 0, tf_tp = 0, tf_t = (\<lambda>_. 0),
       tf_s = (\<lambda>_. 0), tf_a = (\<lambda>_. 0)\<rparr>),
     bufs = (\<lambda>_. zero_buf), disk = d, dwrites = [],
     klog = \<lparr>log_start = 0, log_size = 0, log_outstanding = 0, log_committing = False, log_dev = 0,
       lh_n = 0, lh_block = (\<lambda>_. 0)\<rparr>,
     sb = \<lparr>sb_magic = 0, sb_size = 0, sb_nblocks = 0, sb_ninodes = 0, sb_nlog = 0, sb_logstart = 0,
       sb_inodestart = 0, sb_bmapstart = 0\<rparr>,
     itable = (\<lambda>_. zero_inode), ftable = (\<lambda>_. zero_file),
     devsw_read = (\<lambda>_. DevNone), devsw_write = (\<lambda>_. DevNone),
     cons = \<lparr>cons_buf = (\<lambda>_. 0), cons_r = 0, cons_w = 0, cons_e = 0\<rparr>,
     uart = \<lparr>tx_buf = (\<lambda>_. 0), tx_w = 0, tx_r = 0, uart_sent = [], uart_idle = 0, uart_rx = []\<rparr>,
     ticks = 0, panicked = False, pr_locking = False, forkret_first = True,
     kbd = \<lparr>kbd_codes = [], nemu_shift_down = False, nemu_ctrl_down = False, nemu_caps_lock = False\<rparr>,
     vdisk = \<lparr>vd_desc_pa = 0, vd_avail_pa = 0, vd_used_pa = 0,
       vd_desc = (\<lambda>_. \<lparr>vq_addr = 0, vq_len = 0, vq_flags = 0, vq_next = 0\<rparr>), vd_avail_idx = 0,
       vd_avail_ring = (\<lambda>_. 0), vd_used_dev = 0, vd_used_ring = (\<lambda>_. 0), vd_free = (\<lambda>_. False),
       vd_used_idx = 0, vd_status = (\<lambda>_. 0), vd_done = (\<lambda>_. False),
       vd_ops = (\<lambda>_. \<lparr>rq_type = 0, rq_reserved = 0, rq_sector = 0\<rparr>)\<rparr>,
     irq_pending = [], mmio_in = (\<lambda>_. 0), mmio_out = [], k_end = 0x80030000, k_etext = 0x80010000,
     k_trampoline = 0x8000F000, frame = 0x8002F000,
     k_sym = (\<lambda>_. 0)\<rparr>"

section \<open>Page and page-table arithmetic\<close>

lemma mask_12: "(4095 :: uint32) = mask 12" and mask_10: "(0x3FF :: uint32) = mask 10"
  by (simp_all add: mask_eq_exp_minus_1)

lemma PGROUNDDOWN_alt: "PGROUNDDOWN a = push_bit 12 (drop_bit 12 a)"
  by (rule bit_word_eqI) (auto simp: PGROUNDDOWN_def PGSIZE_def mask_12 bit_simps)

lemma PTE_FLAGS_alt: "PTE_FLAGS a = take_bit 10 a"
  by (simp add: PTE_FLAGS_def mask_10 take_bit_eq_mask)

lemma PTE2PA_PA2PTE: "PTE2PA (PA2PTE pa OR PTE_FLAGS fl) = PGROUNDDOWN pa"
  by (rule bit_word_eqI)
     (auto simp: PTE2PA_def PA2PTE_def PGROUNDDOWN_alt PTE_FLAGS_alt bit_simps)

lemma PTE_FLAGS_PA2PTE: "PTE_FLAGS (PA2PTE pa OR PTE_FLAGS fl) = PTE_FLAGS fl"
  by (rule bit_word_eqI) (auto simp: PA2PTE_def PTE_FLAGS_alt bit_simps)

end

