(* ===== verification/Spinlock.thy ===== *)
theory Spinlock
  imports Kstate
begin

text \<open>
  \<open>kernel/spinlock.c\<close>: nested interrupt disabling (\<open>push_off\<close>, \<open>pop_off\<close>) and spin locks.

  The kernel is configured with one CPU (\<open>NCPU = 1\<close>), so \<open>mycpu()\<close> is the only \<open>struct cpu\<close>
  and a spin lock found taken by someone else is never given back: \<open>acquire\<close> then spins with
  interrupts off, the outcome \<open>Spin\<close>. Between \<open>acquire\<close> and \<open>release\<close> interrupts are off, so
  nothing else runs and the section is one step of the model.
\<close>

definition intr_get :: "kstate \<Rightarrow> bool" where
  "intr_get s = csr_sie (csr s)"

definition intr_on :: "kstate \<Rightarrow> kstate" where
  "intr_on s = s\<lparr>csr := (csr s)\<lparr>csr_sie := True\<rparr>\<rparr>"

definition intr_off :: "kstate \<Rightarrow> kstate" where
  "intr_off s = s\<lparr>csr := (csr s)\<lparr>csr_sie := False\<rparr>\<rparr>"

definition cpuid :: "kstate \<Rightarrow> nat" where
  "cpuid s = 0"

definition initlock :: "lockid \<Rightarrow> string \<Rightarrow> kstate \<Rightarrow> kstate" where
  "initlock lk name s =
     s\<lparr>locks := (locks s)(lk := \<lparr>lk_locked = False, lk_name = name, lk_cpu = None\<rparr>)\<rparr>"

definition push_off :: "kstate \<Rightarrow> kstate" where
  "push_off s =
     (let old = intr_get s;
          s = intr_off s;
          s = (if c_noff (cpu s) = 0 then s\<lparr>cpu := (cpu s)\<lparr>c_intena := old\<rparr>\<rparr> else s)
      in s\<lparr>cpu := (cpu s)\<lparr>c_noff := c_noff (cpu s) + 1\<rparr>\<rparr>)"

definition pop_off :: "kstate \<Rightarrow> unit kres" where
  "pop_off s =
     (if intr_get s then Panic ''pop_off - interruptible''
      else if c_noff (cpu s) < 1 then Panic ''pop_off''
      else let s = s\<lparr>cpu := (cpu s)\<lparr>c_noff := c_noff (cpu s) - 1\<rparr>\<rparr>
           in Ok () (if c_noff (cpu s) = 0 \<and> c_intena (cpu s) then intr_on s else s))"

definition holding :: "lockid \<Rightarrow> kstate \<Rightarrow> bool" where
  "holding lk s \<longleftrightarrow> lk_locked (locks s lk) \<and> lk_cpu (locks s lk) = Some (cpuid s)"

definition acquire :: "lockid \<Rightarrow> kstate \<Rightarrow> unit kres" where
  "acquire lk s =
     (let s = push_off s
      in if holding lk s then Panic ''acquire''
         else if lk_locked (locks s lk) then Spin
         else Ok () (s\<lparr>locks := (locks s)(lk := (locks s lk)\<lparr>lk_locked := True, lk_cpu := Some (cpuid s)\<rparr>)\<rparr>))"

definition release :: "lockid \<Rightarrow> kstate \<Rightarrow> unit kres" where
  "release lk s =
     (if \<not> holding lk s then Panic ''release''
      else pop_off (s\<lparr>locks := (locks s)(lk := (locks s lk)\<lparr>lk_cpu := None, lk_locked := False\<rparr>)\<rparr>))"

section \<open>Nested interrupt disabling\<close>

text \<open>A run of \<open>push_off\<close> (\<open>True\<close>) and \<open>pop_off\<close> (\<open>False\<close>) calls, and its balance.\<close>

primrec run_offs :: "bool list \<Rightarrow> kstate \<Rightarrow> unit kres" where
  "run_offs [] s = Ok () s"
| "run_offs (b # bs) s =
     (if b then run_offs bs (push_off s) else andthen (pop_off s) (\<lambda>_ s'. run_offs bs s'))"

primrec nested :: "nat \<Rightarrow> bool list \<Rightarrow> nat option" where
  "nested d [] = Some d"
| "nested d (b # bs) = (if b then nested (Suc d) bs else if d = 0 then None else nested (d - 1) bs)"

lemma run_offs_nested:
  assumes "nested d bs = Some d'"
    and "c_noff (cpu s) = int d"
    and "d > 0 \<Longrightarrow> \<not> intr_get s \<and> c_intena (cpu s) = i"
    and "d = 0 \<Longrightarrow> intr_get s = i"
  shows "\<exists>s'. run_offs bs s = Ok () s' \<and> c_noff (cpu s') = int d'
     \<and> intr_get s' = (d' = 0 \<and> i)"
  using assms
proof (induction bs arbitrary: d s)
  case Nil
  then show ?case by (cases "d = 0") auto
next
  case (Cons b bs)
  show ?case
  proof (cases b)
    case True
    have "nested (Suc d) bs = Some d'"
      using Cons.prems(1) True by simp
    then show ?thesis
      using Cons.prems(2-4) Cons.IH [of "Suc d" "push_off s"] True
      by (cases "d = 0") (auto simp: push_off_def Let_def intr_off_def intr_get_def)
  next
    case False
    then have d: "d > 0" and n: "nested (d - 1) bs = Some d'"
      using Cons.prems(1) by (auto split: if_splits)
    show ?thesis
      using Cons.prems(2-4) d False Cons.IH [OF n]
      by (auto simp: pop_off_def Let_def intr_on_def intr_get_def)
  qed
qed

section \<open>Critical sections\<close>

text \<open>\<open>cpu_ok\<close>: the nesting count is not negative, interrupts are off while it is positive, and
  outside any nesting \<open>intena\<close> records the current setting. Under it \<open>acquire\<close> and \<open>release\<close>
  of a free lock leave the CPU as they found it.\<close>

definition cpu_ok :: "kstate \<Rightarrow> bool" where
  "cpu_ok s \<longleftrightarrow> 0 \<le> c_noff (cpu s) \<and>
     (if c_noff (cpu s) = 0 then c_intena (cpu s) = intr_get s else \<not> intr_get s)"

text \<open>Outside any nesting \<open>intena\<close> may be stale: after \<open>intr_on\<close> in the scheduler, or in a trap handler, which runs with interrupts
  off. The next \<open>push_off\<close> overwrites it, so such a state behaves as the one in which it is set right.\<close>

definition settle :: "kstate \<Rightarrow> kstate" where
  "settle s = (if c_noff (cpu s) = 0 then s\<lparr>cpu := (cpu s)\<lparr>c_intena := intr_get s\<rparr>\<rparr> else s)"

lemma cpu_ok_settle:
  "cpu_ok (settle s) \<longleftrightarrow> 0 \<le> c_noff (cpu s) \<and> (c_noff (cpu s) \<noteq> 0 \<longrightarrow> \<not> intr_get s)"
  by (auto simp: cpu_ok_def settle_def intr_get_def)

lemma push_off_settle: "push_off (settle s) = push_off s"
  by (simp add: push_off_def settle_def Let_def intr_off_def intr_get_def)

lemma acquire_settle: "acquire lk (settle s) = acquire lk s"
  by (simp add: acquire_def push_off_settle)

definition free_lk :: "lockid \<Rightarrow> kstate \<Rightarrow> bool" where
  "free_lk lk s \<longleftrightarrow> \<not> lk_locked (locks s lk) \<and> lk_cpu (locks s lk) = None"

lemma cpu_ok_upd [simp]:
  "cpu_ok (s\<lparr>procs := x0\<rparr>) = cpu_ok s"
  "cpu_ok (s\<lparr>mem := x1\<rparr>) = cpu_ok s"
  "cpu_ok (s\<lparr>bufs := x2\<rparr>) = cpu_ok s"
  "cpu_ok (s\<lparr>slocks := x3\<rparr>) = cpu_ok s"
  "cpu_ok (s\<lparr>klog := x4\<rparr>) = cpu_ok s"
  "cpu_ok (s\<lparr>freelist := x5\<rparr>) = cpu_ok s"
  "cpu_ok (s\<lparr>itable := x6\<rparr>) = cpu_ok s"
  "cpu_ok (s\<lparr>ftable := x7\<rparr>) = cpu_ok s"
  "cpu_ok (s\<lparr>pipes := x8\<rparr>) = cpu_ok s"
  "cpu_ok (s\<lparr>nextpid := x9\<rparr>) = cpu_ok s"
  "cpu_ok (s\<lparr>cons := x10\<rparr>) = cpu_ok s"
  "cpu_ok (s\<lparr>uart := x11\<rparr>) = cpu_ok s"
  "cpu_ok (s\<lparr>ticks := x12\<rparr>) = cpu_ok s"
  "cpu_ok (s\<lparr>disk := x13\<rparr>) = cpu_ok s"
  "cpu_ok (s\<lparr>dwrites := x14\<rparr>) = cpu_ok s"
  "cpu_ok (s\<lparr>trapframes := x15\<rparr>) = cpu_ok s"
  by (simp_all add: cpu_ok_def intr_get_def)

lemma free_lk_upd [simp]:
  "free_lk lk (s\<lparr>procs := x0\<rparr>) = free_lk lk s"
  "free_lk lk (s\<lparr>mem := x1\<rparr>) = free_lk lk s"
  "free_lk lk (s\<lparr>bufs := x2\<rparr>) = free_lk lk s"
  "free_lk lk (s\<lparr>slocks := x3\<rparr>) = free_lk lk s"
  "free_lk lk (s\<lparr>klog := x4\<rparr>) = free_lk lk s"
  "free_lk lk (s\<lparr>freelist := x5\<rparr>) = free_lk lk s"
  "free_lk lk (s\<lparr>itable := x6\<rparr>) = free_lk lk s"
  "free_lk lk (s\<lparr>ftable := x7\<rparr>) = free_lk lk s"
  "free_lk lk (s\<lparr>pipes := x8\<rparr>) = free_lk lk s"
  "free_lk lk (s\<lparr>nextpid := x9\<rparr>) = free_lk lk s"
  "free_lk lk (s\<lparr>cons := x10\<rparr>) = free_lk lk s"
  "free_lk lk (s\<lparr>uart := x11\<rparr>) = free_lk lk s"
  "free_lk lk (s\<lparr>ticks := x12\<rparr>) = free_lk lk s"
  "free_lk lk (s\<lparr>disk := x13\<rparr>) = free_lk lk s"
  "free_lk lk (s\<lparr>dwrites := x14\<rparr>) = free_lk lk s"
  "free_lk lk (s\<lparr>trapframes := x15\<rparr>) = free_lk lk s"
  by (simp_all add: free_lk_def)

text \<open>The state just inside a critical section.\<close>

definition acq :: "lockid \<Rightarrow> kstate \<Rightarrow> kstate" where
  "acq lk s = s\<lparr>csr := (csr s)\<lparr>csr_sie := False\<rparr>,
                cpu := (cpu s)\<lparr>c_noff := c_noff (cpu s) + 1\<rparr>,
                locks := (locks s)(lk := (locks s lk)\<lparr>lk_locked := True, lk_cpu := Some 0\<rparr>)\<rparr>"

lemma acquire_acq:
  assumes "cpu_ok s" and "free_lk lk s"
  shows "acquire lk s = Ok () (acq lk s)"
proof -
  have "(cpu s)\<lparr>c_intena := csr_sie (csr s)\<rparr> = cpu s" if "c_noff (cpu s) = 0"
    using assms(1) that by (simp add: cpu_ok_def intr_get_def)
  then have "push_off s = s\<lparr>csr := (csr s)\<lparr>csr_sie := False\<rparr>,
      cpu := (cpu s)\<lparr>c_noff := c_noff (cpu s) + 1\<rparr>\<rparr>"
    by (simp add: push_off_def Let_def intr_off_def intr_get_def)
  then show ?thesis
    using assms(2) by (simp add: acquire_def Let_def holding_def free_lk_def cpuid_def acq_def)
qed

text \<open>A critical section that leaves the locks, the CPU and the control registers alone ends in
  the state it would have reached without the lock.\<close>

lemma unlock_free:
  assumes "free_lk lk s"
  shows "(locks s)(lk := (locks s lk)\<lparr>lk_cpu := None, lk_locked := False\<rparr>) = locks s"
proof -
  have "(locks s lk)\<lparr>lk_cpu := None, lk_locked := False\<rparr> = locks s lk"
    using assms by (intro spinlock.equality) (simp_all add: free_lk_def)
  then show ?thesis by simp
qed

lemma release_acq:
  assumes "cpu_ok s" and "free_lk lk s"
    and "csr t = csr (acq lk s)" and "cpu t = cpu (acq lk s)" and "locks t = locks (acq lk s)"
  shows "release lk t = Ok () (t\<lparr>csr := csr s, cpu := cpu s, locks := locks s\<rparr>)"
proof -
  have l: "(locks t)(lk := (locks t lk)\<lparr>lk_cpu := None, lk_locked := False\<rparr>) = locks s"
    using unlock_free [OF assms(2)] assms(5) by (simp add: acq_def)
  have h: "holding lk t"
    using assms(5) by (simp add: holding_def acq_def cpuid_def)
  have c: "csr_sie (csr t) = False" "c_noff (cpu t) = c_noff (cpu s) + 1"
      "c_intena (cpu t) = c_intena (cpu s)" "(cpu t)\<lparr>c_noff := c_noff (cpu s)\<rparr> = cpu s"
      "(csr t)\<lparr>csr_sie := csr_sie (csr s)\<rparr> = csr s"
    using assms(3,4) by (simp_all add: acq_def)
  have i: "csr_sie (csr s) \<Longrightarrow> c_noff (cpu s) = 0 \<and> c_intena (cpu s)"
      "c_noff (cpu s) = 0 \<Longrightarrow> c_intena (cpu s) = csr_sie (csr s)" "0 \<le> c_noff (cpu s)"
    using assms(1) by (auto simp: cpu_ok_def intr_get_def split: if_splits)
  show ?thesis
  proof (cases "csr_sie (csr s)")
    case True
    with h c i show ?thesis
      by (simp add: release_def l pop_off_def Let_def intr_on_def intr_get_def)
  next
    case False
    have "csr t = csr s"
      using assms(3) False by (intro csrs.equality) (simp_all add: acq_def)
    then have "t\<lparr>locks := locks s, cpu := cpu s\<rparr> = t\<lparr>csr := csr s, cpu := cpu s, locks := locks s\<rparr>"
      by (intro kstate.equality) simp_all
    with False h c i show ?thesis
      by (auto simp: release_def l pop_off_def Let_def intr_on_def intr_get_def)
  qed
qed

lemma acq_simps [simp]:
  "procs (acq lk s) = procs s" "mem (acq lk s) = mem s" "bufs (acq lk s) = bufs s"
  "klog (acq lk s) = klog s" "slocks (acq lk s) = slocks s" "disk (acq lk s) = disk s"
  "freelist (acq lk s) = freelist s" "itable (acq lk s) = itable s" "ftable (acq lk s) = ftable s"
  "pipes (acq lk s) = pipes s" "sb (acq lk s) = sb s" "dwrites (acq lk s) = dwrites s"
  "nextpid (acq lk s) = nextpid s" "cons (acq lk s) = cons s" "ticks (acq lk s) = ticks s"
  "k_end (acq lk s) = k_end s" "uart (acq lk s) = uart s" "initproc (acq lk s) = initproc s"
  "c_proc (cpu (acq lk s)) = c_proc (cpu s)" "frame (acq lk s) = frame s"
  "panicked (acq lk s) = panicked s" "trapframes (acq lk s) = trapframes s"
  by (simp_all add: acq_def)

lemma holding_acq [simp]: "holding lk (acq lk s)"
  by (simp add: holding_def acq_def cpuid_def)

lemma acq_restore:
  "(acq lk s)\<lparr>csr := csr s, cpu := cpu s, locks := locks s\<rparr> = s"
  by (simp add: acq_def)

text \<open>Critical sections that change one part of the state.\<close>

lemma release_acq_upd [simp]:
  assumes "cpu_ok s" and "free_lk lk s"
  shows "release lk (acq lk s) = Ok () s"
  "release lk ((acq lk s)\<lparr>procs := x0\<rparr>) = Ok () (s\<lparr>procs := x0\<rparr>)"
  "release lk ((acq lk s)\<lparr>mem := x1\<rparr>) = Ok () (s\<lparr>mem := x1\<rparr>)"
  "release lk ((acq lk s)\<lparr>bufs := x2\<rparr>) = Ok () (s\<lparr>bufs := x2\<rparr>)"
  "release lk ((acq lk s)\<lparr>slocks := x3\<rparr>) = Ok () (s\<lparr>slocks := x3\<rparr>)"
  "release lk ((acq lk s)\<lparr>klog := x4\<rparr>) = Ok () (s\<lparr>klog := x4\<rparr>)"
  "release lk ((acq lk s)\<lparr>freelist := x5\<rparr>) = Ok () (s\<lparr>freelist := x5\<rparr>)"
  "release lk ((acq lk s)\<lparr>itable := x6\<rparr>) = Ok () (s\<lparr>itable := x6\<rparr>)"
  "release lk ((acq lk s)\<lparr>ftable := x7\<rparr>) = Ok () (s\<lparr>ftable := x7\<rparr>)"
  "release lk ((acq lk s)\<lparr>pipes := x8\<rparr>) = Ok () (s\<lparr>pipes := x8\<rparr>)"
  "release lk ((acq lk s)\<lparr>nextpid := x9\<rparr>) = Ok () (s\<lparr>nextpid := x9\<rparr>)"
  "release lk ((acq lk s)\<lparr>cons := x10\<rparr>) = Ok () (s\<lparr>cons := x10\<rparr>)"
  "release lk ((acq lk s)\<lparr>uart := x11\<rparr>) = Ok () (s\<lparr>uart := x11\<rparr>)"
  "release lk ((acq lk s)\<lparr>ticks := x12\<rparr>) = Ok () (s\<lparr>ticks := x12\<rparr>)"
  using assms by (simp_all add: release_acq [OF assms], simp_all add: acq_def)

lemma cpu_ok_acq [simp]: "cpu_ok s \<Longrightarrow> cpu_ok (acq lk s)"
  by (auto simp: cpu_ok_def acq_def intr_get_def split: if_splits)

lemma free_lk_acq: "lk' \<noteq> lk \<Longrightarrow> free_lk lk' (acq lk s) = free_lk lk' s"
  by (simp add: free_lk_def acq_def)

lemma acquire_held: "holding lk s \<Longrightarrow> acquire lk s = Panic ''acquire''"
  by (auto simp: acquire_def push_off_def Let_def holding_def cpuid_def intr_off_def)

lemma release_not_held: "\<not> holding lk s \<Longrightarrow> release lk s = Panic ''release''"
  by (simp add: release_def)

end
