(* ===== verification/Sched.thy ===== *)
theory Sched
  imports Spinlock
begin

text \<open>
  The part of \<open>kernel/proc.c\<close> that the rest of the kernel blocks and wakes up with: the current
  process, the switch to the scheduler, \<open>sleep\<close>/\<open>wakeup\<close>, \<open>yield\<close>, \<open>kill\<close>, and the scheduler
  loop itself.

  \<open>swtch\<close> saves the process's registers and resumes the scheduler's; in the model it is the
  outcome \<open>Swtch\<close>, whose continuation stands for the saved registers. The scheduler resumes the
  continuation of the process it picks (\<open>scheduler_slot\<close>). Following a null \<open>struct proc *\<close> is a
  page fault in the kernel, on which \<open>kerneltrap\<close> panics.
\<close>

definition null_deref :: "'a kres" where
  "null_deref = Panic ''kerneltrap''"

definition upd_proc :: "nat \<Rightarrow> (proc \<Rightarrow> proc) \<Rightarrow> kstate \<Rightarrow> kstate" where
  "upd_proc p f s = s\<lparr>procs := (procs s)(p := f (procs s p))\<rparr>"

definition myproc :: "kstate \<Rightarrow> nat option kres" where
  "myproc s =
     (let s = push_off s;
          p = c_proc (cpu s)
      in andthen (pop_off s) (\<lambda>_ s. Ok p s))"

text \<open>\<open>with_proc f\<close>: \<open>struct proc *p = myproc(); \<dots> p-> \<dots>\<close>\<close>

definition with_proc :: "(nat \<Rightarrow> kstate \<Rightarrow> 'a kres) \<Rightarrow> kstate \<Rightarrow> 'a kres" where
  "with_proc f s =
     andthen (myproc s) (\<lambda>p s. case p of None \<Rightarrow> null_deref | Some p \<Rightarrow> f p s)"

definition sched :: "kstate \<Rightarrow> unit kres" where
  "sched = with_proc (\<lambda>p s.
     if \<not> holding (LkProc p) s then Panic ''sched p->lock''
     else if c_noff (cpu s) \<noteq> 1 then Panic ''sched locks''
     else if p_state (procs s p) = RUNNING then Panic ''sched running''
     else if intr_get s then Panic ''sched interruptible''
     else let intena = c_intena (cpu s)
          in Swtch s (\<lambda>s. Ok () (s\<lparr>cpu := (cpu s)\<lparr>c_intena := intena\<rparr>\<rparr>)))"

definition yield :: "kstate \<Rightarrow> unit kres" where
  "yield = with_proc (\<lambda>p s.
     andthen (acquire (LkProc p) s) (\<lambda>_ s.
     andthen (sched (upd_proc p (\<lambda>q. q\<lparr>p_state := RUNNABLE\<rparr>) s)) (\<lambda>_ s.
     release (LkProc p) s)))"

text \<open>\<open>sleep\<close> is the sequence of its statements. The two stores that put the process to sleep and the
  lock operations around them are kept apart, so that what an interrupt can see between any two of
  them can be stated.\<close>

primrec run_stmts :: "(kstate \<Rightarrow> unit kres) list \<Rightarrow> kstate \<Rightarrow> unit kres" where
  "run_stmts [] s = Ok () s"
| "run_stmts (f # fs) s = andthen (f s) (\<lambda>_ s. run_stmts fs s)"

definition sleep_stmts :: "chan \<Rightarrow> lockid \<Rightarrow> nat \<Rightarrow> (kstate \<Rightarrow> unit kres) list" where
  "sleep_stmts ch lk p =
     [acquire (LkProc p),
      release lk,
      \<lambda>s. Ok () (upd_proc p (\<lambda>q. q\<lparr>p_chan := Some ch\<rparr>) s),
      \<lambda>s. Ok () (upd_proc p (\<lambda>q. q\<lparr>p_state := SLEEPING\<rparr>) s),
      sched,
      \<lambda>s. Ok () (upd_proc p (\<lambda>q. q\<lparr>p_chan := None\<rparr>) s),
      release (LkProc p),
      acquire lk]"

definition sleep :: "chan \<Rightarrow> lockid \<Rightarrow> kstate \<Rightarrow> unit kres" where
  "sleep ch lk = with_proc (\<lambda>p. run_stmts (sleep_stmts ch lk p))"

definition wakeup_one :: "chan \<Rightarrow> nat \<Rightarrow> kstate \<Rightarrow> unit option kres" where
  "wakeup_one ch p s =
     andthen (myproc s) (\<lambda>me s.
     if Some p \<noteq> me then
       andthen (acquire (LkProc p) s) (\<lambda>_ s.
       let s = (if p_state (procs s p) = SLEEPING \<and> p_chan (procs s p) = Some ch
                then upd_proc p (\<lambda>q. q\<lparr>p_state := RUNNABLE\<rparr>) s else s)
       in andthen (release (LkProc p) s) (\<lambda>_ s. Ok None s))
     else Ok None s)"

definition wakeup :: "chan \<Rightarrow> kstate \<Rightarrow> unit kres" where
  "wakeup ch s = andthen (for_each [0..<NPROC] (wakeup_one ch) s) (\<lambda>_ s. Ok () s)"

definition kill_one :: "int \<Rightarrow> nat \<Rightarrow> kstate \<Rightarrow> int option kres" where
  "kill_one pid p s =
     andthen (acquire (LkProc p) s) (\<lambda>_ s.
     if p_pid (procs s p) = pid then
       (let s = upd_proc p (\<lambda>q. q\<lparr>p_killed := True\<rparr>) s;
            s = (if p_state (procs s p) = SLEEPING
                 then upd_proc p (\<lambda>q. q\<lparr>p_state := RUNNABLE\<rparr>) s else s)
        in andthen (release (LkProc p) s) (\<lambda>_ s. Ok (Some 0) s))
     else andthen (release (LkProc p) s) (\<lambda>_ s. Ok None s))"

definition kill :: "int \<Rightarrow> kstate \<Rightarrow> int kres" where
  "kill pid s =
     andthen (for_each [0..<NPROC] (kill_one pid) s) (\<lambda>r s.
     case r of Some v \<Rightarrow> Ok v s | None \<Rightarrow> Ok (-1) s)"

definition setkilled :: "nat \<Rightarrow> kstate \<Rightarrow> unit kres" where
  "setkilled p s =
     andthen (acquire (LkProc p) s) (\<lambda>_ s.
     release (LkProc p) (upd_proc p (\<lambda>q. q\<lparr>p_killed := True\<rparr>) s))"

definition killed :: "nat \<Rightarrow> kstate \<Rightarrow> bool kres" where
  "killed p s =
     andthen (acquire (LkProc p) s) (\<lambda>_ s.
     let k = p_killed (procs s p)
     in andthen (release (LkProc p) s) (\<lambda>_ s. Ok k s))"

text \<open>The scheduler: \<open>th p\<close> is the continuation saved by process \<open>p\<close>'s last \<open>swtch\<close>. One turn of
  the inner loop, one round over the table; the scheduler repeats rounds for ever. A kernel
  thread never returns from its outermost function, so \<open>Ok\<close> does not arise and stands for a
  process that never comes back.\<close>

type_synonym threads = "nat \<Rightarrow> kstate \<Rightarrow> unit kres"

definition scheduler_slot ::
  "nat \<Rightarrow> kstate \<times> threads \<Rightarrow> (kstate \<times> threads, unit option) res" where
  "scheduler_slot p sys =
     (let (s, th) = sys
      in case acquire (LkProc p) s of
           Ok _ s \<Rightarrow>
             (if p_state (procs s p) = RUNNABLE then
                (let s = upd_proc p (\<lambda>q. q\<lparr>p_state := RUNNING\<rparr>) s;
                     s = s\<lparr>cpu := (cpu s)\<lparr>c_proc := Some p\<rparr>\<rparr>
                 in case th p s of
                      Swtch s k \<Rightarrow>
                        (let s = s\<lparr>cpu := (cpu s)\<lparr>c_proc := None\<rparr>\<rparr>
                         in case release (LkProc p) s of
                              Ok _ s \<Rightarrow> Ok None (s, th(p := k))
                            | Panic m \<Rightarrow> Panic m | _ \<Rightarrow> Spin)
                    | Panic m \<Rightarrow> Panic m
                    | _ \<Rightarrow> Spin)
              else case release (LkProc p) s of
                     Ok _ s \<Rightarrow> Ok None (s, th)
                   | Panic m \<Rightarrow> Panic m | _ \<Rightarrow> Spin)
         | Panic m \<Rightarrow> Panic m
         | _ \<Rightarrow> Spin)"

definition scheduler_round :: "kstate \<times> threads \<Rightarrow> (kstate \<times> threads, unit option) res" where
  "scheduler_round sys = for_each [0..<NPROC] scheduler_slot (intr_on (fst sys), snd sys)"

section \<open>The current process\<close>

lemma pop_push_off:
  assumes "cpu_ok s"
  shows "pop_off (push_off s) = Ok () s"
proof (cases "c_noff (cpu s) = 0")
  case True
  then have i: "(cpu s)\<lparr>c_intena := csr_sie (csr s)\<rparr> = cpu s" "c_intena (cpu s) = csr_sie (csr s)"
    using assms by (simp_all add: cpu_ok_def intr_get_def)
  have "(cpu s)\<lparr>c_noff := 0\<rparr> = cpu s"
    using True by (intro cpu.equality) simp_all
  moreover have "(csr s)\<lparr>csr_sie := True\<rparr> = csr s" if "csr_sie (csr s)"
    using that by (intro csrs.equality) simp_all
  moreover have "(csr s)\<lparr>csr_sie := False\<rparr> = csr s" if "\<not> csr_sie (csr s)"
    using that by (intro csrs.equality) simp_all
  ultimately show ?thesis
    using True i
    by (auto simp: push_off_def pop_off_def Let_def intr_off_def intr_on_def intr_get_def)
next
  case False
  then have "\<not> csr_sie (csr s)" "0 < c_noff (cpu s)"
    using assms by (auto simp: cpu_ok_def intr_get_def)
  moreover from this have "(csr s)\<lparr>csr_sie := False\<rparr> = csr s"
    by (intro csrs.equality) simp_all
  ultimately show ?thesis
    by (simp add: push_off_def pop_off_def Let_def intr_off_def intr_get_def)
qed

lemma c_proc_push_off [simp]: "c_proc (cpu (push_off s)) = c_proc (cpu s)"
  by (simp add: push_off_def Let_def intr_off_def)

lemma myproc_eq: "cpu_ok s \<Longrightarrow> myproc s = Ok (c_proc (cpu s)) s"
  by (simp add: myproc_def Let_def pop_push_off)

lemma with_proc_eq: "cpu_ok s \<Longrightarrow> c_proc (cpu s) = Some p \<Longrightarrow> with_proc f s = f p s"
  by (simp add: with_proc_def myproc_eq)

lemma cpu_ok_upd_proc [simp]: "cpu_ok (upd_proc p f s) = cpu_ok s"
  by (simp add: cpu_ok_def upd_proc_def intr_get_def)

section \<open>Waking up\<close>

text \<open>What \<open>wakeup ch\<close> does to the process table.\<close>

definition woken :: "chan \<Rightarrow> nat option \<Rightarrow> nat set \<Rightarrow> (nat \<Rightarrow> proc) \<Rightarrow> nat \<Rightarrow> proc" where
  "woken ch me P ps = (\<lambda>p. if p \<in> P \<and> Some p \<noteq> me \<and> p_state (ps p) = SLEEPING \<and> p_chan (ps p) = Some ch
                     then (ps p)\<lparr>p_state := RUNNABLE\<rparr> else ps p)"

lemma wakeup_one_eq:
  assumes "cpu_ok s" and "free_lk (LkProc p) s"
  shows "wakeup_one ch p s = Ok None (s\<lparr>procs := woken ch (c_proc (cpu s)) {p} (procs s)\<rparr>)"
  using assms by (auto simp: wakeup_one_def myproc_eq acquire_acq upd_proc_def woken_def Let_def
      fun_eq_iff intro!: kstate.equality)

lemma for_each_wakeup:
  assumes "cpu_ok s" and "\<forall>p \<in> set ps. free_lk (LkProc p) s" and "distinct ps"
  shows "for_each ps (wakeup_one ch) s =
    Ok None (s\<lparr>procs := woken ch (c_proc (cpu s)) (set ps) (procs s)\<rparr>)"
  using assms
proof (induction ps arbitrary: s)
  case Nil
  then show ?case by (simp add: woken_def)
next
  case (Cons p ps)
  let ?s = "s\<lparr>procs := woken ch (c_proc (cpu s)) {p} (procs s)\<rparr>"
  have "cpu_ok ?s" "\<forall>q \<in> set ps. free_lk (LkProc q) ?s"
    using Cons.prems by (auto simp: cpu_ok_def intr_get_def free_lk_def)
  moreover have "woken ch me (set ps) (woken ch me {p} f) = woken ch me (set (p # ps)) f" for me f
    using Cons.prems(3) by (auto simp: woken_def fun_eq_iff)
  ultimately show ?case
    using Cons.prems wakeup_one_eq [of s p ch] Cons.IH [of ?s] by simp
qed

lemma wakeup_eq:
  assumes "cpu_ok s" and "\<forall>p < NPROC. free_lk (LkProc p) s"
  shows "wakeup ch s = Ok () (s\<lparr>procs := woken ch (c_proc (cpu s)) {..<NPROC} (procs s)\<rparr>)"
  using for_each_wakeup [of s "[0..<NPROC]" ch] assms
  by (simp add: wakeup_def atLeast0LessThan)

lemma woken_none:
  "(\<And>p. p \<in> P \<Longrightarrow> p_state (ps p) = SLEEPING \<Longrightarrow> p_chan (ps p) \<noteq> Some ch) \<Longrightarrow> woken ch me P ps = ps"
  by (auto simp: woken_def fun_eq_iff)

section \<open>Single-field accesses under a process lock\<close>

lemma killed_eq:
  assumes "cpu_ok s" and "free_lk (LkProc p) s"
  shows "killed p s = Ok (p_killed (procs s p)) s"
  using assms by (simp add: killed_def Let_def acquire_acq)

lemma setkilled_eq:
  assumes "cpu_ok s" and "free_lk (LkProc p) s"
  shows "setkilled p s = Ok () (upd_proc p (\<lambda>q. q\<lparr>p_killed := True\<rparr>) s)"
  using assms by (simp add: setkilled_def acquire_acq upd_proc_def)

section \<open>Sleeping\<close>

lemma release_nested:
  assumes "holding lk t" and "\<not> intr_get t" and "c_noff (cpu t) > 1"
  shows "release lk t = Ok () (t\<lparr>locks := (locks t)(lk := (locks t lk)\<lparr>lk_cpu := None, lk_locked := False\<rparr>),
                                cpu := (cpu t)\<lparr>c_noff := c_noff (cpu t) - 1\<rparr>\<rparr>)"
  using assms by (simp add: release_def pop_off_def Let_def intr_get_def)

lemma sched_never_Ok: "sched s \<noteq> Ok a t"
  by (cases "myproc s")
     (auto simp: sched_def with_proc_def Let_def null_deref_def split: option.splits)

lemma upd_proc_upd_proc: "upd_proc p f (upd_proc p g s) = upd_proc p (\<lambda>q. f (g q)) s"
  by (simp add: upd_proc_def)

lemma sleep_eq:
  "sleep ch lk = with_proc (\<lambda>p s.
     andthen (acquire (LkProc p) s) (\<lambda>_ s.
     andthen (release lk s) (\<lambda>_ s.
     andthen (sched (upd_proc p (\<lambda>q. q\<lparr>p_chan := Some ch, p_state := SLEEPING\<rparr>) s)) (\<lambda>_ s.
     andthen (release (LkProc p) (upd_proc p (\<lambda>q. q\<lparr>p_chan := None\<rparr>) s)) (\<lambda>_ s.
     acquire lk s)))))"
proof -
  have id: "(\<lambda>_ s. Ok () s) = (Ok :: unit \<Rightarrow> kstate \<Rightarrow> unit kres)" by (simp add: fun_eq_iff)
  show ?thesis
    unfolding sleep_def
    by (rule arg_cong [where f = with_proc]) (simp add: sleep_stmts_def upd_proc_upd_proc id fun_eq_iff)
qed

lemma sleep_never_Ok: "sleep ch lk s \<noteq> Ok a t"
  by (auto simp: sleep_eq with_proc_def null_deref_def andthen_eq_Ok_iff sched_never_Ok
      split: option.splits)

text \<open>The states a process gives up the CPU in, and is resumed in, by the scheduler.\<close>

definition resumed :: "nat \<Rightarrow> kstate \<Rightarrow> bool" where
  "resumed p s \<longleftrightarrow> holding (LkProc p) s \<and> c_noff (cpu s) = 1 \<and> \<not> intr_get s \<and> c_proc (cpu s) = Some p"

lemma sched_Swtch:
  assumes "resumed p s" and "p_state (procs s p) \<noteq> RUNNING"
  shows "sched s = Swtch s (\<lambda>t. Ok () (t\<lparr>cpu := (cpu t)\<lparr>c_intena := c_intena (cpu s)\<rparr>\<rparr>))"
proof -
  have "cpu_ok s" "c_proc (cpu s) = Some p"
    using assms(1) by (auto simp: resumed_def cpu_ok_def)
  then show ?thesis
    using assms by (simp add: sched_def with_proc_eq resumed_def Let_def)
qed

lemma sleep_to_swtch:
  fixes ch :: chan
  assumes held: "holding lk s" "c_noff (cpu s) = 1" "\<not> intr_get s"
    and p: "c_proc (cpu s) = Some p" "free_lk (LkProc p) s" "lk \<noteq> LkProc p"
  defines "s1 \<equiv> upd_proc p (\<lambda>q. q\<lparr>p_chan := Some ch, p_state := SLEEPING\<rparr>)
     ((acq (LkProc p) s)\<lparr>locks := (locks (acq (LkProc p) s))(lk := (locks s lk)\<lparr>lk_cpu := None, lk_locked := False\<rparr>),
                         cpu := cpu s\<rparr>)"
  shows "sleep ch lk s = Swtch s1 (\<lambda>t.
     andthen (release (LkProc p) (upd_proc p (\<lambda>q. q\<lparr>p_chan := None\<rparr>)
        (t\<lparr>cpu := (cpu t)\<lparr>c_intena := c_intena (cpu s)\<rparr>\<rparr>))) (\<lambda>_ u. acquire lk u))"
    and "resumed p s1"
proof -
  have ok: "cpu_ok s" using held by (simp add: cpu_ok_def)
  have rel: "release lk (acq (LkProc p) s) =
      Ok () ((acq (LkProc p) s)\<lparr>locks := (locks (acq (LkProc p) s))(lk := (locks s lk)\<lparr>lk_cpu := None, lk_locked := False\<rparr>),
                         cpu := cpu s\<rparr>)"
    using held p(3)
    by (subst release_nested) (auto simp: acq_def holding_def cpuid_def intr_get_def)
  show res: "resumed p s1"
    using held p by (simp add: resumed_def s1_def upd_proc_def acq_def holding_def cpuid_def intr_get_def)
  have "p_state (procs s1 p) \<noteq> RUNNING" by (simp add: s1_def upd_proc_def)
  with res have sw: "sched s1 = Swtch s1 (\<lambda>t. Ok () (t\<lparr>cpu := (cpu t)\<lparr>c_intena := c_intena (cpu s1)\<rparr>\<rparr>))"
    by (rule sched_Swtch)
  have "c_intena (cpu s1) = c_intena (cpu s)" by (simp add: s1_def upd_proc_def acq_def)
  with sw show "sleep ch lk s = Swtch s1 (\<lambda>t.
     andthen (release (LkProc p) (upd_proc p (\<lambda>q. q\<lparr>p_chan := None\<rparr>)
        (t\<lparr>cpu := (cpu t)\<lparr>c_intena := c_intena (cpu s)\<rparr>\<rparr>))) (\<lambda>_ u. acquire lk u))"
    by (simp add: sleep_eq with_proc_eq [OF ok p(1)] acquire_acq [OF ok p(2)] rel s1_def)
qed

text \<open>Resuming a sleeper: it drops its own lock and takes the condition lock back.\<close>

lemma sleep_resume:
  assumes t: "resumed p t" and lk: "free_lk lk t" "lk \<noteq> LkProc p"
  shows "\<exists>u. andthen (release (LkProc p) (upd_proc p (\<lambda>q. q\<lparr>p_chan := None\<rparr>)
        (t\<lparr>cpu := (cpu t)\<lparr>c_intena := i\<rparr>\<rparr>))) (\<lambda>_ u. acquire lk u) = Ok () u
     \<and> holding lk u \<and> \<not> lk_locked (locks u (LkProc p)) \<and> c_noff (cpu u) = 1
     \<and> \<not> intr_get u \<and> c_intena (cpu u) = i
     \<and> procs u = (procs t)(p := (procs t p)\<lparr>p_chan := None\<rparr>)"
proof -
  let ?t = "upd_proc p (\<lambda>q. q\<lparr>p_chan := None\<rparr>) (t\<lparr>cpu := (cpu t)\<lparr>c_intena := i\<rparr>\<rparr>)"
  let ?L = "(locks t)(LkProc p := (locks t (LkProc p))\<lparr>lk_cpu := None, lk_locked := False\<rparr>)"
  have h: "holding (LkProc p) t" "c_noff (cpu t) = 1" "\<not> csr_sie (csr t)"
    using t by (auto simp: resumed_def intr_get_def)
  have rel: "release (LkProc p) ?t = Ok () (?t\<lparr>locks := ?L,
      cpu := (cpu ?t)\<lparr>c_noff := 0\<rparr>, csr := (csr t)\<lparr>csr_sie := i\<rparr>\<rparr>)"
  proof (cases i)
    case True
    with h show ?thesis
      by (simp add: release_def pop_off_def Let_def holding_def cpuid_def upd_proc_def intr_get_def intr_on_def)
  next
    case False
    have "(csr t)\<lparr>csr_sie := False\<rparr> = csr t"
      using h(3) by (intro csrs.equality) simp_all
    with h False show ?thesis
      by (simp add: release_def pop_off_def Let_def holding_def cpuid_def upd_proc_def intr_get_def)
  qed
  let ?v = "?t\<lparr>locks := ?L, cpu := (cpu ?t)\<lparr>c_noff := 0\<rparr>, csr := (csr t)\<lparr>csr_sie := i\<rparr>\<rparr>"
  have "cpu_ok ?v" by (simp add: cpu_ok_def intr_get_def upd_proc_def)
  moreover have "free_lk lk ?v" using lk by (simp add: free_lk_def upd_proc_def)
  ultimately have "acquire lk ?v = Ok () (acq lk ?v)" by (rule acquire_acq)
  with rel lk(2) show ?thesis
    by (auto simp: acq_def holding_def cpuid_def upd_proc_def intr_get_def)
qed

section \<open>Killing\<close>

lemma kill_one_eq:
  assumes "cpu_ok s" and "free_lk (LkProc p) s"
  shows "kill_one pid p s =
    (if p_pid (procs s p) = pid
     then Ok (Some 0) (upd_proc p (\<lambda>q. q\<lparr>p_killed := True,
        p_state := (if p_state q = SLEEPING then RUNNABLE else p_state q)\<rparr>) s)
     else Ok None s)"
  using assms by (auto simp: kill_one_def acquire_acq upd_proc_def Let_def)

end
