(* ===== verification/Sleeplock.thy ===== *)
theory Sleeplock
  imports Sched
begin

text \<open>
  \<open>kernel/sleeplock.c\<close>: locks held across blocking operations. \<open>acquiresleep\<close> sleeps while the
  lock is taken; the loop is \<open>wloop\<close>, each round of which ends in \<open>swtch\<close>.
\<close>

definition initsleeplock :: "slid \<Rightarrow> string \<Rightarrow> kstate \<Rightarrow> kstate" where
  "initsleeplock l name s =
     (let s = initlock (LkSleep l) ''sleep lock'' s
      in s\<lparr>slocks := (slocks s)(l := \<lparr>sl_locked = False, sl_name = name, sl_pid = 0\<rparr>)\<rparr>)"

definition acquiresleep_wait :: "slid \<Rightarrow> unit \<Rightarrow> kstate \<Rightarrow> (unit + unit) kres" where
  "acquiresleep_wait l u s =
     (if sl_locked (slocks s l)
      then andthen (sleep (ChSleep l) (LkSleep l) s) (\<lambda>_ s. Ok (Inl ()) s)
      else Ok (Inr ()) s)"

definition acquiresleep :: "slid \<Rightarrow> kstate \<Rightarrow> unit kres" where
  "acquiresleep l s =
     andthen (acquire (LkSleep l) s) (\<lambda>_ s.
     andthen (wloop (\<lambda>_. 0) (acquiresleep_wait l) (Ok (Inl ()) s)) (\<lambda>_ s.
     with_proc (\<lambda>p s.
       release (LkSleep l)
         (s\<lparr>slocks := (slocks s)(l := (slocks s l)\<lparr>sl_locked := True, sl_pid := p_pid (procs s p)\<rparr>)\<rparr>)) s))"

definition releasesleep :: "slid \<Rightarrow> kstate \<Rightarrow> unit kres" where
  "releasesleep l s =
     andthen (acquire (LkSleep l) s) (\<lambda>_ s.
     andthen (wakeup (ChSleep l)
       (s\<lparr>slocks := (slocks s)(l := (slocks s l)\<lparr>sl_locked := False, sl_pid := 0\<rparr>)\<rparr>)) (\<lambda>_ s.
     release (LkSleep l) s))"

definition holdingsleep :: "slid \<Rightarrow> kstate \<Rightarrow> bool kres" where
  "holdingsleep l s =
     andthen (acquire (LkSleep l) s) (\<lambda>_ s.
     with_proc (\<lambda>p s.
       let r = (sl_locked (slocks s l) \<and> sl_pid (slocks s l) = p_pid (procs s p))
       in andthen (release (LkSleep l) s) (\<lambda>_ s. Ok r s)) s)"

lemma acquiresleep_wait_dec: "acquiresleep_wait l u s = Ok (Inl u') s' \<Longrightarrow> (0::nat) < 0"
  by (auto simp: acquiresleep_wait_def andthen_eq_Ok_iff sleep_never_Ok split: if_splits)

lemma acquiresleep_loop:
  "wloop (\<lambda>_. 0) (acquiresleep_wait l) (Ok (Inl ()) s) =
   wloop (\<lambda>_. 0) (acquiresleep_wait l) (acquiresleep_wait l () s)"
  by (rule wloop_unroll) (rule acquiresleep_wait_dec)

section \<open>A process running undisturbed\<close>

text \<open>\<open>running p s\<close>: process \<open>p\<close> runs in the kernel, holding no spin lock, and no process sleeps
  on a sleep lock or on the log. It is the precondition of the sequential lemmas of the storage
  stack: in such a state no operation on a free lock blocks.\<close>

definition running :: "nat \<Rightarrow> kstate \<Rightarrow> bool" where
  "running p s \<longleftrightarrow> cpu_ok s \<and> c_proc (cpu s) = Some p \<and> (\<forall>lk. free_lk lk s)
     \<and> (\<forall>q < NPROC. p_state (procs s q) = SLEEPING \<longrightarrow>
          (\<forall>l. p_chan (procs s q) \<noteq> Some (ChSleep l)) \<and> p_chan (procs s q) \<noteq> Some ChLog)"

lemma runningD:
  assumes "running p s"
  shows "cpu_ok s" and "c_proc (cpu s) = Some p" and "free_lk lk s"
    and "woken (ChSleep l) me {..<NPROC} (procs s) = procs s"
    and "woken ChLog me {..<NPROC} (procs s) = procs s"
  using assms by (auto simp: running_def intro!: woken_none)

lemma running_cong:
  "csr t = csr s \<Longrightarrow> cpu t = cpu s \<Longrightarrow> locks t = locks s \<Longrightarrow> procs t = procs s \<Longrightarrow> running p t = running p s"
  by (simp add: running_def cpu_ok_def free_lk_def intr_get_def)

lemma running_upd [simp]:
  "running p (s\<lparr>slocks := a\<rparr>) = running p s" "running p (s\<lparr>bufs := b\<rparr>) = running p s"
  "running p (s\<lparr>klog := c\<rparr>) = running p s" "running p (s\<lparr>disk := d\<rparr>) = running p s"
  "running p (s\<lparr>dwrites := e\<rparr>) = running p s" "running p (s\<lparr>itable := f\<rparr>) = running p s"
  "running p (s\<lparr>mem := g\<rparr>) = running p s" "running p (s\<lparr>ftable := h\<rparr>) = running p s"
  "running p (s\<lparr>sb := i\<rparr>) = running p s" "running p (s\<lparr>freelist := j\<rparr>) = running p s"
  "running p (s\<lparr>pipes := k\<rparr>) = running p s"
  by (rule running_cong; simp)+

section \<open>Uncontended use\<close>

lemma acquiresleep_free:
  assumes "cpu_ok s" and "free_lk (LkSleep l) s" and "c_proc (cpu s) = Some p"
    and "\<not> sl_locked (slocks s l)"
  shows "acquiresleep l s =
    Ok () (s\<lparr>slocks := (slocks s)(l := (slocks s l)\<lparr>sl_locked := True, sl_pid := p_pid (procs s p)\<rparr>)\<rparr>)"
  using assms
  by (simp add: acquiresleep_def acquire_acq acquiresleep_loop acquiresleep_wait_def with_proc_eq)

lemma holdingsleep_eq:
  assumes "cpu_ok s" and "free_lk (LkSleep l) s" and "c_proc (cpu s) = Some p"
  shows "holdingsleep l s = Ok (sl_locked (slocks s l) \<and> sl_pid (slocks s l) = p_pid (procs s p)) s"
  using assms by (simp add: holdingsleep_def acquire_acq with_proc_eq Let_def)

lemma releasesleep_eq:
  assumes "cpu_ok s" and "free_lk (LkSleep l) s" and "\<forall>p < NPROC. free_lk (LkProc p) s"
  shows "releasesleep l s =
    Ok () (s\<lparr>slocks := (slocks s)(l := (slocks s l)\<lparr>sl_locked := False, sl_pid := 0\<rparr>),
             procs := woken (ChSleep l) (c_proc (cpu s)) {..<NPROC} (procs s)\<rparr>)"
proof -
  let ?t = "(acq (LkSleep l) s)\<lparr>slocks := (slocks s)(l := (slocks s l)\<lparr>sl_locked := False, sl_pid := 0\<rparr>)\<rparr>"
  let ?u = "?t\<lparr>procs := woken (ChSleep l) (c_proc (cpu s)) {..<NPROC} (procs s)\<rparr>"
  have "cpu_ok ?t"
    using assms(1) by simp
  moreover have "\<forall>p < NPROC. free_lk (LkProc p) ?t"
    using assms(3) by (simp add: free_lk_acq)
  ultimately have w: "wakeup (ChSleep l) ?t = Ok () ?u"
    by (simp add: wakeup_eq)
  have r: "release (LkSleep l) ?u = Ok () (?u\<lparr>csr := csr s, cpu := cpu s, locks := locks s\<rparr>)"
    using assms by (intro release_acq) simp_all
  show ?thesis
    using w r by (simp add: releasesleep_def acquire_acq [OF assms(1,2)]) (simp add: acq_def)
qed

lemma releasesleep_running:
  assumes "running p s"
  shows "releasesleep l s =
    Ok () (s\<lparr>slocks := (slocks s)(l := (slocks s l)\<lparr>sl_locked := False, sl_pid := 0\<rparr>)\<rparr>)"
  using assms runningD [OF assms] by (simp add: releasesleep_eq)

lemmas acquiresleep_running = acquiresleep_free [OF runningD(1) runningD(3) runningD(2)]
lemmas holdingsleep_running = holdingsleep_eq [OF runningD(1) runningD(3) runningD(2)]

text \<open>A process that holds a lock's sleep lock, in the sense of \<open>holdingsleep\<close>.\<close>

definition owns :: "nat \<Rightarrow> slid \<Rightarrow> kstate \<Rightarrow> bool" where
  "owns p l s \<longleftrightarrow> sl_locked (slocks s l) \<and> sl_pid (slocks s l) = p_pid (procs s p)"

section \<open>Contended use\<close>

text \<open>A taken lock makes the caller sleep on it; while it is taken each resumption goes back to
  sleep.\<close>

lemma acquiresleep_taken:
  assumes "cpu_ok s" "c_noff (cpu s) = 0" "c_proc (cpu s) = Some p"
    and "free_lk (LkSleep l) s" "free_lk (LkProc p) s" "sl_locked (slocks s l)"
  shows "\<exists>s1 k. acquiresleep l s = Swtch s1 k \<and> p_state (procs s1 p) = SLEEPING
     \<and> p_chan (procs s1 p) = Some (ChSleep l) \<and> slocks s1 = slocks s
     \<and> \<not> lk_locked (locks s1 (LkSleep l)) \<and> resumed p s1"
proof -
  let ?t = "acq (LkSleep l) s"
  have t: "holding (LkSleep l) ?t" "c_noff (cpu ?t) = 1" "\<not> intr_get ?t" "c_proc (cpu ?t) = Some p"
      "free_lk (LkProc p) ?t"
    using assms by (auto simp: acq_def holding_def cpuid_def intr_get_def free_lk_def)
  note sw = sleep_to_swtch [OF t, where ch = "ChSleep l"]
  then show ?thesis
    using assms
    by (simp add: acquiresleep_def acquire_acq acquiresleep_loop acquiresleep_wait_def)
       (simp add: upd_proc_def acq_def resumed_def)
qed

end
