(* ===== verification/Bio.thy ===== *)
theory Bio
  imports Sleeplock
begin

text \<open>
  \<open>kernel/bio.c\<close>: the buffer cache. Buffers \<open>0\<close> to \<open>NBUF - 1\<close> are \<open>bcache.buf\<close>, index \<open>NBUF\<close> is
  the list head \<open>bcache.head\<close>; \<open>b_prev\<close> and \<open>b_next\<close> are the pointers of the doubly-linked LRU
  list.

  The lemmas show that the pointer manipulations implement a list ordered by use (\<open>dll\<close>), that a
  block is cached at most once, that reference counts are exactly lock holders plus pins, that
  unreferenced buffers agree with the disk, and that the block contents a reader sees
  (\<open>content\<close>) are not changed by caching and eviction.
\<close>

definition HEAD :: nat where
  "HEAD = NBUF"

definition upd_buf :: "nat \<Rightarrow> (buf \<Rightarrow> buf) \<Rightarrow> kstate \<Rightarrow> kstate" where
  "upd_buf i f s = s\<lparr>bufs := (bufs s)(i := f (bufs s i))\<rparr>"

definition binit_one :: "nat \<Rightarrow> kstate \<Rightarrow> kstate" where
  "binit_one b s =
     (let s = upd_buf b (\<lambda>x. x\<lparr>b_next := b_next (bufs s HEAD)\<rparr>) s;
          s = upd_buf b (\<lambda>x. x\<lparr>b_prev := HEAD\<rparr>) s;
          s = initsleeplock (SlBuf b) ''buffer'' s;
          s = upd_buf (b_next (bufs s HEAD)) (\<lambda>x. x\<lparr>b_prev := b\<rparr>) s
      in upd_buf HEAD (\<lambda>x. x\<lparr>b_next := b\<rparr>) s)"

definition binit :: "kstate \<Rightarrow> kstate" where
  "binit s =
     (let s = initlock LkBcache ''bcache'' s;
          s = upd_buf HEAD (\<lambda>x. x\<lparr>b_prev := HEAD\<rparr>) s;
          s = upd_buf HEAD (\<lambda>x. x\<lparr>b_next := HEAD\<rparr>) s
      in fold binit_one [0..<NBUF] s)"

text \<open>The loops of \<open>bget\<close> over the list, in the direction \<open>dir\<close>; a list that does not lead back to
  the head would be walked for ever.\<close>

primrec bscan :: "nat \<Rightarrow> (buf \<Rightarrow> nat) \<Rightarrow> (buf \<Rightarrow> bool) \<Rightarrow> nat \<Rightarrow> kstate \<Rightarrow> nat option kres" where
  "bscan 0 dir P b s = Spin"
| "bscan (Suc n) dir P b s =
     (if b = HEAD then Ok None s
      else if P (bufs s b) then Ok (Some b) s
      else bscan n dir P (dir (bufs s b)) s)"

definition bget :: "uint32 \<Rightarrow> uint32 \<Rightarrow> kstate \<Rightarrow> nat kres" where
  "bget dev blockno s =
     andthen (acquire LkBcache s) (\<lambda>_ s.
     andthen (bscan (Suc NBUF) b_next (\<lambda>b. b_dev b = dev \<and> b_blockno b = blockno)
                (b_next (bufs s HEAD)) s) (\<lambda>r s.
     case r of
       Some b \<Rightarrow>
         andthen (release LkBcache (upd_buf b (\<lambda>x. x\<lparr>b_refcnt := b_refcnt x + 1\<rparr>) s)) (\<lambda>_ s.
         andthen (acquiresleep (SlBuf b) s) (\<lambda>_ s.
         Ok b s))
     | None \<Rightarrow>
         andthen (bscan (Suc NBUF) b_prev (\<lambda>b. b_refcnt b = 0) (b_prev (bufs s HEAD)) s) (\<lambda>r s.
         case r of
           Some b \<Rightarrow>
             andthen (release LkBcache (upd_buf b (\<lambda>x. x\<lparr>b_dev := dev, b_blockno := blockno,
                 b_valid := False, b_refcnt := 1\<rparr>) s)) (\<lambda>_ s.
             andthen (acquiresleep (SlBuf b) s) (\<lambda>_ s.
             Ok b s))
         | None \<Rightarrow> Panic ''bget: no buffers'')))"

text \<open>The platform's block transfers: one \<open>BSIZE\<close> block between the disk and a buffer's data.\<close>

definition platform_disk_read :: "uint32 \<Rightarrow> nat \<Rightarrow> kstate \<Rightarrow> unit kres" where
  "platform_disk_read blockno b s = Ok () (upd_buf b (\<lambda>x. x\<lparr>b_data := disk s blockno\<rparr>) s)"

definition platform_disk_write :: "uint32 \<Rightarrow> nat \<Rightarrow> kstate \<Rightarrow> unit kres" where
  "platform_disk_write blockno b s =
     Ok () (s\<lparr>disk := (disk s)(blockno := b_data (bufs s b)),
              dwrites := (blockno, b_data (bufs s b)) # dwrites s\<rparr>)"

definition bread :: "uint32 \<Rightarrow> uint32 \<Rightarrow> kstate \<Rightarrow> nat kres" where
  "bread dev blockno s =
     andthen (bget dev blockno s) (\<lambda>b s.
     if \<not> b_valid (bufs s b) then
       andthen (platform_disk_read (b_blockno (bufs s b)) b s) (\<lambda>_ s.
       Ok b (upd_buf b (\<lambda>x. x\<lparr>b_valid := True\<rparr>) s))
     else Ok b s)"

definition bwrite :: "nat \<Rightarrow> kstate \<Rightarrow> unit kres" where
  "bwrite b s =
     andthen (holdingsleep (SlBuf b) s) (\<lambda>h s.
     if \<not> h then Panic ''bwrite''
     else platform_disk_write (b_blockno (bufs s b)) b s)"

definition brelse_move :: "nat \<Rightarrow> kstate \<Rightarrow> kstate" where
  "brelse_move b s =
     (let s = upd_buf (b_next (bufs s b)) (\<lambda>x. x\<lparr>b_prev := b_prev (bufs s b)\<rparr>) s;
          s = upd_buf (b_prev (bufs s b)) (\<lambda>x. x\<lparr>b_next := b_next (bufs s b)\<rparr>) s;
          s = upd_buf b (\<lambda>x. x\<lparr>b_next := b_next (bufs s HEAD)\<rparr>) s;
          s = upd_buf b (\<lambda>x. x\<lparr>b_prev := HEAD\<rparr>) s;
          s = upd_buf (b_next (bufs s HEAD)) (\<lambda>x. x\<lparr>b_prev := b\<rparr>) s
      in upd_buf HEAD (\<lambda>x. x\<lparr>b_next := b\<rparr>) s)"

definition brelse :: "nat \<Rightarrow> kstate \<Rightarrow> unit kres" where
  "brelse b s =
     andthen (holdingsleep (SlBuf b) s) (\<lambda>h s.
     if \<not> h then Panic ''brelse''
     else
       andthen (releasesleep (SlBuf b) s) (\<lambda>_ s.
       andthen (acquire LkBcache s) (\<lambda>_ s.
       let s = upd_buf b (\<lambda>x. x\<lparr>b_refcnt := b_refcnt x - 1\<rparr>) s;
           s = (if b_refcnt (bufs s b) = 0 then brelse_move b s else s)
       in release LkBcache s)))"

definition bpin :: "nat \<Rightarrow> kstate \<Rightarrow> unit kres" where
  "bpin b s =
     andthen (acquire LkBcache s) (\<lambda>_ s.
     release LkBcache (upd_buf b (\<lambda>x. x\<lparr>b_refcnt := b_refcnt x + 1\<rparr>) s))"

definition bunpin :: "nat \<Rightarrow> kstate \<Rightarrow> unit kres" where
  "bunpin b s =
     andthen (acquire LkBcache s) (\<lambda>_ s.
     release LkBcache (upd_buf b (\<lambda>x. x\<lparr>b_refcnt := b_refcnt x - 1\<rparr>) s))"

section \<open>The linked list\<close>

text \<open>\<open>chain n a xs z\<close>: following \<open>n\<close> from \<open>a\<close> visits \<open>xs\<close> and then \<open>z\<close>.\<close>

primrec chain :: "(nat \<Rightarrow> nat) \<Rightarrow> nat \<Rightarrow> nat list \<Rightarrow> nat \<Rightarrow> bool" where
  "chain n a [] z \<longleftrightarrow> n a = z"
| "chain n a (x # xs) z \<longleftrightarrow> n a = x \<and> chain n x xs z"

lemma chain_append: "chain n a (us @ v # vs) z \<longleftrightarrow> chain n a us v \<and> chain n v vs z"
  by (induction us arbitrary: a) auto

lemma chain_first: "chain n a xs z \<Longrightarrow> n a = hd (xs @ [z])"
  by (cases xs) auto

lemma chain_upd [simp]: "x \<notin> set (a # xs) \<Longrightarrow> chain (n(x := y)) a xs z = chain n a xs z"
  by (induction xs arbitrary: a) auto

lemma chain_redirect:
  "chain n a xs b \<Longrightarrow> distinct (a # xs) \<Longrightarrow> chain (n(last (a # xs) := z)) a xs z"
proof (induction xs arbitrary: a)
  case (Cons x xs)
  then have "last (x # xs) \<noteq> a"
    by (metis distinct.simps(2) last_in_set list.distinct(1))
  with Cons show ?case by simp
qed simp

lemma chain_from: "chain n a xs z \<Longrightarrow> m b = n a \<Longrightarrow> (\<And>x. x \<in> set xs \<Longrightarrow> m x = n x) \<Longrightarrow> chain m b xs z"
  by (induction xs arbitrary: a b) auto

text \<open>Removing \<open>b\<close> from between its neighbours, in either direction.\<close>

lemma chain_unlink:
  assumes "chain n h (us @ b # vs) h" and "distinct (h # us @ b # vs)"
  shows "chain (n(last (h # us) := n b)) h (us @ vs) h"
proof -
  from assms(1) have u: "chain n h us b" and v: "chain n b vs h"
    by (auto simp: chain_append)
  have u': "chain (n(last (h # us) := n b)) h us (n b)"
    using u assms(2) by (intro chain_redirect) auto
  show ?thesis
  proof (cases vs)
    case Nil
    with u' v show ?thesis by simp
  next
    case (Cons w ws)
    have "last (h # us) \<in> set (h # us)" by (rule last_in_set) simp
    with assms(2) Cons have "last (h # us) \<notin> set (w # ws)" by auto
    with v Cons u' show ?thesis by (simp add: chain_append)
  qed
qed

lemma chain_link_front:
  assumes "chain n h xs h" and "b \<notin> set xs" and "h \<notin> set xs" and "b \<noteq> h"
  shows "chain (n(b := n h, h := b)) h (b # xs) h"
  using assms by (auto intro!: chain_from [OF assms(1)])

lemma chain_link_back:
  assumes "chain n h (rev xs) h" and "b \<notin> set xs" and "distinct (h # xs)" and "b \<noteq> h"
  shows "chain (n(b := h, hd (xs @ [h]) := b)) h (rev xs @ [b]) h"
proof -
  have l: "last (h # rev xs) = hd (xs @ [h])"
    by (cases xs) auto
  have ne: "hd (xs @ [h]) \<noteq> b"
    using assms(2,4) by (cases xs) auto
  have "chain (n(last (h # rev xs) := b)) h (rev xs) b"
    using assms by (intro chain_redirect) auto
  then have "chain ((n(hd (xs @ [h]) := b))(b := h)) h (rev xs) b"
    using assms l by simp
  then show ?thesis
    using ne by (simp add: chain_append fun_upd_twist)
qed

definition dll :: "(nat \<Rightarrow> buf) \<Rightarrow> nat list \<Rightarrow> bool" where
  "dll B xs \<longleftrightarrow> chain (\<lambda>i. b_next (B i)) HEAD xs HEAD \<and> chain (\<lambda>i. b_prev (B i)) HEAD (rev xs) HEAD
     \<and> distinct (HEAD # xs)"

lemma dll_cong:
  "(\<And>i. b_next (B' i) = b_next (B i) \<and> b_prev (B' i) = b_prev (B i)) \<Longrightarrow> dll B' xs = dll B xs"
  by (simp add: dll_def)

lemma bscan_chain:
  assumes "chain (\<lambda>i. dir (bufs s i)) a xs HEAD" and "HEAD \<notin> set xs" and "length xs < n"
  shows "bscan n dir P (dir (bufs s a)) s = Ok (find (\<lambda>i. P (bufs s i)) xs) s"
  using assms
proof (induction xs arbitrary: a n)
  case Nil
  then obtain k where "n = Suc k" by (cases n) auto
  with Nil show ?case by simp
next
  case (Cons x xs)
  then obtain k where "n = Suc k" by (cases n) auto
  with Cons show ?case by auto
qed

declare bscan.simps [simp del]

abbreviation nexts :: "kstate \<Rightarrow> nat \<Rightarrow> nat" where
  "nexts s \<equiv> (\<lambda>i. b_next (bufs s i))"

abbreviation prevs :: "kstate \<Rightarrow> nat \<Rightarrow> nat" where
  "prevs s \<equiv> (\<lambda>i. b_prev (bufs s i))"

lemma links_upd:
  "b_next (bufs (upd_buf k (\<lambda>x. x\<lparr>b_next := v\<rparr>) s) i) = (if i = k then v else b_next (bufs s i))"
  "b_next (bufs (upd_buf k (\<lambda>x. x\<lparr>b_prev := v\<rparr>) s) i) = b_next (bufs s i)"
  "b_prev (bufs (upd_buf k (\<lambda>x. x\<lparr>b_prev := v\<rparr>) s) i) = (if i = k then v else b_prev (bufs s i))"
  "b_prev (bufs (upd_buf k (\<lambda>x. x\<lparr>b_next := v\<rparr>) s) i) = b_prev (bufs s i)"
  by (auto simp: upd_buf_def)

lemma brelse_move_links:
  assumes "nexts s b \<noteq> b" and "prevs s b \<noteq> b" and "b \<noteq> HEAD"
  defines "n \<equiv> (nexts s)(prevs s b := nexts s b)" and "p \<equiv> (prevs s)(nexts s b := prevs s b)"
  shows "nexts (brelse_move b s) = n(b := n HEAD, HEAD := b)"
    and "prevs (brelse_move b s) = p(b := HEAD, n HEAD := b)"
  using assms(1-3) unfolding n_def p_def fun_eq_iff
  by (simp_all add: brelse_move_def Let_def links_upd)

text \<open>\<open>brelse_move\<close> takes \<open>b\<close> out of the list and puts it first.\<close>

lemma brelse_move_dll:
  assumes "dll (bufs s) (us @ b # vs)"
  shows "dll (bufs (brelse_move b s)) (b # us @ vs)"
proof -
  from assms have cn: "chain (nexts s) HEAD (us @ b # vs) HEAD"
    and cp: "chain (prevs s) HEAD (rev vs @ b # rev us) HEAD"
    and d: "distinct (HEAD # us @ b # vs)" and d': "distinct (HEAD # rev vs @ b # rev us)"
    by (auto simp: dll_def)
  have "chain (prevs s) b (rev us) HEAD" and "chain (nexts s) b vs HEAD"
    using cn cp by (auto simp: chain_append)
  then have pb: "prevs s b = last (HEAD # us)" and nb: "nexts s b = last (HEAD # rev vs)"
    by (auto dest!: chain_first simp: hd_append hd_rev last_rev)
  define n where "n = (nexts s)(prevs s b := nexts s b)"
  define p where "p = (prevs s)(nexts s b := prevs s b)"
  have n: "chain n HEAD (us @ vs) HEAD"
    unfolding n_def pb using chain_unlink [OF cn d] .
  have p: "chain p HEAD (rev (us @ vs)) HEAD"
    unfolding p_def nb using chain_unlink [OF cp d'] by simp
  have ne: "last (HEAD # us) \<noteq> b" "last (HEAD # rev vs) \<noteq> b" "b \<noteq> HEAD"
    using d last_in_set [of "HEAD # us"] last_in_set [of "HEAD # rev vs"] by auto
  have l: "nexts (brelse_move b s) = n(b := n HEAD, HEAD := b)"
    "prevs (brelse_move b s) = p(b := HEAD, n HEAD := b)"
    unfolding n_def p_def using ne pb nb by (intro brelse_move_links; simp)+
  have "chain (n(b := n HEAD, HEAD := b)) HEAD (b # us @ vs) HEAD"
    using d by (intro chain_link_front [OF n]) auto
  moreover have "chain (p(b := HEAD, n HEAD := b)) HEAD (rev (us @ vs) @ [b]) HEAD"
    unfolding chain_first [OF n] using d by (intro chain_link_back [OF p]) auto
  ultimately show ?thesis
    using d by (simp add: dll_def l)
qed

section \<open>The cache invariant\<close>

definition cached :: "kstate \<Rightarrow> uint32 \<Rightarrow> nat \<Rightarrow> bool" where
  "cached s bno i \<longleftrightarrow> i < NBUF \<and> b_dev (bufs s i) = ROOTDEV \<and> b_blockno (bufs s i) = bno"

text \<open>What a reader of block \<open>bno\<close> gets: the cached copy, if there is a valid one.\<close>

definition content :: "kstate \<Rightarrow> uint32 \<Rightarrow> block" where
  "content s bno =
     (case find (\<lambda>i. cached s bno i \<and> b_valid (bufs s i)) [0..<NBUF] of
        Some i \<Rightarrow> b_data (bufs s i)
      | None \<Rightarrow> disk s bno)"

text \<open>The cache between the steps of process \<open>p\<close>, which holds the buffers \<open>H\<close>, while the buffers
  \<open>P\<close> are pinned.\<close>

definition buf_ok :: "nat \<Rightarrow> nat set \<Rightarrow> nat set \<Rightarrow> kstate \<Rightarrow> nat \<Rightarrow> bool" where
  "buf_ok p H P s i \<longleftrightarrow> b_refcnt (bufs s i) = of_bool (i \<in> H) + of_bool (i \<in> P)
     \<and> (if i \<in> H then owns p (SlBuf i) s else \<not> sl_locked (slocks s (SlBuf i)))
     \<and> (b_valid (bufs s i) \<longrightarrow> b_dev (bufs s i) = ROOTDEV)
     \<and> (if i \<in> H \<union> P then b_valid (bufs s i)
        else b_valid (bufs s i) \<longrightarrow> b_data (bufs s i) = disk s (b_blockno (bufs s i)))"

definition bc :: "nat \<Rightarrow> nat set \<Rightarrow> nat set \<Rightarrow> kstate \<Rightarrow> bool" where
  "bc p H P s \<longleftrightarrow> running p s
     \<and> (\<exists>xs. dll (bufs s) xs \<and> set xs = {..<NBUF})
     \<and> (\<forall>bno i j. cached s bno i \<longrightarrow> cached s bno j \<longrightarrow> i = j)
     \<and> H \<subseteq> {..<NBUF} \<and> P \<subseteq> {..<NBUF} \<and> (\<forall>i < NBUF. buf_ok p H P s i)"

text \<open>Only the cache has changed.\<close>

definition bio_frame :: "kstate \<Rightarrow> kstate \<Rightarrow> bool" where
  "bio_frame s t \<longleftrightarrow> t = s\<lparr>bufs := bufs t, slocks := slocks t\<rparr>
     \<and> (\<forall>l. (\<forall>i. l \<noteq> SlBuf i) \<longrightarrow> slocks t l = slocks s l)"

lemma bcD:
  assumes "bc p H P s"
  shows "running p s" and "\<exists>xs. dll (bufs s) xs \<and> set xs = {..<NBUF}"
    and "cached s bno i \<Longrightarrow> cached s bno j \<Longrightarrow> i = j"
    and "H \<subseteq> {..<NBUF}" and "P \<subseteq> {..<NBUF}"
    and "i < NBUF \<Longrightarrow> b_refcnt (bufs s i) = of_bool (i \<in> H) + of_bool (i \<in> P)"
    and "i < NBUF \<Longrightarrow> i \<notin> H \<Longrightarrow> \<not> sl_locked (slocks s (SlBuf i))"
    and "i \<in> H \<Longrightarrow> owns p (SlBuf i) s"
    and "i < NBUF \<Longrightarrow> b_valid (bufs s i) \<Longrightarrow> b_dev (bufs s i) = ROOTDEV"
    and "i \<in> H \<union> P \<Longrightarrow> b_valid (bufs s i)"
    and "i < NBUF \<Longrightarrow> i \<notin> H \<union> P \<Longrightarrow> b_valid (bufs s i) \<Longrightarrow>
       b_data (bufs s i) = disk s (b_blockno (bufs s i))"
  using assms unfolding bc_def buf_ok_def by (auto split: if_splits)

lemma refcnt_0 [simp]: "(of_bool a + of_bool b :: uint32) = 0 \<longleftrightarrow> \<not> a \<and> \<not> b"
  by (cases a; cases b) simp_all

lemma bio_frame_refl [simp]: "bio_frame s s"
  by (simp add: bio_frame_def)

lemma bio_frame_trans:
  assumes "bio_frame s t" and "bio_frame t u"
  shows "bio_frame s u"
proof -
  from assms have t: "t = s\<lparr>bufs := bufs t, slocks := slocks t\<rparr>"
    and u: "u = t\<lparr>bufs := bufs u, slocks := slocks u\<rparr>"
    by (auto simp: bio_frame_def)
  have "u = (s\<lparr>bufs := bufs t, slocks := slocks t\<rparr>)\<lparr>bufs := bufs u, slocks := slocks u\<rparr>"
    unfolding t [symmetric] by (rule u)
  then show ?thesis
    using assms by (simp add: bio_frame_def)
qed

lemma bio_frame_fields:
  assumes "bio_frame s t"
  shows "disk t = disk s" "dwrites t = dwrites s" "klog t = klog s" "sb t = sb s" "procs t = procs s"
    "itable t = itable s" "mem t = mem s" "cpu t = cpu s" "csr t = csr s" "locks t = locks s"
    "ftable t = ftable s" "slocks t (SlInode k) = slocks s (SlInode k)" "frame t = frame s"
    "running p t = running p s"
proof -
  from assms have t: "t = s\<lparr>bufs := bufs t, slocks := slocks t\<rparr>"
    and l: "\<forall>l. (\<forall>i. l \<noteq> SlBuf i) \<longrightarrow> slocks t l = slocks s l"
    by (auto simp: bio_frame_def)
  show "disk t = disk s" "dwrites t = dwrites s" "klog t = klog s" "sb t = sb s" "procs t = procs s"
    "itable t = itable s" "mem t = mem s" "cpu t = cpu s" "csr t = csr s" "locks t = locks s"
    "ftable t = ftable s" "frame t = frame s"
    by (subst t; simp)+
  show "slocks t (SlInode k) = slocks s (SlInode k)"
    using l by simp
  show "running p t = running p s"
    by (subst t) simp
qed

lemma content_cached:
  assumes "bc p H P s" and "cached s bno i" and "b_valid (bufs s i)"
  shows "content s bno = b_data (bufs s i)"
proof -
  have uniq: "\<not> cached s bno j" if "j < i" for j
    using bcD(3) [OF assms(1) assms(2), of j] that by auto
  have "find (\<lambda>i. cached s bno i \<and> b_valid (bufs s i)) [0..<NBUF] = Some i"
    using assms uniq unfolding find_Some_iff by (intro exI [of _ i]) (auto simp: cached_def)
  then show ?thesis by (simp add: content_def)
qed

lemma content_uncached:
  assumes "\<And>i. cached s bno i \<Longrightarrow> \<not> b_valid (bufs s i)"
  shows "content s bno = disk s bno"
proof -
  have "find (\<lambda>i. cached s bno i \<and> b_valid (bufs s i)) [0..<NBUF] = None"
    using assms by (auto simp: find_None_iff)
  then show ?thesis by (simp add: content_def)
qed

definition scans :: "kstate \<Rightarrow> nat list \<Rightarrow> bool" where
  "scans s xs \<longleftrightarrow> (\<forall>t d. bufs t = bufs s \<longrightarrow>
     bscan (Suc NBUF) b_next d (nexts s HEAD) t = Ok (find (\<lambda>i. d (bufs s i)) xs) t \<and>
     bscan (Suc NBUF) b_prev d (prevs s HEAD) t = Ok (find (\<lambda>i. d (bufs s i)) (rev xs)) t)"

lemma dll_scans:
  assumes "dll (bufs s) xs" and "set xs = {..<NBUF}"
  shows "scans s xs"
  unfolding scans_def
proof (intro allI impI)
  have d: "distinct xs" "HEAD \<notin> set xs" and c: "chain (nexts s) HEAD xs HEAD"
      "chain (prevs s) HEAD (rev xs) HEAD"
    using assms by (auto simp: dll_def)
  have l: "length xs < Suc NBUF"
    using d assms(2) distinct_card [of xs] by simp
  fix t :: kstate and P assume b: "bufs t = bufs s"
  show "bscan (Suc NBUF) b_next P (nexts s HEAD) t = Ok (find (\<lambda>i. P (bufs s i)) xs) t \<and>
     bscan (Suc NBUF) b_prev P (prevs s HEAD) t = Ok (find (\<lambda>i. P (bufs s i)) (rev xs)) t"
    using bscan_chain [of b_next t HEAD xs "Suc NBUF" P]
      bscan_chain [of b_prev t HEAD "rev xs" "Suc NBUF" P] b c d(2) l by simp
qed

lemma scansD:
  assumes "scans s xs" and "bufs t = bufs s"
  shows "bscan (Suc NBUF) b_next d (nexts s HEAD) t = Ok (find (\<lambda>i. d (bufs s i)) xs) t"
    and "bscan (Suc NBUF) b_prev d (prevs s HEAD) t = Ok (find (\<lambda>i. d (bufs s i)) (rev xs)) t"
  using assms by (auto simp: scans_def)

lemma bc_scans: "bc p H P s \<Longrightarrow> \<exists>xs. set xs = {..<NBUF} \<and> scans s xs"
  by (meson bcD(2) dll_scans)

lemma find_SomeD: "find P xs = Some x \<Longrightarrow> x \<in> set xs \<and> P x"
  by (induction xs) (auto split: if_splits)

text \<open>The two ways \<open>bget\<close> finds a buffer.\<close>

definition lock_buf :: "nat \<Rightarrow> nat \<Rightarrow> kstate \<Rightarrow> kstate" where
  "lock_buf p i s = s\<lparr>slocks := (slocks s)(SlBuf i :=
     (slocks s (SlBuf i))\<lparr>sl_locked := True, sl_pid := p_pid (procs s p)\<rparr>)\<rparr>"

lemma bget_hit:
  assumes "bc p H P s" and "cached s bno i" and "i \<notin> H"
  shows "bget ROOTDEV bno s = Ok i (lock_buf p i (upd_buf i (\<lambda>x. x\<lparr>b_refcnt := b_refcnt x + 1\<rparr>) s))"
proof -
  obtain xs where xs: "set xs = {..<NBUF}" and sc: "scans s xs"
    using bc_scans [OF assms(1)] by blast
  note scan = scansD [OF sc]
  have run: "running p s" and free: "\<not> sl_locked (slocks s (SlBuf i))"
    using bcD(1,7) [OF assms(1)] assms by (auto simp: cached_def)
  have "find (\<lambda>i. b_dev (bufs s i) = ROOTDEV \<and> b_blockno (bufs s i) = bno) xs \<noteq> None"
    using assms(2) xs by (auto simp: find_None_iff cached_def)
  then obtain j where j: "find (\<lambda>i. b_dev (bufs s i) = ROOTDEV \<and> b_blockno (bufs s i) = bno) xs = Some j"
    by auto
  then have "cached s bno j"
    using xs find_SomeD [OF j] by (simp add: cached_def)
  then have "j = i"
    by (rule bcD(3) [OF assms(1) _ assms(2)])
  with j run free runningD(1-3) [OF run] show ?thesis
    by (simp add: bget_def acquire_acq scan acquiresleep_running upd_buf_def lock_buf_def)
qed

lemma bget_miss:
  assumes "bc p H P s" and "\<And>i. \<not> cached s bno i" and "card (H \<union> P) < NBUF"
  shows "\<exists>i < NBUF. i \<notin> H \<union> P \<and> bget ROOTDEV bno s = Ok i (lock_buf p i (upd_buf i
    (\<lambda>x. x\<lparr>b_dev := ROOTDEV, b_blockno := bno, b_valid := False, b_refcnt := 1\<rparr>) s))"
proof -
  obtain xs where xs: "set xs = {..<NBUF}" and sc: "scans s xs"
    using bc_scans [OF assms(1)] by blast
  note scan = scansD [OF sc]
  have none: "find (\<lambda>i. b_dev (bufs s i) = ROOTDEV \<and> b_blockno (bufs s i) = bno) xs = None"
    using assms(2) xs unfolding find_None_iff cached_def by blast
  have "H \<union> P \<subseteq> {..<NBUF}"
    using bcD(4,5) [OF assms(1)] by simp
  moreover have "H \<union> P \<noteq> {..<NBUF}"
    using assms(3) by (metis card_lessThan less_irrefl)
  ultimately obtain j where j: "j < NBUF" "j \<notin> H \<union> P"
    by auto
  then have "b_refcnt (bufs s j) = 0"
    using bcD(6) [OF assms(1)] by simp
  with j xs have "find (\<lambda>i. b_refcnt (bufs s i) = 0) (rev xs) \<noteq> None"
    unfolding find_None_iff set_rev by blast
  then obtain i where i: "find (\<lambda>i. b_refcnt (bufs s i) = 0) (rev xs) = Some i"
    by auto
  then have "i < NBUF" "b_refcnt (bufs s i) = 0"
    using xs find_SomeD [OF i] by simp_all
  then have notin: "i \<notin> H" "i \<notin> P"
    using bcD(6) [OF assms(1), of i] by simp_all
  have run: "running p s" and free: "\<not> sl_locked (slocks s (SlBuf i))"
    using bcD(1) [OF assms(1)] bcD(7) [OF assms(1) \<open>i < NBUF\<close> notin(1)] by simp_all
  have "bget ROOTDEV bno s = Ok i (lock_buf p i (upd_buf i
    (\<lambda>x. x\<lparr>b_dev := ROOTDEV, b_blockno := bno, b_valid := False, b_refcnt := 1\<rparr>) s))"
    using none i run free runningD(1-3) [OF run]
    by (simp add: bget_def acquire_acq scan acquiresleep_running upd_buf_def lock_buf_def)
  then show ?thesis
    using notin \<open>i < NBUF\<close> by blast
qed

section \<open>Reading and releasing blocks\<close>

lemma upd_buf_lock: "upd_buf j f (lock_buf p i s) = lock_buf p i (upd_buf j f s)"
  by (rule kstate.equality) (simp_all add: lock_buf_def upd_buf_def)

lemma upd_buf_upd: "upd_buf i f (upd_buf i g s) = upd_buf i (\<lambda>x. f (g x)) s"
  by (simp add: upd_buf_def)

lemma upd_buf_cong: "f (bufs s i) = g (bufs s i) \<Longrightarrow> upd_buf i f s = upd_buf i g s"
  by (simp add: upd_buf_def)

lemma upd_buf_simps [simp]:
  "bufs (upd_buf i f s) = (bufs s)(i := f (bufs s i))" "bufs (lock_buf p i s) = bufs s"
  "disk (upd_buf i f s) = disk s" "disk (lock_buf p i s) = disk s"
  by (simp_all add: upd_buf_def lock_buf_def)

text \<open>Block \<open>bno\<close> can be read: nobody holds it, and if it is not cached there is a buffer to spare.\<close>

definition can_read :: "nat set \<Rightarrow> nat set \<Rightarrow> uint32 \<Rightarrow> kstate \<Rightarrow> bool" where
  "can_read H P bno s \<longleftrightarrow> (\<forall>i \<in> H. b_blockno (bufs s i) \<noteq> bno) \<and>
     ((\<exists>i. cached s bno i) \<or> card (H \<union> P) < NBUF)"

definition read_into :: "nat \<Rightarrow> nat set \<Rightarrow> uint32 \<Rightarrow> nat \<Rightarrow> kstate \<Rightarrow> kstate" where
  "read_into p P bno i s = lock_buf p i (upd_buf i (\<lambda>x. x\<lparr>b_dev := ROOTDEV, b_blockno := bno,
     b_valid := True, b_refcnt := 1 + of_bool (i \<in> P), b_data := content s bno\<rparr>) s)"

lemma bread_eq:
  assumes "bc p H P s" and "can_read H P bno s"
  shows "\<exists>i < NBUF. i \<notin> H \<and> (cached s bno i \<or> (\<forall>j. \<not> cached s bno j) \<and> i \<notin> P)
     \<and> bread ROOTDEV bno s = Ok i (read_into p P bno i s)"
proof (cases "\<exists>i. cached s bno i")
  case True
  then obtain i where i: "cached s bno i" by blast
  then have lt: "i < NBUF" and f: "b_dev (bufs s i) = ROOTDEV" "b_blockno (bufs s i) = bno"
    by (auto simp: cached_def)
  have nh: "i \<notin> H"
    using assms(2) i by (auto simp: can_read_def cached_def)
  have rc: "b_refcnt (bufs s i) = of_bool (i \<in> P)"
    using bcD(6) [OF assms(1) lt] nh by simp
  have "bread ROOTDEV bno s = Ok i (read_into p P bno i s)"
  proof (cases "b_valid (bufs s i)")
    case True
    then show ?thesis
      using bget_hit [OF assms(1) i nh] content_cached [OF assms(1) i] rc f
      by (auto simp: bread_def read_into_def intro!: arg_cong [of _ _ "lock_buf p i"] upd_buf_cong
        buf.equality)
  next
    case False
    have "content s bno = disk s bno"
      using False bcD(3) [OF assms(1) i] by (metis content_uncached)
    then show ?thesis
      using bget_hit [OF assms(1) i nh] False rc f
      by (auto simp: bread_def read_into_def platform_disk_read_def upd_buf_lock upd_buf_upd
        intro!: arg_cong [of _ _ "lock_buf p i"] upd_buf_cong buf.equality)
  qed
  then show ?thesis using lt nh i by blast
next
  case False
  then have "card (H \<union> P) < NBUF"
    using assms(2) by (auto simp: can_read_def)
  then obtain i where i: "i < NBUF" "i \<notin> H \<union> P" and
    g: "bget ROOTDEV bno s = Ok i (lock_buf p i (upd_buf i
      (\<lambda>x. x\<lparr>b_dev := ROOTDEV, b_blockno := bno, b_valid := False, b_refcnt := 1\<rparr>) s))"
    using bget_miss [OF assms(1)] False by blast
  have "content s bno = disk s bno"
    using False by (intro content_uncached) auto
  then have "bread ROOTDEV bno s = Ok i (read_into p P bno i s)"
    using g i by (auto simp: bread_def read_into_def platform_disk_read_def upd_buf_lock upd_buf_upd
        intro!: arg_cong [of _ _ "lock_buf p i"] upd_buf_cong buf.equality)
  then show ?thesis using i False by blast
qed

lemma cached_read_into:
  "cached (read_into p P bno i s) n j \<longleftrightarrow> (if j = i then i < NBUF \<and> n = bno else cached s n j)"
  by (auto simp: cached_def read_into_def lock_buf_def upd_buf_def)

lemma bufs_read_into:
  "bufs (read_into p P bno i s) = (bufs s)(i := (bufs s i)\<lparr>b_dev := ROOTDEV, b_blockno := bno,
     b_valid := True, b_refcnt := 1 + of_bool (i \<in> P), b_data := content s bno\<rparr>)"
  by (simp add: read_into_def lock_buf_def upd_buf_def)

lemma bc_read_into:
  assumes bc: "bc p H P s" and i: "i < NBUF" "i \<notin> H"
    and c: "cached s bno i \<or> (\<forall>j. \<not> cached s bno j) \<and> i \<notin> P"
  shows "bc p (insert i H) P (read_into p P bno i s)"
    and "content (read_into p P bno i s) = content s"
proof -
  let ?t = "read_into p P bno i s"
  obtain xs where xs: "dll (bufs s) xs" "set xs = {..<NBUF}"
    using bcD(2) [OF bc] by blast
  have d: "dll (bufs ?t) xs"
    using xs by (subst dll_cong [of _ "bufs s"]) (auto simp: bufs_read_into)
  have u: "j = k" if "cached ?t n j" "cached ?t n k" for n j k
  proof -
    have u': "cached s n j \<Longrightarrow> cached s n k \<Longrightarrow> j = k" for n j k
      by (rule bcD(3) [OF bc])
    show ?thesis
      using that c u' by (auto simp: cached_read_into split: if_splits)
  qed
  have f: "running p ?t" "disk ?t = disk s" "procs ?t = procs s"
    "slocks ?t = (slocks s)(SlBuf i := (slocks s (SlBuf i))\<lparr>sl_locked := True, sl_pid := p_pid (procs s p)\<rparr>)"
    using bcD(1) [OF bc] by (simp_all add: read_into_def lock_buf_def upd_buf_def)
  have ok: "buf_ok p (insert i H) P ?t j" if "j < NBUF" for j
  proof (cases "j = i")
    case True
    then show ?thesis by (simp add: buf_ok_def owns_def bufs_read_into f)
  next
    case False
    then have "buf_ok p (insert i H) P ?t j = buf_ok p H P s j"
      by (simp add: buf_ok_def owns_def bufs_read_into f)
    then show ?thesis using bc that by (simp add: bc_def)
  qed
  show bc': "bc p (insert i H) P ?t"
    unfolding bc_def using d u f(1) xs(2) i ok bcD(4,5) [OF bc] by blast
  show "content ?t = content s"
  proof
    fix n
    have v: "b_valid (bufs ?t j) = (j = i \<or> b_valid (bufs s j))" for j
      by (simp add: bufs_read_into)
    consider "n = bno" | j where "n \<noteq> bno" "j \<noteq> i" "cached s n j" "b_valid (bufs s j)"
      | "n \<noteq> bno" "\<And>j. j \<noteq> i \<Longrightarrow> cached s n j \<Longrightarrow> \<not> b_valid (bufs s j)"
      by blast
    then show "content ?t n = content s n"
    proof cases
      case 1
      then show ?thesis
        using content_cached [OF bc', of bno i] i by (simp add: cached_read_into v) (simp add: bufs_read_into)
    next
      case (2 j)
      then show ?thesis
        using content_cached [OF bc', of n j] content_cached [OF bc, of n j]
        by (simp add: cached_read_into v) (simp add: bufs_read_into)
    next
      case 3
      have "content ?t n = disk s n"
        using 3 f(2) by (subst content_uncached) (auto simp: cached_read_into v split: if_splits)
      also have "\<dots> = content s n"
      proof (cases "cached s n i \<and> b_valid (bufs s i)")
        case True
        then have "i \<notin> P" using c 3(1) by (auto simp: cached_def)
        then show ?thesis
          using True content_cached [OF bc, of n i] bcD(11) [OF bc i(1)] i by (auto simp: cached_def)
      next
        case False
        then show ?thesis using 3 by (metis content_uncached)
      qed
      finally show ?thesis .
    qed
  qed
qed

lemma bio_frame_read_into: "bio_frame s (read_into p P bno i s)"
  by (simp add: bio_frame_def read_into_def lock_buf_def upd_buf_def)

text \<open>Reading a block returns a locked buffer with the block's contents, and nobody's view of any
  block changes.\<close>

lemma bread_spec:
  assumes "bc p H P s" and "can_read H P bno s"
  shows "returns (bread ROOTDEV bno s) (\<lambda>i t. i < NBUF \<and> i \<notin> H \<and> bc p (insert i H) P t
     \<and> bio_frame s t \<and> content t = content s \<and> b_blockno (bufs t i) = bno
     \<and> b_data (bufs t i) = content s bno \<and> (\<forall>j. j \<noteq> i \<longrightarrow> bufs t j = bufs s j)
     \<and> (i \<in> P \<longrightarrow> b_blockno (bufs s i) = bno))"
proof -
  obtain i where i: "i < NBUF" "i \<notin> H" "cached s bno i \<or> (\<forall>j. \<not> cached s bno j) \<and> i \<notin> P"
    and b: "bread ROOTDEV bno s = Ok i (read_into p P bno i s)"
    using bread_eq [OF assms] by blast
  show ?thesis
    using b bc_read_into [OF assms(1) i] i bio_frame_read_into [of s p P bno i]
    by (auto simp: bufs_read_into cached_def)
qed

lemma brelse_move_only_bufs:
  "brelse_move b s = s\<lparr>bufs := bufs (brelse_move b s)\<rparr>"
  by (simp add: brelse_move_def upd_buf_def Let_def)

lemma brelse_move_cong:
  "bufs s = bufs t \<Longrightarrow> bufs (brelse_move b s) = bufs (brelse_move b t)"
  by (simp add: brelse_move_def Let_def)

lemma upd_buf_payload:
  "b_valid (bufs (upd_buf k (\<lambda>x. x\<lparr>b_next := v\<rparr>) s) j) = b_valid (bufs s j)"
  "b_dev (bufs (upd_buf k (\<lambda>x. x\<lparr>b_next := v\<rparr>) s) j) = b_dev (bufs s j)"
  "b_blockno (bufs (upd_buf k (\<lambda>x. x\<lparr>b_next := v\<rparr>) s) j) = b_blockno (bufs s j)"
  "b_refcnt (bufs (upd_buf k (\<lambda>x. x\<lparr>b_next := v\<rparr>) s) j) = b_refcnt (bufs s j)"
  "b_data (bufs (upd_buf k (\<lambda>x. x\<lparr>b_next := v\<rparr>) s) j) = b_data (bufs s j)"
  "b_valid (bufs (upd_buf k (\<lambda>x. x\<lparr>b_prev := v\<rparr>) s) j) = b_valid (bufs s j)"
  "b_dev (bufs (upd_buf k (\<lambda>x. x\<lparr>b_prev := v\<rparr>) s) j) = b_dev (bufs s j)"
  "b_blockno (bufs (upd_buf k (\<lambda>x. x\<lparr>b_prev := v\<rparr>) s) j) = b_blockno (bufs s j)"
  "b_refcnt (bufs (upd_buf k (\<lambda>x. x\<lparr>b_prev := v\<rparr>) s) j) = b_refcnt (bufs s j)"
  "b_data (bufs (upd_buf k (\<lambda>x. x\<lparr>b_prev := v\<rparr>) s) j) = b_data (bufs s j)"
  by auto

lemma brelse_move_payload:
  "b_valid (bufs (brelse_move b s) j) = b_valid (bufs s j)"
  "b_dev (bufs (brelse_move b s) j) = b_dev (bufs s j)"
  "b_blockno (bufs (brelse_move b s) j) = b_blockno (bufs s j)"
  "b_refcnt (bufs (brelse_move b s) j) = b_refcnt (bufs s j)"
  "b_data (bufs (brelse_move b s) j) = b_data (bufs s j)"
  unfolding brelse_move_def Let_def by (simp_all only: upd_buf_payload)

definition unlock_buf :: "nat \<Rightarrow> kstate \<Rightarrow> kstate" where
  "unlock_buf i s = (let u = upd_buf i (\<lambda>x. x\<lparr>b_refcnt := b_refcnt x - 1\<rparr>) (s\<lparr>slocks :=
       (slocks s)(SlBuf i := (slocks s (SlBuf i))\<lparr>sl_locked := False, sl_pid := 0\<rparr>)\<rparr>)
     in if b_refcnt (bufs u i) = 0 then brelse_move i u else u)"

lemma brelse_eq:
  assumes "running p s" and "owns p (SlBuf i) s"
  shows "brelse i s = Ok () (unlock_buf i s)"
proof -
  define u where "u = s\<lparr>slocks := (slocks s)(SlBuf i := (slocks s (SlBuf i))\<lparr>sl_locked := False, sl_pid := 0\<rparr>)\<rparr>"
  define v where "v = upd_buf i (\<lambda>x. x\<lparr>b_refcnt := b_refcnt x - 1\<rparr>) (acq LkBcache u)"
  have u: "cpu_ok u" "free_lk LkBcache u" "bufs u = bufs s"
    using runningD(1,3) [OF assms(1)] by (simp_all add: u_def)
  have r: "release LkBcache ((acq LkBcache u)\<lparr>bufs := B\<rparr>) = Ok () (u\<lparr>bufs := B\<rparr>)" for B
    using u by simp
  have m: "brelse_move i v = (acq LkBcache u)\<lparr>bufs := bufs (brelse_move i v)\<rparr>"
    by (subst brelse_move_only_bufs) (simp add: v_def upd_buf_def)
  have m': "bufs (brelse_move i v) = bufs (brelse_move i (upd_buf i (\<lambda>x. x\<lparr>b_refcnt := b_refcnt x - 1\<rparr>) u))"
    by (rule brelse_move_cong) (simp add: v_def)
  have "release LkBcache (brelse_move i v) = Ok () (brelse_move i (upd_buf i (\<lambda>x. x\<lparr>b_refcnt := b_refcnt x - 1\<rparr>) u))"
    by (subst m, subst r, subst m', subst brelse_move_only_bufs) (simp add: upd_buf_def)
  moreover have "release LkBcache v = Ok () (upd_buf i (\<lambda>x. x\<lparr>b_refcnt := b_refcnt x - 1\<rparr>) u)"
    using r by (simp add: v_def upd_buf_def)
  ultimately show ?thesis
    using assms u
    by (simp add: brelse_def holdingsleep_running owns_def releasesleep_running acquire_acq
        u_def [symmetric] v_def [symmetric] unlock_buf_def)
qed

lemma content_cong:
  assumes "\<And>j. b_dev (bufs t j) = b_dev (bufs s j) \<and> b_blockno (bufs t j) = b_blockno (bufs s j)
     \<and> b_valid (bufs t j) = b_valid (bufs s j) \<and> b_data (bufs t j) = b_data (bufs s j)"
    and "disk t = disk s"
  shows "content t = content s"
proof
  fix n show "content t n = content s n"
    using assms unfolding content_def cached_def by (simp split: option.split)
qed

lemma bc_transfer:
  assumes "bc p H P s" and "running p t" and "\<exists>xs. dll (bufs t) xs \<and> set xs = {..<NBUF}"
    and "\<And>j. b_dev (bufs t j) = b_dev (bufs s j) \<and> b_blockno (bufs t j) = b_blockno (bufs s j)"
    and "H' \<subseteq> {..<NBUF}" "P' \<subseteq> {..<NBUF}" and "\<And>j. j < NBUF \<Longrightarrow> buf_ok p H' P' t j"
  shows "bc p H' P' t"
proof -
  have "cached t = cached s"
    using assms(4) by (simp add: cached_def fun_eq_iff)
  with assms show ?thesis by (simp add: bc_def)
qed

lemma buf_okI: "bc p H P s \<Longrightarrow> i < NBUF \<Longrightarrow> buf_ok p H P s i"
  by (simp add: bc_def)

lemma unlock_buf_fields:
  "\<exists>B. unlock_buf i s = s\<lparr>slocks := (slocks s)(SlBuf i := (slocks s (SlBuf i))\<lparr>sl_locked := False, sl_pid := 0\<rparr>), bufs := B\<rparr>"
  "b_valid (bufs (unlock_buf i s) j) = b_valid (bufs s j)"
  "b_dev (bufs (unlock_buf i s) j) = b_dev (bufs s j)"
  "b_blockno (bufs (unlock_buf i s) j) = b_blockno (bufs s j)"
  "b_data (bufs (unlock_buf i s) j) = b_data (bufs s j)"
  "b_refcnt (bufs (unlock_buf i s) j) = (if j = i then b_refcnt (bufs s j) - 1 else b_refcnt (bufs s j))"
proof -
  let ?u = "upd_buf i (\<lambda>x. x\<lparr>b_refcnt := b_refcnt x - 1\<rparr>) (s\<lparr>slocks :=
       (slocks s)(SlBuf i := (slocks s (SlBuf i))\<lparr>sl_locked := False, sl_pid := 0\<rparr>)\<rparr>)"
  show "\<exists>B. unlock_buf i s = s\<lparr>slocks := (slocks s)(SlBuf i := (slocks s (SlBuf i))\<lparr>sl_locked := False, sl_pid := 0\<rparr>), bufs := B\<rparr>"
  proof (cases "b_refcnt (bufs ?u i) = 0")
    case True
    then have "unlock_buf i s = ?u\<lparr>bufs := bufs (brelse_move i ?u)\<rparr>"
      unfolding unlock_buf_def Let_def using brelse_move_only_bufs [of i ?u] by simp
    then show ?thesis
      by (intro exI [of _ "bufs (brelse_move i ?u)"]) (simp add: upd_buf_def)
  next
    case False
    then show ?thesis
      by (intro exI [of _ "bufs ?u"]) (simp add: unlock_buf_def upd_buf_def)
  qed
qed (simp_all add: unlock_buf_def Let_def brelse_move_payload)

lemma unlock_buf_dll:
  assumes "dll (bufs s) (us @ i # vs)"
  shows "dll (bufs (unlock_buf i s)) (if b_refcnt (bufs s i) = 1 then i # us @ vs else us @ i # vs)"
proof -
  let ?u = "upd_buf i (\<lambda>x. x\<lparr>b_refcnt := b_refcnt x - 1\<rparr>) (s\<lparr>slocks :=
       (slocks s)(SlBuf i := (slocks s (SlBuf i))\<lparr>sl_locked := False, sl_pid := 0\<rparr>)\<rparr>)"
  have "dll (bufs ?u) (us @ i # vs)"
    using assms by (subst dll_cong [of _ "bufs s"]) auto
  then show ?thesis
    using brelse_move_dll [of ?u us i vs] by (simp add: unlock_buf_def Let_def)
qed

text \<open>Releasing a buffer; a buffer that is not pinned must have been written back.\<close>

lemma brelse_spec:
  assumes bc: "bc p H P s" and i: "i \<in> H"
    and clean: "i \<notin> P \<Longrightarrow> b_data (bufs s i) = disk s (b_blockno (bufs s i))"
  shows "returns (brelse i s) (\<lambda>_ t. bc p (H - {i}) P t \<and> bio_frame s t \<and> content t = content s
     \<and> (\<forall>j. b_blockno (bufs t j) = b_blockno (bufs s j) \<and> b_data (bufs t j) = b_data (bufs s j)))"
proof -
  let ?t = "unlock_buf i s"
  have lt: "i < NBUF" using bcD(4) [OF bc] i by auto
  obtain B where t: "?t = s\<lparr>slocks := (slocks s)(SlBuf i := (slocks s (SlBuf i))\<lparr>sl_locked := False, sl_pid := 0\<rparr>), bufs := B\<rparr>"
    using unlock_buf_fields(1) by blast
  have f: "slocks ?t = (slocks s)(SlBuf i := (slocks s (SlBuf i))\<lparr>sl_locked := False, sl_pid := 0\<rparr>)"
    "disk ?t = disk s" "procs ?t = procs s" "running p ?t"
    using bcD(1) [OF bc] by (simp_all add: t)
  obtain xs where xs: "dll (bufs s) xs" "set xs = {..<NBUF}"
    using bcD(2) [OF bc] by blast
  then obtain us vs where s: "xs = us @ i # vs"
    using lt by (metis lessThan_iff split_list)
  have l: "\<exists>ys. dll (bufs ?t) ys \<and> set ys = {..<NBUF}"
    using unlock_buf_dll [of s us i vs] xs unfolding s
    by (intro exI [of _ "if b_refcnt (bufs s i) = 1 then i # us @ vs else us @ i # vs"]) auto
  have "bc p (H - {i}) P ?t"
  proof (rule bc_transfer [OF bc f(4) l])
    fix j assume j: "j < NBUF"
    show "buf_ok p (H - {i}) P ?t j"
      using buf_okI [OF bc j] i clean unfolding buf_ok_def owns_def
      by (cases "j = i") (simp_all add: f unlock_buf_fields(2-))
  qed (use bcD(4,5) [OF bc] in \<open>auto simp: unlock_buf_fields(2-)\<close>)
  moreover have "content ?t = content s"
    by (rule content_cong) (simp_all add: unlock_buf_fields(2-) f)
  moreover have "bio_frame s ?t"
    unfolding bio_frame_def by (simp add: t)
  ultimately show ?thesis
    using brelse_eq [OF bcD(1) [OF bc] bcD(8) [OF bc i]] by (simp add: unlock_buf_fields(2-))
qed

lemma dll_upd_buf:
  assumes "\<And>x. b_next (f x) = b_next x" and "\<And>x. b_prev (f x) = b_prev x"
  shows "dll ((bufs s)(i := f (bufs s i))) xs = dll (bufs s) xs"
  using assms by (intro dll_cong) auto

lemma bpin_spec:
  assumes bc: "bc p H P s" and i: "i \<in> H" "i \<notin> P"
  shows "returns (bpin i s) (\<lambda>_ t. bc p H (insert i P) t \<and> bio_frame s t \<and> content t = content s
     \<and> (\<forall>j. b_blockno (bufs t j) = b_blockno (bufs s j) \<and> b_data (bufs t j) = b_data (bufs s j)))"
proof -
  let ?t = "upd_buf i (\<lambda>x. x\<lparr>b_refcnt := b_refcnt x + 1\<rparr>) s"
  have lt: "i < NBUF" using bcD(4) [OF bc] i by auto
  have "bpin i s = Ok () ?t"
    using runningD(1,3) [OF bcD(1) [OF bc]] by (simp add: bpin_def acquire_acq upd_buf_def)
  moreover have "bc p H (insert i P) ?t"
  proof (rule bc_transfer [OF bc])
    fix j assume j: "j < NBUF"
    show "buf_ok p H (insert i P) ?t j"
      using buf_okI [OF bc j] i unfolding buf_ok_def owns_def
      by (cases "j = i") (simp_all add: upd_buf_def)
  qed (use bcD(1,2,4,5) [OF bc] lt in \<open>auto simp: upd_buf_def dll_upd_buf\<close>)
  moreover have "content ?t = content s"
    by (rule content_cong) simp_all
  moreover have "bio_frame s ?t"
    by (simp add: bio_frame_def upd_buf_def)
  ultimately show ?thesis by simp
qed

lemma bunpin_spec:
  assumes bc: "bc p H P s" and i: "i \<in> H" "i \<in> P"
  shows "returns (bunpin i s) (\<lambda>_ t. bc p H (P - {i}) t \<and> bio_frame s t \<and> content t = content s
     \<and> (\<forall>j. b_blockno (bufs t j) = b_blockno (bufs s j) \<and> b_data (bufs t j) = b_data (bufs s j)))"
proof -
  let ?t = "upd_buf i (\<lambda>x. x\<lparr>b_refcnt := b_refcnt x - 1\<rparr>) s"
  have lt: "i < NBUF" using bcD(4) [OF bc] i by auto
  have "bunpin i s = Ok () ?t"
    using runningD(1,3) [OF bcD(1) [OF bc]] by (simp add: bunpin_def acquire_acq upd_buf_def)
  moreover have "bc p H (P - {i}) ?t"
  proof (rule bc_transfer [OF bc])
    fix j assume j: "j < NBUF"
    show "buf_ok p H (P - {i}) ?t j"
      using buf_okI [OF bc j] i unfolding buf_ok_def owns_def
      by (cases "j = i") (simp_all add: upd_buf_def)
  qed (use bcD(1,2,4,5) [OF bc] lt in \<open>auto simp: upd_buf_def dll_upd_buf\<close>)
  moreover have "content ?t = content s"
    by (rule content_cong) simp_all
  moreover have "bio_frame s ?t"
    by (simp add: bio_frame_def upd_buf_def)
  ultimately show ?thesis by simp
qed

text \<open>Writing a held buffer to the disk.\<close>

lemma bwrite_eq:
  assumes "bc p H P s" and "i \<in> H"
  shows "bwrite i s = Ok () (s\<lparr>disk := (disk s)(b_blockno (bufs s i) := b_data (bufs s i)),
     dwrites := (b_blockno (bufs s i), b_data (bufs s i)) # dwrites s\<rparr>)"
  using bcD(1) [OF assms(1)] bcD(8) [OF assms]
  by (simp add: bwrite_def holdingsleep_running owns_def platform_disk_write_def)

lemma bwrite_spec:
  assumes bc: "bc p H P s" and i: "i \<in> H"
  shows "returns (bwrite i s) (\<lambda>_ t. bc p H P t \<and> content t = content s
     \<and> t = s\<lparr>disk := (disk s)(b_blockno (bufs s i) := b_data (bufs s i)),
             dwrites := (b_blockno (bufs s i), b_data (bufs s i)) # dwrites s\<rparr>)"
proof -
  let ?n = "b_blockno (bufs s i)" and ?d = "b_data (bufs s i)"
  let ?t = "s\<lparr>disk := (disk s)(?n := ?d), dwrites := (?n, ?d) # dwrites s\<rparr>"
  have lt: "i < NBUF" using bcD(4) [OF bc] i by auto
  have ci: "cached s ?n i" and vi: "b_valid (bufs s i)"
    using bcD(9) [OF bc lt] bcD(10) [OF bc, of i] i lt by (auto simp: cached_def)
  have bc': "bc p H P ?t"
  proof (rule bc_transfer [OF bc])
    fix j assume j: "j < NBUF"
    have "b_blockno (bufs s j) \<noteq> ?n" if "j \<noteq> i" "b_valid (bufs s j)"
      using bcD(3) [OF bc ci, of j] bcD(9) [OF bc j] that j by (auto simp: cached_def)
    then show "buf_ok p H P ?t j"
      using buf_okI [OF bc j] i unfolding buf_ok_def owns_def by (cases "j = i") auto
  qed (use bcD(1,2,4,5) [OF bc] in auto)
  moreover have "content ?t n = content s n" for n
  proof (cases "\<exists>j. cached s n j \<and> b_valid (bufs s j)")
    case True
    then obtain j where "cached s n j" "b_valid (bufs s j)" by blast
    then show ?thesis
      using content_cached [OF bc, of n j] content_cached [OF bc', of n j] by (simp add: cached_def)
  next
    case False
    then have "n \<noteq> ?n" using ci vi by blast
    then show ?thesis
      using content_uncached [of s n] content_uncached [of ?t n] False by (simp add: cached_def)
  qed
  ultimately show ?thesis
    using bwrite_eq [OF bc i] by (simp add: fun_eq_iff)
qed

text \<open>Changing the data of a held buffer.\<close>

definition set_data :: "nat \<Rightarrow> block \<Rightarrow> kstate \<Rightarrow> kstate" where
  "set_data i d = upd_buf i (\<lambda>x. x\<lparr>b_data := d\<rparr>)"

lemma set_data_spec:
  assumes bc: "bc p H P s" and i: "i \<in> H"
  shows "bc p H P (set_data i d s)"
    and "content (set_data i d s) = (content s)(b_blockno (bufs s i) := d)"
    and "bio_frame s (set_data i d s)"
    and "b_blockno (bufs (set_data i d s) j) = b_blockno (bufs s j)"
    and "b_data (bufs (set_data i d s) j) = (if j = i then d else b_data (bufs s j))"
proof -
  let ?n = "b_blockno (bufs s i)" and ?t = "set_data i d s"
  have lt: "i < NBUF" using bcD(4) [OF bc] i by auto
  have ci: "cached s ?n i" and vi: "b_valid (bufs s i)"
    using bcD(9) [OF bc lt] bcD(10) [OF bc, of i] i lt by (auto simp: cached_def)
  have c: "cached ?t = cached s"
    by (simp add: cached_def set_data_def upd_buf_def fun_eq_iff)
  show bc': "bc p H P ?t"
  proof (rule bc_transfer [OF bc])
    fix j assume j: "j < NBUF"
    show "buf_ok p H P ?t j"
      using buf_okI [OF bc j] i unfolding buf_ok_def owns_def
      by (cases "j = i") (simp_all add: set_data_def upd_buf_def)
  qed (use bcD(1,2,4,5) [OF bc] in \<open>auto simp: set_data_def upd_buf_def dll_upd_buf\<close>)
  show "content ?t = (content s)(?n := d)"
  proof
    fix n
    consider "n = ?n" | j where "n \<noteq> ?n" "cached s n j" "b_valid (bufs s j)"
      | "n \<noteq> ?n" "\<And>j. cached s n j \<Longrightarrow> \<not> b_valid (bufs s j)"
      by blast
    then show "content ?t n = ((content s)(?n := d)) n"
    proof cases
      case 1
      then show ?thesis
        using content_cached [OF bc', of n i] ci vi by (simp add: c) (simp add: set_data_def upd_buf_def)
    next
      case (2 j)
      then have "j \<noteq> i" by (auto simp: cached_def)
      then show ?thesis
        using 2 content_cached [OF bc', of n j] content_cached [OF bc, of n j]
        by (simp add: c) (simp add: set_data_def upd_buf_def)
    next
      case 3
      have v: "b_valid (bufs ?t j) = b_valid (bufs s j)" for j
        by (simp add: set_data_def upd_buf_def)
      have "content ?t n = disk ?t n"
        using 3 by (intro content_uncached) (simp add: c v)
      then show ?thesis
        using 3 content_uncached [of s n] by (simp add: set_data_def)
    qed
  qed
  show "bio_frame s ?t" and "b_blockno (bufs ?t j) = b_blockno (bufs s j)"
    and "b_data (bufs ?t j) = (if j = i then d else b_data (bufs s j))"
    by (auto simp: bio_frame_def set_data_def upd_buf_def)
qed

section \<open>Initialisation\<close>

lemma binit_one_dll:
  assumes "dll (bufs s) xs" and "b \<notin> set xs" and "b \<noteq> HEAD"
  shows "dll (bufs (binit_one b s)) (b # xs)"
proof -
  from assms have c: "chain (nexts s) HEAD xs HEAD" "chain (prevs s) HEAD (rev xs) HEAD"
    and d: "distinct (HEAD # xs)"
    by (auto simp: dll_def)
  have "nexts s HEAD \<noteq> b"
    using chain_first [OF c(1)] assms(2,3) by (cases xs) auto
  then have n: "nexts (binit_one b s) = (nexts s)(b := nexts s HEAD, HEAD := b)"
    and p: "prevs (binit_one b s) = (prevs s)(b := HEAD, nexts s HEAD := b)"
    using assms(3) by (auto simp: binit_one_def Let_def initsleeplock_def initlock_def fun_eq_iff)
  show ?thesis
    using chain_link_front [OF c(1), of b] chain_link_back [OF c(2), of b] assms d
    by (simp add: dll_def n p chain_first [OF c(1)])
qed

lemma fold_binit_one_dll:
  assumes "dll (bufs s) xs" and "distinct ys" and "set ys \<inter> set (HEAD # xs) = {}"
  shows "dll (bufs (fold binit_one ys s)) (rev ys @ xs)"
  using assms
proof (induction ys arbitrary: s xs)
  case (Cons y ys)
  then have "dll (bufs (binit_one y s)) (y # xs)"
    by (intro binit_one_dll) auto
  with Cons.IH [OF this] Cons.prems show ?case by simp
qed simp

text \<open>After \<open>binit\<close> the list holds every buffer.\<close>

lemma binit_dll: "dll (bufs (binit s)) (rev [0..<NBUF])"
proof -
  have "dll (bufs (upd_buf HEAD (\<lambda>x. x\<lparr>b_next := HEAD\<rparr>) (upd_buf HEAD (\<lambda>x. x\<lparr>b_prev := HEAD\<rparr>)
     (initlock LkBcache ''bcache'' s)))) []"
    by (simp add: dll_def)
  from fold_binit_one_dll [OF this, of "[0..<NBUF]"] show ?thesis
    by (simp add: binit_def Let_def HEAD_def)
qed

definition unused_cache :: "nat \<Rightarrow> kstate \<Rightarrow> bool" where
  "unused_cache p s \<longleftrightarrow> running p s \<and> (\<forall>i. b_refcnt (bufs s i) = 0 \<and> \<not> b_valid (bufs s i)
     \<and> b_dev (bufs s i) = 0 \<and> \<not> sl_locked (slocks s (SlBuf i)))"

lemma running_initlock: "running p s \<Longrightarrow> running p (initlock lk n s)"
  by (auto simp: running_def cpu_ok_def free_lk_def intr_get_def initlock_def)

lemma unused_cache_upd:
  "unused_cache p s \<Longrightarrow> unused_cache p (initlock lk n s)"
  "unused_cache p s \<Longrightarrow> unused_cache p (initsleeplock l n s)"
  "unused_cache p s \<Longrightarrow> unused_cache p (upd_buf i (\<lambda>x. x\<lparr>b_next := v\<rparr>) s)"
  "unused_cache p s \<Longrightarrow> unused_cache p (upd_buf i (\<lambda>x. x\<lparr>b_prev := v\<rparr>) s)"
  unfolding unused_cache_def
  by (simp_all add: running_initlock initsleeplock_def Let_def upd_buf_def)
     (simp_all add: initlock_def)

lemma unused_cache_fold: "unused_cache p s \<Longrightarrow> unused_cache p (fold binit_one xs s)"
  by (induction xs arbitrary: s) (simp_all add: binit_one_def Let_def unused_cache_upd)

lemma binit_bc:
  assumes "unused_cache p s"
  shows "bc p {} {} (binit s)"
proof -
  have u: "unused_cache p (binit s)"
    using assms by (simp add: binit_def Let_def unused_cache_upd unused_cache_fold)
  then have "\<not> cached (binit s) n i" for n i
    by (simp add: cached_def unused_cache_def const_defs)
  moreover have "set (rev [0..<NBUF]) = {..<NBUF}"
    by auto
  ultimately show ?thesis
    unfolding bc_def buf_ok_def using u binit_dll [of s] by (auto simp: unused_cache_def)
qed

end
