(* ===== verification/Wal.thy ===== *)
theory Wal
  imports Prelude
begin

text \<open>
  The crash-safety argument of a redo log, independent of the kernel: a disk is a function from
  block numbers to blocks, a header block names the blocks of the committed transaction, and
  log slot \<open>k\<close> holds the new contents of the \<open>k\<close>-th of them. \<open>apply_writes\<close> performs a sequence of
  atomic block writes, so a crash is a prefix of it. The log of \<open>kernel/log.c\<close> is an instance.
\<close>

definition apply_writes :: "('a \<times> 'b) list \<Rightarrow> ('a \<Rightarrow> 'b) \<Rightarrow> 'a \<Rightarrow> 'b" where
  "apply_writes ws D = fold (\<lambda>(a, b) D. D(a := b)) ws D"

lemma apply_writes_simps [simp]:
  "apply_writes [] D = D"
  "apply_writes ((a, b) # ws) D = apply_writes ws (D(a := b))"
  "apply_writes (ws @ vs) D = apply_writes vs (apply_writes ws D)"
  by (simp_all add: apply_writes_def)

lemma apply_writes_other: "a \<notin> set (map fst ws) \<Longrightarrow> apply_writes ws D a = D a"
  by (induction ws arbitrary: D) auto

text \<open>The last write to a block counts.\<close>

lemma apply_writes_map_of:
  "apply_writes ws D a = (case map_of (rev ws) a of None \<Rightarrow> D a | Some b \<Rightarrow> b)"
  by (induction ws arbitrary: D) (auto split: option.split simp: map_add_def)

lemma apply_writes_cases: "apply_writes ws D a = D a \<or> (a, apply_writes ws D a) \<in> set ws"
  unfolding apply_writes_map_of by (cases "map_of (rev ws) a") (auto dest: map_of_SomeD)

lemma apply_writes_prefix: "apply_writes ws (apply_writes (take j ws) D) = apply_writes ws D"
proof
  fix a
  show "apply_writes ws (apply_writes (take j ws) D) a = apply_writes ws D a"
  proof (cases "a \<in> set (map fst ws)")
    case True
    then have "map_of (rev ws) a \<noteq> None" by (simp add: map_of_eq_None_iff image_def)
    then show ?thesis by (auto simp: apply_writes_map_of)
  next
    case False
    then have "a \<notin> set (map fst (take j ws))" by (auto dest: in_set_takeD)
    with False show ?thesis by (simp add: apply_writes_other del: set_map)
  qed
qed

lemma apply_writes_graph:
  "apply_writes (map (\<lambda>a. (a, f a)) xs) D a = (if a \<in> set xs then f a else D a)"
  by (induction xs arbitrary: D) auto

lemma apply_writes_indexed:
  assumes "\<And>i j. i < n \<Longrightarrow> j < n \<Longrightarrow> g i = g j \<Longrightarrow> i = j" and "k < n"
  shows "apply_writes (map (\<lambda>i. (g i, f i)) [0..<n]) D (g k) = f k"
  using assms
proof (induction n)
  case (Suc n)
  show ?case
  proof (cases "k = n")
    case False
    with Suc have "g n \<noteq> g k" by (metis lessI)
    with Suc False show ?thesis by simp
  qed simp
qed simp

text \<open>Recovery: copy every block the header names from its log slot to its home.\<close>

definition replay :: "'a \<Rightarrow> (nat \<Rightarrow> 'a) \<Rightarrow> ('b \<Rightarrow> 'a list) \<Rightarrow> ('a \<Rightarrow> 'b) \<Rightarrow> 'a \<Rightarrow> 'b" where
  "replay hb slot dec D =
     apply_writes (map (\<lambda>k. (dec (D hb) ! k, D (slot k))) [0..<length (dec (D hb))]) D"

text \<open>The writes of a commit: the log slots, the header, the homes, the empty header.\<close>

definition commit_writes :: "'a \<Rightarrow> (nat \<Rightarrow> 'a) \<Rightarrow> 'b \<Rightarrow> 'b \<Rightarrow> 'a list \<Rightarrow> ('a \<Rightarrow> 'b) \<Rightarrow> ('a \<times> 'b) list" where
  "commit_writes hb slot h1 h0 bs new =
     map (\<lambda>k. (slot k, new (bs ! k))) [0..<length bs] @ [(hb, h1)]
     @ map (\<lambda>b. (b, new b)) bs @ [(hb, h0)]"

locale redo_log =
  fixes hb :: 'a and slot :: "nat \<Rightarrow> 'a" and dec :: "'b \<Rightarrow> 'a list" and cap :: nat
  assumes slot_inj: "i < cap \<Longrightarrow> j < cap \<Longrightarrow> slot i = slot j \<Longrightarrow> i = j"
    and slot_hb: "i < cap \<Longrightarrow> slot i \<noteq> hb"
begin

definition home :: "'a \<Rightarrow> bool" where
  "home a \<longleftrightarrow> a \<noteq> hb \<and> (\<forall>i < cap. a \<noteq> slot i)"

lemma replay_none: "dec (D hb) = [] \<Longrightarrow> replay hb slot dec D = D"
  by (simp add: replay_def)

lemma map_nth_writes: "map (\<lambda>k. (bs ! k, f (bs ! k))) [0..<length bs] = map (\<lambda>b. (b, f b)) bs"
  by (rule nth_equalityI) auto

lemma replay_committed:
  assumes "dec (D hb) = bs" and "\<And>k. k < length bs \<Longrightarrow> D (slot k) = new (bs ! k)"
  shows "replay hb slot dec D a = (if a \<in> set bs then new a else D a)"
proof -
  have "map (\<lambda>k. (bs ! k, D (slot k))) [0..<length bs] = map (\<lambda>k. (bs ! k, new (bs ! k))) [0..<length bs]"
    using assms(2) by simp
  then show ?thesis
    by (simp add: replay_def assms(1) map_nth_writes apply_writes_graph)
qed

lemma home_slot: "home a \<Longrightarrow> i < cap \<Longrightarrow> a \<noteq> slot i" and home_hb: "home a \<Longrightarrow> a \<noteq> hb"
  by (auto simp: home_def)

lemma home_not_slot: "home a \<Longrightarrow> n \<le> cap \<Longrightarrow> a \<notin> slot ` {0..<n}"
  by (auto dest: home_slot [OF _ less_le_trans])

lemma hb_not_slot: "n \<le> cap \<Longrightarrow> hb \<notin> slot ` {0..<n}"
  by (auto dest: slot_hb [OF less_le_trans])

lemma logged_not_log:
  assumes "\<And>b. b \<in> set bs \<Longrightarrow> home b" and "length bs \<le> cap"
  shows "hb \<notin> set bs" and "k < length bs \<Longrightarrow> slot k \<notin> set bs"
  using assms home_hb home_slot [of "slot k" k] by (auto dest: less_le_trans)

text \<open>Before the header is written no home block has changed; after it, whatever prefix of the
  installation has reached the disk, recovery completes the transaction.\<close>

lemma commit_prefix_old:
  assumes "dec (D hb) = []" and "length bs \<le> cap" and "j \<le> length bs" and "home a"
  shows "replay hb slot dec (apply_writes (take j (commit_writes hb slot h1 h0 bs new)) D) a = D a"
proof -
  let ?W = "map (\<lambda>k. (slot k, new (bs ! k))) [0..<j]"
  have t: "take j (commit_writes hb slot h1 h0 bs new) = ?W"
    using assms(3) by (simp add: commit_writes_def take_map)
  have "dec (apply_writes ?W D hb) = []"
    using assms(1-3) hb_not_slot [of j] by (simp add: apply_writes_other image_image)
  then show ?thesis
    using home_not_slot [OF assms(4), of j] assms(2,3)
    by (simp add: t replay_none apply_writes_other image_image)
qed

lemma commit_prefix_new:
  assumes "length bs \<le> cap" and "\<And>b. b \<in> set bs \<Longrightarrow> home b" and "dec h1 = bs" and "dec h0 = []"
    and "length bs < j" and "home a"
  shows "replay hb slot dec (apply_writes (take j (commit_writes hb slot h1 h0 bs new)) D) a
    = (if a \<in> set bs then new a else D a)"
proof -
  let ?n = "length bs" and ?I = "map (\<lambda>b. (b, new b)) bs"
  define E where "E = (apply_writes (map (\<lambda>k. (slot k, new (bs ! k))) [0..<?n]) D)(hb := h1)"
  have slots: "E (slot k) = new (bs ! k)" if "k < ?n" for k
    unfolding E_def using that assms(1) slot_hb [of k] slot_inj
    by (subst fun_upd_other) (auto intro!: apply_writes_indexed)
  have homes: "E a = D a"
    using home_not_slot [OF assms(6,1)] assms(6)
    by (simp add: E_def apply_writes_other image_image home_def)
  define F where "F = apply_writes (take (j - Suc ?n) ?I) E"
  have sub: "x \<notin> set bs \<Longrightarrow> F x = E x" for x
    unfolding F_def by (intro apply_writes_other) (auto simp: take_map dest: in_set_takeD)
  have F: "F hb = h1" "k < ?n \<Longrightarrow> F (slot k) = new (bs ! k)" "a \<notin> set bs \<Longrightarrow> F a = D a" for k
    using sub slots homes logged_not_log [OF assms(2,1)] by (auto simp: E_def)
  show ?thesis
  proof (cases "j \<le> 2 * ?n + 1")
    case True
    have "take j (commit_writes hb slot h1 h0 bs new) =
        map (\<lambda>k. (slot k, new (bs ! k))) [0..<?n] @ (hb, h1) # take (j - Suc ?n) ?I"
      using True assms(5) by (cases "j - ?n") (simp_all add: commit_writes_def diff_Suc)
    then have "apply_writes (take j (commit_writes hb slot h1 h0 bs new)) D = F"
      by (simp add: F_def E_def)
    then show ?thesis
      using replay_committed [of F bs new a] F assms(3) by simp
  next
    case False
    then have "take j (commit_writes hb slot h1 h0 bs new) = commit_writes hb slot h1 h0 bs new"
      by (simp add: commit_writes_def)
    then have "apply_writes (take j (commit_writes hb slot h1 h0 bs new)) D = (apply_writes ?I E)(hb := h0)"
      by (simp add: commit_writes_def E_def)
    then show ?thesis
      using assms(4,6) homes by (auto simp: replay_none apply_writes_graph home_def)
  qed
qed

text \<open>At every crash point the header on disk is the one before, the transaction's, or empty.\<close>

lemma commit_prefix_head:
  assumes "length bs \<le> cap" and "\<And>b. b \<in> set bs \<Longrightarrow> home b"
  shows "apply_writes (take j (commit_writes hb slot h1 h0 bs new)) D hb \<in> {D hb, h1, h0}"
proof -
  let ?ws = "take j (commit_writes hb slot h1 h0 bs new)"
  have nb: "hb \<notin> set bs"
    using assms by (auto dest: home_hb)
  have ns: "hb \<notin> slot ` {0..<length bs}"
    by (rule hb_not_slot [OF assms(1)])
  have "apply_writes ?ws D hb = D hb \<or> (hb, apply_writes ?ws D hb) \<in> set (commit_writes hb slot h1 h0 bs new)"
    using apply_writes_cases [of ?ws D hb] by (auto dest: in_set_takeD)
  moreover have "b = h1 \<or> b = h0" if "(hb, b) \<in> set (commit_writes hb slot h1 h0 bs new)" for b
    using that nb ns by (auto simp: commit_writes_def)
  ultimately show ?thesis by blast
qed

text \<open>All or nothing, at every crash point.\<close>

lemma commit_crash:
  assumes "dec (D hb) = []" and "length bs \<le> cap" and "\<And>b. b \<in> set bs \<Longrightarrow> home b"
    and "dec h1 = bs" and "dec h0 = []"
  shows "\<forall>a. home a \<longrightarrow>
      replay hb slot dec (apply_writes (take j (commit_writes hb slot h1 h0 bs new)) D) a
      = (if j \<le> length bs then D a else if a \<in> set bs then new a else D a)"
  using assms commit_prefix_old [of D bs j _ h1 h0 new] commit_prefix_new [of bs h1 h0 j _ new D]
  by auto

text \<open>Recovery can itself be cut short and run again.\<close>

lemma replay_again:
  assumes "length (dec (D hb)) \<le> cap" and "\<And>b. b \<in> set (dec (D hb)) \<Longrightarrow> home b"
  shows "replay hb slot dec (apply_writes (take j (map (\<lambda>k. (dec (D hb) ! k, D (slot k)))
      [0..<length (dec (D hb))])) D) = replay hb slot dec D"
proof -
  let ?bs = "dec (D hb)"
  let ?W = "map (\<lambda>k. (?bs ! k, D (slot k))) [0..<length ?bs]"
  define E where "E = apply_writes (take j ?W) D"
  have nw: "x \<notin> set ?bs \<Longrightarrow> E x = D x" for x
    unfolding E_def by (intro apply_writes_other) (auto simp: take_map dest!: in_set_takeD)
  have h: "E hb = D hb" and s: "k < length ?bs \<Longrightarrow> E (slot k) = D (slot k)" for k
    using nw logged_not_log [OF assms(2,1)] by auto
  have W: "map (\<lambda>k. (?bs ! k, E (slot k))) [0..<length ?bs] = ?W"
    using s by simp
  show ?thesis
    unfolding E_def [symmetric] unfolding replay_def h W by (simp add: E_def apply_writes_prefix)
qed

end

end
