(* ===== verification/Log.thy ===== *)
theory Log
  imports Bio Wal
begin

text \<open>
  \<open>kernel/log.c\<close>: the redo log of file-system transactions. \<open>klog\<close> is \<open>struct log\<close>, its
  \<open>lh_n\<close> and \<open>lh_block\<close> the in-memory header; the on-disk header is the block at \<open>log.start\<close>, whose
  words are read and written little-endian as the machine does. Whole-block \<open>memmove\<close>s are
  assignments of the block.

  The lemmas follow the disk writes of \<open>commit\<close> and \<open>recover_from_log\<close> one by one and show
  that they are the write sequence of \<open>Wal.redo_log\<close>, so a transaction is atomic with respect
  to crashes; that \<open>log_write\<close> records and pins a block once; and what \<open>begin_op\<close> admits.
\<close>

definition upd_log :: "(log \<Rightarrow> log) \<Rightarrow> kstate \<Rightarrow> kstate" where
  "upd_log f s = s\<lparr>klog := f (klog s)\<rparr>"

definition logdev :: "kstate \<Rightarrow> uint32" where
  "logdev s = word_of_int (log_dev (klog s))"

definition install_trans_one :: "int \<Rightarrow> nat \<Rightarrow> kstate \<Rightarrow> unit option kres" where
  "install_trans_one recovering tail s =
     andthen (bread (logdev s) (word_of_int (log_start (klog s) + int tail + 1)) s) (\<lambda>lbuf s.
     andthen (bread (logdev s) (lh_block (klog s) tail) s) (\<lambda>dbuf s.
     let s = set_data dbuf (b_data (bufs s lbuf)) s in
     andthen (bwrite dbuf s) (\<lambda>_ s.
     andthen (if recovering = 0 then bunpin dbuf s else Ok () s) (\<lambda>_ s.
     andthen (brelse lbuf s) (\<lambda>_ s.
     andthen (brelse dbuf s) (\<lambda>_ s.
     Ok None s))))))"

definition install_trans :: "int \<Rightarrow> kstate \<Rightarrow> unit kres" where
  "install_trans recovering s =
     andthen (for_each [0..<nat (lh_n (klog s))] (install_trans_one recovering) s) (\<lambda>_ s. Ok () s)"

definition read_head :: "kstate \<Rightarrow> unit kres" where
  "read_head s =
     andthen (bread (logdev s) (word_of_int (log_start (klog s))) s) (\<lambda>buf s.
     let lh = b_data (bufs s buf);
         n = sint (get32 lh 0);
         s = upd_log (\<lambda>l. l\<lparr>lh_n := n\<rparr>) s;
         s = upd_log (\<lambda>l. l\<lparr>lh_block := (\<lambda>i. if int i < n then get32 lh (4 + 4 * i) else lh_block l i)\<rparr>) s
     in brelse buf s)"

definition write_head :: "kstate \<Rightarrow> unit kres" where
  "write_head s =
     andthen (bread (logdev s) (word_of_int (log_start (klog s))) s) (\<lambda>buf s.
     let hb = put32 (b_data (bufs s buf)) 0 (word_of_int (lh_n (klog s)));
         hb = put32s hb 4 (nat (lh_n (klog s))) (lh_block (klog s));
         s = set_data buf hb s
     in andthen (bwrite buf s) (\<lambda>_ s. brelse buf s))"

definition recover_from_log :: "kstate \<Rightarrow> unit kres" where
  "recover_from_log s =
     andthen (read_head s) (\<lambda>_ s.
     andthen (install_trans 1 s) (\<lambda>_ s.
     write_head (upd_log (\<lambda>l. l\<lparr>lh_n := 0\<rparr>) s)))"

text \<open>\<open>sizeof (struct logheader)\<close> is that of one \<open>int\<close> and \<open>LOGSIZE\<close> more.\<close>

definition initlog :: "int \<Rightarrow> superblock \<Rightarrow> kstate \<Rightarrow> unit kres" where
  "initlog dev super s =
     (if 4 + 4 * LOGSIZE \<ge> BSIZE then Panic ''initlog: too big logheader''
      else
        let s = initlock LkLog ''log'' s;
            s = upd_log (\<lambda>l. l\<lparr>log_start := sint (sb_logstart super)\<rparr>) s;
            s = upd_log (\<lambda>l. l\<lparr>log_size := sint (sb_nlog super)\<rparr>) s;
            s = upd_log (\<lambda>l. l\<lparr>log_dev := dev\<rparr>) s
        in recover_from_log s)"

definition begin_op_try :: "unit \<Rightarrow> kstate \<Rightarrow> (unit + unit) kres" where
  "begin_op_try u s =
     (if log_committing (klog s) then
        andthen (sleep ChLog LkLog s) (\<lambda>_ s. Ok (Inl ()) s)
      else if lh_n (klog s) + (log_outstanding (klog s) + 1) * int MAXOPBLOCKS > int LOGSIZE then
        andthen (sleep ChLog LkLog s) (\<lambda>_ s. Ok (Inl ()) s)
      else
        andthen (release LkLog (upd_log (\<lambda>l. l\<lparr>log_outstanding := log_outstanding l + 1\<rparr>) s)) (\<lambda>_ s.
        Ok (Inr ()) s))"

definition begin_op :: "kstate \<Rightarrow> unit kres" where
  "begin_op s =
     andthen (acquire LkLog s) (\<lambda>_ s.
     wloop (\<lambda>_. 0) begin_op_try (Ok (Inl ()) s))"

definition write_log_one :: "nat \<Rightarrow> kstate \<Rightarrow> unit option kres" where
  "write_log_one tail s =
     andthen (bread (logdev s) (word_of_int (log_start (klog s) + int tail + 1)) s) (\<lambda>to s.
     andthen (bread (logdev s) (lh_block (klog s) tail) s) (\<lambda>from s.
     let s = set_data to (b_data (bufs s from)) s in
     andthen (bwrite to s) (\<lambda>_ s.
     andthen (brelse from s) (\<lambda>_ s.
     andthen (brelse to s) (\<lambda>_ s.
     Ok None s)))))"

definition write_log :: "kstate \<Rightarrow> unit kres" where
  "write_log s =
     andthen (for_each [0..<nat (lh_n (klog s))] write_log_one s) (\<lambda>_ s. Ok () s)"

definition commit :: "kstate \<Rightarrow> unit kres" where
  "commit s =
     (if lh_n (klog s) > 0 then
        andthen (write_log s) (\<lambda>_ s.
        andthen (write_head s) (\<lambda>_ s.
        andthen (install_trans 0 s) (\<lambda>_ s.
        write_head (upd_log (\<lambda>l. l\<lparr>lh_n := 0\<rparr>) s))))
      else Ok () s)"

definition end_op :: "kstate \<Rightarrow> unit kres" where
  "end_op s =
     andthen (acquire LkLog s) (\<lambda>_ s.
     let s = upd_log (\<lambda>l. l\<lparr>log_outstanding := log_outstanding l - 1\<rparr>) s in
     if log_committing (klog s) then Panic ''log.committing''
     else if log_outstanding (klog s) = 0 then
       andthen (release LkLog (upd_log (\<lambda>l. l\<lparr>log_committing := True\<rparr>) s)) (\<lambda>_ s.
       andthen (commit s) (\<lambda>_ s.
       andthen (acquire LkLog s) (\<lambda>_ s.
       andthen (wakeup ChLog (upd_log (\<lambda>l. l\<lparr>log_committing := False\<rparr>) s)) (\<lambda>_ s.
       release LkLog s))))
     else
       andthen (wakeup ChLog s) (\<lambda>_ s.
       release LkLog s))"

definition log_find :: "log \<Rightarrow> uint32 \<Rightarrow> nat" where
  "log_find l bno =
     (case find (\<lambda>i. lh_block l i = bno) [0..<nat (lh_n l)] of Some i \<Rightarrow> i | None \<Rightarrow> nat (lh_n l))"

definition log_write :: "nat \<Rightarrow> kstate \<Rightarrow> unit kres" where
  "log_write b s =
     andthen (acquire LkLog s) (\<lambda>_ s.
     if lh_n (klog s) \<ge> int LOGSIZE \<or> lh_n (klog s) \<ge> log_size (klog s) - 1
     then Panic ''too big a transaction''
     else if log_outstanding (klog s) < 1 then Panic ''log_write outside of trans''
     else
       let i = log_find (klog s) (b_blockno (bufs s b));
           s = upd_log (\<lambda>l. l\<lparr>lh_block := (lh_block l)(i := b_blockno (bufs s b))\<rparr>) s
       in
       andthen (if int i = lh_n (klog s)
                then andthen (bpin b s) (\<lambda>_ s. Ok () (upd_log (\<lambda>l. l\<lparr>lh_n := lh_n l + 1\<rparr>) s))
                else Ok () s) (\<lambda>_ s.
       release LkLog s))"

section \<open>Following the disk writes\<close>

text \<open>Only the cache and the disk have changed.\<close>

definition disk_frame :: "kstate \<Rightarrow> kstate \<Rightarrow> bool" where
  "disk_frame s t \<longleftrightarrow>
     t = s\<lparr>bufs := bufs t, slocks := slocks t, disk := disk t, dwrites := dwrites t\<rparr>
     \<and> (\<forall>l. (\<forall>i. l \<noteq> SlBuf i) \<longrightarrow> slocks t l = slocks s l)"

lemma disk_frame_refl [simp]: "disk_frame s s"
  by (simp add: disk_frame_def)

lemma disk_frame_trans:
  assumes "disk_frame s t" and "disk_frame t u"
  shows "disk_frame s u"
proof -
  from assms have t: "t = s\<lparr>bufs := bufs t, slocks := slocks t, disk := disk t, dwrites := dwrites t\<rparr>"
    and u: "u = t\<lparr>bufs := bufs u, slocks := slocks u, disk := disk u, dwrites := dwrites u\<rparr>"
    by (auto simp: disk_frame_def)
  have "u = (s\<lparr>bufs := bufs t, slocks := slocks t, disk := disk t, dwrites := dwrites t\<rparr>)
      \<lparr>bufs := bufs u, slocks := slocks u, disk := disk u, dwrites := dwrites u\<rparr>"
    unfolding t [symmetric] by (rule u)
  then show ?thesis
    using assms by (simp add: disk_frame_def)
qed

lemma bio_disk_frame: "bio_frame s t \<Longrightarrow> disk_frame s t"
  unfolding bio_frame_def disk_frame_def
  by (metis (no_types, lifting) kstate.surjective kstate.update_convs(14,15))

lemma disk_frame_write:
  "disk_frame s (s\<lparr>disk := d, dwrites := w\<rparr>)"
  by (simp add: disk_frame_def)

lemma disk_frame_fields:
  assumes "disk_frame s t"
  shows "klog t = klog s" "sb t = sb s" "procs t = procs s" "itable t = itable s" "mem t = mem s"
    "logdev t = logdev s" "slocks t (SlInode k) = slocks s (SlInode k)" "locks t = locks s"
    "cpu t = cpu s" "csr t = csr s"
proof -
  from assms have t: "t = s\<lparr>bufs := bufs t, slocks := slocks t, disk := disk t, dwrites := dwrites t\<rparr>"
    and l: "\<forall>l. (\<forall>i. l \<noteq> SlBuf i) \<longrightarrow> slocks t l = slocks s l"
    by (auto simp: disk_frame_def)
  show "klog t = klog s" "sb t = sb s" "procs t = procs s" "itable t = itable s" "mem t = mem s"
    "logdev t = logdev s" "locks t = locks s" "cpu t = cpu s" "csr t = csr s"
    unfolding logdev_def by (subst t; simp)+
  show "slocks t (SlInode k) = slocks s (SlInode k)"
    using l by simp
qed

lemma held_cached: "bc p H P s \<Longrightarrow> i \<in> H \<union> P \<Longrightarrow> cached s (b_blockno (bufs s i)) i"
  using bcD(4,5,9,10) unfolding cached_def by blast

lemma held_content: "bc p H P s \<Longrightarrow> i \<in> H \<union> P \<Longrightarrow> b_data (bufs s i) = content s (b_blockno (bufs s i))"
  using content_cached held_cached bcD(10) by metis

text \<open>A block that is neither held nor pinned is as on disk.\<close>

lemma content_clean:
  assumes bc: "bc p H P s" and "\<forall>i \<in> H \<union> P. b_blockno (bufs s i) \<noteq> n"
  shows "content s n = disk s n"
proof (cases "\<exists>i. cached s n i \<and> b_valid (bufs s i)")
  case True
  then obtain i where i: "cached s n i" "b_valid (bufs s i)" by blast
  then have "i < NBUF" "b_blockno (bufs s i) = n" "i \<notin> H \<union> P"
    using assms(2) by (auto simp: cached_def)
  then show ?thesis
    using content_cached [OF bc i] bcD(11) [OF bc _ _ i(2)] by simp
next
  case False
  then show ?thesis using content_uncached by blast
qed

text \<open>Reading two different blocks, the second of which is pinned or there is room for.\<close>

lemma bread_two:
  assumes bc: "bc p {} P s" and "a \<noteq> b" and "card P < NBUF"
    and b: "(\<exists>i \<in> P. b_blockno (bufs s i) = b) \<or> card P + 1 < NBUF"
  shows "\<exists>i j t u. bread ROOTDEV a s = Ok i t \<and> bread ROOTDEV b t = Ok j u \<and> i \<noteq> j
     \<and> bc p {i, j} P u \<and> bio_frame s t \<and> bio_frame s u \<and> content u = content s
     \<and> b_blockno (bufs u i) = a \<and> b_blockno (bufs u j) = b
     \<and> (\<forall>k \<in> P. b_blockno (bufs u k) = b_blockno (bufs s k))"
proof -
  have cr: "can_read {} P a s"
    using assms(3) by (simp add: can_read_def)
  obtain i t where r1: "bread ROOTDEV a s = Ok i t" and t: "bc p {i} P t" "bio_frame s t"
      "content t = content s" "b_blockno (bufs t i) = a" "\<forall>j. j \<noteq> i \<longrightarrow> bufs t j = bufs s j"
      "i \<in> P \<longrightarrow> b_blockno (bufs s i) = a"
    using bread_spec [OF bc cr] unfolding returns_iff by (auto simp: insert_commute)
  have fin: "finite P" using bcD(5) [OF bc] finite_subset by blast
  have cr': "can_read {i} P b t"
    unfolding can_read_def
  proof (intro conjI ballI)
    show "b_blockno (bufs t k) \<noteq> b" if "k \<in> {i}" for k
      using that t(4) assms(2) by simp
    show "(\<exists>i. cached t b i) \<or> card ({i} \<union> P) < NBUF"
      using b
    proof
      assume "\<exists>k \<in> P. b_blockno (bufs s k) = b"
      then obtain k where k: "k \<in> P" "b_blockno (bufs s k) = b" by blast
      with t(4,5,6) assms(2) have "b_blockno (bufs t k) = b" by metis
      then show ?thesis using held_cached [OF t(1), of k] k by auto
    next
      assume "card P + 1 < NBUF"
      then show ?thesis using fin card_insert_le_m1 [of "card P + 1" P i] by (auto simp: card_insert_if)
    qed
  qed
  obtain j u where r2: "bread ROOTDEV b t = Ok j u" and u: "j \<noteq> i" "bc p {i, j} P u" "bio_frame t u"
      "content u = content t" "b_blockno (bufs u j) = b" "\<forall>k. k \<noteq> j \<longrightarrow> bufs u k = bufs t k"
      "j \<in> P \<longrightarrow> b_blockno (bufs t j) = b"
    using bread_spec [OF t(1) cr'] unfolding returns_iff by (auto simp: insert_commute)
  have "\<forall>k \<in> P. b_blockno (bufs u k) = b_blockno (bufs s k)"
    using t u by metis
  then show ?thesis
    using r1 r2 t u bio_frame_trans [OF t(2) u(3)] by auto
qed

lemma brelse_two:
  assumes bc: "bc p {i, j} P s" and "i \<noteq> j"
    and "i \<notin> P \<Longrightarrow> b_data (bufs s i) = disk s (b_blockno (bufs s i))"
    and "j \<notin> P \<Longrightarrow> b_data (bufs s j) = disk s (b_blockno (bufs s j))"
  shows "\<exists>t u. brelse i s = Ok () t \<and> brelse j t = Ok () u \<and> bc p {} P u \<and> bio_frame s u
     \<and> content u = content s \<and> (\<forall>k. b_blockno (bufs u k) = b_blockno (bufs s k))"
proof -
  have "i \<in> {i, j}" by simp
  from brelse_spec [OF bc this assms(3)] obtain t where t: "brelse i s = Ok () t"
    "bc p ({i, j} - {i}) P t" "bio_frame s t" "content t = content s"
    "\<forall>k. b_blockno (bufs t k) = b_blockno (bufs s k) \<and> b_data (bufs t k) = b_data (bufs s k)"
    unfolding returns_iff by auto
  have "{i, j} - {i} = {j}" using assms(2) by auto
  with t(2) have bj: "bc p {j} P t" by simp
  have "j \<notin> P \<Longrightarrow> b_data (bufs t j) = disk t (b_blockno (bufs t j))"
    using assms(4) t(5) bio_frame_fields(1) [OF t(3)] by simp
  from brelse_spec [OF bj _ this] obtain u where u: "brelse j t = Ok () u" "bc p {} P u" "bio_frame t u"
    "content u = content t" "\<forall>k. b_blockno (bufs u k) = b_blockno (bufs t k)"
    unfolding returns_iff by auto
  show ?thesis
    using t u bio_frame_trans [OF t(3) u(3)] by auto
qed

lemma store_spec:
  assumes bc: "bc p H P s" and i: "i \<in> H" and n: "b_blockno (bufs s i) = n"
  shows "\<exists>t. bwrite i (set_data i d s) = Ok () t \<and> bc p H P t \<and> disk_frame s t
     \<and> content t = (content s)(n := d) \<and> disk t = (disk s)(n := d)
     \<and> dwrites t = (n, d) # dwrites s \<and> (\<forall>k. b_blockno (bufs t k) = b_blockno (bufs s k))
     \<and> (\<forall>k. b_data (bufs t k) = (if k = i then d else b_data (bufs s k)))"
proof -
  let ?v = "set_data i d s"
  note v = set_data_spec [OF bc i, of d]
  let ?w = "?v\<lparr>disk := (disk s)(n := d), dwrites := (n, d) # dwrites s\<rparr>"
  have f: "disk ?v = disk s" "dwrites ?v = dwrites s"
    using bio_frame_fields [OF v(3)] by auto
  have "bwrite i ?v = Ok () ?w \<and> bc p H P ?w \<and> content ?w = content ?v"
    using bwrite_spec [OF v(1) i] by (simp add: returns_iff v(4,5) n f)
  moreover have "disk_frame s ?w"
    by (rule disk_frame_trans [OF bio_disk_frame [OF v(3)] disk_frame_write])
  ultimately show ?thesis
    using v n by (intro exI [of _ ?w]) simp
qed

text \<open>One round of \<open>write_log\<close>: the cached copy of a logged block goes to its log slot.\<close>

lemma write_log_one_spec:
  assumes bc: "bc p {} P s" and dev: "logdev s = ROOTDEV" and "card P < NBUF"
    and sl: "sl = word_of_int (log_start (klog s) + int tail + 1)" and b: "b = lh_block (klog s) tail"
    and "sl \<noteq> b" and pinned: "\<exists>i \<in> P. b_blockno (bufs s i) = b"
  shows "returns (write_log_one tail s) (\<lambda>r t. r = None \<and> bc p {} P t \<and> disk_frame s t
     \<and> content t = (content s)(sl := content s b) \<and> disk t = (disk s)(sl := content s b)
     \<and> dwrites t = (sl, content s b) # dwrites s
     \<and> (\<forall>i \<in> P. b_blockno (bufs t i) = b_blockno (bufs s i)))"
proof -
  obtain i j t u where r: "bread ROOTDEV sl s = Ok i t" "bread ROOTDEV b t = Ok j u" and ij: "i \<noteq> j"
    and u: "bc p {i, j} P u" "bio_frame s t" "bio_frame s u" "content u = content s"
      "b_blockno (bufs u i) = sl" "b_blockno (bufs u j) = b"
      "\<forall>k \<in> P. b_blockno (bufs u k) = b_blockno (bufs s k)"
    using bread_two [OF bc assms(6,3)] pinned by blast
  have jP: "j \<in> P"
    using pinned u bcD(3) [OF u(1) held_cached [OF u(1), of j]] held_cached [OF u(1)]
    by (metis UnI1 UnI2 insertCI)
  have dj: "b_data (bufs u j) = content s b"
    using held_content [OF u(1), of j] u by simp
  obtain w where w: "bwrite i (set_data i (content s b) u) = Ok () w" "bc p {i, j} P w"
      "disk_frame u w" "content w = (content u)(sl := content s b)" "disk w = (disk u)(sl := content s b)"
      "dwrites w = (sl, content s b) # dwrites u" "\<forall>k. b_blockno (bufs w k) = b_blockno (bufs u k)"
      "\<forall>k. b_data (bufs w k) = (if k = i then content s b else b_data (bufs u k))"
    using store_spec [OF u(1) _ u(5), of "content s b"] by auto
  have "i \<notin> P \<Longrightarrow> b_data (bufs w i) = disk w (b_blockno (bufs w i))"
    using w u by simp
  then obtain x y where x: "brelse j w = Ok () x" "brelse i x = Ok () y" and y: "bc p {} P y" "bio_frame w y"
     "content y = content w" "\<forall>k. b_blockno (bufs y k) = b_blockno (bufs w k)"
    using brelse_two [of p j i P w] w(2) ij jP by (auto simp: insert_commute)
  have df: "disk_frame s y"
    using disk_frame_trans [OF bio_disk_frame [OF u(3)] disk_frame_trans [OF w(3) bio_disk_frame [OF y(2)]]] .
  have "logdev t = ROOTDEV" "lh_block (klog t) tail = b"
    using bio_frame_fields(3) [OF u(2)] dev b by (simp_all add: logdev_def)
  then have "write_log_one tail s = Ok None y"
    unfolding write_log_one_def dev sl [symmetric] using r w(1) x dj by simp
  then show ?thesis
    using y w df u bio_frame_fields(1,2) [OF y(2)] bio_frame_fields(1,2) [OF u(3)] by simp
qed

text \<open>One round of \<open>install_trans\<close>: a log slot goes to the block's home, and the block is unpinned
  when this is a commit.\<close>

lemma install_trans_one_spec:
  assumes bc: "bc p {} P s" and dev: "logdev s = ROOTDEV" and "card P < NBUF"
    and sl: "sl = word_of_int (log_start (klog s) + int tail + 1)" and b: "b = lh_block (klog s) tail"
    and "sl \<noteq> b" and unp: "\<forall>i \<in> P. b_blockno (bufs s i) \<noteq> sl"
    and pinned: "if recovering = 0 then k \<in> P \<and> b_blockno (bufs s k) = b \<and> Q = P - {k} else P = {} \<and> Q = {}"
  shows "returns (install_trans_one recovering tail s) (\<lambda>r t. r = None \<and> bc p {} Q t \<and> disk_frame s t
     \<and> content t = (content s)(b := content s sl) \<and> disk t = (disk s)(b := content s sl)
     \<and> dwrites t = (b, content s sl) # dwrites s
     \<and> (\<forall>i \<in> P. b_blockno (bufs t i) = b_blockno (bufs s i)))"
proof -
  have room: "(\<exists>i \<in> P. b_blockno (bufs s i) = b) \<or> card P + 1 < NBUF"
    using pinned by (auto split: if_splits simp: const_defs)
  obtain i j t u where r: "bread ROOTDEV sl s = Ok i t" "bread ROOTDEV b t = Ok j u" and ij: "i \<noteq> j"
    and u: "bc p {i, j} P u" "bio_frame s t" "bio_frame s u" "content u = content s"
      "b_blockno (bufs u i) = sl" "b_blockno (bufs u j) = b"
      "\<forall>k \<in> P. b_blockno (bufs u k) = b_blockno (bufs s k)"
    using bread_two [OF bc assms(6,3) room] by blast
  have jk: "recovering = 0 \<Longrightarrow> j = k \<and> k \<in> P"
    using pinned u bcD(3) [OF u(1) held_cached [OF u(1), of j], of k] held_cached [OF u(1), of k] by simp
  have di: "b_data (bufs u i) = content s sl"
    using held_content [OF u(1), of i] u by simp
  obtain w where w: "bwrite j (set_data j (content s sl) u) = Ok () w" "bc p {i, j} P w"
      "disk_frame u w" "content w = (content u)(b := content s sl)" "disk w = (disk u)(b := content s sl)"
      "dwrites w = (b, content s sl) # dwrites u" "\<forall>k. b_blockno (bufs w k) = b_blockno (bufs u k)"
      "\<forall>k. b_data (bufs w k) = (if k = j then content s sl else b_data (bufs u k))"
    using store_spec [OF u(1) _ u(6), of "content s sl"] by auto
  obtain x where x: "(if recovering = 0 then bunpin j w else Ok () w) = Ok () x" "bc p {i, j} Q x"
      "bio_frame w x" "content x = content w" "\<forall>k. b_blockno (bufs x k) = b_blockno (bufs w k)"
      "\<forall>k. b_data (bufs x k) = b_data (bufs w k)"
  proof (cases "recovering = 0")
    case True
    then show ?thesis
      using bunpin_spec [OF w(2), of j] jk pinned that by (auto simp: returns_iff)
  next
    case False
    then show ?thesis using w(2) pinned that by auto
  qed
  have dx: "disk x = (disk u)(b := content s sl)"
    using bio_frame_fields(1) [OF x(3)] w(5) by simp
  have "content s sl = disk s sl"
    using content_clean [OF bc, of sl] unp by simp
  then have "b_data (bufs x i) = disk x (b_blockno (bufs x i))"
    and "b_data (bufs x j) = disk x (b_blockno (bufs x j))"
    using dx w x u ij assms(6) di bio_frame_fields(1) [OF u(3)] by auto
  then obtain y z where y: "brelse i x = Ok () y" "brelse j y = Ok () z" and z: "bc p {} Q z" "bio_frame x z"
     "content z = content x" "\<forall>k. b_blockno (bufs z k) = b_blockno (bufs x k)"
    using brelse_two [of p i j Q x] x(2) ij by auto
  have df: "disk_frame s z"
    by (rule disk_frame_trans [OF bio_disk_frame [OF u(3)] disk_frame_trans [OF w(3)
          bio_disk_frame [OF bio_frame_trans [OF x(3) z(2)]]]])
  have "logdev t = ROOTDEV" "lh_block (klog t) tail = b"
    using bio_frame_fields(3) [OF u(2)] dev b by (simp_all add: logdev_def)
  then have "install_trans_one recovering tail s = Ok None z"
    unfolding install_trans_one_def dev sl [symmetric] using r w(1) x(1) y di by (simp add: Let_def)
  then show ?thesis
    using z x w df u bio_frame_fields(1,2) [OF z(2)] bio_frame_fields(1,2) [OF x(3)]
      bio_frame_fields(1,2) [OF u(3)] by simp
qed

section \<open>The log as a redo log\<close>

definition log_slot :: "int \<Rightarrow> nat \<Rightarrow> uint32" where
  "log_slot st k = word_of_int (st + int k + 1)"

definition dec_head :: "block \<Rightarrow> uint32 list" where
  "dec_head d = map (\<lambda>i. get32 d (4 + 4 * i)) [0..<nat (sint (get32 d 0))]"

text \<open>The log has \<open>LOGSIZE\<close> blocks on the disk: its header and one slot less than \<open>LOGSIZE\<close>, since \<open>log_write\<close> stops a
  transaction at \<open>log.size - 1\<close> blocks. These are the blocks of the log itself; all others are home blocks, the
  first block of inodes right behind the log among them.\<close>

definition NSLOTS :: nat where
  "NSLOTS = LOGSIZE - 1"

definition log_area :: "int \<Rightarrow> uint32 set" where
  "log_area st = insert (word_of_int st) (log_slot st ` {..<NSLOTS})"

lemma le_NSLOTS: "n \<le> NSLOTS \<longleftrightarrow> n < LOGSIZE"
  by (auto simp: NSLOTS_def const_defs)

definition logged :: "log \<Rightarrow> uint32 list" where
  "logged l = map (lh_block l) [0..<nat (lh_n l)]"

lemma of_nat_small_inj: "i < 2 ^ 32 \<Longrightarrow> j < 2 ^ 32 \<Longrightarrow> (of_nat i :: uint32) = of_nat j \<Longrightarrow> i = j"
  by (drule arg_cong [of _ _ unat]) (simp add: unsigned_of_nat take_bit_nat_eq_self)

interpretation wal: redo_log "word_of_int st" "log_slot st" dec_head NSLOTS for st :: int
proof
  fix i j assume "i < NSLOTS" "j < NSLOTS" "log_slot st i = log_slot st j"
  then show "i = j"
    by (intro of_nat_small_inj) (simp_all add: log_slot_def NSLOTS_def const_defs)
next
  fix i assume i: "i < NSLOTS"
  show "log_slot st i \<noteq> word_of_int st"
  proof
    assume "log_slot st i = word_of_int st"
    then have "(of_nat (Suc i) :: uint32) = of_nat 0" by (simp add: log_slot_def add.commute)
    then show False
      using of_nat_small_inj [of "Suc i" 0] i by (simp add: NSLOTS_def const_defs)
  qed
qed

lemma log_area_iff:
  assumes "0 \<le> st" and "st + int LOGSIZE < 2 ^ 32"
  shows "b \<in> log_area st \<longleftrightarrow> st \<le> uint b \<and> uint b < st + int LOGSIZE"
proof -
  have u: "uint (word_of_int n :: uint32) = n" if "0 \<le> n" "n < 2 ^ 32" for n
    using that by (simp add: unsigned_of_int take_bit_int_eq_self)
  show ?thesis
  proof
    assume "b \<in> log_area st"
    then consider "b = word_of_int st" | k where "k < NSLOTS" "b = log_slot st k"
      by (auto simp: log_area_def)
    then show "st \<le> uint b \<and> uint b < st + int LOGSIZE"
    proof cases
      case 1
      then show ?thesis using u [of st] assms by (simp add: const_defs)
    next
      case (2 k)
      then show ?thesis using u [of "st + int k + 1"] assms unfolding log_slot_def by (simp add: NSLOTS_def const_defs)
    qed
  next
    assume b: "st \<le> uint b \<and> uint b < st + int LOGSIZE"
    show "b \<in> log_area st"
    proof (cases "uint b = st")
      case True
      then have "b = word_of_int st" by (metis word_of_int_uint)
      then show ?thesis by (simp add: log_area_def)
    next
      case False
      with b have "log_slot st (nat (uint b - st - 1)) = word_of_int (uint b)"
        unfolding log_slot_def by (intro arg_cong [of _ _ word_of_int]) simp
      moreover have "nat (uint b - st - 1) < NSLOTS"
        using b False assms(1) by (simp add: nat_less_iff NSLOTS_def const_defs)
      ultimately show ?thesis by (auto simp: log_area_def image_iff intro!: bexI)
    qed
  qed
qed

lemma home_iff: "wal.home st b \<longleftrightarrow> b \<notin> log_area st"
  by (auto simp: wal.home_def log_area_def)

text \<open>The header that \<open>write_head\<close> writes names the logged blocks.\<close>

lemma dec_head_write:
  assumes "0 \<le> n" and "n \<le> int LOGSIZE"
  shows "dec_head (put32s (put32 d 0 (word_of_int n)) 4 (nat n) f) = map f [0..<nat n]"
proof -
  have g: "get32 (put32s (put32 d 0 (word_of_int n)) 4 (nat n) f) 0 = (word_of_int n :: uint32)"
    by (simp add: get32_put32s_other mem_simps)
  have "sint (word_of_int n :: uint32) = n"
    using assms by (simp add: signed_of_int signed_take_bit_int_eq_self const_defs)
  then show ?thesis
    unfolding dec_head_def g by (simp add: get32_put32s)
qed

text \<open>A transaction in progress: the pinned buffers cache exactly the logged blocks.\<close>

definition tx :: "nat \<Rightarrow> nat set \<Rightarrow> nat set \<Rightarrow> kstate \<Rightarrow> bool" where
  "tx p H P s \<longleftrightarrow> bc p H P s \<and> logdev s = ROOTDEV \<and> 0 \<le> lh_n (klog s) \<and> lh_n (klog s) < int LOGSIZE
     \<and> log_size (klog s) \<le> int LOGSIZE \<and> distinct (logged (klog s))
     \<and> bij_betw (\<lambda>i. b_blockno (bufs s i)) P (set (logged (klog s)))
     \<and> (\<forall>b \<in> set (logged (klog s)). wal.home (log_start (klog s)) b)"

lemma tx_card:
  assumes "tx p H P s"
  shows "int (card P) = lh_n (klog s)" and "card P < NBUF"
proof -
  have "card P = card (set (logged (klog s)))"
    using assms by (auto simp: tx_def dest: bij_betw_same_card)
  also have "\<dots> = nat (lh_n (klog s))"
    using assms by (simp add: tx_def distinct_card) (simp add: logged_def)
  finally show "int (card P) = lh_n (klog s)" "card P < NBUF"
    using assms by (auto simp: tx_def const_defs)
qed

lemma write_log_spec:
  assumes tx: "tx p {} P s"
  defines "bs \<equiv> logged (klog s)" and "st \<equiv> log_start (klog s)"
  shows "returns (write_log s) (\<lambda>_ t. bc p {} P t \<and> disk_frame s t
     \<and> (\<forall>b. wal.home st b \<longrightarrow> content t b = content s b)
     \<and> disk t = apply_writes (map (\<lambda>k. (log_slot st k, content s (bs ! k))) [0..<length bs]) (disk s)
     \<and> dwrites t = rev (map (\<lambda>k. (log_slot st k, content s (bs ! k))) [0..<length bs]) @ dwrites s
     \<and> (\<forall>i \<in> P. b_blockno (bufs t i) = b_blockno (bufs s i)))"
proof -
  let ?W = "\<lambda>k. map (\<lambda>k. (log_slot st k, content s (bs ! k))) [0..<k]"
  define I where "I k t \<longleftrightarrow> bc p {} P t \<and> disk_frame s t
     \<and> (\<forall>b. wal.home st b \<longrightarrow> content t b = content s b)
     \<and> disk t = apply_writes (?W k) (disk s) \<and> dwrites t = rev (?W k) @ dwrites s
     \<and> (\<forall>i \<in> P. b_blockno (bufs t i) = b_blockno (bufs s i))" for k t
  have n: "nat (lh_n (klog s)) = length bs"
    by (simp add: bs_def logged_def)
  have le: "length bs \<le> NSLOTS"
    using tx by (auto simp: tx_def le_NSLOTS n [symmetric])
  have "returns (for_each [0..<length bs] write_log_one s) (\<lambda>r t. r = None \<and> I (length bs) t)"
  proof (rule for_each_upt)
    show "I 0 s"
      using tx by (simp add: I_def tx_def)
  next
    fix k t assume k: "k < length bs" and "I k t"
    then have t: "bc p {} P t" "disk_frame s t" "\<forall>b. wal.home st b \<longrightarrow> content t b = content s b"
      "disk t = apply_writes (?W k) (disk s)" "dwrites t = rev (?W k) @ dwrites s"
      "\<forall>i \<in> P. b_blockno (bufs t i) = b_blockno (bufs s i)"
      by (auto simp: I_def)
    have f: "klog t = klog s" "logdev t = ROOTDEV"
      using disk_frame_fields [OF t(2)] tx by (auto simp: tx_def)
    have hb: "wal.home st (bs ! k)" and b: "bs ! k = lh_block (klog t) k" and inb: "bs ! k \<in> set bs"
      using tx k f by (auto simp: tx_def bs_def st_def) (auto simp: logged_def)
    have pin: "\<exists>i \<in> P. b_blockno (bufs t i) = bs ! k"
      using tx inb t(6) by (auto simp: tx_def bij_betw_def bs_def [symmetric])
        (metis (no_types, lifting) imageE)
    have sl: "log_slot st k = word_of_int (log_start (klog t) + int k + 1)"
      by (simp add: log_slot_def st_def f)
    have ne: "log_slot st k \<noteq> bs ! k"
      using wal.home_slot [OF hb, of k] k le by auto
    have notslot: "wal.home st b \<Longrightarrow> b \<noteq> log_slot st k" for b
      using wal.home_slot [of st b k] k le by auto
    show "returns (write_log_one k t) (\<lambda>r u. r = None \<and> I (Suc k) u)"
      using write_log_one_spec [OF t(1) f(2) tx_card(2) [OF tx] sl b ne pin]
    proof (rule returns_mono)
      fix r u
      assume "r = None \<and> bc p {} P u \<and> disk_frame t u
         \<and> content u = (content t)(log_slot st k := content t (bs ! k))
         \<and> disk u = (disk t)(log_slot st k := content t (bs ! k))
         \<and> dwrites u = (log_slot st k, content t (bs ! k)) # dwrites t
         \<and> (\<forall>i \<in> P. b_blockno (bufs u i) = b_blockno (bufs t i))"
      then show "r = None \<and> I (Suc k) u"
        using t hb notslot disk_frame_trans [OF t(2)] by (auto simp: I_def)
    qed
  qed
  then show ?thesis
    unfolding write_log_def n by (auto simp: I_def returns_iff)
qed

lemma upd_log_simps [simp]:
  "klog (upd_log f s) = f (klog s)" "bufs (upd_log f s) = bufs s" "disk (upd_log f s) = disk s"
  "dwrites (upd_log f s) = dwrites s" "slocks (upd_log f s) = slocks s" "procs (upd_log f s) = procs s"
  "running p (upd_log f s) = running p s"
  by (simp_all add: upd_log_def)

lemma content_upd_log [simp]: "content (upd_log f s) = content s"
  by (rule content_cong) simp_all

lemma bc_upd_log [simp]: "bc p H P (upd_log f s) = bc p H P s"
  by (simp add: bc_def buf_ok_def cached_def owns_def)

lemma disk_frame_upd_log:
  assumes "disk_frame s t"
  shows "disk_frame (upd_log f s) (upd_log f t)"
proof -
  let ?u = "\<lambda>s. s\<lparr>bufs := bufs t, slocks := slocks t, disk := disk t, dwrites := dwrites t\<rparr>"
  have "upd_log f t = upd_log f (?u s)"
    using assms unfolding disk_frame_def by metis
  also have "\<dots> = ?u (upd_log f s)"
    by (rule kstate.equality) (simp_all add: upd_log_def)
  finally show ?thesis
    using assms by (simp add: disk_frame_def)
qed

lemma bread_one:
  assumes bc: "bc p {} P s" and "card P < NBUF"
  obtains i t where "bread ROOTDEV a s = Ok i t" "bc p {i} P t" "bio_frame s t" "content t = content s"
    "b_blockno (bufs t i) = a" "b_data (bufs t i) = content s a"
    "\<forall>k \<in> P. b_blockno (bufs t k) = b_blockno (bufs s k)"
proof -
  have cr: "can_read {} P a s"
    using assms(2) by (simp add: can_read_def)
  obtain i t where "bread ROOTDEV a s = Ok i t" "bc p {i} P t" "bio_frame s t" "content t = content s"
    "b_blockno (bufs t i) = a" "b_data (bufs t i) = content s a" "\<forall>j. j \<noteq> i \<longrightarrow> bufs t j = bufs s j"
      "i \<in> P \<longrightarrow> b_blockno (bufs s i) = a"
    using bread_spec [OF bc cr] unfolding returns_iff by auto
  then show ?thesis by (intro that [of i t]) metis+
qed

lemma brelse_one:
  assumes bc: "bc p {i} P s" and "i \<notin> P \<Longrightarrow> b_data (bufs s i) = disk s (b_blockno (bufs s i))"
  obtains t where "brelse i s = Ok () t" "bc p {} P t" "bio_frame s t" "content t = content s"
    "\<forall>k. b_blockno (bufs t k) = b_blockno (bufs s k)"
  using brelse_spec [OF bc _ assms(2)] unfolding returns_iff by auto

lemma write_head_spec:
  assumes bc: "bc p {} P s" and dev: "logdev s = ROOTDEV" and room: "card P < NBUF"
    and n: "0 \<le> lh_n (klog s)" "lh_n (klog s) \<le> int LOGSIZE"
  defines "hb \<equiv> word_of_int (log_start (klog s))"
  shows "returns (write_head s) (\<lambda>_ t. bc p {} P t \<and> disk_frame s t
     \<and> (\<exists>h. dec_head h = logged (klog s) \<and> content t = (content s)(hb := h)
          \<and> disk t = (disk s)(hb := h) \<and> dwrites t = (hb, h) # dwrites s)
     \<and> (\<forall>i \<in> P. b_blockno (bufs t i) = b_blockno (bufs s i)))"
proof -
  obtain i t where r: "bread ROOTDEV hb s = Ok i t" and t: "bc p {i} P t" "bio_frame s t"
    "content t = content s" "b_blockno (bufs t i) = hb" "b_data (bufs t i) = content s hb"
    "\<forall>k \<in> P. b_blockno (bufs t k) = b_blockno (bufs s k)"
    using bread_one [OF bc room] by metis
  have k: "klog t = klog s" using bio_frame_fields [OF t(2)] by simp
  define h where "h = put32s (put32 (content s hb) 0 (word_of_int (lh_n (klog s)))) 4
     (nat (lh_n (klog s))) (lh_block (klog s))"
  have dec: "dec_head h = logged (klog s)"
    unfolding h_def logged_def by (rule dec_head_write [OF n])
  obtain w where w: "bwrite i (set_data i h t) = Ok () w" "bc p {i} P w" "disk_frame t w"
      "content w = (content t)(hb := h)" "disk w = (disk t)(hb := h)" "dwrites w = (hb, h) # dwrites t"
      "\<forall>k. b_blockno (bufs w k) = b_blockno (bufs t k)"
      "\<forall>k. b_data (bufs w k) = (if k = i then h else b_data (bufs t k))"
    using store_spec [OF t(1) _ t(4), of h] by auto
  obtain y where y: "brelse i w = Ok () y" "bc p {} P y" "bio_frame w y" "content y = content w"
      "\<forall>k. b_blockno (bufs y k) = b_blockno (bufs w k)"
    using brelse_one [OF w(2)] w t by auto
  have "write_head s = Ok () y"
    unfolding write_head_def dev hb_def [symmetric] using r w(1) y(1) k t(5)
    by (simp add: Let_def h_def)
  moreover have "disk_frame s y"
    by (rule disk_frame_trans [OF bio_disk_frame [OF t(2)] disk_frame_trans [OF w(3) bio_disk_frame [OF y(3)]]])
  ultimately show ?thesis
    using y w t dec bio_frame_fields(1,2) [OF y(3)] bio_frame_fields(1,2) [OF t(2)] by auto
qed

lemma read_head_spec:
  assumes bc: "bc p {} P s" and dev: "logdev s = ROOTDEV" and room: "card P < NBUF"
  defines "hb \<equiv> word_of_int (log_start (klog s))"
  assumes clean: "\<forall>i \<in> P. b_blockno (bufs s i) \<noteq> hb"
  shows "returns (read_head s) (\<lambda>_ t. bc p {} P t \<and> content t = content s \<and> disk t = disk s
     \<and> dwrites t = dwrites s \<and> logged (klog t) = dec_head (content s hb)
     \<and> lh_n (klog t) = sint (get32 (content s hb) 0)
     \<and> klog t = (klog s)\<lparr>lh_n := lh_n (klog t), lh_block := lh_block (klog t)\<rparr>)"
proof -
  obtain i t where r: "bread ROOTDEV hb s = Ok i t" and t: "bc p {i} P t" "bio_frame s t"
    "content t = content s" "b_blockno (bufs t i) = hb" "b_data (bufs t i) = content s hb"
    "\<forall>k \<in> P. b_blockno (bufs t k) = b_blockno (bufs s k)"
    using bread_one [OF bc room] by metis
  define lh where "lh = content s hb"
  define n where "n = sint (get32 lh 0)"
  define u where "u = upd_log (\<lambda>l. l\<lparr>lh_n := n, lh_block := (\<lambda>i. if int i < n then get32 lh (4 + 4 * i)
     else lh_block l i)\<rparr>) t"
  have c: "content s hb = disk s hb"
    using content_clean [OF bc] clean by simp
  have f: "klog t = klog s" "disk t = disk s" "dwrites t = dwrites s"
    using bio_frame_fields [OF t(2)] by auto
  have u: "bc p {i} P u" "content u = content s" "disk u = disk s" "dwrites u = dwrites s"
    "b_data (bufs u i) = disk u (b_blockno (bufs u i))"
    using t f c by (simp_all add: u_def)
  obtain y where y: "brelse i u = Ok () y" "bc p {} P y" "bio_frame u y" "content y = content u"
      "\<forall>k. b_blockno (bufs y k) = b_blockno (bufs u k)"
    using brelse_one [OF u(1)] u(5) by auto
  have k: "klog y = (klog s)\<lparr>lh_n := n, lh_block := (\<lambda>i. if int i < n then get32 lh (4 + 4 * i)
     else lh_block (klog s) i)\<rparr>"
    using bio_frame_fields(3) [OF y(3)] f by (simp add: u_def cong: if_cong)
  have "read_head s = Ok () y"
    unfolding read_head_def dev hb_def [symmetric] using r y(1) t(5)
    by (simp add: Let_def u_def upd_log_def n_def lh_def cong: if_cong)
  then show ?thesis
    using y u k bio_frame_fields(1,2) [OF y(3)]
    by (auto simp: dec_head_def logged_def n_def lh_def)
qed

text \<open>Installation: as part of a commit, and during recovery.\<close>

lemma install_commit_spec:
  assumes tx: "tx p {} P s"
  defines "bs \<equiv> logged (klog s)" and "st \<equiv> log_start (klog s)"
  assumes slots: "\<forall>k < length bs. content s (log_slot st k) = content s (bs ! k)"
  shows "returns (install_trans 0 s) (\<lambda>_ t. bc p {} {} t \<and> disk_frame s t \<and> content t = content s
     \<and> disk t = apply_writes (map (\<lambda>b. (b, content s b)) bs) (disk s)
     \<and> dwrites t = rev (map (\<lambda>b. (b, content s b)) bs) @ dwrites s)"
proof -
  let ?W = "\<lambda>k. map (\<lambda>b. (b, content s b)) (take k bs)"
  define Q where "Q k = {i \<in> P. b_blockno (bufs s i) \<in> set (drop k bs)}" for k
  define I where "I k t \<longleftrightarrow> bc p {} (Q k) t \<and> disk_frame s t \<and> content t = content s
     \<and> disk t = apply_writes (?W k) (disk s) \<and> dwrites t = rev (?W k) @ dwrites s
     \<and> (\<forall>i \<in> Q k. b_blockno (bufs t i) = b_blockno (bufs s i))" for k t
  have n: "nat (lh_n (klog s)) = length bs"
    by (simp add: bs_def logged_def)
  have le: "length bs \<le> NSLOTS"
    using tx by (auto simp: tx_def le_NSLOTS n [symmetric])
  have bij: "bij_betw (\<lambda>i. b_blockno (bufs s i)) P (set bs)" and dist: "distinct bs"
    and home: "\<forall>b \<in> set bs. wal.home st b" and bc: "bc p {} P s"
    using tx by (auto simp: tx_def bs_def st_def)
  have Q0: "Q 0 = P" and Qn: "Q (length bs) = {}"
    using bij by (auto simp: Q_def bij_betw_def)
  have "returns (for_each [0..<length bs] (install_trans_one 0) s) (\<lambda>r t. r = None \<and> I (length bs) t)"
  proof (rule for_each_upt)
    show "I 0 s"
      using bc by (simp add: I_def Q0)
  next
    fix k t assume k: "k < length bs" and "I k t"
    then have t: "bc p {} (Q k) t" "disk_frame s t" "content t = content s"
      "disk t = apply_writes (?W k) (disk s)" "dwrites t = rev (?W k) @ dwrites s"
      "\<forall>i \<in> Q k. b_blockno (bufs t i) = b_blockno (bufs s i)"
      by (auto simp: I_def)
    have f: "klog t = klog s" "logdev t = ROOTDEV"
      using disk_frame_fields [OF t(2)] tx by (auto simp: tx_def)
    have hb: "wal.home st (bs ! k)" and b: "bs ! k = lh_block (klog t) k"
      using home k f by auto (auto simp: bs_def logged_def)
    have "bs ! k \<in> (\<lambda>i. b_blockno (bufs s i)) ` P"
      using bij nth_mem [OF k] by (simp add: bij_betw_def)
    then obtain i where i: "i \<in> P" "b_blockno (bufs s i) = bs ! k"
      by auto
    have d: "set (drop k bs) = insert (bs ! k) (set (drop (Suc k) bs))"
      using k by (metis Cons_nth_drop_Suc list.simps(15))
    have Qk: "i \<in> Q k"
      using i by (simp add: Q_def d)
    have uniq: "b_blockno (bufs s j) = bs ! k \<Longrightarrow> j \<in> P \<Longrightarrow> j = i" for j
      using bij i by (simp add: bij_betw_def inj_on_def)
    have nd: "bs ! k \<notin> set (drop (Suc k) bs)"
      using dist k by (metis Cons_nth_drop_Suc distinct.simps(2) distinct_drop)
    have Qs: "Q (Suc k) = Q k - {i}"
    proof (rule set_eqI)
      fix j show "j \<in> Q (Suc k) \<longleftrightarrow> j \<in> Q k - {i}"
        unfolding Q_def d mem_Collect_eq Diff_iff insert_iff empty_iff using i nd uniq [of j] by metis
    qed
    have sl: "log_slot st k = word_of_int (log_start (klog t) + int k + 1)"
      by (simp add: log_slot_def st_def f)
    have ne: "log_slot st k \<noteq> b" if "b \<in> set bs" for b
      using wal.home_slot [of st b k] home that k le by auto
    have sub: "Q k \<subseteq> P" by (auto simp: Q_def)
    have card: "card (Q k) < NBUF"
      using card_mono [OF finite_subset [OF bcD(5) [OF bc]] sub] tx_card(2) [OF tx] by simp
    have unp: "\<forall>j \<in> Q k. b_blockno (bufs t j) \<noteq> log_slot st k"
      using t(6) ne by (metis (no_types, lifting) Q_def in_set_dropD mem_Collect_eq)
    have pin: "if 0 = (0::int) then i \<in> Q k \<and> b_blockno (bufs t i) = bs ! k \<and> Q (Suc k) = Q k - {i}
        else Q k = {} \<and> Q (Suc k) = {}"
      using i t(6) Qk Qs by simp
    have up: "(content s)(bs ! k := content s (bs ! k)) = content s" by simp
    show "returns (install_trans_one 0 k t) (\<lambda>r u. r = None \<and> I (Suc k) u)"
      using install_trans_one_spec [OF t(1) f(2) card sl b ne [OF nth_mem [OF k]] unp pin]
    proof (rule returns_mono)
      fix r u
      assume "r = None \<and> bc p {} (Q (Suc k)) u \<and> disk_frame t u
         \<and> content u = (content t)(bs ! k := content t (log_slot st k))
         \<and> disk u = (disk t)(bs ! k := content t (log_slot st k))
         \<and> dwrites u = (bs ! k, content t (log_slot st k)) # dwrites t
         \<and> (\<forall>i \<in> Q k. b_blockno (bufs u i) = b_blockno (bufs t i))"
      then show "r = None \<and> I (Suc k) u"
        using t k slots disk_frame_trans [OF t(2)] Qs by (auto simp: I_def take_Suc_conv_app_nth)
    qed
  qed
  then show ?thesis
    unfolding install_trans_def n by (auto simp: I_def returns_iff Qn)
qed

lemma content_disk: "bc p {} {} s \<Longrightarrow> content s = disk s"
  using content_clean by (fastforce simp: fun_eq_iff)

lemma install_recover_spec:
  assumes bc: "bc p {} {} s" and dev: "logdev s = ROOTDEV"
  defines "bs \<equiv> logged (klog s)" and "st \<equiv> log_start (klog s)"
  defines "W \<equiv> \<lambda>k. map (\<lambda>k. (bs ! k, disk s (log_slot st k))) [0..<k]"
  assumes le: "length bs \<le> NSLOTS" and home: "\<forall>b \<in> set bs. wal.home st b"
  shows "returns (install_trans 1 s) (\<lambda>_ t. bc p {} {} t \<and> disk_frame s t
     \<and> disk t = apply_writes (W (length bs)) (disk s) \<and> dwrites t = rev (W (length bs)) @ dwrites s)"
proof -
  define I where "I k t \<longleftrightarrow> bc p {} {} t \<and> disk_frame s t
     \<and> disk t = apply_writes (W k) (disk s) \<and> dwrites t = rev (W k) @ dwrites s" for k t
  have n: "nat (lh_n (klog s)) = length bs"
    by (simp add: bs_def logged_def)
  have "returns (for_each [0..<length bs] (install_trans_one 1) s) (\<lambda>r t. r = None \<and> I (length bs) t)"
  proof (rule for_each_upt)
    show "I 0 s"
      using bc by (simp add: I_def W_def)
  next
    fix k t assume k: "k < length bs" and "I k t"
    then have t: "bc p {} {} t" "disk_frame s t"
      "disk t = apply_writes (W k) (disk s)" "dwrites t = rev (W k) @ dwrites s"
      by (auto simp: I_def)
    have f: "klog t = klog s" "logdev t = ROOTDEV"
      using disk_frame_fields [OF t(2)] dev by auto
    have b: "bs ! k = lh_block (klog t) k"
      using k f by (simp add: bs_def logged_def)
    have sl: "log_slot st k = word_of_int (log_start (klog t) + int k + 1)"
      by (simp add: log_slot_def st_def f)
    have ns: "log_slot st k \<notin> set bs"
      using wal.logged_not_log(2) [of bs st k] home k le by blast
    then have ne: "log_slot st k \<noteq> bs ! k"
      using k by (metis nth_mem)
    have c: "content t (log_slot st k) = disk s (log_slot st k)"
      unfolding content_disk [OF t(1)] t(3)
      using ns k nth_mem [of _ bs] by (intro apply_writes_other) (fastforce simp: W_def)
    have pin: "if 1 = (0::int) then 0 \<in> {} \<and> b_blockno (bufs t 0) = bs ! k \<and> {} = {} - {0::nat}
        else ({} :: nat set) = {} \<and> ({} :: nat set) = {}"
      by simp
    have card: "card ({} :: nat set) < NBUF" by (simp add: const_defs)
    show "returns (install_trans_one 1 k t) (\<lambda>r u. r = None \<and> I (Suc k) u)"
      using install_trans_one_spec [OF t(1) f(2) card sl b ne _ pin]
      using t c disk_frame_trans [OF t(2)] by (simp add: returns_iff I_def W_def) blast
  qed
  then show ?thesis
    unfolding install_trans_def n by (auto simp: I_def returns_iff)
qed

text \<open>Recovery installs the transaction that the on-disk header describes and then empties the
  header.\<close>

lemma recover_spec:
  assumes bc: "bc p {} {} s" and dev: "logdev s = ROOTDEV"
  defines "st \<equiv> log_start (klog s)"
  defines "hb \<equiv> word_of_int st :: uint32"
  defines "bs \<equiv> dec_head (disk s hb)"
  assumes n: "sint (get32 (disk s hb) 0) \<le> int NSLOTS" and home: "\<forall>b \<in> set bs. wal.home st b"
  shows "returns (recover_from_log s) (\<lambda>_ t. bc p {} {} t \<and> lh_n (klog t) = 0
     \<and> log_start (klog t) = st \<and> logdev t = ROOTDEV
     \<and> (\<exists>h. dec_head h = [] \<and> disk t = (replay hb (log_slot st) dec_head (disk s))(hb := h)
          \<and> dwrites t = (hb, h) # rev (map (\<lambda>k. (bs ! k, disk s (log_slot st k))) [0..<length bs]) @ dwrites s))"
proof -
  have card: "card ({} :: nat set) < NBUF" by (simp add: const_defs)
  obtain t where r1: "read_head s = Ok () t" and t: "bc p {} {} t" "disk t = disk s" "dwrites t = dwrites s"
    "logged (klog t) = bs" "klog t = (klog s)\<lparr>lh_n := lh_n (klog t), lh_block := lh_block (klog t)\<rparr>"
    using read_head_spec [OF bc dev card] content_disk [OF bc]
    by (auto simp: returns_iff bs_def hb_def st_def)
  have k: "log_start (klog t) = st" "logdev t = ROOTDEV"
    using arg_cong [OF t(5), of log_start] arg_cong [OF t(5), of log_dev] dev
    by (simp_all add: st_def logdev_def)
  have le: "length (logged (klog t)) \<le> NSLOTS"
    using n by (simp add: t(4) bs_def dec_head_def)
  have home': "\<forall>b \<in> set (logged (klog t)). wal.home (log_start (klog t)) b"
    using home by (simp add: t(4) k)
  obtain u where r2: "install_trans 1 t = Ok () u" and u: "bc p {} {} u" "disk_frame t u"
     "disk u = replay hb (log_slot st) dec_head (disk s)"
     "dwrites u = rev (map (\<lambda>k. (bs ! k, disk s (log_slot st k))) [0..<length bs]) @ dwrites s"
    using install_recover_spec [OF t(1) k(2) le home']
    by (auto simp: returns_iff t(2-4) k replay_def bs_def)
  define v where "v = upd_log (\<lambda>l. l\<lparr>lh_n := 0\<rparr>) u"
  have v: "bc p {} {} v" "logdev v = ROOTDEV" "log_start (klog v) = st" "lh_n (klog v) = 0"
     "disk v = disk u" "dwrites v = dwrites u" "logged (klog v) = []"
    using u disk_frame_fields [OF u(2)] k by (simp_all add: v_def logdev_def logged_def)
  obtain w where r3: "write_head v = Ok () w" and w: "bc p {} {} w" "disk_frame v w"
     "\<exists>h. dec_head h = [] \<and> disk w = (disk v)(hb := h) \<and> dwrites w = (hb, h) # dwrites v"
    using write_head_spec [OF v(1,2) card] v by (auto simp: returns_iff hb_def)
  have "recover_from_log s = Ok () w"
    using r1 r2 r3 by (simp add: recover_from_log_def v_def)
  then show ?thesis
    using w v u disk_frame_fields [OF w(2)] by auto
qed

text \<open>A commit performs the write sequence of the redo log.\<close>

lemma commit_spec:
  assumes tx: "tx p {} P s" and pos: "0 < lh_n (klog s)"
  defines "st \<equiv> log_start (klog s)" and "bs \<equiv> logged (klog s)"
  shows "returns (commit s) (\<lambda>_ t. bc p {} {} t \<and> disk_frame (upd_log (\<lambda>l. l\<lparr>lh_n := 0\<rparr>) s) t
     \<and> (\<forall>b. wal.home st b \<longrightarrow> disk t b = content s b \<and> content t b = content s b)
     \<and> (\<exists>h1 h0. dec_head h1 = bs \<and> dec_head h0 = []
        \<and> dwrites t = rev (commit_writes (word_of_int st) (log_slot st) h1 h0 bs (content s)) @ dwrites s
        \<and> disk t = apply_writes (commit_writes (word_of_int st) (log_slot st) h1 h0 bs (content s)) (disk s)))"
proof -
  let ?hb = "word_of_int st :: uint32"
  have n: "0 \<le> lh_n (klog s)" "lh_n (klog s) < int LOGSIZE" and dev: "logdev s = ROOTDEV"
    and home: "\<forall>b \<in> set bs. wal.home st b" and bij: "bij_betw (\<lambda>i. b_blockno (bufs s i)) P (set bs)"
    using tx by (auto simp: tx_def bs_def st_def)
  have le: "length bs \<le> NSLOTS"
    using n by (simp add: bs_def logged_def le_NSLOTS)
  note card = tx_card(2) [OF tx]
  let ?L = "map (\<lambda>k. (log_slot st k, content s (bs ! k))) [0..<length bs]"
  obtain t where r1: "write_log s = Ok () t" and t: "bc p {} P t" "disk_frame s t"
     "\<forall>b. wal.home st b \<longrightarrow> content t b = content s b" "disk t = apply_writes ?L (disk s)"
     "dwrites t = rev ?L @ dwrites s" "\<forall>i \<in> P. b_blockno (bufs t i) = b_blockno (bufs s i)"
    using write_log_spec [OF tx] by (auto simp: returns_iff bs_def st_def)
  note ft = disk_frame_fields(1,6) [OF t(2)]
  have "lh_n (klog t) \<le> int LOGSIZE" "0 \<le> lh_n (klog t)" "logdev t = ROOTDEV"
    using n ft dev by auto
  then obtain u h1 where r2: "write_head t = Ok () u" and u: "bc p {} P u" "disk_frame t u"
     "dec_head h1 = bs" "content u = (content t)(?hb := h1)" "disk u = (disk t)(?hb := h1)"
     "dwrites u = (?hb, h1) # dwrites t" "\<forall>i \<in> P. b_blockno (bufs u i) = b_blockno (bufs t i)"
    using write_head_spec [OF t(1) _ card] by (auto simp: returns_iff ft bs_def st_def)
  note fu = disk_frame_fields(1,6) [OF u(2)]
  have P: "\<forall>i \<in> P. b_blockno (bufs u i) = b_blockno (bufs s i)"
    using t(6) u(7) by simp
  have bij': "bij_betw (\<lambda>i. b_blockno (bufs u i)) P (set bs)"
    using bij P by (metis (no_types, lifting) bij_betw_cong)
  have txu: "tx p {} P u"
    using tx u(1) bij' fu ft by (simp add: tx_def bs_def)
  have cu: "content u b = content s b" if "wal.home st b" for b
    using that u(4) t(3) wal.home_hb [OF that] by simp
  have slots: "content u (log_slot st k) = content u (bs ! k)" if k: "k < length bs" for k
  proof -
    have "log_slot st k \<notin> set bs"
      using wal.logged_not_log(2) [of bs st k] home k le by blast
    moreover have "\<forall>i \<in> P. b_blockno (bufs u i) \<in> set bs"
      using bij_betw_imp_surj_on [OF bij'] by (metis image_eqI)
    ultimately have "content u (log_slot st k) = disk u (log_slot st k)"
      by (intro content_clean [OF u(1)]) (metis Un_iff empty_iff)
    also have "\<dots> = content s (bs ! k)"
    proof -
      have "apply_writes ?L (disk s) (log_slot st k) = content s (bs ! k)"
        using le k by (intro apply_writes_indexed) (auto intro: wal.slot_inj)
      then show ?thesis
        unfolding u(5) t(4) using k le wal.slot_hb [of k st] by simp
    qed
    finally show ?thesis
      using cu home k by simp
  qed
  let ?I = "map (\<lambda>b. (b, content s b)) bs"
  have I: "map (\<lambda>b. (b, content u b)) bs = ?I"
    using cu home by simp
  obtain v where r3: "install_trans 0 u = Ok () v" and v: "bc p {} {} v" "disk_frame u v"
     "content v = content u" "disk v = apply_writes ?I (disk u)" "dwrites v = rev ?I @ dwrites u"
    using install_commit_spec [OF txu] slots
    unfolding fu(1) ft(1) bs_def [symmetric] st_def [symmetric] I returns_iff by auto
  have kv: "klog v = klog s" "logdev v = ROOTDEV"
    using disk_frame_fields(1,6) [OF v(2)] fu ft dev by auto
  define w where "w = upd_log (\<lambda>l. l\<lparr>lh_n := 0\<rparr>) v"
  have w: "bc p {} {} w" "logdev w = ROOTDEV" "log_start (klog w) = st" "lh_n (klog w) = 0"
     "disk w = disk v" "dwrites w = dwrites v" "logged (klog w) = []" "content w = content v"
    using v kv by (simp_all add: w_def logdev_def logged_def st_def)
  have card0: "card ({} :: nat set) < NBUF" by (simp add: const_defs)
  obtain x h0 where r4: "write_head w = Ok () x" and x: "bc p {} {} x" "disk_frame w x"
     "dec_head h0 = []" "content x = (content w)(?hb := h0)" "disk x = (disk w)(?hb := h0)"
     "dwrites x = (?hb, h0) # dwrites w"
    using write_head_spec [OF w(1,2) card0] w by (auto simp: returns_iff)
  have "commit s = Ok () x"
    using r1 r2 r3 r4 pos by (simp add: commit_def w_def)
  moreover have "content x b = content s b" "disk x b = content s b" if "wal.home st b" for b
    using that cu wal.home_hb [OF that] x(4) w(8) v(3) content_disk [OF x(1)] by auto
  moreover have "disk x = apply_writes (commit_writes ?hb (log_slot st) h1 h0 bs (content s)) (disk s)"
    by (simp add: commit_writes_def x w v u t)
  moreover have "dwrites x = rev (commit_writes ?hb (log_slot st) h1 h0 bs (content s)) @ dwrites s"
    by (simp add: commit_writes_def x w v u t)
  moreover have "disk_frame s v"
    using disk_frame_trans [OF t(2) disk_frame_trans [OF u(2) v(2)]] .
  then have "disk_frame (upd_log (\<lambda>l. l\<lparr>lh_n := 0\<rparr>) s) x"
    unfolding w_def [symmetric] using disk_frame_upd_log disk_frame_trans x(2) w_def by blast
  ultimately show ?thesis
    using x(1) u(3) x(3) by auto
qed

section \<open>Crashes\<close>

text \<open>The disk writes that a run from \<open>s\<close> to \<open>t\<close> has performed, oldest first.\<close>

definition writes_between :: "kstate \<Rightarrow> kstate \<Rightarrow> (uint32 \<times> block) list" where
  "writes_between s t = rev (take (length (dwrites t) - length (dwrites s)) (dwrites t))"

lemma writes_between_eq: "dwrites t = rev ws @ dwrites s \<Longrightarrow> writes_between s t = ws"
  by (simp add: writes_between_def)

text \<open>A machine that has come up with an empty cache on disk contents \<open>D\<close>, with the log at \<open>st\<close>.\<close>

definition rebooted :: "int \<Rightarrow> (uint32 \<Rightarrow> block) \<Rightarrow> nat \<Rightarrow> kstate \<Rightarrow> bool" where
  "rebooted st D q r \<longleftrightarrow> bc q {} {} r \<and> logdev r = ROOTDEV \<and> log_start (klog r) = st \<and> disk r = D"

lemma head_count: "length (dec_head d) \<le> n \<Longrightarrow> sint (get32 d 0) \<le> int n"
  by (simp add: dec_head_def)

lemma recover_rebooted:
  assumes "rebooted st D q r" and "length (dec_head (D (word_of_int st))) < LOGSIZE"
    and "\<forall>b \<in> set (dec_head (D (word_of_int st))). b \<notin> log_area st"
  shows "returns (recover_from_log r) (\<lambda>_ u. bc q {} {} u
     \<and> (\<forall>b. b \<notin> log_area st \<longrightarrow> disk u b = replay (word_of_int st) (log_slot st) dec_head D b)
     \<and> dec_head (disk u (word_of_int st)) = [] \<and> lh_n (klog u) = 0)"
proof -
  have r: "bc q {} {} r" "logdev r = ROOTDEV" and k: "log_start (klog r) = st" "disk r = D"
    using assms(1) by (auto simp: rebooted_def)
  have n: "sint (get32 (disk r (word_of_int (log_start (klog r)))) 0) \<le> int NSLOTS"
    using head_count [of _ NSLOTS] assms(2) by (simp add: k le_NSLOTS)
  have h: "\<forall>b \<in> set (dec_head (disk r (word_of_int (log_start (klog r))))). wal.home (log_start (klog r)) b"
    using assms(3) by (simp add: k home_iff)
  show ?thesis
    using recover_spec [OF r n h] by (rule returns_mono) (auto simp: k log_area_def)
qed

lemma commit_crash_recovers:
  assumes tx: "tx p {} P s" and pos: "0 < lh_n (klog s)"
    and hd: "dec_head (disk s (word_of_int (log_start (klog s)))) = []"
  shows "returns (commit s) (\<lambda>_ t. \<forall>j q r.
     rebooted (log_start (klog s)) (apply_writes (take j (writes_between s t)) (disk s)) q r \<longrightarrow>
     returns (recover_from_log r) (\<lambda>_ u. \<forall>b. b \<notin> log_area (log_start (klog s)) \<longrightarrow>
       disk u b = (if j \<le> nat (lh_n (klog s)) then disk s b else content s b)))"
  using commit_spec [OF tx pos]
proof (rule returns_mono, elim conjE exE, intro allI impI)
  fix x t h1 h0 j q r
  let ?st = "log_start (klog s)" and ?bs = "logged (klog s)"
  let ?hb = "word_of_int ?st :: uint32"
  let ?W = "commit_writes ?hb (log_slot ?st) h1 h0 ?bs (content s)"
  let ?D = "apply_writes (take j ?W) (disk s)"
  assume h: "dec_head h1 = ?bs" "dec_head h0 = []" and "dwrites t = rev ?W @ dwrites s"
    and "rebooted ?st (apply_writes (take j (writes_between s t)) (disk s)) q r"
  then have rb: "rebooted ?st ?D q r"
    by (simp add: writes_between_eq)
  have le: "length ?bs < LOGSIZE" and len: "length ?bs = nat (lh_n (klog s))"
    and home: "\<And>b. b \<in> set ?bs \<Longrightarrow> wal.home ?st b"
    using tx by (auto simp: tx_def logged_def)
  have le': "length ?bs \<le> NSLOTS"
    using le by (simp add: le_NSLOTS)
  have D: "dec_head (?D ?hb) = [] \<or> dec_head (?D ?hb) = ?bs"
    using wal.commit_prefix_head [of ?bs ?st j h1 h0 "content s" "disk s"] le' home h hd by fastforce
  then have "length (dec_head (?D ?hb)) < LOGSIZE" "\<forall>b \<in> set (dec_head (?D ?hb)). b \<notin> log_area ?st"
    using le home home_iff by auto
  note rec = recover_rebooted [OF rb this]
  have clean: "content s b = disk s b" if "b \<notin> set ?bs" for b
    using content_clean [of p "{}" P s b] tx that bij_betw_imp_surj_on by (fastforce simp: tx_def)
  have "\<forall>b. wal.home ?st b \<longrightarrow> replay ?hb (log_slot ?st) dec_head ?D b
      = (if j \<le> length ?bs then disk s b else if b \<in> set ?bs then content s b else disk s b)"
    using wal.commit_crash [of "disk s" ?st ?bs h1 h0 j "content s"] hd le' home h by blast
  then have "replay ?hb (log_slot ?st) dec_head ?D b
      = (if j \<le> nat (lh_n (klog s)) then disk s b else content s b)" if "b \<notin> log_area ?st" for b
    using that clean by (simp add: home_iff len)
  with rec show "returns (recover_from_log r) (\<lambda>_ u. \<forall>b. b \<notin> log_area ?st \<longrightarrow>
       disk u b = (if j \<le> nat (lh_n (klog s)) then disk s b else content s b))"
    by (auto elim!: returns_mono)
qed

text \<open>Recovery that is itself interrupted.\<close>

lemma recover_crash_recovers:
  assumes rb: "rebooted st D q r" and le: "length (dec_head (D (word_of_int st))) < LOGSIZE"
    and home: "\<forall>b \<in> set (dec_head (D (word_of_int st))). b \<notin> log_area st"
  shows "returns (recover_from_log r) (\<lambda>_ u. \<forall>j q' r'.
     rebooted st (apply_writes (take j (writes_between r u)) D) q' r' \<longrightarrow>
     returns (recover_from_log r') (\<lambda>_ u'. \<forall>b. b \<notin> log_area st \<longrightarrow> disk u' b = disk u b))"
proof -
  let ?hb = "word_of_int st :: uint32"
  let ?bs = "dec_head (D ?hb)"
  let ?W = "map (\<lambda>k. (?bs ! k, D (log_slot st k))) [0..<length ?bs]"
  let ?R = "replay ?hb (log_slot st) dec_head D"
  have r: "bc q {} {} r" "logdev r = ROOTDEV" and k: "log_start (klog r) = st" "disk r = D"
    using rb by (auto simp: rebooted_def)
  have h: "\<And>b. b \<in> set ?bs \<Longrightarrow> wal.home st b"
    using home by (simp add: home_iff)
  have n: "sint (get32 (disk r (word_of_int (log_start (klog r)))) 0) \<le> int NSLOTS"
    using head_count [of _ NSLOTS] le by (simp add: k le_NSLOTS)
  have hr: "\<forall>b \<in> set (dec_head (disk r (word_of_int (log_start (klog r))))). wal.home (log_start (klog r)) b"
    using h by (simp add: k)
  show ?thesis
    using recover_spec [OF r n hr]
  proof (rule returns_mono, elim conjE exE, intro allI impI)
    fix x u h0 j q' r'
    assume d: "dec_head h0 = []"
      and u: "disk u = (replay (word_of_int (log_start (klog r))) (log_slot (log_start (klog r))) dec_head
         (disk r))(word_of_int (log_start (klog r)) := h0)"
      and "dwrites u = (word_of_int (log_start (klog r)), h0) # rev (map (\<lambda>k. (dec_head (disk r
         (word_of_int (log_start (klog r)))) ! k, disk r (log_slot (log_start (klog r)) k)))
         [0..<length (dec_head (disk r (word_of_int (log_start (klog r)))))]) @ dwrites r"
      and rb': "rebooted st (apply_writes (take j (writes_between r u)) D) q' r'"
    then have w: "writes_between r u = ?W @ [(?hb, h0)]"
      by (intro writes_between_eq) (simp add: k)
    have uh: "disk u b = ?R b" if "b \<notin> log_area st" for b
      using that by (auto simp: u k log_area_def)
    show "returns (recover_from_log r') (\<lambda>_ u'. \<forall>b. b \<notin> log_area st \<longrightarrow> disk u' b = disk u b)"
    proof (cases "j \<le> length ?bs")
      case True
      let ?E = "apply_writes (take j ?W) D"
      have E: "rebooted st ?E q' r'"
        using rb' True by (simp add: w)
      have "?hb \<notin> set ?bs"
        using home by (auto simp: log_area_def)
      then have "?hb \<notin> set (map fst (take j ?W))"
        by (auto simp: take_map dest!: in_set_takeD) (metis nth_mem)
      then have hE: "?E ?hb = D ?hb"
        by (rule apply_writes_other)
      have "replay ?hb (log_slot st) dec_head ?E = ?R"
        using wal.replay_again [of D st j] le h by (simp add: le_NSLOTS)
      then show ?thesis
        using recover_rebooted [OF E] le home uh unfolding hE by (auto elim!: returns_mono)
    next
      case False
      let ?E = "?R(?hb := h0)"
      have E: "rebooted st ?E q' r'"
        using rb' False by (simp add: w replay_def)
      have "replay ?hb (log_slot st) dec_head ?E = ?E"
        using d by (simp add: wal.replay_none)
      then show ?thesis
        using recover_rebooted [OF E] d uh by (auto elim!: returns_mono simp: log_area_def LOGSIZE_def MAXOPBLOCKS_def)
    qed
  qed
qed

section \<open>Transactions\<close>

lemma tx_upd_data:
  assumes "tx p H P s" and "i \<in> H"
  shows "tx p H P (set_data i d s)"
  using assms set_data_spec(1,4) [of p H P s i d] bio_frame_fields(3) [OF set_data_spec(3) [of p H P s i d]]
  by (simp add: tx_def logdev_def)

lemma log_find_cases:
  "b \<in> set (logged l) \<and> log_find l b < nat (lh_n l) \<and> lh_block l (log_find l b) = b
   \<or> b \<notin> set (logged l) \<and> log_find l b = nat (lh_n l)"
proof (cases "find (\<lambda>i. lh_block l i = b) [0..<nat (lh_n l)]")
  case None
  then have "b \<notin> set (logged l)" by (auto simp: logged_def find_None_iff)
  then show ?thesis by (simp add: log_find_def None)
next
  case (Some i)
  then have "i < nat (lh_n l)" "lh_block l i = b" by (auto dest: find_SomeD)
  then show ?thesis by (auto simp: log_find_def logged_def Some)
qed

lemma bpin_eq:
  assumes "cpu_ok s" and "free_lk LkBcache s"
  shows "bpin i s = Ok () (upd_buf i (\<lambda>x. x\<lparr>b_refcnt := b_refcnt x + 1\<rparr>) s)"
  using assms by (simp add: bpin_def acquire_acq upd_buf_def)

lemma log_write_absorb:
  assumes "cpu_ok s" and "free_lk LkLog s" and "1 \<le> log_outstanding (klog s)"
    and "lh_n (klog s) < int LOGSIZE" and "lh_n (klog s) < log_size (klog s) - 1"
    and b: "b_blockno (bufs s i) \<in> set (logged (klog s))"
  shows "log_write i s = Ok () s"
proof -
  let ?l = "klog s"
  let ?k = "log_find ?l (b_blockno (bufs s i))"
  have k: "?k < nat (lh_n ?l)" "lh_block ?l ?k = b_blockno (bufs s i)"
    using log_find_cases [of "b_blockno (bufs s i)" ?l] b by auto
  then have "(lh_block ?l)(?k := b_blockno (bufs s i)) = lh_block ?l" and "int ?k \<noteq> lh_n ?l"
    by (auto simp: fun_eq_iff)
  then show ?thesis
    using assms by (simp add: log_write_def acquire_acq Let_def upd_log_def)
qed

lemma log_write_new:
  assumes "cpu_ok s" and lk: "free_lk LkLog s" and bl: "free_lk LkBcache s"
    and "1 \<le> log_outstanding (klog s)" "0 \<le> lh_n (klog s)"
    and "lh_n (klog s) < int LOGSIZE" and "lh_n (klog s) < log_size (klog s) - 1"
    and b: "b_blockno (bufs s i) \<notin> set (logged (klog s))"
  shows "log_write i s = Ok () (upd_buf i (\<lambda>x. x\<lparr>b_refcnt := b_refcnt x + 1\<rparr>) (upd_log (\<lambda>l.
     l\<lparr>lh_block := (lh_block l)(nat (lh_n l) := b_blockno (bufs s i)), lh_n := lh_n l + 1\<rparr>) s))"
proof -
  have k: "log_find (klog s) (b_blockno (bufs s i)) = nat (lh_n (klog s))"
    using log_find_cases [of "b_blockno (bufs s i)" "klog s"] b by auto
  let ?t = "upd_buf i (\<lambda>x. x\<lparr>b_refcnt := b_refcnt x + 1\<rparr>) (upd_log (\<lambda>l.
     l\<lparr>lh_block := (lh_block l)(nat (lh_n l) := b_blockno (bufs s i))\<rparr>) (acq LkLog s))"
  have p: "bpin i (upd_log (\<lambda>l. l\<lparr>lh_block := (lh_block l)(nat (lh_n l) := b_blockno (bufs s i))\<rparr>) (acq LkLog s)) = Ok () ?t"
    using assms by (intro bpin_eq) (simp_all add: upd_log_def free_lk_acq)
  have "release LkLog (upd_log (\<lambda>l. l\<lparr>lh_n := lh_n l + 1\<rparr>) ?t) = Ok () (upd_buf i (\<lambda>x. x\<lparr>b_refcnt := b_refcnt x + 1\<rparr>) (upd_log (\<lambda>l.
     l\<lparr>lh_block := (lh_block l)(nat (lh_n l) := b_blockno (bufs s i)), lh_n := lh_n l + 1\<rparr>) s))"
    using release_acq [OF assms(1,2), of "upd_log (\<lambda>l. l\<lparr>lh_n := lh_n l + 1\<rparr>) ?t"]
    by (auto simp: upd_log_def upd_buf_def acq_def intro!: kstate.equality)
  then show ?thesis
    using assms p k by (simp add: log_write_def acquire_acq Let_def upd_log_def)
qed

text \<open>Only the cache and the in-memory log header have changed.\<close>

definition tx_frame :: "kstate \<Rightarrow> kstate \<Rightarrow> bool" where
  "tx_frame s t \<longleftrightarrow> (\<exists>n f. t = s\<lparr>bufs := bufs t, slocks := slocks t, klog := (klog s)\<lparr>lh_n := n, lh_block := f\<rparr>\<rparr>)
     \<and> (\<forall>l. (\<forall>i. l \<noteq> SlBuf i) \<longrightarrow> slocks t l = slocks s l)"

lemma tx_frame_refl [simp]: "tx_frame s s"
  unfolding tx_frame_def by (intro conjI exI [of _ "lh_n (klog s)"] exI [of _ "lh_block (klog s)"]) simp_all

lemma tx_frame_trans:
  assumes "tx_frame s t" and "tx_frame t u"
  shows "tx_frame s u"
proof -
  obtain n f n' f' where t: "t = s\<lparr>bufs := bufs t, slocks := slocks t, klog := (klog s)\<lparr>lh_n := n, lh_block := f\<rparr>\<rparr>"
    and u: "u = t\<lparr>bufs := bufs u, slocks := slocks u, klog := (klog t)\<lparr>lh_n := n', lh_block := f'\<rparr>\<rparr>"
    using assms by (auto simp: tx_frame_def)
  have k: "klog t = (klog s)\<lparr>lh_n := n, lh_block := f\<rparr>"
    by (subst t) simp
  have "u = (s\<lparr>bufs := bufs t, slocks := slocks t, klog := (klog s)\<lparr>lh_n := n, lh_block := f\<rparr>\<rparr>)
      \<lparr>bufs := bufs u, slocks := slocks u, klog := (klog t)\<lparr>lh_n := n', lh_block := f'\<rparr>\<rparr>"
    unfolding t [symmetric] by (rule u)
  then have "u = s\<lparr>bufs := bufs u, slocks := slocks u, klog := (klog s)\<lparr>lh_n := n', lh_block := f'\<rparr>\<rparr>"
    by (simp add: k)
  then show ?thesis
    using assms unfolding tx_frame_def by metis
qed

lemma tx_frameI:
  assumes "t = s\<lparr>bufs := bufs t, slocks := slocks t, klog := klog t\<rparr>"
    and "klog t = (klog s)\<lparr>lh_n := lh_n (klog t), lh_block := lh_block (klog t)\<rparr>"
    and "\<And>l. (\<And>i. l \<noteq> SlBuf i) \<Longrightarrow> slocks t l = slocks s l"
  shows "tx_frame s t"
  unfolding tx_frame_def
proof (intro conjI exI)
  show "t = s\<lparr>bufs := bufs t, slocks := slocks t,
      klog := (klog s)\<lparr>lh_n := lh_n (klog t), lh_block := lh_block (klog t)\<rparr>\<rparr>"
    unfolding assms(2) [symmetric] by (rule assms(1))
qed (use assms(3) in blast)

lemma bio_tx_frame:
  assumes "bio_frame s t"
  shows "tx_frame s t"
proof (rule tx_frameI)
  have t: "t = s\<lparr>bufs := bufs t, slocks := slocks t\<rparr>"
    using assms by (simp add: bio_frame_def)
  have "t = t\<lparr>klog := klog t\<rparr>" by simp
  also have "\<dots> = s\<lparr>bufs := bufs t, slocks := slocks t\<rparr>\<lparr>klog := klog t\<rparr>"
    by (rule arg_cong [OF t])
  finally show "t = s\<lparr>bufs := bufs t, slocks := slocks t, klog := klog t\<rparr>" .
  show "slocks t l = slocks s l" if "\<And>i. l \<noteq> SlBuf i" for l
    using assms that unfolding bio_frame_def by blast
qed (simp add: bio_frame_fields(3) [OF assms])

lemma tx_frame_fields:
  assumes "tx_frame s t"
  shows "disk t = disk s" "dwrites t = dwrites s" "sb t = sb s" "procs t = procs s"
    "itable t = itable s" "mem t = mem s" "cpu t = cpu s" "csr t = csr s" "locks t = locks s"
    "ftable t = ftable s" "slocks t (SlInode k) = slocks s (SlInode k)" "frame t = frame s"
    "log_start (klog t) = log_start (klog s)" "log_size (klog t) = log_size (klog s)"
    "log_outstanding (klog t) = log_outstanding (klog s)" "log_committing (klog t) = log_committing (klog s)"
    "logdev t = logdev s"
proof -
  obtain n f where t: "t = s\<lparr>bufs := bufs t, slocks := slocks t, klog := (klog s)\<lparr>lh_n := n, lh_block := f\<rparr>\<rparr>"
    using assms by (auto simp: tx_frame_def)
  show "disk t = disk s" "dwrites t = dwrites s" "sb t = sb s" "procs t = procs s"
    "itable t = itable s" "mem t = mem s" "cpu t = cpu s" "csr t = csr s" "locks t = locks s"
    "ftable t = ftable s" "frame t = frame s"
    by (subst t; simp)+
  have "klog t = (klog s)\<lparr>lh_n := n, lh_block := f\<rparr>"
    by (subst t) simp
  then show "log_start (klog t) = log_start (klog s)" "log_size (klog t) = log_size (klog s)"
    "log_outstanding (klog t) = log_outstanding (klog s)" "log_committing (klog t) = log_committing (klog s)"
    "logdev t = logdev s"
    by (simp_all add: logdev_def)
  show "slocks t (SlInode k) = slocks s (SlInode k)"
    using assms by (simp add: tx_frame_def)
qed

text \<open>\<open>log_write\<close> makes a held buffer part of the transaction: it is recorded and pinned once.\<close>

lemma log_write_spec:
  assumes tx: "tx p H P s" and i: "i \<in> H" and out: "1 \<le> log_outstanding (klog s)"
    and room: "lh_n (klog s) < log_size (klog s) - 1"
    and home: "b_blockno (bufs s i) \<notin> log_area (log_start (klog s))"
  shows "returns (log_write i s) (\<lambda>_ t. tx p H (insert i P) t \<and> content t = content s \<and> tx_frame s t
     \<and> (\<forall>j. b_blockno (bufs t j) = b_blockno (bufs s j) \<and> b_data (bufs t j) = b_data (bufs s j))
     \<and> set (logged (klog t)) = insert (b_blockno (bufs s i)) (set (logged (klog s)))
     \<and> lh_n (klog t) = int (card (insert i P)))"
proof -
  let ?b = "b_blockno (bufs s i)"
  have bc: "bc p H P s" and n: "0 \<le> lh_n (klog s)" "lh_n (klog s) < int LOGSIZE"
    and bij: "bij_betw (\<lambda>i. b_blockno (bufs s i)) P (set (logged (klog s)))"
    and d: "distinct (logged (klog s))"
    using tx by (auto simp: tx_def)
  have lk: "cpu_ok s" "\<And>l. free_lk l s"
    using runningD [OF bcD(1) [OF bc]] by auto
  show ?thesis
  proof (cases "?b \<in> set (logged (klog s))")
    case True
    then have "?b \<in> (\<lambda>i. b_blockno (bufs s i)) ` P"
      using bij by (simp add: bij_betw_def)
    then obtain k where k: "k \<in> P" "b_blockno (bufs s k) = ?b"
      by auto
    have "k = i"
    proof (rule bcD(3) [OF bc])
      show "cached s ?b k" using held_cached [OF bc, of k] k by simp
      show "cached s ?b i" using held_cached [OF bc, of i] i by simp
    qed
    with k have "insert i P = P" by auto
    with True show ?thesis
      using log_write_absorb [OF lk(1) lk(2) out n(2) room True] tx tx_card(1) [OF tx] by auto
  next
    case False
    have iP: "i \<notin> P"
      using False bij by (auto simp: bij_betw_def)
    define u where "u = upd_buf i (\<lambda>x. x\<lparr>b_refcnt := b_refcnt x + 1\<rparr>) s"
    define t where "t = upd_log (\<lambda>l. l\<lparr>lh_block := (lh_block l)(nat (lh_n l) := ?b), lh_n := lh_n l + 1\<rparr>) u"
    have u: "bc p H (insert i P) u" "content u = content s" "bio_frame s u"
       "\<forall>j. b_blockno (bufs u j) = b_blockno (bufs s j) \<and> b_data (bufs u j) = b_data (bufs s j)"
      using bpin_spec [OF bc i iP] bpin_eq [OF lk(1) lk(2), of i] by (auto simp: u_def)
    have ut: "upd_buf i (\<lambda>x. x\<lparr>b_refcnt := b_refcnt x + 1\<rparr>) (upd_log (\<lambda>l.
       l\<lparr>lh_block := (lh_block l)(nat (lh_n l) := ?b), lh_n := lh_n l + 1\<rparr>) s) = t"
      unfolding t_def u_def by (rule kstate.equality) (simp_all add: upd_log_def upd_buf_def)
    have r: "log_write i s = Ok () t"
      using log_write_new [OF lk(1) lk(2) lk(2) out n room False] by (simp add: ut)
    have kt: "klog t = (klog s)\<lparr>lh_block := (lh_block (klog s))(nat (lh_n (klog s)) := ?b), lh_n := lh_n (klog s) + 1\<rparr>"
      using bio_frame_fields(3) [OF u(3)] by (simp add: t_def)
    have lg: "logged (klog t) = logged (klog s) @ [?b]"
      using n by (simp add: kt logged_def nat_add_distrib)
    have bct: "bc p H (insert i P) t" and bt: "b_blockno (bufs t j) = b_blockno (bufs s j)"
       "b_data (bufs t j) = b_data (bufs s j)" for j
      using u by (simp_all add: t_def)
    have "bij_betw (\<lambda>j. b_blockno (bufs s j)) (insert i P) (insert ?b (set (logged (klog s))))"
      using bij iP False by (rule notIn_Un_bij_betw [of i P _ "set (logged (klog s))", simplified, rotated 2])
    then have "tx p H (insert i P) t"
      using tx home room n d False bct bt unfolding tx_def lg
      by (simp add: kt logdev_def home_iff)
    moreover have "tx_frame s t"
    proof (rule tx_frameI)
      show "klog t = (klog s)\<lparr>lh_n := lh_n (klog t), lh_block := lh_block (klog t)\<rparr>"
        unfolding kt by (rule log.equality) simp_all
    qed (simp_all add: t_def u_def upd_log_def upd_buf_def)
    ultimately show ?thesis
      using r bt lg u(2) tx_card(1) [of p H "insert i P" t] by (simp add: t_def)
  qed
qed

section \<open>Admission and completion of file-system operations\<close>

lemma begin_op_loop:
  "wloop (\<lambda>_. 0) begin_op_try (Ok (Inl ()) s) = wloop (\<lambda>_. 0) begin_op_try (begin_op_try () s)"
proof (rule wloop_unroll)
  fix l s l' s' assume "begin_op_try l s = Ok (Inl l') s'"
  then show "(0 :: nat) < 0"
    by (auto simp: begin_op_try_def andthen_eq_Ok_iff sleep_never_Ok split: if_splits)
qed

lemma begin_op_admits:
  assumes "running p s" and "\<not> log_committing (klog s)"
    and "log_outstanding (klog s) = 0" and "lh_n (klog s) = 0"
  shows "begin_op s = Ok () (upd_log (\<lambda>l. l\<lparr>log_outstanding := 1\<rparr>) s)"
  using assms runningD(1,3) [OF assms(1)]
  by (simp add: begin_op_def acquire_acq begin_op_loop begin_op_try_def upd_log_def const_defs)

lemma begin_op_waits:
  assumes "cpu_ok s" "c_noff (cpu s) = 0" "c_proc (cpu s) = Some p"
    and "free_lk LkLog s" "free_lk (LkProc p) s"
    and "0 \<le> lh_n (klog s)" "0 \<le> log_outstanding (klog s)"
    and busy: "log_committing (klog s) \<or> 0 < lh_n (klog s) \<or> 0 < log_outstanding (klog s)"
  shows "\<exists>s1 k. begin_op s = Swtch s1 k \<and> p_state (procs s1 p) = SLEEPING
     \<and> p_chan (procs s1 p) = Some ChLog \<and> klog s1 = klog s \<and> \<not> lk_locked (locks s1 LkLog)"
proof -
  let ?t = "acq LkLog s"
  have t: "holding LkLog ?t" "c_noff (cpu ?t) = 1" "\<not> intr_get ?t" "c_proc (cpu ?t) = Some p"
      "free_lk (LkProc p) ?t"
    using assms by (auto simp: acq_def holding_def cpuid_def intr_get_def free_lk_def)
  note sw = sleep_to_swtch [OF t, where ch = ChLog]
  have "begin_op_try () ?t = andthen (sleep ChLog LkLog ?t) (\<lambda>_ s. Ok (Inl ()) s)"
    using busy assms(6,7) by (auto simp: begin_op_try_def const_defs)
  then show ?thesis
    using assms sw by (simp add: begin_op_def acquire_acq begin_op_loop) (simp add: upd_proc_def acq_def)
qed

lemma log_wakeup:
  assumes "running p s"
  shows "andthen (acquire LkLog s) (\<lambda>_ s. andthen (wakeup ChLog (upd_log f s)) (\<lambda>_ s. release LkLog s))
    = Ok () (upd_log f s)"
proof -
  note r = runningD [OF assms]
  let ?t = "upd_log f (acq LkLog s)"
  have "wakeup ChLog ?t = Ok () (?t\<lparr>procs := procs s\<rparr>)"
    using r by (subst wakeup_eq) (simp_all add: upd_log_def free_lk_acq)
  moreover have "release LkLog (?t\<lparr>procs := procs s\<rparr>) = Ok () (upd_log f s)"
    using r release_acq [OF r(1) r(3), of "?t\<lparr>procs := procs s\<rparr>" LkLog]
    by (auto simp: upd_log_def acq_def intro!: kstate.equality)
  ultimately show ?thesis
    using r by (simp add: acquire_acq)
qed

lemma tx_upd_log:
  assumes "tx p H P s" and "logged (f (klog s)) = logged (klog s)" and "lh_n (f (klog s)) = lh_n (klog s)"
    and "log_start (f (klog s)) = log_start (klog s)" "log_dev (f (klog s)) = log_dev (klog s)"
    and "log_size (f (klog s)) = log_size (klog s)"
  shows "tx p H P (upd_log f s)"
  using assms by (simp add: tx_def logdev_def)

text \<open>The end of the last operation of a transaction: everything is on disk in its place, and the
  log is empty and open again.\<close>

lemma end_op_spec:
  assumes tx: "tx p {} P s" and "log_outstanding (klog s) = 1" and "\<not> log_committing (klog s)"
  defines "st \<equiv> log_start (klog s)"
  shows "returns (end_op s) (\<lambda>_ t. bc p {} {} t
     \<and> disk_frame (upd_log (\<lambda>l. l\<lparr>lh_n := 0, log_outstanding := 0\<rparr>) s) t
     \<and> (\<forall>b. b \<notin> log_area st \<longrightarrow> disk t b = content s b \<and> content t b = content s b)
     \<and> (dec_head (disk s (word_of_int st)) = [] \<longrightarrow> dec_head (disk t (word_of_int st)) = []))"
proof -
  have bc: "bc p {} P s" and run: "running p s"
    using tx bcD(1) by (auto simp: tx_def)
  let ?open = "\<lambda>l. l\<lparr>log_committing := False\<rparr>"
  define s1 where "s1 = upd_log (\<lambda>l. l\<lparr>log_outstanding := 0, log_committing := True\<rparr>) s"
  have k1: "klog s1 = (klog s)\<lparr>log_outstanding := 0, log_committing := True\<rparr>" "content s1 = content s"
    "disk s1 = disk s"
    by (simp_all add: s1_def)
  have tx1: "tx p {} P s1"
    unfolding s1_def by (rule tx_upd_log [OF tx]) (simp_all add: logged_def)
  have e: "end_op s = andthen (commit s1) (\<lambda>_ s. andthen (acquire LkLog s) (\<lambda>_ s.
      andthen (wakeup ChLog (upd_log ?open s)) (\<lambda>_ s. release LkLog s)))"
    using runningD(1,3) [OF run] assms(2,3) by (simp add: end_op_def acquire_acq Let_def s1_def upd_log_def)
  have "(klog s)\<lparr>log_outstanding := 0, lh_n := 0, log_committing := False\<rparr>
      = (klog s)\<lparr>lh_n := 0, log_outstanding := 0\<rparr>"
    using assms(3) by (intro log.equality) simp_all
  then have o1: "upd_log ?open (upd_log (\<lambda>l. l\<lparr>lh_n := 0\<rparr>) s1) = upd_log (\<lambda>l. l\<lparr>lh_n := 0, log_outstanding := 0\<rparr>) s"
    by (simp add: s1_def upd_log_def)
  have fin: "returns (end_op s) Q"
    if t: "commit s1 = Ok () t" "running p t" "Q () (upd_log ?open t)" for Q t
    using log_wakeup [OF t(2), of ?open] t by (simp add: e)
  show ?thesis
  proof (cases "0 < lh_n (klog s)")
    case True
    then have "0 < lh_n (klog s1)" by (simp add: k1)
    from commit_spec [OF tx1 this] obtain t h0 where t: "commit s1 = Ok () t" "bc p {} {} t"
       "disk_frame (upd_log (\<lambda>l. l\<lparr>lh_n := 0\<rparr>) s1) t"
       "\<forall>b. wal.home st b \<longrightarrow> disk t b = content s b \<and> content t b = content s b"
       and h: "dec_head h0 = []" "disk t (word_of_int st) = h0"
      by (auto simp: returns_iff k1 st_def commit_writes_def logged_def)
    show ?thesis
    proof (rule fin [OF t(1) bcD(1) [OF t(2)]], intro conjI allI impI)
      show "disk_frame (upd_log (\<lambda>l. l\<lparr>lh_n := 0, log_outstanding := 0\<rparr>) s) (upd_log ?open t)"
        unfolding o1 [symmetric] by (rule disk_frame_upd_log [OF t(3)])
    qed (use t h in \<open>simp_all add: home_iff\<close>)
  next
    case False
    then have n: "lh_n (klog s) = 0" "card P = 0"
      using tx tx_card(1) [OF tx] by (auto simp: tx_def)
    then have "P = {}"
      using bcD(5) [OF bc] finite_subset by fastforce
    then have "bc p {} {} s" "content s = disk s"
      using bc content_disk by auto
    have "upd_log (\<lambda>l. l\<lparr>lh_n := 0\<rparr>) s1 = s1"
      using n by (simp add: s1_def upd_log_def)
    then have o2: "upd_log ?open s1 = upd_log (\<lambda>l. l\<lparr>lh_n := 0, log_outstanding := 0\<rparr>) s"
      using o1 by simp
    have "commit s1 = Ok () s1"
      using False by (simp add: commit_def k1)
    then show ?thesis
    proof (rule fin)
      show "running p s1" using run by (simp add: s1_def)
    qed (simp add: o2 \<open>bc p {} {} s\<close> \<open>content s = disk s\<close>)
  qed
qed

section \<open>A small transaction\<close>

text \<open>A machine after \<open>binit\<close> with process 0 running, the log at block 2, and a zeroed disk; and an
  operation that overwrites block 18, the first block of inodes.\<close>

definition demo_boot :: kstate where
  "demo_boot = binit ((bss (\<lambda>_. 0) (\<lambda>_ _. 0))\<lparr>
     cpu := \<lparr>c_proc = Some 0, c_noff = 0, c_intena = False\<rparr>,
     klog := \<lparr>log_start = 2, log_size = 16, log_outstanding = 0, log_committing = False, log_dev = 1,
       lh_n = 0, lh_block = (\<lambda>_. 0)\<rparr>\<rparr>)"

definition demo_op :: "kstate \<Rightarrow> unit kres" where
  "demo_op s =
     andthen (begin_op s) (\<lambda>_ s.
     andthen (bread ROOTDEV 18 s) (\<lambda>b s.
     andthen (log_write b (set_data b (\<lambda>_. 7) s)) (\<lambda>_ s.
     brelse b s)))"

lemma binit_one_fields: "klog (binit_one b s) = klog s" "disk (binit_one b s) = disk s"
  "dwrites (binit_one b s) = dwrites s"
  by (simp_all add: binit_one_def Let_def initsleeplock_def initlock_def upd_buf_def)

lemma binit_fields: "klog (binit s) = klog s" "disk (binit s) = disk s" "dwrites (binit s) = dwrites s"
proof -
  have "klog (fold binit_one xs s) = klog s" "disk (fold binit_one xs s) = disk s"
    "dwrites (fold binit_one xs s) = dwrites s" for xs s
    by (induction xs arbitrary: s) (simp_all add: binit_one_fields)
  then show "klog (binit s) = klog s" "disk (binit s) = disk s" "dwrites (binit s) = dwrites s"
    by (simp_all add: binit_def Let_def initlock_def upd_buf_def)
qed

lemma demo_boot_fields:
  "klog demo_boot = \<lparr>log_start = 2, log_size = 16, log_outstanding = 0, log_committing = False,
     log_dev = 1, lh_n = 0, lh_block = (\<lambda>_. 0)\<rparr>"
  "disk demo_boot = (\<lambda>_ _. 0)" "dwrites demo_boot = []"
  by (simp_all add: demo_boot_def binit_fields bss_def)

lemma demo_boot_cpu: "c_noff (cpu demo_boot) = 0"
proof -
  have "cpu (fold binit_one xs s) = cpu s" for xs s
    by (induction xs arbitrary: s)
       (simp_all add: binit_one_def Let_def initsleeplock_def initlock_def upd_buf_def)
  then show ?thesis
    by (simp add: demo_boot_def binit_def Let_def initlock_def upd_buf_def)
qed

lemma demo_boot_tx: "tx 0 {} {} demo_boot"
proof -
  have "bc 0 {} {} demo_boot"
    unfolding demo_boot_def
    by (rule binit_bc) (simp add: unused_cache_def running_def cpu_ok_def free_lk_def intr_get_def
      bss_def zero_proc_def zero_buf_def)
  then show ?thesis
    by (simp add: tx_def demo_boot_fields logdev_def logged_def const_defs bij_betw_def)
qed

lemma dec_head_zero: "dec_head (\<lambda>_. 0) = []"
  by (simp add: dec_head_def get32_def le32_def)

lemma demo_read:
  "\<exists>i t. andthen (begin_op demo_boot) (\<lambda>_ s. bread ROOTDEV 18 s) = Ok i t \<and> tx 0 {i} {} t
     \<and> klog t = \<lparr>log_start = 2, log_size = 16, log_outstanding = 1, log_committing = False,
       log_dev = 1, lh_n = 0, lh_block = (\<lambda>_. 0)\<rparr>
     \<and> disk t = (\<lambda>_ _. 0) \<and> content t = (\<lambda>_ _. 0) \<and> b_blockno (bufs t i) = 18"
proof -
  define s0 where "s0 = upd_log (\<lambda>l. l\<lparr>log_outstanding := 1\<rparr>) demo_boot"
  have r0: "running 0 demo_boot" and c0: "content demo_boot = (\<lambda>_ _. 0)"
    using demo_boot_tx content_disk [of 0 demo_boot] by (auto simp: tx_def demo_boot_fields dest: bcD(1))
  have b0: "begin_op demo_boot = Ok () s0"
    using begin_op_admits [OF r0] by (simp add: s0_def demo_boot_fields)
  have s0: "tx 0 {} {} s0" "content s0 = (\<lambda>_ _. 0)" "disk s0 = (\<lambda>_ _. 0)"
    "klog s0 = \<lparr>log_start = 2, log_size = 16, log_outstanding = 1, log_committing = False,
     log_dev = 1, lh_n = 0, lh_block = (\<lambda>_. 0)\<rparr>"
    unfolding s0_def using c0 demo_boot_fields
    by (auto intro!: tx_upd_log [OF demo_boot_tx] simp: logged_def)
  have "card ({} :: nat set) < NBUF" by (simp add: const_defs)
  then obtain i t where r1: "bread ROOTDEV 18 s0 = Ok i t" and t: "bc 0 {i} {} t" "bio_frame s0 t"
     "content t = content s0" "b_blockno (bufs t i) = 18"
    using bread_one [of 0 "{}" s0 18] s0(1) unfolding tx_def by metis
  have kt: "klog t = klog s0" "disk t = disk s0"
    using bio_frame_fields [OF t(2)] by auto
  have "tx 0 {i} {} t"
    using s0(1) t(1) kt by (simp add: tx_def logdev_def s0(4) logged_def bij_betw_def)
  then show ?thesis
    using b0 r1 kt t s0 by auto
qed

lemma demo_op_tx:
  "\<exists>i s. demo_op demo_boot = Ok () s \<and> tx 0 {} {i} s \<and> lh_n (klog s) = 1 \<and> log_start (klog s) = 2
     \<and> disk s = (\<lambda>_ _. 0) \<and> content s = (\<lambda>b. if b = 18 then (\<lambda>_. 7) else (\<lambda>_. 0))
     \<and> log_outstanding (klog s) = 1 \<and> \<not> log_committing (klog s)"
proof -
  obtain i t where r1: "andthen (begin_op demo_boot) (\<lambda>_ s. bread ROOTDEV 18 s) = Ok i t"
    and tx1: "tx 0 {i} {} t" and kt: "klog t = \<lparr>log_start = 2, log_size = 16, log_outstanding = 1,
       log_committing = False, log_dev = 1, lh_n = 0, lh_block = (\<lambda>_. 0)\<rparr>"
    and t: "disk t = (\<lambda>_ _. 0)" "content t = (\<lambda>_ _. 0)" "b_blockno (bufs t i) = 18"
    using demo_read by blast
  have bct: "bc 0 {i} {} t"
    using tx1 by (simp add: tx_def)
  define u where "u = set_data i (\<lambda>_. 7) t"
  note su = set_data_spec [OF bct, of i "\<lambda>_. 7", folded u_def]
  have txu: "tx 0 {i} {} u"
    unfolding u_def by (rule tx_upd_data [OF tx1]) simp
  have ku: "klog u = klog t" "disk u = disk t"
    using bio_frame_fields [OF su(3)] by auto
  have home: "b_blockno (bufs u i) \<notin> log_area (log_start (klog u))"
    using su(4) t(3) by (simp add: ku kt log_area_iff const_defs)
  obtain v where r2: "log_write i u = Ok () v" and v: "tx 0 {i} {i} v" "content v = content u" "tx_frame u v"
     "lh_n (klog v) = 1"
    using log_write_spec [OF txu _ _ _ home] by (auto simp: returns_iff ku kt)
  obtain w where r3: "brelse i v = Ok () w" and w: "bc 0 {} {i} w" "bio_frame v w" "content w = content v"
     "\<forall>k. b_blockno (bufs w k) = b_blockno (bufs v k)"
    using brelse_one [of 0 i "{i}" v] v(1) unfolding tx_def by blast
  have kw: "klog w = klog v" "disk w = disk t"
    using bio_frame_fields [OF w(2)] tx_frame_fields [OF v(3)] ku by auto
  have "tx 0 {} {i} w"
    using v(1) w(1,4) kw by (simp add: tx_def logdev_def)
  moreover have "demo_op demo_boot = Ok () w"
    using r1 r2 r3 by (simp add: demo_op_def u_def andthen_assoc [symmetric] del: andthen_assoc)
  moreover have "content w = (\<lambda>b. if b = 18 then (\<lambda>_. 7) else (\<lambda>_. 0))"
    using w(3) v(2) su(2) t(2,3) by (simp add: fun_eq_iff)
  ultimately show ?thesis
    using kw v(4) tx_frame_fields(13,15,16) [OF v(3)] t(1) by (auto simp: ku kt)
qed

section \<open>Properties\<close>

text \<open>C1. A transaction is atomic with respect to power failures. Let \<open>commit\<close> run on a log whose
  on-disk header is empty. It returns; and whatever prefix of its disk writes (\<open>j\<close> of them) reaches
  the disk before the machine stops, recovery on the next boot terminates and leaves every block
  outside the log as it was before the transaction if the header write was not among them, and as
  the transaction left it in the cache if it was.\<close>

theorem commit_atomic:
  assumes "tx p {} P s" and "0 < lh_n (klog s)"
    and "dec_head (disk s (word_of_int (log_start (klog s)))) = []"
  shows "returns (commit s) (\<lambda>_ t. \<forall>j q r.
     rebooted (log_start (klog s)) (apply_writes (take j (writes_between s t)) (disk s)) q r \<longrightarrow>
     returns (recover_from_log r) (\<lambda>_ u. \<forall>b. b \<notin> log_area (log_start (klog s)) \<longrightarrow>
       disk u b = (if j \<le> nat (lh_n (klog s)) then disk s b else content s b)))"
  using assms by (rule commit_crash_recovers)

theorem commit_atomic_witness:
  "\<exists>s. demo_op demo_boot = Ok () s \<and> lh_n (klog s) = 1 \<and> content s 18 = (\<lambda>_. 7) \<and>
     returns (commit s) (\<lambda>_ t. \<forall>j q r.
       rebooted 2 (apply_writes (take j (writes_between s t)) (\<lambda>_ _. 0)) q r \<longrightarrow>
       returns (recover_from_log r) (\<lambda>_ u. disk u 18 = (if j \<le> 1 then (\<lambda>_. 0) else (\<lambda>_. 7))))"
proof -
  obtain i s where s: "demo_op demo_boot = Ok () s" "tx 0 {} {i} s" "lh_n (klog s) = 1"
    "log_start (klog s) = 2" "disk s = (\<lambda>_ _. 0)" "content s = (\<lambda>b. if b = 18 then (\<lambda>_. 7) else (\<lambda>_. 0))"
    using demo_op_tx by blast
  have n: "18 \<notin> log_area 2"
    by (simp add: log_area_iff const_defs)
  have "returns (commit s) (\<lambda>_ t. \<forall>j q r.
       rebooted 2 (apply_writes (take j (writes_between s t)) (\<lambda>_ _. 0)) q r \<longrightarrow>
       returns (recover_from_log r) (\<lambda>_ u. disk u 18 = (if j \<le> 1 then (\<lambda>_. 0) else (\<lambda>_. 7))))"
  proof (rule returns_mono [OF commit_atomic [OF s(2)]], simp add: s(3), simp add: s(4,5) dec_head_zero,
      intro allI impI)
    fix t j q r
    assume all: "\<forall>j q r. rebooted (log_start (klog s)) (apply_writes (take j (writes_between s t)) (disk s)) q r \<longrightarrow>
        returns (recover_from_log r) (\<lambda>_ u. \<forall>b. b \<notin> log_area (log_start (klog s)) \<longrightarrow>
          disk u b = (if j \<le> nat (lh_n (klog s)) then disk s b else content s b))"
      and "rebooted 2 (apply_writes (take j (writes_between s t)) (\<lambda>_ _. 0)) q r"
    then have "returns (recover_from_log r) (\<lambda>_ u. \<forall>b. b \<notin> log_area 2 \<longrightarrow>
          disk u b = (if j \<le> 1 then (\<lambda>_. 0) else content s b))"
      unfolding s(3-5) by simp
    then show "returns (recover_from_log r) (\<lambda>_ u. disk u 18 = (if j \<le> 1 then (\<lambda>_. 0) else (\<lambda>_. 7)))"
      by (rule returns_mono) (use n in \<open>simp add: s(6)\<close>)
  qed
  then show ?thesis
    using s by auto
qed

text \<open>C2. Recovery may itself be interrupted: after a crash at any point of \<open>recover_from_log\<close>, running
  it again leaves the blocks outside the log as an uninterrupted recovery would have.\<close>

theorem recover_idempotent:
  assumes "rebooted st D q r" and "length (dec_head (D (word_of_int st))) < LOGSIZE"
    and "\<forall>b \<in> set (dec_head (D (word_of_int st))). b \<notin> log_area st"
  shows "returns (recover_from_log r) (\<lambda>_ u. \<forall>j q' r'.
     rebooted st (apply_writes (take j (writes_between r u)) D) q' r' \<longrightarrow>
     returns (recover_from_log r') (\<lambda>_ u'. \<forall>b. b \<notin> log_area st \<longrightarrow> disk u' b = disk u b))"
  using assms by (rule recover_crash_recovers)

theorem recover_idempotent_witness:
  "returns (recover_from_log demo_boot) (\<lambda>_ u. \<forall>j q' r'.
     rebooted 2 (apply_writes (take j (writes_between demo_boot u)) (\<lambda>_ _. 0)) q' r' \<longrightarrow>
     returns (recover_from_log r') (\<lambda>_ u'. \<forall>b. b \<notin> log_area 2 \<longrightarrow> disk u' b = disk u b))"
  by (rule recover_idempotent [of 2 "\<lambda>_ _. 0" 0 demo_boot])
     (use demo_boot_tx in \<open>simp_all add: rebooted_def tx_def demo_boot_fields dec_head_zero\<close>)



text \<open>C4. With \<open>MAXOPBLOCKS = LOGSIZE\<close> the admission test of \<open>begin_op\<close> lets one operation in at a
  time: an operation is admitted exactly when no commit is running, none is outstanding and the
  log is empty; in every other state the caller goes to sleep on the log with nothing changed.\<close>

theorem begin_op_exclusive:
  assumes "running p s" and "c_noff (cpu s) = 0"
    and "0 \<le> lh_n (klog s)" and "0 \<le> log_outstanding (klog s)"
  shows "if \<not> log_committing (klog s) \<and> lh_n (klog s) = 0 \<and> log_outstanding (klog s) = 0
     then begin_op s = Ok () (upd_log (\<lambda>l. l\<lparr>log_outstanding := 1\<rparr>) s)
     else \<exists>s1 k. begin_op s = Swtch s1 k \<and> p_state (procs s1 p) = SLEEPING
       \<and> p_chan (procs s1 p) = Some ChLog \<and> klog s1 = klog s"
proof -
  note r = runningD [OF assms(1)]
  show ?thesis
    using begin_op_admits [OF assms(1)] begin_op_waits [OF r(1) assms(2) r(2) r(3) r(3) assms(3,4)]
      assms(3,4) by (auto simp: le_less)
qed

theorem begin_op_exclusive_witness:
  "begin_op demo_boot = Ok () (upd_log (\<lambda>l. l\<lparr>log_outstanding := 1\<rparr>) demo_boot)
   \<and> (\<exists>s1 k. begin_op (upd_log (\<lambda>l. l\<lparr>log_outstanding := 1\<rparr>) demo_boot) = Swtch s1 k
      \<and> p_state (procs s1 0) = SLEEPING)"
proof -
  have r: "running 0 demo_boot" and n: "c_noff (cpu demo_boot) = 0"
    using demo_boot_tx demo_boot_cpu by (auto simp: tx_def dest: bcD(1))
  show ?thesis
    using begin_op_exclusive [OF r n] begin_op_exclusive [of 0 "upd_log (\<lambda>l. l\<lparr>log_outstanding := 1\<rparr>) demo_boot"]
      r n by (auto simp: demo_boot_fields upd_log_def)
qed

text \<open>C5. \<open>log_write\<close> records the buffer's block in the transaction exactly once: the logged block
  numbers stay distinct, the buffer is pinned in the cache, no block's contents change and nothing is
  written to the disk.\<close>

theorem log_write_pins:
  assumes "tx p H P s" and "i \<in> H" and "1 \<le> log_outstanding (klog s)"
    and "lh_n (klog s) < log_size (klog s) - 1"
    and "b_blockno (bufs s i) \<notin> log_area (log_start (klog s))"
  shows "returns (log_write i s) (\<lambda>_ t. tx p H (insert i P) t \<and> content t = content s
     \<and> disk t = disk s \<and> dwrites t = dwrites s
     \<and> set (logged (klog t)) = insert (b_blockno (bufs s i)) (set (logged (klog s)))
     \<and> distinct (logged (klog t)))"
  using log_write_spec [OF assms] by (auto elim!: returns_mono simp: tx_def dest: tx_frame_fields(1,2))

theorem log_write_pins_witness:
  "\<exists>i s. andthen (begin_op demo_boot) (\<lambda>_ s. bread ROOTDEV 18 s) = Ok i s \<and>
     returns (log_write i s) (\<lambda>_ t. set (logged (klog t)) = {18} \<and> distinct (logged (klog t))
       \<and> tx 0 {i} {i} t)"
proof -
  obtain i t where t: "andthen (begin_op demo_boot) (\<lambda>_ s. bread ROOTDEV 18 s) = Ok i t"
    "tx 0 {i} {} t" "klog t = \<lparr>log_start = 2, log_size = 16, log_outstanding = 1,
       log_committing = False, log_dev = 1, lh_n = 0, lh_block = (\<lambda>_. 0)\<rparr>" "b_blockno (bufs t i) = 18"
    using demo_read by blast
  have "logged (klog t) = []"
    by (simp add: t(3) logged_def)
  then have "returns (log_write i t) (\<lambda>_ u. set (logged (klog u)) = {18} \<and> distinct (logged (klog u))
       \<and> tx 0 {i} {i} u)"
    using log_write_pins [OF t(2), of i]
    by (auto simp: t(3,4) log_area_iff const_defs elim!: returns_mono)
  then show ?thesis
    using t(1) by blast
qed

end
