(* ===== verification/Kstring.thy ===== *)
theory Kstring
  imports Prelude
begin

text \<open>
  \<open>kernel/string.c\<close>. A pointer that is only read through, or the destination of a copy that does not
  overlap its source, is the byte sequence that starts at it (\<open>nat \<Rightarrow> byte\<close>); \<open>memmove\<close>, whose point
  is overlap, works on addresses in a memory. \<open>view\<close> and \<open>store\<close> relate the two. The \<open>int\<close> results of
  the comparisons are HOL integers.
\<close>

definition view :: "(uint32 \<Rightarrow> byte) \<Rightarrow> uint32 \<Rightarrow> bytes" where
  "view m a = (\<lambda>i. m (a + of_nat i))"

definition store :: "(uint32 \<Rightarrow> byte) \<Rightarrow> uint32 \<Rightarrow> nat \<Rightarrow> bytes \<Rightarrow> uint32 \<Rightarrow> byte" where
  "store m a n f = (\<lambda>x. if unat (x - a) < n then f (unat (x - a)) else m x)"

definition memset :: "bytes \<Rightarrow> int \<Rightarrow> nat \<Rightarrow> bytes" where
  "memset cdst c n = fold (\<lambda>i d. d(i := word_of_int c)) [0..<n] cdst"

primrec memcmp :: "bytes \<Rightarrow> bytes \<Rightarrow> nat \<Rightarrow> int" where
  "memcmp s1 s2 0 = 0"
| "memcmp s1 s2 (Suc n) =
     (if s1 0 \<noteq> s2 0 then uint (s1 0) - uint (s2 0)
      else memcmp (\<lambda>i. s1 (Suc i)) (\<lambda>i. s2 (Suc i)) n)"

primrec move_down :: "nat \<Rightarrow> uint32 \<Rightarrow> uint32 \<Rightarrow> (uint32 \<Rightarrow> byte) \<Rightarrow> uint32 \<Rightarrow> byte" where
  "move_down 0 d s m = m"
| "move_down (Suc n) d s m = move_down n (d - 1) (s - 1) (m(d - 1 := m (s - 1)))"

primrec move_up :: "nat \<Rightarrow> uint32 \<Rightarrow> uint32 \<Rightarrow> (uint32 \<Rightarrow> byte) \<Rightarrow> uint32 \<Rightarrow> byte" where
  "move_up 0 d s m = m"
| "move_up (Suc n) d s m = move_up n (d + 1) (s + 1) (m(d := m s))"

definition memmove :: "(uint32 \<Rightarrow> byte) \<Rightarrow> uint32 \<Rightarrow> uint32 \<Rightarrow> uint32 \<Rightarrow> uint32 \<Rightarrow> byte" where
  "memmove m dst src n =
     (if n = 0 then m
      else if src < dst \<and> src + n > dst then move_down (unat n) (dst + n) (src + n) m
      else move_up (unat n) dst src m)"

definition memcpy :: "(uint32 \<Rightarrow> byte) \<Rightarrow> uint32 \<Rightarrow> uint32 \<Rightarrow> uint32 \<Rightarrow> uint32 \<Rightarrow> byte" where
  "memcpy m dst src n = memmove m dst src n"

primrec strncmp :: "bytes \<Rightarrow> bytes \<Rightarrow> nat \<Rightarrow> int" where
  "strncmp p q 0 = 0"
| "strncmp p q (Suc n) =
     (if p 0 \<noteq> 0 \<and> p 0 = q 0 then strncmp (\<lambda>i. p (Suc i)) (\<lambda>i. q (Suc i)) n
      else uint (p 0) - uint (q 0))"

text \<open>The two loops of \<open>strncpy\<close>, with the index \<open>k\<close> of the next character and the count left. The
  count is compared before it is decremented, so the second loop starts with one less.\<close>

primrec strncpy_pad :: "nat \<Rightarrow> nat \<Rightarrow> bytes \<Rightarrow> bytes" where
  "strncpy_pad 0 k s = s"
| "strncpy_pad (Suc n) k s = strncpy_pad n (Suc k) (s(k := 0))"

primrec strncpy_copy :: "nat \<Rightarrow> nat \<Rightarrow> bytes \<Rightarrow> bytes \<Rightarrow> bytes" where
  "strncpy_copy 0 k s t = s"
| "strncpy_copy (Suc n) k s t =
     (let s = s(k := t k) in
      if t k \<noteq> 0 then strncpy_copy n (Suc k) s t else strncpy_pad n (Suc k) s)"

definition strncpy :: "bytes \<Rightarrow> bytes \<Rightarrow> int \<Rightarrow> bytes" where
  "strncpy s t n = strncpy_copy (nat n) 0 s t"

primrec safestrcpy_copy :: "nat \<Rightarrow> nat \<Rightarrow> bytes \<Rightarrow> bytes \<Rightarrow> bytes" where
  "safestrcpy_copy 0 k s t = s(k := 0)"
| "safestrcpy_copy (Suc n) k s t =
     (let s = s(k := t k) in
      if t k \<noteq> 0 then safestrcpy_copy n (Suc k) s t else s(Suc k := 0))"

definition safestrcpy :: "bytes \<Rightarrow> bytes \<Rightarrow> int \<Rightarrow> bytes" where
  "safestrcpy s t n = (if n \<le> 0 then s else safestrcpy_copy (nat (n - 1)) 0 s t)"

text \<open>\<open>strlen\<close> does not return on a sequence without a zero byte.\<close>

partial_function (option) strlen_from :: "bytes \<Rightarrow> nat \<Rightarrow> nat option" where
  [code]: "strlen_from s n = (if s n = 0 then Some n else strlen_from s (Suc n))"

definition strlen :: "bytes \<Rightarrow> nat option" where
  "strlen s = strlen_from s 0"

text \<open>The C string in an \<open>n\<close>-byte array.\<close>

definition cstr :: "nat \<Rightarrow> bytes \<Rightarrow> byte list" where
  "cstr n a = takeWhile (\<lambda>c. c \<noteq> 0) (map a [0..<n])"

section \<open>Copying and filling\<close>

lemma memset_eq: "memset d c n = (\<lambda>i. if i < n then word_of_int c else d i)"
  unfolding memset_def by (induction n) (auto simp: fun_eq_iff less_Suc_eq)

lemma view_store:
  assumes "i < n" and "n \<le> 2 ^ 32"
  shows "view (store m a n f) a i = f i"
  using assms by (simp add: view_def store_def unsigned_of_nat take_bit_nat_eq_self)

lemma store_outside: "\<not> unat (x - a) < n \<Longrightarrow> store m a n f x = m x"
  by (simp add: store_def)

lemma store_0 [simp]: "store m a 0 f = m"
  by (simp add: store_def)

text \<open>One byte at a time from below, and from above.\<close>

lemma unat_of_nat_small: "i < 2 ^ 32 \<Longrightarrow> unat (of_nat i :: uint32) = i"
  by (simp add: unsigned_of_nat take_bit_nat_eq_self)

lemma store_Suc_low:
  assumes "Suc n < 2 ^ 32"
  shows "store (m(d := f 0)) (d + 1) n (\<lambda>i. f (Suc i)) = store m d (Suc n) f"
proof
  fix x :: uint32
  show "store (m(d := f 0)) (d + 1) n (\<lambda>i. f (Suc i)) x = store m d (Suc n) f x"
  proof (cases "x = d")
    case True
    have "unat (d - (d + 1) :: uint32) = 2 ^ 32 - 1"
      by (simp add: unsigned_minus_1_eq_mask mask_eq_exp_minus_1)
    with True assms show ?thesis by (simp add: store_def)
  next
    case False
    then have "unat (x - (d + 1)) = unat (x - d) - 1" "unat (x - d) \<noteq> 0"
      using unat_minus_one [of "x - d"] by (simp_all add: diff_diff_eq unat_eq_0)
    with False show ?thesis by (auto simp: store_def)
  qed
qed

lemma store_Suc_high:
  assumes "Suc n < 2 ^ 32"
  shows "store (m(d + of_nat n := f n)) d n f = store m d (Suc n) f"
proof
  fix x
  have u: "unat (d + of_nat n - d) = n"
    using assms by (simp add: unat_of_nat_small)
  have x: "x = d + of_nat (unat (x - d))"
    by simp
  show "store (m(d + of_nat n := f n)) d n f x = store m d (Suc n) f x"
  proof (cases "unat (x - d) = n")
    case True
    with x have "x = d + of_nat n" by (simp only:)
    with u show ?thesis by (simp add: store_def)
  next
    case False
    with u have "x \<noteq> d + of_nat n" by auto
    with False show ?thesis by (simp add: store_def less_Suc_eq)
  qed
qed

lemma store_cong: "(\<And>i. i < n \<Longrightarrow> f i = g i) \<Longrightarrow> store m d n f = store m d n g"
  by (auto simp: store_def)

lemma move_up_eq:
  assumes "n < 2 ^ 32" and "\<And>i. 0 < i \<Longrightarrow> i < n \<Longrightarrow> d \<noteq> s + of_nat i"
  shows "move_up n d s m = store m d n (view m s)"
  using assms
proof (induction n arbitrary: d s m)
  case (Suc n)
  have "move_up n (d + 1) (s + 1) (m(d := m s)) = store (m(d := m s)) (d + 1) n (view (m(d := m s)) (s + 1))"
  proof (rule Suc.IH)
    show "d + 1 \<noteq> s + 1 + of_nat i" if "0 < i" "i < n" for i
      using Suc.prems(2) [of i] that by simp
  qed (use Suc.prems(1) in simp)
  then have "move_up (Suc n) d s m = store (m(d := m s)) (d + 1) n (view (m(d := m s)) (s + 1))"
    by simp
  also have "\<dots> = store (m(d := view m s 0)) (d + 1) n (\<lambda>i. view m s (Suc i))"
  proof (rule trans [OF store_cong])
    fix i assume "i < n"
    then have "d \<noteq> s + of_nat (Suc i)"
      using Suc.prems(2) [of "Suc i"] by simp
    then show "view (m(d := m s)) (s + 1) i = view m s (Suc i)"
      by (simp add: view_def add.assoc)
  qed (simp add: view_def)
  also have "\<dots> = store m d (Suc n) (view m s)"
    using store_Suc_low [of n m d "view m s"] Suc.prems(1) by simp
  finally show ?case .
qed simp

lemma move_down_eq:
  assumes "n < 2 ^ 32" and "\<And>i. 0 < i \<Longrightarrow> i < n \<Longrightarrow> s \<noteq> d + of_nat i"
  shows "move_down n (d + of_nat n) (s + of_nat n) m = store m d n (view m s)"
  using assms
proof (induction n arbitrary: m)
  case (Suc n)
  let ?m = "m(d + of_nat n := m (s + of_nat n))"
  have "move_down (Suc n) (d + of_nat (Suc n)) (s + of_nat (Suc n)) m = move_down n (d + of_nat n) (s + of_nat n) ?m"
    by (simp add: algebra_simps)
  also have "\<dots> = store ?m d n (view ?m s)"
    using Suc by simp
  also have "\<dots> = store (m(d + of_nat n := view m s n)) d n (view m s)"
  proof (rule trans [OF store_cong])
    fix i assume i: "i < n"
    have "s + of_nat i \<noteq> d + of_nat n"
    proof
      assume "s + of_nat i = d + of_nat n"
      then have "s = d + of_nat (n - i)" using i by (simp add: of_nat_diff algebra_simps)
      moreover have "s \<noteq> d + of_nat (n - i)" using i by (intro Suc.prems(2)) simp_all
      ultimately show False by blast
    qed
    then show "view ?m s i = view m s i" by (simp add: view_def)
  qed (simp add: view_def)
  also have "\<dots> = store m d (Suc n) (view m s)"
    using Suc.prems(1) by (intro store_Suc_high)
  finally show ?case .
qed simp

lemma add_of_nat_less:
  fixes a :: uint32
  assumes "unat a + i < 2 ^ 32"
  shows "unat (a + of_nat i) = unat a + i"
  using assms by (simp add: unat_word_ariths unat_of_nat_small)

text \<open>\<open>memmove\<close> copies the bytes the source had, overlap or not.\<close>

lemma memmove_eq:
  assumes "unat src + unat n \<le> 2 ^ 32" and "unat dst + unat n \<le> 2 ^ 32"
  shows "memmove m dst src n = store m dst (unat n) (view m src)"
proof -
  have n: "unat n < 2 ^ 32" "n = of_nat (unat n)"
    using unsigned_less [of n] by simp_all
  show ?thesis
  proof (cases "n = 0 \<or> src < dst \<and> src + n > dst")
    case True
    have "src \<noteq> dst + of_nat i" if "src < dst" "0 < i" "i < unat n" for i
      using add_of_nat_less [of dst i] that assms(2) by (auto simp: word_less_nat_alt)
    then have "src < dst \<Longrightarrow> move_down (unat n) (dst + of_nat (unat n)) (src + of_nat (unat n)) m
        = store m dst (unat n) (view m src)"
      using n by (intro move_down_eq) auto
    with True show ?thesis
      by (auto simp: memmove_def)
  next
    case False
    have "dst \<noteq> src + of_nat i" if i: "0 < i" "i < unat n" for i
    proof
      assume d: "dst = src + of_nat i"
      have u: "unat dst = unat src + i"
        using add_of_nat_less [of src i] i assms(1) d by simp
      then have "src < dst" and "unat src + unat n < 2 ^ 32"
        using i assms(2) by (auto simp: word_less_nat_alt)
      moreover from this have "unat (src + n) = unat src + unat n"
        by (simp add: unat_word_ariths)
      ultimately show False
        using False u i by (simp add: word_less_nat_alt)
    qed
    with n have "move_up (unat n) dst src m = store m dst (unat n) (view m src)"
      by (intro move_up_eq) auto
    then show ?thesis
      using False by (auto simp: memmove_def)
  qed
qed

section \<open>Strings\<close>

text \<open>\<open>strncmp\<close> returns zero exactly when the strings agree up to \<open>n\<close> characters or their common end.\<close>

lemma strncmp_0_iff:
  "strncmp p q n = 0 \<longleftrightarrow> (\<forall>i < n. (\<forall>j < i. p j \<noteq> 0) \<longrightarrow> p i = q i)"
proof (induction n arbitrary: p q)
  case (Suc n)
  show ?case
  proof (cases "p 0 \<noteq> 0 \<and> p 0 = q 0")
    case True
    have "(\<forall>i < n. (\<forall>j < i. p (Suc j) \<noteq> 0) \<longrightarrow> p (Suc i) = q (Suc i))
        \<longleftrightarrow> (\<forall>i < Suc n. (\<forall>j < i. p j \<noteq> 0) \<longrightarrow> p i = q i)"
      using True by (auto simp: All_less_Suc2)
    with True Suc.IH [of "\<lambda>i. p (Suc i)" "\<lambda>i. q (Suc i)"] show ?thesis by auto
  next
    case False
    then show ?thesis by (auto simp: All_less_Suc2 word_uint_eq_iff)
  qed
qed simp

lemma memcmp_0_iff: "memcmp p q n = 0 \<longleftrightarrow> (\<forall>i < n. p i = q i)"
  by (induction n arbitrary: p q) (auto simp: All_less_Suc2 word_uint_eq_iff)

lemma strncpy_pad_eq: "strncpy_pad n k s = (\<lambda>i. if k \<le> i \<and> i < k + n then 0 else s i)"
  by (induction n arbitrary: k s) (auto simp: fun_eq_iff)

text \<open>\<open>strncpy\<close> copies up to the first zero and fills the rest of the \<open>n\<close> bytes with zeros.\<close>

lemma strncpy_copy_eq:
  "strncpy_copy n k s t = (\<lambda>i. if k \<le> i \<and> i < k + n then (if \<exists>j. k \<le> j \<and> j < i \<and> t j = 0 then 0 else t i) else s i)"
proof (induction n arbitrary: k s)
  case (Suc n)
  show ?case
  proof (cases "t k = 0")
    case True
    then show ?thesis by (auto simp: strncpy_pad_eq fun_eq_iff Let_def)
  next
    case False
    have "(\<exists>j. k \<le> j \<and> j < i \<and> t j = 0) \<longleftrightarrow> (\<exists>j. Suc k \<le> j \<and> j < i \<and> t j = 0)" for i
      using False by (metis Suc_leD le_antisym not_less_eq_eq)
    with False Suc.IH show ?thesis by (auto simp: fun_eq_iff Let_def)
  qed
qed (auto simp: fun_eq_iff)

lemma strncpy_eq:
  "strncpy s t n = (\<lambda>i. if int i < n then (if \<exists>j < i. t j = 0 then 0 else t i) else s i)"
  by (auto simp: strncpy_def strncpy_copy_eq fun_eq_iff)

text \<open>\<open>safestrcpy\<close> leaves a terminated prefix of the source and writes nothing beyond \<open>n\<close> bytes.\<close>

lemma safestrcpy_copy_spec:
  "\<exists>e. k \<le> e \<and> e \<le> k + n \<and> safestrcpy_copy n k s t e = 0
     \<and> (\<forall>i. k \<le> i \<and> i < e \<longrightarrow> safestrcpy_copy n k s t i = t i \<and> t i \<noteq> 0)
     \<and> (e < k + n \<longrightarrow> t e = 0) \<and> (\<forall>i. i < k \<or> k + n < i \<longrightarrow> safestrcpy_copy n k s t i = s i)"
proof (induction n arbitrary: k s)
  case 0
  show ?case by (intro exI [of _ k]) auto
next
  case (Suc n)
  show ?case
  proof (cases "t k = 0")
    case True
    then show ?thesis by (intro exI [of _ k]) (auto simp: Let_def)
  next
    case False
    obtain e where e: "Suc k \<le> e" "e \<le> Suc k + n" "safestrcpy_copy n (Suc k) (s(k := t k)) t e = 0"
      "\<forall>i. Suc k \<le> i \<and> i < e \<longrightarrow> safestrcpy_copy n (Suc k) (s(k := t k)) t i = t i \<and> t i \<noteq> 0"
      "e < Suc k + n \<longrightarrow> t e = 0"
      "\<forall>i. i < Suc k \<or> Suc k + n < i \<longrightarrow> safestrcpy_copy n (Suc k) (s(k := t k)) t i = (s(k := t k)) i"
      using Suc.IH [of "Suc k" "s(k := t k)"] by blast
    show ?thesis
      using False e by (intro exI [of _ e]) (auto simp: Let_def le_Suc_eq less_Suc_eq_le Suc_le_eq dest: le_neq_implies_less)
  qed
qed

lemma strlen_from_Some:
  "s k = 0 \<Longrightarrow> n \<le> k \<Longrightarrow> (\<And>i. n \<le> i \<Longrightarrow> i < k \<Longrightarrow> s i \<noteq> 0) \<Longrightarrow> strlen_from s n = Some k"
proof (induction "k - n" arbitrary: n)
  case 0
  then show ?case by (simp add: strlen_from.simps [of s n])
next
  case (Suc d)
  then have "strlen_from s (Suc n) = Some k" by (intro Suc.hyps(1)) auto
  with Suc show ?case by (simp add: strlen_from.simps [of s n])
qed

lemma strlen_Some: "s k = 0 \<Longrightarrow> (\<And>i. i < k \<Longrightarrow> s i \<noteq> 0) \<Longrightarrow> strlen s = Some k"
  unfolding strlen_def by (rule strlen_from_Some) auto

end
