(* ===== verification/Kalloc.thy ===== *)
theory Kalloc
  imports Sleeplock Kstring
begin

text \<open>
  \<open>kernel/kalloc.c\<close>: the allocator of physical pages. The free list is threaded through the free
  pages themselves: \<open>kmem.freelist\<close> is the address of the first free page and the first word of
  every free page is the address of the next (\<open>struct run\<close>). \<open>flist\<close> reads that chain off the
  memory; \<open>kmem_ok s ps\<close> says that the allocator of state \<open>s\<close> holds exactly the pages \<open>ps\<close>.
  \<open>page_allocator\<close> is the contract the page-table code relies on.
\<close>

definition PGBYTES :: nat where [const_defs]: "PGBYTES = 4096"

definition mem_set :: "(uint32 \<Rightarrow> byte) \<Rightarrow> uint32 \<Rightarrow> int \<Rightarrow> nat \<Rightarrow> uint32 \<Rightarrow> byte" where
  "mem_set m a c n = store m a n (memset (view m a) c n)"

definition kfree :: "uint32 \<Rightarrow> kstate \<Rightarrow> unit kres" where
  "kfree pa s =
     (if pa mod PGSIZE \<noteq> 0 \<or> pa < k_end s \<or> pa \<ge> PHYSTOP then Panic ''kfree''
      else
        andthen (acquire LkKmem (s\<lparr>mem := mem_set (mem s) pa 1 PGBYTES\<rparr>)) (\<lambda>_ s.
        release LkKmem (s\<lparr>mem := put32 (mem s) pa (freelist s), freelist := pa\<rparr>)))"

definition kalloc :: "kstate \<Rightarrow> uint32 kres" where
  "kalloc s =
     andthen (acquire LkKmem s) (\<lambda>_ s.
     let r = freelist s;
         s = (if r \<noteq> 0 then s\<lparr>freelist := get32 (mem s) r\<rparr> else s)
     in andthen (release LkKmem s) (\<lambda>_ s.
        Ok r (if r \<noteq> 0 then s\<lparr>mem := mem_set (mem s) r 5 PGBYTES\<rparr> else s)))"

definition freerange_body :: "uint32 \<Rightarrow> uint32 \<Rightarrow> kstate \<Rightarrow> (uint32 + unit) kres" where
  "freerange_body pa_end p s =
     (if p + PGSIZE \<le> pa_end then andthen (kfree p s) (\<lambda>_ s. Ok (Inl (p + PGSIZE)) s)
      else Ok (Inr ()) s)"

definition freerange :: "uint32 \<Rightarrow> uint32 \<Rightarrow> kstate \<Rightarrow> unit kres" where
  "freerange pa_start pa_end s =
     wloop (\<lambda>p. unat (pa_end - p)) (freerange_body pa_end) (Ok (Inl (PGROUNDUP pa_start)) s)"

definition kinit :: "kstate \<Rightarrow> unit kres" where
  "kinit s = (let s = initlock LkKmem ''kmem'' s in freerange (k_end s) PHYSTOP s)"

section \<open>Pages\<close>

definition aligned :: "uint32 \<Rightarrow> bool" where
  "aligned a \<longleftrightarrow> a mod PGSIZE = 0"

lemma aligned_iff: "aligned a \<longleftrightarrow> take_bit 12 a = 0"
  by (simp add: aligned_def PGSIZE_def take_bit_eq_mod)

lemma aligned_unat: "aligned a \<longleftrightarrow> 4096 dvd unat a"
  by (simp add: aligned_def PGSIZE_def word_unat_eq_iff unat_mod_distrib dvd_eq_mod_eq_0)

lemma aligned_PGROUNDDOWN [simp]: "aligned (PGROUNDDOWN a)"
  by (simp add: aligned_iff PGROUNDDOWN_alt take_bit_push_bit)

lemma aligned_0 [simp]: "aligned 0"
  by (simp add: aligned_def)

lemma aligned_PGROUNDUP [simp]: "aligned (PGROUNDUP a)"
  using aligned_PGROUNDDOWN [of "a + PGSIZE - 1"] by (simp add: PGROUNDUP_def PGROUNDDOWN_def)

lemma aligned_bit: "aligned a \<Longrightarrow> n < 12 \<Longrightarrow> \<not> bit a n"
  unfolding aligned_iff by (metis bit_take_bit_iff bit_0_eq bot_apply bot_bool_def)

lemma aligned_bit_ge: "aligned a \<Longrightarrow> bit a n \<Longrightarrow> 12 \<le> n"
  by (metis aligned_bit not_less)

lemma PGROUNDDOWN_aligned: "aligned a \<Longrightarrow> PGROUNDDOWN a = a"
  by (rule bit_word_eqI) (auto simp: PGROUNDDOWN_alt bit_simps dest: aligned_bit_ge)

lemma PGROUNDDOWN_split: "a = PGROUNDDOWN a + take_bit 12 a"
proof -
  have "PGROUNDDOWN a OR take_bit 12 a = PGROUNDDOWN a + take_bit 12 a"
    by (subst disjunctive_add) (auto simp: PGROUNDDOWN_alt bit_simps)
  moreover have "PGROUNDDOWN a OR take_bit 12 a = a"
    by (rule bit_word_eqI) (auto simp: PGROUNDDOWN_alt bit_simps)
  ultimately show ?thesis by simp
qed

lemma PGROUNDDOWN_add:
  assumes "aligned a" and "unat i < PGBYTES"
  shows "PGROUNDDOWN (a + i) = a"
proof -
  have "take_bit 12 i = i"
    using assms(2) by (simp add: take_bit_eq_mod word_unat_eq_iff unat_mod_distrib PGBYTES_def)
  then have i: "\<not> bit i n" if "12 \<le> n" for n
    using that by (metis bit_take_bit_iff not_less)
  have "a + i = a OR i"
    by (rule disjunctive_add) (metis assms(1) aligned_bit i not_less)
  then show ?thesis
    using assms(1) i by (intro bit_word_eqI) (auto simp: PGROUNDDOWN_alt bit_simps dest: aligned_bit_ge)
qed

lemma in_page_iff:
  assumes "aligned a"
  shows "unat (x - a) < PGBYTES \<longleftrightarrow> PGROUNDDOWN x = a"
proof
  assume "unat (x - a) < PGBYTES"
  with PGROUNDDOWN_add [OF assms this] show "PGROUNDDOWN x = a" by simp
next
  assume "PGROUNDDOWN x = a"
  then have "x - a = take_bit 12 x"
    using PGROUNDDOWN_split [of x] by (metis add_diff_cancel_left')
  then show "unat (x - a) < PGBYTES"
    by (simp add: PGBYTES_def take_bit_eq_mod word_mod_def unsigned_of_int take_bit_int_eq_self
        unat_mod_distrib)
qed

text \<open>Writing inside one page does not show in another.\<close>

lemma store_other_page:
  "aligned a \<Longrightarrow> PGROUNDDOWN x \<noteq> a \<Longrightarrow> store m a PGBYTES f x = m x"
  by (simp add: store_def in_page_iff)

lemma page_word:
  assumes "aligned p"
  shows "PGROUNDDOWN p = p" "PGROUNDDOWN (p + 1) = p" "PGROUNDDOWN (p + 2) = p" "PGROUNDDOWN (p + 3) = p"
  using assms by (simp_all add: PGROUNDDOWN_aligned PGROUNDDOWN_add PGBYTES_def)

lemma get32_store_other_page:
  "aligned a \<Longrightarrow> aligned p \<Longrightarrow> p \<noteq> a \<Longrightarrow> get32 (store m a PGBYTES f) p = get32 m p"
  by (simp add: get32_def store_other_page page_word)

lemma put32_other_page:
  assumes "aligned a" "PGROUNDDOWN x \<noteq> a"
  shows "put32 m a v x = m x"
  using assms page_word [of a] by (intro put32_other) auto

lemma get32_put32_other_page:
  "aligned a \<Longrightarrow> aligned p \<Longrightarrow> p \<noteq> a \<Longrightarrow> get32 (put32 m a v) p = get32 m p"
  by (simp add: get32_def put32_other_page page_word)

lemma mem_set_eq: "mem_set m a c n = store m a n (\<lambda>_. word_of_int c)"
  by (auto simp: mem_set_def store_def memset_eq fun_eq_iff)

section \<open>The contract of a page allocator\<close>

text \<open>\<open>inv s ps\<close>: in state \<open>s\<close> the free pages are \<open>ps\<close>, the next to go first. An allocation takes
  a free page away or reports that there is none; a page that is freed is the next to be
  allocated. What follows for any number of allocations is proved from this alone.\<close>

locale page_allocator =
  fixes inv :: "'s \<Rightarrow> 'p list \<Rightarrow> bool"
    and alloc :: "'s \<Rightarrow> ('s, 'p) res"
    and free :: "'p \<Rightarrow> 's \<Rightarrow> ('s, unit) res"
    and null :: 'p
    and valid :: "'s \<Rightarrow> 'p \<Rightarrow> bool"
  assumes alloc_none: "inv s [] \<Longrightarrow> alloc s = Ok null s"
    and alloc_some: "inv s (p # ps) \<Longrightarrow> \<exists>t. alloc s = Ok p t \<and> inv t ps \<and> valid t p"
    and free_ok: "inv s ps \<Longrightarrow> valid s p \<Longrightarrow> p \<notin> set ps \<Longrightarrow> \<exists>t. free p s = Ok () t \<and> inv t (p # ps)"
    and inv_distinct: "inv s ps \<Longrightarrow> distinct ps \<and> null \<notin> set ps"
begin

primrec alloc_many :: "nat \<Rightarrow> 's \<Rightarrow> ('s, 'p list) res" where
  "alloc_many 0 s = Ok [] s"
| "alloc_many (Suc n) s = andthen (alloc s) (\<lambda>p s. andthen (alloc_many n s) (\<lambda>ps s. Ok (p # ps) s))"

lemma alloc_many_spec:
  "inv s (ps @ qs) \<Longrightarrow> \<exists>t. alloc_many (length ps) s = Ok ps t \<and> inv t qs"
proof (induction ps arbitrary: s)
  case (Cons p ps)
  then obtain t where "alloc s = Ok p t" "inv t (ps @ qs)"
    using alloc_some by (metis append_Cons)
  with Cons.IH [of t] show ?case by auto
qed simp

lemma alloc_many_exhausted:
  "inv s ps \<Longrightarrow> \<exists>t. alloc_many (length ps + n) s = Ok (ps @ replicate n null) t \<and> inv t []"
proof (induction ps arbitrary: s)
  case Nil
  have "alloc_many n s = Ok (replicate n null) s" if "inv s []" for n
    by (induction n) (use alloc_none [OF that] in auto)
  with Nil show ?case by auto
next
  case (Cons p ps)
  then obtain t where "alloc s = Ok p t" "inv t ps"
    using alloc_some by metis
  with Cons.IH [of t] show ?case by auto
qed

lemma alloc_free: "inv s (p # ps) \<Longrightarrow> \<exists>t. andthen (alloc s) free = Ok () t \<and> inv t (p # ps)"
  using alloc_some [of s p ps] free_ok inv_distinct [of s "p # ps"] by fastforce

lemma free_alloc:
  "inv s ps \<Longrightarrow> valid s p \<Longrightarrow> p \<notin> set ps \<Longrightarrow>
   \<exists>t. andthen (free p s) (\<lambda>_. alloc) = Ok p t \<and> inv t ps"
  using free_ok alloc_some by (metis andthen_simps(1))

end

section \<open>The free list\<close>

primrec flist :: "(uint32 \<Rightarrow> byte) \<Rightarrow> uint32 \<Rightarrow> uint32 list \<Rightarrow> bool" where
  "flist m a [] \<longleftrightarrow> a = 0"
| "flist m a (p # ps) \<longleftrightarrow> a = p \<and> p \<noteq> 0 \<and> flist m (get32 m p) ps"

definition page_ok :: "kstate \<Rightarrow> uint32 \<Rightarrow> bool" where
  "page_ok s p \<longleftrightarrow> aligned p \<and> k_end s \<le> p \<and> p < PHYSTOP \<and> p \<noteq> 0"

definition kmem_ok :: "kstate \<Rightarrow> uint32 list \<Rightarrow> bool" where
  "kmem_ok s ps \<longleftrightarrow> flist (mem s) (freelist s) ps \<and> distinct ps \<and> list_all (page_ok s) ps
     \<and> free_lk LkKmem s \<and> cpu_ok s"

lemma flist_cong:
  "(\<And>p. p \<in> set ps \<Longrightarrow> get32 m' p = get32 m p) \<Longrightarrow> flist m' a ps = flist m a ps"
  by (induction ps arbitrary: a) auto

lemma flist_unique: "flist m a ps \<Longrightarrow> flist m a qs \<Longrightarrow> ps = qs"
proof (induction ps arbitrary: a qs)
  case (Cons p ps)
  then show ?case by (cases qs) auto
next
  case Nil
  then show ?case by (cases qs) auto
qed

lemma kalloc_none: "kmem_ok s [] \<Longrightarrow> kalloc s = Ok 0 s"
  by (simp add: kmem_ok_def kalloc_def acquire_acq Let_def)

lemma kalloc_some:
  assumes "kmem_ok s (p # ps)"
  shows "kalloc s = Ok p (s\<lparr>freelist := get32 (mem s) p, mem := store (mem s) p PGBYTES (\<lambda>_. 5)\<rparr>)"
  using assms by (simp add: kmem_ok_def kalloc_def acquire_acq Let_def mem_set_eq)

lemma kmem_ok_kalloc:
  assumes "kmem_ok s (p # ps)"
  shows "kmem_ok (s\<lparr>freelist := get32 (mem s) p, mem := store (mem s) p PGBYTES f\<rparr>) ps"
proof -
  have "flist (store (mem s) p PGBYTES f) (get32 (mem s) p) ps = flist (mem s) (get32 (mem s) p) ps"
    using assms
    by (intro flist_cong get32_store_other_page) (auto simp: kmem_ok_def page_ok_def list_all_iff)
  with assms show ?thesis
    by (auto simp: kmem_ok_def page_ok_def [abs_def])
qed

lemma kfree_bad: "\<not> aligned p \<or> p < k_end s \<or> PHYSTOP \<le> p \<Longrightarrow> kfree p s = Panic ''kfree''"
  by (auto simp: kfree_def aligned_def)

lemma kfree_eq:
  assumes "kmem_ok s ps" and "page_ok s p"
  shows "kfree p s = Ok () (s\<lparr>mem := put32 (store (mem s) p PGBYTES (\<lambda>_. 1)) p (freelist s), freelist := p\<rparr>)"
proof -
  let ?s = "s\<lparr>mem := store (mem s) p PGBYTES (\<lambda>_. 1)\<rparr>"
  let ?t = "(acq LkKmem ?s)\<lparr>mem := put32 (mem ?s) p (freelist s), freelist := p\<rparr>"
  have ok: "cpu_ok ?s" "free_lk LkKmem ?s" using assms(1) by (auto simp: kmem_ok_def)
  then have "release LkKmem ?t = Ok () (?t\<lparr>csr := csr ?s, cpu := cpu ?s, locks := locks ?s\<rparr>)"
    by (rule release_acq) (simp_all add: acq_def)
  also have "?t\<lparr>csr := csr ?s, cpu := cpu ?s, locks := locks ?s\<rparr> =
      s\<lparr>mem := put32 (store (mem s) p PGBYTES (\<lambda>_. 1)) p (freelist s), freelist := p\<rparr>"
    by (simp add: acq_def)
  finally have r: "release LkKmem ?t = Ok () (s\<lparr>mem := put32 (store (mem s) p PGBYTES (\<lambda>_. 1)) p (freelist s), freelist := p\<rparr>)" .
  from r acquire_acq [OF ok] assms(2) show ?thesis
    by (simp add: kfree_def page_ok_def aligned_def mem_set_eq linorder_not_less linorder_not_le)
qed

lemma kmem_ok_kfree:
  assumes "kmem_ok s ps" and "page_ok s p" and "p \<notin> set ps"
  shows "kmem_ok (s\<lparr>mem := put32 (store (mem s) p PGBYTES f) p (freelist s), freelist := p\<rparr>) (p # ps)"
proof -
  have "flist (put32 (store (mem s) p PGBYTES f) p (freelist s)) (freelist s) ps = flist (mem s) (freelist s) ps"
  proof (rule flist_cong)
    fix q
    assume "q \<in> set ps"
    with assms have "aligned q" "q \<noteq> p" "aligned p"
      by (auto simp: kmem_ok_def page_ok_def list_all_iff)
    then show "get32 (put32 (store (mem s) p PGBYTES f) p (freelist s)) q = get32 (mem s) q"
      by (simp add: get32_put32_other_page get32_store_other_page)
  qed
  with assms show ?thesis
    by (auto simp: kmem_ok_def page_ok_def [abs_def] mem_simps)
qed

interpretation kmem: page_allocator kmem_ok kalloc kfree 0 page_ok
proof unfold_locales
  fix s p ps
  assume a: "kmem_ok s (p # ps)"
  have "page_ok s p"
    using a by (simp add: kmem_ok_def)
  then show "\<exists>t. kalloc s = Ok p t \<and> kmem_ok t ps \<and> page_ok t p"
    using kalloc_some [OF a] kmem_ok_kalloc [OF a] by (auto simp: page_ok_def)
next
  fix s ps p
  assume "kmem_ok s ps" "page_ok s p" "p \<notin> set ps"
  then show "\<exists>t. kfree p s = Ok () t \<and> kmem_ok t (p # ps)"
    using kfree_eq kmem_ok_kfree by blast
qed (auto simp: kalloc_none kmem_ok_def list_all_iff page_ok_def)

section \<open>Initialisation\<close>

text \<open>The pages from \<open>a\<close> upwards, the order in which \<open>freerange\<close> frees them.\<close>

definition pages_from :: "uint32 \<Rightarrow> nat \<Rightarrow> uint32 list" where
  "pages_from a n = map (\<lambda>i. a + of_nat i * PGSIZE) [0..<n]"

lemma pages_from_Suc: "pages_from a (Suc n) = a # pages_from (a + PGSIZE) n"
  unfolding pages_from_def map_upt_Suc by (simp add: algebra_simps)

lemma freerange_body_dec:
  "freerange_body e p s = Ok (Inl p') s' \<Longrightarrow> unat (e - p') < unat (e - p)"
proof -
  assume "freerange_body e p s = Ok (Inl p') s'"
  then have p': "p' = p + PGSIZE" "p + PGSIZE \<le> e" and lt: "p < PHYSTOP"
    by (auto simp: freerange_body_def kfree_def andthen_eq_Ok_iff split: if_splits)
  from lt have "unat p < unat PHYSTOP" by (simp add: word_less_nat_alt)
  then have "unat (p + PGSIZE) = unat p + 4096"
    by (simp add: unat_word_ariths PGSIZE_def PHYSTOP_def KERNBASE_def)
  with p' show ?thesis
    by (simp add: unat_sub word_le_nat_alt)
qed

lemmas freerange_unroll =
  wloop_unroll [where m = "\<lambda>p. unat (e - p)" and f = "freerange_body e" for e, OF freerange_body_dec]

lemma freerange_loop:
  assumes "kmem_ok s ps" and "aligned a" and "k_end s \<le> a" and "a \<noteq> 0"
    and "unat a + n * 4096 = unat PHYSTOP" and "\<forall>p \<in> set ps. p < a"
  shows "\<exists>t. wloop (\<lambda>p. unat (PHYSTOP - p)) (freerange_body PHYSTOP) (Ok (Inl a) s) = Ok () t
     \<and> kmem_ok t (rev (pages_from a n) @ ps)"
  using assms
proof (induction n arbitrary: a ps s)
  case 0
  then have "a = PHYSTOP" by (simp add: word_unat_eq_iff)
  then have "\<not> a + PGSIZE \<le> PHYSTOP" by (simp add: PHYSTOP_def KERNBASE_def PGSIZE_def)
  then have "freerange_body PHYSTOP a s = Ok (Inr ()) s" by (simp add: freerange_body_def)
  with 0 show ?case
    by (simp add: freerange_unroll [where l = a and s = s] pages_from_def)
next
  case (Suc n)
  have ph: "unat PHYSTOP = 0x81000000" by (simp add: PHYSTOP_def KERNBASE_def)
  have u: "unat (a + PGSIZE) = unat a + 4096"
    using Suc.prems(5) ph by (simp add: unat_word_ariths PGSIZE_def)
  have "a < PHYSTOP" "a + PGSIZE \<le> PHYSTOP" "a < a + PGSIZE"
    using Suc.prems(5) u by (simp_all add: word_less_nat_alt word_le_nat_alt)
  with Suc.prems have pa: "page_ok s a" and na: "a \<notin> set ps"
    by (auto simp: page_ok_def)
  obtain t where t: "kfree a s = Ok () t" "kmem_ok t (a # ps)" "k_end t = k_end s"
    using kfree_eq [OF Suc.prems(1) pa] kmem_ok_kfree [OF Suc.prems(1) pa na] by fastforce
  have "aligned (a + PGSIZE)"
    using Suc.prems(2) u by (simp add: aligned_unat)
  moreover have "a + PGSIZE \<noteq> 0"
    using \<open>a < a + PGSIZE\<close> by (metis word_not_simps(1))
  moreover have "\<forall>p \<in> set (a # ps). p < a + PGSIZE"
    using Suc.prems(6) \<open>a < a + PGSIZE\<close> by (auto intro: less_trans)
  moreover have "k_end t \<le> a + PGSIZE"
    using t(3) Suc.prems(3) \<open>a < a + PGSIZE\<close> by simp
  ultimately obtain t' where
      "wloop (\<lambda>p. unat (PHYSTOP - p)) (freerange_body PHYSTOP) (Ok (Inl (a + PGSIZE)) t) = Ok () t'"
      "kmem_ok t' (rev (pages_from (a + PGSIZE) n) @ (a # ps))"
    using Suc.IH [OF t(2), of "a + PGSIZE"] u Suc.prems(5) by auto
  moreover have "freerange_body PHYSTOP a s = Ok (Inl (a + PGSIZE)) t"
    using t(1) \<open>a + PGSIZE \<le> PHYSTOP\<close> by (simp add: freerange_body_def)
  ultimately show ?case
    by (simp add: freerange_unroll [where l = a and s = s] pages_from_Suc)
qed

lemma kinit_ok:
  assumes "cpu_ok s" and "freelist s = 0" and "0 < PGROUNDUP (k_end s)"
    and "k_end s \<le> PGROUNDUP (k_end s)" and "PGROUNDUP (k_end s) \<le> PHYSTOP"
  shows "\<exists>t. kinit s = Ok () t \<and>
    kmem_ok t (rev (pages_from (PGROUNDUP (k_end s)) (unat (PHYSTOP - PGROUNDUP (k_end s)) div 4096)))"
proof -
  let ?a = "PGROUNDUP (k_end s)"
  let ?s = "initlock LkKmem ''kmem'' s"
  have ok: "kmem_ok ?s []"
    using assms by (auto simp: kmem_ok_def initlock_def free_lk_def cpu_ok_def intr_get_def)
  have u: "unat (PHYSTOP - ?a) = unat PHYSTOP - unat ?a"
    using assms(5) by (simp add: unat_sub)
  have "4096 dvd unat PHYSTOP" by (simp add: PHYSTOP_def KERNBASE_def)
  then have "4096 dvd unat (PHYSTOP - ?a)"
    using u aligned_PGROUNDUP [of "k_end s"] by (simp add: aligned_unat)
  then have "unat ?a + unat (PHYSTOP - ?a) div 4096 * 4096 = unat PHYSTOP"
    using u assms(5) by (simp add: word_le_nat_alt)
  moreover have "k_end ?s = k_end s" by (simp add: initlock_def)
  ultimately show ?thesis
    using freerange_loop [OF ok, of ?a] assms by (simp add: kinit_def Let_def freerange_def)
qed

end
