(* ===== verification/Vm.thy ===== *)
theory Vm
  imports Kalloc
begin

text \<open>
  \<open>kernel/vm.c\<close>, \<open>proc_mapstacks\<close> of \<open>proc.c\<close> and \<open>platform_kvmmap\<close> of the NEMU platform: page tables.

  A \<open>pagetable_t\<close> is the address of a page in \<open>mem\<close> and a \<open>pte_t *\<close> the address of one of its words;
  0 is the null pointer. The kernel reads and writes page tables and user pages through its direct
  map, so these are plain loads and stores in \<open>mem\<close>. \<open>walk\<close> descends one level (the loop over
  \<open>level\<close> runs once). A page handed out by \<open>kalloc\<close> is filled before it is tested nowhere but in
  \<open>kvmmake\<close> and \<open>uvmfirst\<close>; a null one faults there.
\<close>

definition pte_addr :: "uint32 \<Rightarrow> nat \<Rightarrow> uint32 \<Rightarrow> uint32" where
  "pte_addr pagetable level va = pagetable + 4 * PX level va"

definition walk :: "uint32 \<Rightarrow> uint32 \<Rightarrow> bool \<Rightarrow> kstate \<Rightarrow> uint32 kres" where
  "walk pagetable va alloc s =
     (if va > MAXVA then Panic ''walk''
      else let pte = pte_addr pagetable 1 va; e = get32 (mem s) pte
      in if e AND PTE_V \<noteq> 0 then Ok (pte_addr (PTE2PA e) 0 va) s
         else if \<not> alloc then Ok 0 s
         else andthen (kalloc s) (\<lambda>pagetable s.
           if pagetable = 0 then Ok 0 s
           else let s = s\<lparr>mem := mem_set (mem s) pagetable 0 PGBYTES\<rparr>;
                    s = s\<lparr>mem := put32 (mem s) pte (PA2PTE pagetable OR PTE_V)\<rparr>
                in Ok (pte_addr pagetable 0 va) s))"

definition walkaddr :: "uint32 \<Rightarrow> uint32 \<Rightarrow> kstate \<Rightarrow> uint32 kres" where
  "walkaddr pagetable va s =
     (if va > MAXVA then Ok 0 s
      else andthen (walk pagetable va False s) (\<lambda>pte s.
        if pte = 0 then Ok 0 s
        else if get32 (mem s) pte AND PTE_V = 0 then Ok 0 s
        else if get32 (mem s) pte AND PTE_U = 0 then Ok 0 s
        else Ok (PTE2PA (get32 (mem s) pte)) s))"

text \<open>The loop variables of \<open>mappages\<close> are \<open>a\<close>, \<open>pa\<close> and \<open>perm\<close>.\<close>

definition mappages_body ::
  "uint32 \<Rightarrow> uint32 \<Rightarrow> uint32 \<times> uint32 \<times> uint32 \<Rightarrow> kstate \<Rightarrow> (uint32 \<times> uint32 \<times> uint32 + int) kres" where
  "mappages_body pagetable final l s =
     (let (a, pa, perm) = l in
      andthen (walk pagetable a True s) (\<lambda>pte s.
      if pte = 0 then Ok (Inr (-1)) s
      else if get32 (mem s) pte AND PTE_V \<noteq> 0 then Panic ''mappages: remap''
      else let perm = perm OR PTE_A;
               perm = (if perm AND PTE_W \<noteq> 0 then perm OR PTE_D else perm);
               s = s\<lparr>mem := put32 (mem s) pte (PA2PTE pa OR perm OR PTE_V)\<rparr>
           in if a = final then Ok (Inr 0) s
              else Ok (Inl (a + PGSIZE, pa + PGSIZE, perm)) s))"

definition mappages :: "uint32 \<Rightarrow> uint32 \<Rightarrow> uint32 \<Rightarrow> uint32 \<Rightarrow> uint32 \<Rightarrow> kstate \<Rightarrow> int kres" where
  "mappages pagetable va sz pa perm s =
     (if sz = 0 then Panic ''mappages: size''
      else let a = PGROUNDDOWN va; final = PGROUNDDOWN (va + sz - 1)
           in wloop (\<lambda>(a, _). unat (final - a)) (mappages_body pagetable final) (Ok (Inl (a, pa, perm)) s))"

definition kvmmap :: "uint32 \<Rightarrow> uint32 \<Rightarrow> uint32 \<Rightarrow> uint32 \<Rightarrow> uint32 \<Rightarrow> kstate \<Rightarrow> unit kres" where
  "kvmmap kpgtbl va pa sz perm s =
     andthen (mappages kpgtbl va sz pa perm s) (\<lambda>r s.
     if r \<noteq> 0 then Panic ''kvmmap'' else Ok () s)"

text \<open>One page of \<open>uvmunmap\<close>; \<open>i\<close> counts from \<open>va >> 12\<close>, and the number of rounds is what the
  comparison \<open>a < (va >> 12) + npages\<close> admits.\<close>

definition uvmunmap_page :: "uint32 \<Rightarrow> uint32 \<Rightarrow> bool \<Rightarrow> nat \<Rightarrow> kstate \<Rightarrow> unit option kres" where
  "uvmunmap_page pagetable va do_free i s =
     (let a = drop_bit 12 va + of_nat i in
      andthen (walk pagetable (push_bit 12 a) False s) (\<lambda>pte s.
      if pte = 0 then Panic ''uvmunmap: walk''
      else if get32 (mem s) pte AND PTE_V = 0 then Panic ''uvmunmap: not mapped''
      else if PTE_FLAGS (get32 (mem s) pte) = PTE_V then Panic ''uvmunmap: not a leaf''
      else andthen (if do_free then kfree (PTE2PA (get32 (mem s) pte)) s else Ok () s) (\<lambda>_ s.
           Ok None (s\<lparr>mem := put32 (mem s) pte 0\<rparr>))))"

definition uvmunmap :: "uint32 \<Rightarrow> uint32 \<Rightarrow> uint32 \<Rightarrow> bool \<Rightarrow> kstate \<Rightarrow> unit kres" where
  "uvmunmap pagetable va npages do_free s =
     (if va mod PGSIZE \<noteq> 0 then Panic ''uvmunmap: not aligned''
      else andthen
        (for_each [0..<unat (drop_bit 12 va + npages) - unat (drop_bit 12 va)]
           (uvmunmap_page pagetable va do_free) s) (\<lambda>_ s. Ok () s))"

definition uvmcreate :: "kstate \<Rightarrow> uint32 kres" where
  "uvmcreate s =
     andthen (kalloc s) (\<lambda>pagetable s.
     if pagetable = 0 then Ok 0 s
     else Ok pagetable (s\<lparr>mem := mem_set (mem s) pagetable 0 PGBYTES\<rparr>))"

definition uvmfirst :: "uint32 \<Rightarrow> bytes \<Rightarrow> uint32 \<Rightarrow> kstate \<Rightarrow> unit kres" where
  "uvmfirst pagetable src sz s =
     (if sz \<ge> PGSIZE then Panic ''uvmfirst: more than a page''
      else andthen (kalloc s) (\<lambda>m s.
        if m = 0 then null_deref
        else andthen (mappages pagetable 0 PGSIZE m (PTE_W OR PTE_R OR PTE_X OR PTE_U)
               (s\<lparr>mem := mem_set (mem s) m 0 PGBYTES\<rparr>)) (\<lambda>_ s.
             Ok () (s\<lparr>mem := store (mem s) m (unat sz) src\<rparr>))))"

definition uvmdealloc :: "uint32 \<Rightarrow> uint32 \<Rightarrow> uint32 \<Rightarrow> kstate \<Rightarrow> uint32 kres" where
  "uvmdealloc pagetable oldsz newsz s =
     (if newsz \<ge> oldsz then Ok oldsz s
      else andthen
        (if PGROUNDUP newsz < PGROUNDUP oldsz
         then uvmunmap pagetable (PGROUNDUP newsz) ((PGROUNDUP oldsz - PGROUNDUP newsz) div PGSIZE) True s
         else Ok () s) (\<lambda>_ s. Ok newsz s))"

definition uvmalloc_body ::
  "uint32 \<Rightarrow> uint32 \<Rightarrow> uint32 \<Rightarrow> uint32 \<Rightarrow> uint32 \<Rightarrow> kstate \<Rightarrow> (uint32 + uint32) kres" where
  "uvmalloc_body pagetable oldsz newsz xperm a s =
     (if \<not> a < newsz then Ok (Inr newsz) s
      else andthen (kalloc s) (\<lambda>m s.
        if m = 0 then andthen (uvmdealloc pagetable a oldsz s) (\<lambda>_ s. Ok (Inr 0) s)
        else andthen (mappages pagetable a PGSIZE m (PTE_R OR PTE_U OR xperm)
               (s\<lparr>mem := mem_set (mem s) m 0 PGBYTES\<rparr>)) (\<lambda>r s.
          if r \<noteq> 0 then
            andthen (kfree m s) (\<lambda>_ s.
            andthen (uvmdealloc pagetable a oldsz s) (\<lambda>_ s. Ok (Inr 0) s))
          else Ok (Inl (a + PGSIZE)) s)))"

definition uvmalloc :: "uint32 \<Rightarrow> uint32 \<Rightarrow> uint32 \<Rightarrow> uint32 \<Rightarrow> kstate \<Rightarrow> uint32 kres" where
  "uvmalloc pagetable oldsz newsz xperm s =
     (if newsz < oldsz then Ok oldsz s
      else let oldsz = PGROUNDUP oldsz
           in wloop (\<lambda>a. unat (newsz - a)) (uvmalloc_body pagetable oldsz newsz xperm) (Ok (Inl oldsz) s))"

text \<open>\<open>freewalk\<close> recurses into every entry that points to a lower table. An Sv32 table has two
  levels, so a depth of two suffices; running deeper is the outcome \<open>Spin\<close>.\<close>

primrec freewalk_at :: "nat \<Rightarrow> uint32 \<Rightarrow> kstate \<Rightarrow> unit kres" where
  "freewalk_at 0 pagetable s = Spin"
| "freewalk_at (Suc d) pagetable s =
     andthen (for_each [0..<1024] (\<lambda>i s.
       let pte = get32 (mem s) (pagetable + 4 * of_nat i) in
       if pte AND PTE_V \<noteq> 0 \<and> pte AND (PTE_R OR PTE_W OR PTE_X) = 0 then
         andthen (freewalk_at d (PTE2PA pte) s) (\<lambda>_ s.
         Ok None (s\<lparr>mem := put32 (mem s) (pagetable + 4 * of_nat i) 0\<rparr>))
       else if pte AND PTE_V \<noteq> 0 then Panic ''freewalk: leaf''
       else Ok (None :: unit option) s) s) (\<lambda>_ s.
     kfree pagetable s)"

definition freewalk :: "uint32 \<Rightarrow> kstate \<Rightarrow> unit kres" where
  "freewalk pagetable s = freewalk_at 2 pagetable s"

definition uvmfree :: "uint32 \<Rightarrow> uint32 \<Rightarrow> kstate \<Rightarrow> unit kres" where
  "uvmfree pagetable sz s =
     andthen (if sz > 0 then uvmunmap pagetable 0 (PGROUNDUP sz div PGSIZE) True s else Ok () s)
       (\<lambda>_ s. freewalk pagetable s)"

definition uvmcopy_err :: "uint32 \<Rightarrow> uint32 \<Rightarrow> kstate \<Rightarrow> (uint32 + int) kres" where
  "uvmcopy_err new i s = andthen (uvmunmap new 0 (i div PGSIZE) True s) (\<lambda>_ s. Ok (Inr (-1)) s)"

definition uvmcopy_body :: "uint32 \<Rightarrow> uint32 \<Rightarrow> uint32 \<Rightarrow> uint32 \<Rightarrow> kstate \<Rightarrow> (uint32 + int) kres" where
  "uvmcopy_body old new sz i s =
     (if \<not> i < sz then Ok (Inr 0) s
      else andthen (walk old i False s) (\<lambda>pte s.
        if pte = 0 then Panic ''uvmcopy: pte should exist''
        else if get32 (mem s) pte AND PTE_V = 0 then Panic ''uvmcopy: page not present''
        else let pa = PTE2PA (get32 (mem s) pte); flags = PTE_FLAGS (get32 (mem s) pte) in
          andthen (kalloc s) (\<lambda>m s.
          if m = 0 then uvmcopy_err new i s
          else andthen (mappages new i PGSIZE m flags (s\<lparr>mem := memmove (mem s) m pa PGSIZE\<rparr>)) (\<lambda>r s.
            if r \<noteq> 0 then andthen (kfree m s) (\<lambda>_ s. uvmcopy_err new i s)
            else Ok (Inl (i + PGSIZE)) s))))"

definition uvmcopy :: "uint32 \<Rightarrow> uint32 \<Rightarrow> uint32 \<Rightarrow> kstate \<Rightarrow> int kres" where
  "uvmcopy old new sz s = wloop (\<lambda>i. unat (sz - i)) (uvmcopy_body old new sz) (Ok (Inl 0) s)"

definition uvmclear :: "uint32 \<Rightarrow> uint32 \<Rightarrow> kstate \<Rightarrow> unit kres" where
  "uvmclear pagetable va s =
     andthen (walk pagetable va False s) (\<lambda>pte s.
     if pte = 0 then Panic ''uvmclear''
     else Ok () (s\<lparr>mem := put32 (mem s) pte (get32 (mem s) pte AND NOT PTE_U)\<rparr>))"

section \<open>Copies between the kernel and user memory\<close>

definition copyout_body ::
  "uint32 \<Rightarrow> uint32 \<times> bytes \<times> uint32 \<Rightarrow> kstate \<Rightarrow> (uint32 \<times> bytes \<times> uint32 + int) kres" where
  "copyout_body pagetable l s =
     (let (dstva, src, len) = l in
      if \<not> len > 0 then Ok (Inr 0) s
      else let va0 = PGROUNDDOWN dstva in
        andthen (walkaddr pagetable va0 s) (\<lambda>pa0 s.
        if pa0 = 0 then Ok (Inr (-1)) s
        else let n = PGSIZE - (dstva - va0);
                 n = (if n > len then len else n)
             in Ok (Inl (va0 + PGSIZE, (\<lambda>i. src (i + unat n)), len - n))
                  (s\<lparr>mem := store (mem s) (pa0 + (dstva - va0)) (unat n) src\<rparr>)))"

definition copyout :: "uint32 \<Rightarrow> uint32 \<Rightarrow> bytes \<Rightarrow> uint32 \<Rightarrow> kstate \<Rightarrow> int kres" where
  "copyout pagetable dstva src len s =
     wloop (\<lambda>(_, _, len). unat len) (copyout_body pagetable) (Ok (Inl (dstva, src, len)) s)"

text \<open>\<open>blit d k n f\<close>: the array \<open>d\<close> after the \<open>n\<close> bytes \<open>f\<close> have been copied to offset \<open>k\<close>. The
  destination of \<open>copyin\<close> and \<open>copyinstr\<close> is returned beside the result.\<close>

definition blit :: "bytes \<Rightarrow> nat \<Rightarrow> nat \<Rightarrow> bytes \<Rightarrow> bytes" where
  "blit d k n f = (\<lambda>i. if k \<le> i \<and> i < k + n then f (i - k) else d i)"

definition copyin_body ::
  "uint32 \<Rightarrow> bytes \<times> nat \<times> uint32 \<times> uint32 \<Rightarrow> kstate \<Rightarrow> (bytes \<times> nat \<times> uint32 \<times> uint32 + int \<times> bytes) kres" where
  "copyin_body pagetable l s =
     (let (dst, k, srcva, len) = l in
      if \<not> len > 0 then Ok (Inr (0, dst)) s
      else let va0 = PGROUNDDOWN srcva in
        andthen (walkaddr pagetable va0 s) (\<lambda>pa0 s.
        if pa0 = 0 then Ok (Inr (-1, dst)) s
        else let n = PGSIZE - (srcva - va0);
                 n = (if n > len then len else n);
                 dst = blit dst k (unat n) (view (mem s) (pa0 + (srcva - va0)))
             in Ok (Inl (dst, k + unat n, va0 + PGSIZE, len - n)) s))"

definition copyin :: "uint32 \<Rightarrow> bytes \<Rightarrow> uint32 \<Rightarrow> uint32 \<Rightarrow> kstate \<Rightarrow> (int \<times> bytes) kres" where
  "copyin pagetable dst srcva len s =
     wloop (\<lambda>(_, _, _, len). unat len) (copyin_body pagetable) (Ok (Inl (dst, 0, srcva, len)) s)"

text \<open>The inner loop of \<open>copyinstr\<close>: at most \<open>n\<close> bytes from \<open>p\<close> to offset \<open>k\<close>; says whether it met
  the terminator.\<close>

primrec copyinstr_page :: "nat \<Rightarrow> bytes \<Rightarrow> bytes \<Rightarrow> nat \<Rightarrow> bytes \<times> bool" where
  "copyinstr_page 0 p dst k = (dst, False)"
| "copyinstr_page (Suc n) p dst k =
     (if p 0 = 0 then (dst(k := 0), True)
      else copyinstr_page n (\<lambda>i. p (Suc i)) (dst(k := p 0)) (Suc k))"

definition copyinstr_body ::
  "uint32 \<Rightarrow> bytes \<times> nat \<times> uint32 \<times> uint32 \<Rightarrow> kstate \<Rightarrow> (bytes \<times> nat \<times> uint32 \<times> uint32 + int \<times> bytes) kres" where
  "copyinstr_body pagetable l s =
     (let (dst, k, srcva, mx) = l in
      if \<not> mx > 0 then Ok (Inr (-1, dst)) s
      else let va0 = PGROUNDDOWN srcva in
        andthen (walkaddr pagetable va0 s) (\<lambda>pa0 s.
        if pa0 = 0 then Ok (Inr (-1, dst)) s
        else let n = PGSIZE - (srcva - va0);
                 n = (if n > mx then mx else n);
                 (dst, got_null) = copyinstr_page (unat n) (view (mem s) (pa0 + (srcva - va0))) dst k
             in if got_null then Ok (Inr (0, dst)) s
                else Ok (Inl (dst, k + unat n, va0 + PGSIZE, mx - n)) s))"

definition copyinstr :: "uint32 \<Rightarrow> bytes \<Rightarrow> uint32 \<Rightarrow> uint32 \<Rightarrow> kstate \<Rightarrow> (int \<times> bytes) kres" where
  "copyinstr pagetable dst srcva mx s =
     wloop (\<lambda>(_, _, _, mx). unat mx) (copyinstr_body pagetable) (Ok (Inl (dst, 0, srcva, mx)) s)"

text \<open>\<open>either_copyout\<close> and \<open>either_copyin\<close> of \<open>proc.c\<close>.\<close>

definition either_copyout :: "bool \<Rightarrow> uint32 \<Rightarrow> bytes \<Rightarrow> uint32 \<Rightarrow> kstate \<Rightarrow> int kres" where
  "either_copyout user_dst dst src len s =
     andthen (myproc s) (\<lambda>p s.
     if user_dst then
       (case p of None \<Rightarrow> null_deref | Some p \<Rightarrow> copyout (p_pagetable (procs s p)) dst src len s)
     else Ok 0 (s\<lparr>mem := store (mem s) dst (unat len) src\<rparr>))"

definition either_copyin :: "bytes \<Rightarrow> bool \<Rightarrow> uint32 \<Rightarrow> uint32 \<Rightarrow> kstate \<Rightarrow> (int \<times> bytes) kres" where
  "either_copyin dst user_src src len s =
     andthen (myproc s) (\<lambda>p s.
     if user_src then
       (case p of None \<Rightarrow> null_deref | Some p \<Rightarrow> copyin (p_pagetable (procs s p)) dst src len s)
     else Ok (0, blit dst 0 (unat len) (view (mem s) src)) s)"

section \<open>The kernel's own page table\<close>

definition NEMU_MMIO :: uint32 where [const_defs]: "NEMU_MMIO = 0xa0000000"
definition NEMU_PLIC :: uint32 where [const_defs]: "NEMU_PLIC = 0x0c000000"

definition platform_kvmmap :: "uint32 \<Rightarrow> kstate \<Rightarrow> unit kres" where
  "platform_kvmmap kpgtbl s =
     andthen (kvmmap kpgtbl NEMU_MMIO NEMU_MMIO PGSIZE (PTE_R OR PTE_W) s) (\<lambda>_ s.
     kvmmap kpgtbl NEMU_PLIC NEMU_PLIC 0x400000 (PTE_R OR PTE_W) s)"

definition proc_mapstacks :: "uint32 \<Rightarrow> kstate \<Rightarrow> unit kres" where
  "proc_mapstacks kpgtbl s =
     andthen (for_each [0..<NPROC] (\<lambda>p s.
       andthen (kalloc s) (\<lambda>pa s.
       if pa = 0 then Panic ''kalloc''
       else andthen (kvmmap kpgtbl (KSTACK p) pa PGSIZE (PTE_R OR PTE_W) s) (\<lambda>_ s.
            Ok (None :: unit option) s))) s) (\<lambda>_ s. Ok () s)"

definition kvmmake :: "kstate \<Rightarrow> uint32 kres" where
  "kvmmake s =
     andthen (kalloc s) (\<lambda>kpgtbl s.
     if kpgtbl = 0 then null_deref
     else
       andthen (platform_kvmmap kpgtbl (s\<lparr>mem := mem_set (mem s) kpgtbl 0 PGBYTES\<rparr>)) (\<lambda>_ s.
       andthen (kvmmap kpgtbl KERNBASE KERNBASE (k_etext s - KERNBASE) (PTE_R OR PTE_X OR PTE_A) s) (\<lambda>_ s.
       andthen (kvmmap kpgtbl (k_etext s) (k_etext s) (PHYSTOP - k_etext s)
                  (PTE_R OR PTE_W OR PTE_A OR PTE_D) s) (\<lambda>_ s.
       andthen (kvmmap kpgtbl TRAMPOLINE (k_trampoline s) PGSIZE (PTE_R OR PTE_X OR PTE_A) s) (\<lambda>_ s.
       andthen (proc_mapstacks kpgtbl s) (\<lambda>_ s.
       Ok kpgtbl s))))))"

definition kvminit :: "kstate \<Rightarrow> unit kres" where
  "kvminit s = andthen (kvmmake s) (\<lambda>pt s. Ok () (s\<lparr>kernel_pagetable := pt\<rparr>))"

definition kvminithart :: "kstate \<Rightarrow> kstate" where
  "kvminithart s = s\<lparr>csr := (csr s)\<lparr>csr_satp := MAKE_SATP (kernel_pagetable s)\<rparr>\<rparr>"

end
