(* ===== verification/Printf.thy ===== *)
theory Printf
  imports Spinlock
begin

text \<open>
  \<open>kernel/printf.c\<close> and the output half of \<open>kernel/console.c\<close>, on the NEMU platform, whose serial port
  takes a byte at any time (\<open>platform_uart_putc\<close>, \<open>platform_uart_putc_sync\<close>). What has been sent is the
  list \<open>uart_sent\<close>. A format string is the list of its characters; the variable arguments are a list
  of words and strings, and an argument the caller did not pass reads as zero. \<open>panic\<close> prints and
  halts: it is the outcome \<open>Panic\<close>.
\<close>

definition bstr :: "string \<Rightarrow> byte list" where
  "bstr s = map of_char s"

definition BACKSPACE :: int where [const_defs]: "BACKSPACE = 0x100"

definition platform_uart_putc_sync :: "int \<Rightarrow> kstate \<Rightarrow> kstate" where
  "platform_uart_putc_sync c s = s\<lparr>uart := (uart s)\<lparr>uart_sent := uart_sent (uart s) @ [word_of_int c]\<rparr>\<rparr>"

definition platform_uart_putc :: "int \<Rightarrow> kstate \<Rightarrow> kstate" where
  "platform_uart_putc c s = s\<lparr>uart := (uart s)\<lparr>uart_sent := uart_sent (uart s) @ [word_of_int c]\<rparr>\<rparr>"

definition consputc :: "int \<Rightarrow> kstate \<Rightarrow> kstate" where
  "consputc c s =
     (if c = BACKSPACE then
        platform_uart_putc_sync 8 (platform_uart_putc_sync 0x20 (platform_uart_putc_sync 8 s))
      else platform_uart_putc_sync c s)"

definition digit :: "nat \<Rightarrow> byte" where
  "digit d = of_char (''0123456789abcdef'' ! d)"

text \<open>The digits of \<open>printint\<close>, least significant first. The count is fuel for the loop: in any base from 2 on, a
  32-bit number is divided down to zero in at most 32 rounds. That what is stored fits in \<open>buf[16]\<close>, with the
  sign, is proved (\<open>printint_value\<close>).\<close>

primrec printint_digits :: "nat \<Rightarrow> nat \<Rightarrow> nat \<Rightarrow> byte list" where
  "printint_digits 0 base x = []"
| "printint_digits (Suc n) base x =
     digit (x mod base) # (if x div base \<noteq> 0 then printint_digits n base (x div base) else [])"

definition printint_chars :: "uint32 \<Rightarrow> nat \<Rightarrow> bool \<Rightarrow> byte list" where
  "printint_chars xx base sign =
     (let neg = (sign \<and> sint xx < 0);
          x = (if neg then - xx else xx)
      in (if neg then [0x2d] else []) @ rev (printint_digits 32 base (unat x)))"

definition printptr_chars :: "uint32 \<Rightarrow> byte list" where
  "printptr_chars x = bstr ''0x'' @ map (\<lambda>i. digit (unat (drop_bit 28 (push_bit (4 * i) x)))) [0..<8]"

datatype parg = ArgW uint32 | ArgS "byte list option"

primrec arg_word :: "parg list \<Rightarrow> uint32" where
  "arg_word [] = 0"
| "arg_word (a # ap) = (case a of ArgW w \<Rightarrow> w | ArgS _ \<Rightarrow> 0)"

primrec arg_str :: "parg list \<Rightarrow> byte list option" where
  "arg_str [] = None"
| "arg_str (a # ap) = (case a of ArgW _ \<Rightarrow> None | ArgS x \<Rightarrow> x)"

fun printf_chars :: "byte list \<Rightarrow> parg list \<Rightarrow> byte list" where
  "printf_chars [] ap = []"
| "printf_chars [c] ap = (if c \<noteq> 0x25 then [c] else [])"
| "printf_chars (c # d # cs) ap =
     (if c \<noteq> 0x25 then c # printf_chars (d # cs) ap
      else if d = 0x64 then printint_chars (arg_word ap) 10 True @ printf_chars cs (tl ap)
      else if d = 0x78 then printint_chars (arg_word ap) 16 True @ printf_chars cs (tl ap)
      else if d = 0x70 then printptr_chars (arg_word ap) @ printf_chars cs (tl ap)
      else if d = 0x73 then (case arg_str ap of None \<Rightarrow> bstr ''(null)'' | Some x \<Rightarrow> x) @ printf_chars cs (tl ap)
      else if d = 0x25 then 0x25 # printf_chars cs ap
      else 0x25 # d # printf_chars cs ap)"

definition consputs :: "byte list \<Rightarrow> kstate \<Rightarrow> kstate" where
  "consputs cs s = fold (\<lambda>c. consputc (uint c)) cs s"

definition printf :: "string \<Rightarrow> parg list \<Rightarrow> kstate \<Rightarrow> unit kres" where
  "printf fmt ap s =
     (let locking = pr_locking s in
      andthen (if locking then acquire LkPr s else Ok () s) (\<lambda>_ s.
      let s = consputs (printf_chars (bstr fmt) ap) s in
      if locking then release LkPr s else Ok () s))"

definition printfinit :: "kstate \<Rightarrow> kstate" where
  "printfinit s = (initlock LkPr ''pr'' (s\<lparr>panicked := False\<rparr>))\<lparr>pr_locking := True\<rparr>"

section \<open>What is printed\<close>

lemma consputs_eq:
  "consputs cs s = s\<lparr>uart := (uart s)\<lparr>uart_sent := uart_sent (uart s) @ cs\<rparr>\<rparr>"
proof (induction cs arbitrary: s)
  case (Cons c cs)
  have "uint c < 256" using uint_lt2p [of c] by simp
  then show ?case
    using Cons.IH [of "consputc (uint c) s"]
    by (simp add: consputs_def consputc_def BACKSPACE_def platform_uart_putc_sync_def)
qed (simp add: consputs_def)

lemma printf_eq:
  assumes "cpu_ok s" and "pr_locking s \<Longrightarrow> free_lk LkPr s"
  shows "printf fmt ap s =
    Ok () (s\<lparr>uart := (uart s)\<lparr>uart_sent := uart_sent (uart s) @ printf_chars (bstr fmt) ap\<rparr>\<rparr>)"
  using assms by (simp add: printf_def Let_def acquire_acq consputs_eq)

text \<open>Reading the printed digits back gives the number.\<close>

definition digit_val :: "byte \<Rightarrow> nat" where
  "digit_val c = (if c < 0x3a then unat c - 48 else unat c - 87)"

primrec digits_val :: "nat \<Rightarrow> byte list \<Rightarrow> nat" where
  "digits_val base [] = 0"
| "digits_val base (c # cs) = digit_val c + base * digits_val base cs"

lemma digit_val_digit: "d < 16 \<Longrightarrow> digit_val (digit d) = d"
proof -
  have "\<forall>d \<in> set [0..<16]. digit_val (digit d) = d" by code_simp
  then show "d < 16 \<Longrightarrow> ?thesis" by simp
qed

lemma digits_val_printint:
  assumes "1 < base" "base \<le> 16" "x < base ^ n"
  shows "digits_val base (printint_digits n base x) = x"
  using assms(3)
proof (induction n arbitrary: x)
  case (Suc n)
  have "x div base < base ^ n"
    using Suc.prems by (simp add: less_mult_imp_div_less mult.commute)
  with Suc.IH have "digits_val base (printint_digits n base (x div base)) = x div base" .
  moreover have "digit_val (digit (x mod base)) = x mod base"
    using assms by (intro digit_val_digit) (metis mod_less_divisor order_less_le_trans zero_less_one_class.zero_less_one less_trans)
  ultimately show ?case by (auto simp: mult.commute [of base] div_eq_0_iff split: if_splits)
qed simp

text \<open>No digit too many, and none that is not one of the base.\<close>

lemma printint_digits_length: "x < base ^ Suc k \<Longrightarrow> length (printint_digits n base x) \<le> Suc k"
proof (induction n arbitrary: x k)
  case (Suc n)
  show ?case
  proof (cases k)
    case 0
    then show ?thesis using Suc.prems by simp
  next
    case (Suc j)
    then have "x div base < base ^ Suc j"
      using Suc.prems by (simp add: less_mult_imp_div_less mult.commute)
    then show ?thesis using Suc.IH [of "x div base" j] Suc by simp
  qed
qed simp

lemma digit_mem: "d < base \<Longrightarrow> base \<le> 16 \<Longrightarrow> digit d \<in> set (take base (bstr ''0123456789abcdef''))"
proof -
  assume d: "d < base" "base \<le> 16"
  have "take base (bstr ''0123456789abcdef'') ! d = map of_char ''0123456789abcdef'' ! d"
    unfolding bstr_def using d(1) by (rule nth_take)
  also have "\<dots> = digit d"
    unfolding digit_def using d by (intro nth_map) simp
  finally show ?thesis
    using d nth_mem [of d "take base (bstr ''0123456789abcdef'')"] by (simp add: bstr_def)
qed

lemma printint_digits_set:
  "0 < base \<Longrightarrow> base \<le> 16 \<Longrightarrow> set (printint_digits n base x) \<subseteq> set (take base (bstr ''0123456789abcdef''))"
proof (induction n arbitrary: x)
  case (Suc n)
  then show ?case using digit_mem [of "x mod base" base] by (cases "x div base = 0") simp_all
qed simp

lemma digit_zero: "digit 0 = 0x30" "d < 16 \<Longrightarrow> digit d = 0x30 \<Longrightarrow> d = 0"
  using digit_val_digit [of d] by (auto simp: digit_def digit_val_def)

lemma printint_digits_last:
  assumes "1 < base" "base \<le> 16" "0 < x" "x < base ^ n"
  shows "printint_digits n base x \<noteq> [] \<and> last (printint_digits n base x) \<noteq> 0x30"
  using assms(3,4)
proof (induction n arbitrary: x)
  case (Suc n)
  have lt: "x div base < base ^ n"
    using Suc.prems by (simp add: less_mult_imp_div_less mult.commute)
  show ?case
  proof (cases "x div base = 0")
    case True
    then have "x mod base = x" "x < base" using assms(1) by (simp_all add: div_eq_0_iff)
    then show ?thesis using True Suc.prems digit_zero(2) [of x] assms(2) by auto
  next
    case False
    then show ?thesis using Suc.IH [OF _ lt] by auto
  qed
qed simp

end
