(* ===== verification/Inode.thy ===== *)
theory Inode
  imports Log Vm Printf
begin

text \<open>
  \<open>kernel/fs.c\<close>, the block and inode layers: the superblock, the free-block bitmap, the inode table,
  the mapping from file blocks to disk blocks, and reading and writing file contents.

  A \<open>struct inode *\<close> is an index into \<open>itable\<close>, and the null pointer \<open>None\<close> where the code can pass
  one. On-disk structures are read and written at their byte offsets in the block
  (\<open>struct dinode\<close> is 64 bytes). A kernel buffer that the code passes by address to \<open>readi\<close> or
  \<open>writei\<close> (\<open>&de\<close>, \<open>&elf\<close>) is at the address \<open>frame\<close> of the kernel stack.
\<close>

section \<open>Superblock and block allocation\<close>

definition dec_sb :: "block \<Rightarrow> superblock" where
  "dec_sb d = \<lparr>sb_magic = get32 d 0, sb_size = get32 d 4, sb_nblocks = get32 d 8, sb_ninodes = get32 d 12,
     sb_nlog = get32 d 16, sb_logstart = get32 d 20, sb_inodestart = get32 d 24, sb_bmapstart = get32 d 28\<rparr>"

definition readsb :: "uint32 \<Rightarrow> kstate \<Rightarrow> unit kres" where
  "readsb dev s =
     andthen (bread dev 1 s) (\<lambda>bp s.
     brelse bp (s\<lparr>sb := dec_sb (b_data (bufs s bp))\<rparr>))"

definition fsinit :: "uint32 \<Rightarrow> kstate \<Rightarrow> unit kres" where
  "fsinit dev s =
     andthen (readsb dev s) (\<lambda>_ s.
     if sb_magic (sb s) \<noteq> FSMAGIC then Panic ''invalid file system''
     else initlog (sint dev) (sb s) s)"

definition bzero :: "uint32 \<Rightarrow> uint32 \<Rightarrow> kstate \<Rightarrow> unit kres" where
  "bzero dev bno s =
     andthen (bread dev bno s) (\<lambda>bp s.
     andthen (log_write bp (set_data bp (memset (b_data (bufs s bp)) 0 BSIZE) s)) (\<lambda>_ s.
     brelse bp s))"

definition BBLOCK :: "uint32 \<Rightarrow> superblock \<Rightarrow> uint32" where
  "BBLOCK b super = b div of_nat BPB + sb_bmapstart super"

definition IBLOCK :: "uint32 \<Rightarrow> superblock \<Rightarrow> uint32" where
  "IBLOCK i super = i div of_nat IPB + sb_inodestart super"

definition bmask :: "nat \<Rightarrow> byte" where
  "bmask bi = push_bit (bi mod 8) 1"

text \<open>One bitmap block of \<open>balloc\<close>'s outer loop, \<open>b = k * BPB\<close>; the inner loop is a search for the
  first clear bit.\<close>

definition balloc_block :: "uint32 \<Rightarrow> nat \<Rightarrow> kstate \<Rightarrow> uint32 option kres" where
  "balloc_block dev k s =
     (let b = of_nat (k * BPB) in
      andthen (bread dev (BBLOCK b (sb s)) s) (\<lambda>bp s.
      let d = b_data (bufs s bp) in
      case find (\<lambda>bi. d (bi div 8) AND bmask bi = 0) [0..<min BPB (unat (sb_size (sb s)) - k * BPB)] of
        Some bi \<Rightarrow>
          andthen (log_write bp (set_data bp (d(bi div 8 := d (bi div 8) OR bmask bi)) s)) (\<lambda>_ s.
          andthen (brelse bp s) (\<lambda>_ s.
          andthen (bzero dev (b + of_nat bi) s) (\<lambda>_ s.
          Ok (Some (b + of_nat bi)) s)))
      | None \<Rightarrow> andthen (brelse bp s) (\<lambda>_ s. Ok None s)))"

definition balloc :: "uint32 \<Rightarrow> kstate \<Rightarrow> uint32 kres" where
  "balloc dev s =
     andthen (for_each [0..<(unat (sb_size (sb s)) + BPB - 1) div BPB] (balloc_block dev) s) (\<lambda>r s.
     case r of
       Some b \<Rightarrow> Ok b s
     | None \<Rightarrow> andthen (printf ''balloc: out of blocks\<newline>'' [] s) (\<lambda>_ s. Ok 0 s))"

definition bfree :: "uint32 \<Rightarrow> uint32 \<Rightarrow> kstate \<Rightarrow> unit kres" where
  "bfree dev b s =
     andthen (bread dev (BBLOCK b (sb s)) s) (\<lambda>bp s.
     let bi = unat (b mod of_nat BPB); d = b_data (bufs s bp) in
     if d (bi div 8) AND bmask bi = 0 then Panic ''freeing free block''
     else andthen (log_write bp (set_data bp (d(bi div 8 := d (bi div 8) AND NOT (bmask bi))) s)) (\<lambda>_ s.
          brelse bp s))"

section \<open>The inode table\<close>

definition upd_inode :: "nat \<Rightarrow> (inode \<Rightarrow> inode) \<Rightarrow> kstate \<Rightarrow> kstate" where
  "upd_inode i f s = s\<lparr>itable := (itable s)(i := f (itable s i))\<rparr>"

definition iinit :: "kstate \<Rightarrow> kstate" where
  "iinit s = fold (\<lambda>i. initsleeplock (SlInode i) ''inode'') [0..<NINODE] (initlock LkItable ''itable'' s)"

text \<open>\<open>iget\<close> returns the entry that already holds the inode, or recycles the first free one.\<close>

definition iget :: "uint32 \<Rightarrow> uint32 \<Rightarrow> kstate \<Rightarrow> nat kres" where
  "iget dev inum s =
     andthen (acquire LkItable s) (\<lambda>_ s.
     case find (\<lambda>i. i_ref (itable s i) > 0 \<and> i_dev (itable s i) = dev \<and> i_inum (itable s i) = inum) [0..<NINODE] of
       Some ip \<Rightarrow>
         andthen (release LkItable (upd_inode ip (\<lambda>x. x\<lparr>i_ref := i_ref x + 1\<rparr>) s)) (\<lambda>_ s. Ok ip s)
     | None \<Rightarrow>
         (case find (\<lambda>i. i_ref (itable s i) = 0) [0..<NINODE] of
            None \<Rightarrow> Panic ''iget: no inodes''
          | Some ip \<Rightarrow>
              andthen (release LkItable (upd_inode ip (\<lambda>x. x\<lparr>i_dev := dev, i_inum := inum, i_ref := 1,
                 i_valid := False\<rparr>) s)) (\<lambda>_ s. Ok ip s)))"

definition idup :: "nat \<Rightarrow> kstate \<Rightarrow> nat kres" where
  "idup ip s =
     andthen (acquire LkItable s) (\<lambda>_ s.
     andthen (release LkItable (upd_inode ip (\<lambda>x. x\<lparr>i_ref := i_ref x + 1\<rparr>) s)) (\<lambda>_ s. Ok ip s))"

text \<open>\<open>struct dinode\<close> in a block, at byte offset \<open>o\<close>.\<close>

definition dip_off :: "uint32 \<Rightarrow> nat" where
  "dip_off inum = unat (inum mod of_nat IPB) * DINODE_SIZE"

definition put_dinode :: "block \<Rightarrow> nat \<Rightarrow> inode \<Rightarrow> block" where
  "put_dinode d off ip =
     (let d = put16 d off (i_type ip);
          d = put16 d (off + 2) (i_major ip);
          d = put16 d (off + 4) (i_minor ip);
          d = put16 d (off + 6) (i_nlink ip);
          d = put32 d (off + 8) (i_size ip)
      in put32s d (off + 12) (NDIRECT + 1) (i_addrs ip))"

definition get_dinode :: "block \<Rightarrow> nat \<Rightarrow> inode \<Rightarrow> inode" where
  "get_dinode d off ip =
     ip\<lparr>i_type := get16 d off, i_major := get16 d (off + 2), i_minor := get16 d (off + 4),
        i_nlink := get16 d (off + 6), i_size := get32 d (off + 8),
        i_addrs := (\<lambda>i. if i < NDIRECT + 1 then get32 d (off + 12 + 4 * i) else i_addrs ip i)\<rparr>"

definition ialloc_one :: "uint32 \<Rightarrow> uint16 \<Rightarrow> nat \<Rightarrow> kstate \<Rightarrow> nat option kres" where
  "ialloc_one dev type inum s =
     andthen (bread dev (IBLOCK (of_nat inum) (sb s)) s) (\<lambda>bp s.
     let d = b_data (bufs s bp); off = dip_off (of_nat inum) in
     if get16 d off = 0 then
       andthen (log_write bp (set_data bp (put16 (blit d off DINODE_SIZE (\<lambda>_. 0)) off type) s)) (\<lambda>_ s.
       andthen (brelse bp s) (\<lambda>_ s.
       andthen (iget dev (of_nat inum) s) (\<lambda>ip s. Ok (Some ip) s)))
     else andthen (brelse bp s) (\<lambda>_ s. Ok None s))"

definition ialloc :: "uint32 \<Rightarrow> uint16 \<Rightarrow> kstate \<Rightarrow> nat option kres" where
  "ialloc dev type s =
     andthen (for_each [1..<unat (sb_ninodes (sb s))] (ialloc_one dev type) s) (\<lambda>r s.
     case r of
       Some ip \<Rightarrow> Ok (Some ip) s
     | None \<Rightarrow> andthen (printf ''ialloc: no inodes\<newline>'' [] s) (\<lambda>_ s. Ok None s))"

definition iupdate :: "nat \<Rightarrow> kstate \<Rightarrow> unit kres" where
  "iupdate ip s =
     andthen (bread (i_dev (itable s ip)) (IBLOCK (i_inum (itable s ip)) (sb s)) s) (\<lambda>bp s.
     let d = put_dinode (b_data (bufs s bp)) (dip_off (i_inum (itable s ip))) (itable s ip) in
     andthen (log_write bp (set_data bp d s)) (\<lambda>_ s.
     brelse bp s))"

definition ilock :: "nat option \<Rightarrow> kstate \<Rightarrow> unit kres" where
  "ilock p s =
     (case p of
        None \<Rightarrow> Panic ''ilock''
      | Some ip \<Rightarrow>
          if i_ref (itable s ip) < 1 then Panic ''ilock''
          else andthen (acquiresleep (SlInode ip) s) (\<lambda>_ s.
            if i_valid (itable s ip) then Ok () s
            else
              andthen (bread (i_dev (itable s ip)) (IBLOCK (i_inum (itable s ip)) (sb s)) s) (\<lambda>bp s.
              andthen (brelse bp (upd_inode ip
                 (\<lambda>x. get_dinode (b_data (bufs s bp)) (dip_off (i_inum x)) x) s)) (\<lambda>_ s.
              let s = upd_inode ip (\<lambda>x. x\<lparr>i_valid := True\<rparr>) s in
              if i_type (itable s ip) = 0 then Panic ''ilock: no type'' else Ok () s))))"

definition iunlock :: "nat option \<Rightarrow> kstate \<Rightarrow> unit kres" where
  "iunlock p s =
     (case p of
        None \<Rightarrow> Panic ''iunlock''
      | Some ip \<Rightarrow>
          andthen (holdingsleep (SlInode ip) s) (\<lambda>h s.
          if \<not> h \<or> i_ref (itable s ip) < 1 then Panic ''iunlock''
          else releasesleep (SlInode ip) s))"

section \<open>Inode contents\<close>

definition bmap :: "nat \<Rightarrow> uint32 \<Rightarrow> kstate \<Rightarrow> uint32 kres" where
  "bmap ip bn s =
     (if unat bn < NDIRECT then
        (let addr = i_addrs (itable s ip) (unat bn) in
         if addr = 0 then
           andthen (balloc (i_dev (itable s ip)) s) (\<lambda>addr s.
           if addr = 0 then Ok 0 s
           else Ok addr (upd_inode ip (\<lambda>x. x\<lparr>i_addrs := (i_addrs x)(unat bn := addr)\<rparr>) s))
         else Ok addr s)
      else let bn = unat (bn - of_nat NDIRECT) in
      if bn < NINDIRECT then
        andthen
          (let addr = i_addrs (itable s ip) NDIRECT in
           if addr = 0 then
             andthen (balloc (i_dev (itable s ip)) s) (\<lambda>addr s.
             if addr = 0 then Ok 0 s
             else Ok addr (upd_inode ip (\<lambda>x. x\<lparr>i_addrs := (i_addrs x)(NDIRECT := addr)\<rparr>) s))
           else Ok addr s) (\<lambda>addr s.
        if addr = 0 then Ok 0 s
        else
          andthen (bread (i_dev (itable s ip)) addr s) (\<lambda>bp s.
          let addr = get32 (b_data (bufs s bp)) (4 * bn) in
          andthen
            (if addr = 0 then
               andthen (balloc (i_dev (itable s ip)) s) (\<lambda>addr s.
               if addr \<noteq> 0 then
                 andthen (log_write bp (set_data bp (put32 (b_data (bufs s bp)) (4 * bn) addr) s)) (\<lambda>_ s.
                 Ok addr s)
               else Ok addr s)
             else Ok addr s) (\<lambda>addr s.
          andthen (brelse bp s) (\<lambda>_ s. Ok addr s))))
      else Panic ''bmap: out of range'')"

definition itrunc_direct :: "nat \<Rightarrow> nat \<Rightarrow> kstate \<Rightarrow> unit option kres" where
  "itrunc_direct ip i s =
     (if i_addrs (itable s ip) i \<noteq> 0 then
        andthen (bfree (i_dev (itable s ip)) (i_addrs (itable s ip) i) s) (\<lambda>_ s.
        Ok None (upd_inode ip (\<lambda>x. x\<lparr>i_addrs := (i_addrs x)(i := 0)\<rparr>) s))
      else Ok None s)"

definition itrunc_indirect :: "nat \<Rightarrow> nat \<Rightarrow> nat \<Rightarrow> kstate \<Rightarrow> unit option kres" where
  "itrunc_indirect ip bp j s =
     (let a = get32 (b_data (bufs s bp)) (4 * j) in
      if a \<noteq> 0 then andthen (bfree (i_dev (itable s ip)) a s) (\<lambda>_ s. Ok None s)
      else Ok None s)"

definition itrunc :: "nat \<Rightarrow> kstate \<Rightarrow> unit kres" where
  "itrunc ip s =
     andthen (for_each [0..<NDIRECT] (itrunc_direct ip) s) (\<lambda>_ s.
     andthen
       (if i_addrs (itable s ip) NDIRECT \<noteq> 0 then
          andthen (bread (i_dev (itable s ip)) (i_addrs (itable s ip) NDIRECT) s) (\<lambda>bp s.
          andthen (for_each [0..<NINDIRECT] (itrunc_indirect ip bp) s) (\<lambda>_ s.
          andthen (brelse bp s) (\<lambda>_ s.
          andthen (bfree (i_dev (itable s ip)) (i_addrs (itable s ip) NDIRECT) s) (\<lambda>_ s.
          Ok () (upd_inode ip (\<lambda>x. x\<lparr>i_addrs := (i_addrs x)(NDIRECT := 0)\<rparr>) s)))))
        else Ok () s) (\<lambda>_ s.
     iupdate ip (upd_inode ip (\<lambda>x. x\<lparr>i_size := 0\<rparr>) s)))"

definition iput :: "nat \<Rightarrow> kstate \<Rightarrow> unit kres" where
  "iput ip s =
     andthen (acquire LkItable s) (\<lambda>_ s.
     andthen
       (if i_ref (itable s ip) = 1 \<and> i_valid (itable s ip) \<and> i_nlink (itable s ip) = 0 then
          andthen (acquiresleep (SlInode ip) s) (\<lambda>_ s.
          andthen (release LkItable s) (\<lambda>_ s.
          andthen (itrunc ip s) (\<lambda>_ s.
          andthen (iupdate ip (upd_inode ip (\<lambda>x. x\<lparr>i_type := 0\<rparr>) s)) (\<lambda>_ s.
          andthen (releasesleep (SlInode ip) (upd_inode ip (\<lambda>x. x\<lparr>i_valid := False\<rparr>) s)) (\<lambda>_ s.
          acquire LkItable s)))))
        else Ok () s) (\<lambda>_ s.
     release LkItable (upd_inode ip (\<lambda>x. x\<lparr>i_ref := i_ref x - 1\<rparr>) s)))"

definition iunlockput :: "nat \<Rightarrow> kstate \<Rightarrow> unit kres" where
  "iunlockput ip s = andthen (iunlock (Some ip) s) (\<lambda>_ s. iput ip s)"

record stat =
  st_dev :: int
  st_ino :: uint32
  st_type :: uint16
  st_nlink :: uint16
  st_size :: uint32

definition stati :: "nat \<Rightarrow> kstate \<Rightarrow> stat" where
  "stati ip s = \<lparr>st_dev = sint (i_dev (itable s ip)), st_ino = i_inum (itable s ip), st_type = i_type (itable s ip),
     st_nlink = i_nlink (itable s ip), st_size = i_size (itable s ip)\<rparr>"

text \<open>The loop variables of \<open>readi\<close> and \<open>writei\<close> are \<open>tot\<close>, \<open>off\<close> and the address of the caller's
  buffer.\<close>

definition readi_body ::
  "nat \<Rightarrow> bool \<Rightarrow> uint32 \<Rightarrow> uint32 \<times> uint32 \<times> uint32 \<Rightarrow> kstate \<Rightarrow> (uint32 \<times> uint32 \<times> uint32 + uint32) kres" where
  "readi_body ip user_dst n l s =
     (let (tot, off, dst) = l in
      if \<not> tot < n then Ok (Inr tot) s
      else
        andthen (bmap ip (off div of_nat BSIZE) s) (\<lambda>addr s.
        if addr = 0 then Ok (Inr tot) s
        else
          andthen (bread (i_dev (itable s ip)) addr s) (\<lambda>bp s.
          let m = min (n - tot) (of_nat BSIZE - off mod of_nat BSIZE) in
          andthen (either_copyout user_dst dst (\<lambda>i. b_data (bufs s bp) (unat (off mod of_nat BSIZE) + i)) m s) (\<lambda>r s.
          if r = -1 then andthen (brelse bp s) (\<lambda>_ s. Ok (Inr (-1)) s)
          else andthen (brelse bp s) (\<lambda>_ s. Ok (Inl (tot + m, off + m, dst + m)) s)))))"

definition readi :: "nat \<Rightarrow> bool \<Rightarrow> uint32 \<Rightarrow> uint32 \<Rightarrow> uint32 \<Rightarrow> kstate \<Rightarrow> int kres" where
  "readi ip user_dst dst off n s =
     (if off > i_size (itable s ip) \<or> off + n < off then Ok 0 s
      else let n = (if off + n > i_size (itable s ip) then i_size (itable s ip) - off else n) in
        andthen (wloop (\<lambda>(tot, _). unat (n - tot)) (readi_body ip user_dst n) (Ok (Inl (0, off, dst)) s)) (\<lambda>tot s.
        Ok (sint tot) s))"

definition writei_body ::
  "nat \<Rightarrow> bool \<Rightarrow> uint32 \<Rightarrow> uint32 \<times> uint32 \<times> uint32 \<Rightarrow> kstate \<Rightarrow>
   (uint32 \<times> uint32 \<times> uint32 + uint32 \<times> uint32) kres" where
  "writei_body ip user_src n l s =
     (let (tot, off, src) = l in
      if \<not> tot < n then Ok (Inr (tot, off)) s
      else
        andthen (bmap ip (off div of_nat BSIZE) s) (\<lambda>addr s.
        if addr = 0 then Ok (Inr (tot, off)) s
        else
          andthen (bread (i_dev (itable s ip)) addr s) (\<lambda>bp s.
          let m = min (n - tot) (of_nat BSIZE - off mod of_nat BSIZE);
              k = unat (off mod of_nat BSIZE);
              d = b_data (bufs s bp) in
          andthen (either_copyin (\<lambda>i. d (k + i)) user_src src m s) (\<lambda>(r, d') s.
          let s = set_data bp (\<lambda>i. if i < k then d i else d' (i - k)) s in
          if r = -1 then andthen (brelse bp s) (\<lambda>_ s. Ok (Inr (tot, off)) s)
          else
            andthen (log_write bp s) (\<lambda>_ s.
            andthen (brelse bp s) (\<lambda>_ s. Ok (Inl (tot + m, off + m, src + m)) s))))))"

definition writei :: "nat \<Rightarrow> bool \<Rightarrow> uint32 \<Rightarrow> uint32 \<Rightarrow> uint32 \<Rightarrow> kstate \<Rightarrow> int kres" where
  "writei ip user_src src off n s =
     (if off > i_size (itable s ip) \<or> off + n < off then Ok (-1) s
      else if off + n > of_nat (MAXFILE * BSIZE) then Ok (-1) s
      else
        andthen (wloop (\<lambda>(tot, _). unat (n - tot)) (writei_body ip user_src n) (Ok (Inl (0, off, src)) s)) (\<lambda>(tot, off) s.
        let s = (if off > i_size (itable s ip) then upd_inode ip (\<lambda>x. x\<lparr>i_size := off\<rparr>) s else s) in
        andthen (iupdate ip s) (\<lambda>_ s.
        Ok (sint tot) s)))"

end
