(* ===== verification/Dir.thy ===== *)
theory Dir
  imports Inode
begin

text \<open>
  \<open>kernel/fs.c\<close>, directories and path names. A path is the list of the bytes of the C string, without
  its terminator; a \<open>DIRSIZ\<close>-byte name buffer, which need not be terminated, is a byte array.
\<close>

definition namecmp :: "bytes \<Rightarrow> bytes \<Rightarrow> int" where
  "namecmp s t = strncmp s t DIRSIZ"

text \<open>\<open>struct dirent\<close>: a 16-bit inode number and the name, in the kernel buffer at \<open>frame\<close>.\<close>

definition de_inum :: "kstate \<Rightarrow> uint16" where
  "de_inum s = get16 (view (mem s) (frame s)) 0"

definition de_name :: "kstate \<Rightarrow> bytes" where
  "de_name s = (\<lambda>i. view (mem s) (frame s) (2 + i))"

definition put_de :: "uint16 \<Rightarrow> bytes \<Rightarrow> kstate \<Rightarrow> kstate" where
  "put_de inum name s =
     s\<lparr>mem := store (mem s) (frame s) DIRENT_SIZE (\<lambda>i. if i < 2 then byte_of i inum else name (i - 2))\<rparr>"

definition read_de :: "string \<Rightarrow> nat \<Rightarrow> uint32 \<Rightarrow> kstate \<Rightarrow> unit kres" where
  "read_de msg dp off s =
     andthen (readi dp False (frame s) off (of_nat DIRENT_SIZE) s) (\<lambda>r s.
     if r \<noteq> int DIRENT_SIZE then Panic msg else Ok () s)"

definition dirlookup_one :: "nat \<Rightarrow> bytes \<Rightarrow> nat \<Rightarrow> kstate \<Rightarrow> (nat \<times> uint32) option kres" where
  "dirlookup_one dp name k s =
     (let off = of_nat (k * DIRENT_SIZE) in
      andthen (read_de ''dirlookup read'' dp off s) (\<lambda>_ s.
      if de_inum s = 0 then Ok None s
      else if namecmp name (de_name s) = 0 then
        andthen (iget (i_dev (itable s dp)) (ucast (de_inum s)) s) (\<lambda>ip s. Ok (Some (ip, off)) s)
      else Ok None s))"

text \<open>The number of rounds of a loop over the entries of a directory.\<close>

definition dirents :: "uint32 \<Rightarrow> nat" where
  "dirents sz = (unat sz + DIRENT_SIZE - 1) div DIRENT_SIZE"

definition dirlookup :: "nat \<Rightarrow> bytes \<Rightarrow> kstate \<Rightarrow> (nat \<times> uint32) option kres" where
  "dirlookup dp name s =
     (if i_type (itable s dp) \<noteq> T_DIR then Panic ''dirlookup not DIR''
      else for_each [0..<dirents (i_size (itable s dp))] (dirlookup_one dp name) s)"

definition dirlink_free :: "nat \<Rightarrow> nat \<Rightarrow> kstate \<Rightarrow> uint32 option kres" where
  "dirlink_free dp k s =
     (let off = of_nat (k * DIRENT_SIZE) in
      andthen (read_de ''dirlink read'' dp off s) (\<lambda>_ s.
      if de_inum s = 0 then Ok (Some off) s else Ok None s))"

definition dirlink :: "nat \<Rightarrow> bytes \<Rightarrow> uint32 \<Rightarrow> kstate \<Rightarrow> int kres" where
  "dirlink dp name inum s =
     andthen (dirlookup dp name s) (\<lambda>r s.
     case r of
       Some (ip, _) \<Rightarrow> andthen (iput ip s) (\<lambda>_ s. Ok (-1) s)
     | None \<Rightarrow>
         let n = dirents (i_size (itable s dp)) in
         andthen (for_each [0..<n] (dirlink_free dp) s) (\<lambda>r s.
         let off = (case r of Some off \<Rightarrow> off | None \<Rightarrow> of_nat (n * DIRENT_SIZE));
             s = put_de (ucast inum) (strncpy (de_name s) name (int DIRSIZ)) s
         in andthen (writei dp False (frame s) off (of_nat DIRENT_SIZE) s) (\<lambda>r s.
            if r \<noteq> int DIRENT_SIZE then Ok (-1) s else Ok 0 s)))"

section \<open>Paths\<close>

definition SLASH :: byte where [const_defs]: "SLASH = 0x2f"

definition bytes_of :: "byte list \<Rightarrow> bytes" where
  "bytes_of xs = (\<lambda>i. if i < length xs then xs ! i else 0)"

definition skipelem :: "byte list \<Rightarrow> bytes \<Rightarrow> (byte list \<times> bytes) option" where
  "skipelem path name =
     (let path = dropWhile (\<lambda>c. c = SLASH) path in
      if path = [] then None
      else let el = takeWhile (\<lambda>c. c \<noteq> SLASH) path;
               path = dropWhile (\<lambda>c. c \<noteq> SLASH) path;
               len = length el;
               name = (if len \<ge> DIRSIZ then blit name 0 DIRSIZ (bytes_of el)
                       else (blit name 0 len (bytes_of el))(len := 0))
           in Some (dropWhile (\<lambda>c. c = SLASH) path, name))"

definition namex_body ::
  "bool \<Rightarrow> byte list \<times> bytes \<times> nat \<Rightarrow> kstate \<Rightarrow>
   (byte list \<times> bytes \<times> nat + nat option \<times> bytes) kres" where
  "namex_body nameiparent l s =
     (let (path, name, ip) = l in
      case skipelem path name of
        None \<Rightarrow>
          if nameiparent then andthen (iput ip s) (\<lambda>_ s. Ok (Inr (None, name)) s)
          else Ok (Inr (Some ip, name)) s
      | Some (path, name) \<Rightarrow>
          andthen (ilock (Some ip) s) (\<lambda>_ s.
          if i_type (itable s ip) \<noteq> T_DIR then
            andthen (iunlockput ip s) (\<lambda>_ s. Ok (Inr (None, name)) s)
          else if nameiparent \<and> path = [] then
            andthen (iunlock (Some ip) s) (\<lambda>_ s. Ok (Inr (Some ip, name)) s)
          else
            andthen (dirlookup ip name s) (\<lambda>r s.
            case r of
              None \<Rightarrow> andthen (iunlockput ip s) (\<lambda>_ s. Ok (Inr (None, name)) s)
            | Some (next, _) \<Rightarrow>
                andthen (iunlockput ip s) (\<lambda>_ s. Ok (Inl (path, name, next)) s))))"

definition namex :: "byte list \<Rightarrow> bool \<Rightarrow> bytes \<Rightarrow> kstate \<Rightarrow> (nat option \<times> bytes) kres" where
  "namex path nameiparent name s =
     andthen
       (if path \<noteq> [] \<and> hd path = SLASH then iget ROOTDEV ROOTINO s
        else with_proc (\<lambda>p s. case p_cwd (procs s p) of None \<Rightarrow> null_deref | Some ip \<Rightarrow> idup ip s) s) (\<lambda>ip s.
     wloop (\<lambda>(path, _, _). length path) (namex_body nameiparent) (Ok (Inl (path, name, ip)) s))"

text \<open>The name buffer of \<open>namei\<close> is a local whose contents do not matter.\<close>

definition namei :: "byte list \<Rightarrow> kstate \<Rightarrow> nat option kres" where
  "namei path s = andthen (namex path False (\<lambda>_. 0) s) (\<lambda>(ip, _) s. Ok ip s)"

definition nameiparent :: "byte list \<Rightarrow> bytes \<Rightarrow> kstate \<Rightarrow> (nat option \<times> bytes) kres" where
  "nameiparent path name s = namex path True name s"

section \<open>Path elements\<close>

text \<open>The elements of a path: split at every slash and drop the empty pieces. \<open>set_name\<close> is what ends
  up in the name buffer.\<close>

primrec split_slash :: "byte list \<Rightarrow> byte list list" where
  "split_slash [] = [[]]"
| "split_slash (c # cs) =
     (if c = SLASH then [] # split_slash cs
      else (c # hd (split_slash cs)) # tl (split_slash cs))"

definition path_elems :: "byte list \<Rightarrow> byte list list" where
  "path_elems path = filter (\<lambda>e. e \<noteq> []) (split_slash path)"

definition set_name :: "bytes \<Rightarrow> byte list \<Rightarrow> bytes" where
  "set_name name e =
     (if length e \<ge> DIRSIZ then blit name 0 DIRSIZ (bytes_of e)
      else (blit name 0 (length e) (bytes_of e))(length e := 0))"

lemma split_slash_elem: "SLASH \<notin> set e \<Longrightarrow> split_slash (e @ SLASH # q) = e # split_slash q"
  by (induction e) auto

lemma split_slash_last: "SLASH \<notin> set e \<Longrightarrow> split_slash e = [e]"
  by (induction e) auto

lemma path_elems_Nil [simp]: "path_elems [] = []"
  by (simp add: path_elems_def)

lemma path_elems_slashes: "path_elems (dropWhile (\<lambda>c. c = SLASH) p) = path_elems p"
  by (induction p) (auto simp: path_elems_def)

lemma path_elems_first:
  assumes "p \<noteq> []" and "hd p \<noteq> SLASH"
  shows "path_elems p =
    takeWhile (\<lambda>c. c \<noteq> SLASH) p # path_elems (dropWhile (\<lambda>c. c \<noteq> SLASH) p)"
proof -
  define e r where "e = takeWhile (\<lambda>c. c \<noteq> SLASH) p" and "r = dropWhile (\<lambda>c. c \<noteq> SLASH) p"
  have e: "e \<noteq> []" "SLASH \<notin> set e"
    using assms by (cases p; auto simp: e_def dest: set_takeWhileD)+
  have "path_elems (e @ r) = e # path_elems r"
  proof (cases r)
    case Nil
    with e show ?thesis by (simp add: path_elems_def split_slash_last)
  next
    case (Cons c q)
    then have "c = SLASH" using hd_dropWhile [of "\<lambda>c. c \<noteq> SLASH" p] by (simp add: r_def [symmetric])
    with Cons e show ?thesis by (simp add: path_elems_def split_slash_elem)
  qed
  then show ?thesis by (simp add: e_def r_def)
qed

text \<open>One call of \<open>skipelem\<close> takes the first element off.\<close>

lemma skipelem_elems:
  "skipelem path name = (case path_elems path of
      [] \<Rightarrow> None
    | e # es \<Rightarrow> Some (dropWhile (\<lambda>c. c = SLASH) (dropWhile (\<lambda>c. c \<noteq> SLASH) (dropWhile (\<lambda>c. c = SLASH) path)),
                     set_name name e))"
proof (cases "dropWhile (\<lambda>c. c = SLASH) path")
  case Nil
  then have "path_elems path = []"
    using path_elems_slashes [of path] unfolding Nil by simp
  moreover have "skipelem path name = None"
    unfolding skipelem_def Let_def Nil by simp
  ultimately show ?thesis by simp
next
  case (Cons c cs)
  have "c \<noteq> SLASH" using hd_dropWhile [of "\<lambda>c. c = SLASH" path] unfolding Cons by simp
  then have "path_elems path = takeWhile (\<lambda>c. c \<noteq> SLASH) (c # cs) # path_elems (dropWhile (\<lambda>c. c \<noteq> SLASH) (c # cs))"
    using path_elems_slashes [of path] path_elems_first [of "c # cs"] unfolding Cons by simp
  moreover have "skipelem path name = Some (dropWhile (\<lambda>c. c = SLASH) (dropWhile (\<lambda>c. c \<noteq> SLASH) (c # cs)),
      set_name name (takeWhile (\<lambda>c. c \<noteq> SLASH) (c # cs)))"
    unfolding skipelem_def Let_def Cons set_name_def by simp
  ultimately show ?thesis by (simp only: Cons list.case)
qed

lemma path_elems_rest:
  assumes "path_elems path = e # es"
  shows "path_elems (dropWhile (\<lambda>c. c = SLASH) (dropWhile (\<lambda>c. c \<noteq> SLASH) (dropWhile (\<lambda>c. c = SLASH) path))) = es"
proof -
  let ?p = "dropWhile (\<lambda>c. c = SLASH) path"
  have p: "path_elems ?p = e # es" using assms by (simp add: path_elems_slashes)
  then have "?p \<noteq> []" by (intro notI) (simp only: path_elems_Nil list.distinct)
  moreover from this have "hd ?p \<noteq> SLASH" by (rule hd_dropWhile)
  ultimately have "path_elems ?p = takeWhile (\<lambda>c. c \<noteq> SLASH) ?p # path_elems (dropWhile (\<lambda>c. c \<noteq> SLASH) ?p)"
    by (rule path_elems_first)
  with p show ?thesis by (simp add: path_elems_slashes)
qed

text \<open>The remaining path is empty exactly after the last element, which is how \<open>namex\<close> stops one
  level early.\<close>

lemma dropWhile_slash_empty_iff: "dropWhile (\<lambda>c. c = SLASH) p = [] \<longleftrightarrow> path_elems p = []"
proof (cases "dropWhile (\<lambda>c. c = SLASH) p")
  case Nil
  with path_elems_slashes [of p] show ?thesis unfolding Nil by simp
next
  case (Cons c cs)
  have "c \<noteq> SLASH" using hd_dropWhile [of "\<lambda>c. c = SLASH" p] unfolding Cons by simp
  then have "path_elems (c # cs) \<noteq> []" using path_elems_first [of "c # cs"] by simp
  with path_elems_slashes [of p] show ?thesis unfolding Cons by simp
qed

end
