(* ===== verification/Ring.thy ===== *)
theory Ring
  imports Prelude
begin

text \<open>
  Ring buffers with free-running indices: the idiom \<open>buf[w++ % SIZE] = c\<close>, \<open>c = buf[r++ % SIZE]\<close> of
  \<open>pipe.c\<close>, \<open>console.c\<close> and the UART driver. The indices are 32-bit and wrap around, so the idiom is
  right only because \<open>SIZE\<close> divides \<open>2^32\<close>. \<open>fifo\<close> is what a queue promises; every ring is one.
\<close>

text \<open>A queue of capacity \<open>cap\<close>: \<open>abs\<close> lists what it holds, oldest first.\<close>

locale fifo =
  fixes abs :: "'q \<Rightarrow> 'a list"
    and put :: "'a \<Rightarrow> 'q \<Rightarrow> 'q"
    and get :: "'q \<Rightarrow> 'a \<times> 'q"
    and cap :: nat
  assumes abs_put: "length (abs q) < cap \<Longrightarrow> abs (put a q) = abs q @ [a]"
    and abs_get: "abs q = a # xs \<Longrightarrow> fst (get q) = a \<and> abs (snd (get q)) = xs"
begin

text \<open>Any run of puts (\<open>Some a\<close>) and gets (\<open>None\<close>) that never overfills or underruns delivers what was
  put in, in order.\<close>

primrec run :: "'a option list \<Rightarrow> 'q \<Rightarrow> 'a list \<times> 'q" where
  "run [] q = ([], q)"
| "run (c # cs) q =
     (case c of
        Some a \<Rightarrow> run cs (put a q)
      | None \<Rightarrow> (let (a, q') = get q; (out, q'') = run cs q' in (a # out, q'')))"

primrec fits :: "nat \<Rightarrow> 'a option list \<Rightarrow> bool" where
  "fits n [] = True"
| "fits n (c # cs) = (case c of Some a \<Rightarrow> n < cap \<and> fits (Suc n) cs | None \<Rightarrow> 0 < n \<and> fits (n - 1) cs)"

lemma run_fifo:
  "fits (length (abs q)) cs \<Longrightarrow>
   fst (run cs q) @ abs (snd (run cs q)) = abs q @ List.map_filter id cs"
proof (induction cs arbitrary: q)
  case (Cons c cs)
  show ?case
  proof (cases c)
    case None
    with Cons.prems obtain a xs where q: "abs q = a # xs" by (cases "abs q") auto
    obtain q' where g: "get q = (a, q')" "abs q' = xs"
      using abs_get [OF q] by (cases "get q") auto
    then have "fits (length (abs q')) cs" using Cons.prems None q by simp
    with Cons.IH [of q'] None g q show ?thesis
      by (cases "run cs q'") (simp add: map_filter_simps)
  next
    case (Some a)
    with Cons.prems have f: "length (abs q) < cap" "fits (Suc (length (abs q))) cs" by auto
    with Cons.IH [of "put a q"] Some show ?thesis
      by (simp add: abs_put map_filter_simps)
  qed
qed (simp add: map_filter_simps)

end

section \<open>Rings\<close>

text \<open>The ring is its byte array, its read index and its write index.\<close>

type_synonym ring = "bytes \<times> uint32 \<times> uint32"

fun ring_list :: "nat \<Rightarrow> ring \<Rightarrow> byte list" where
  "ring_list n (buf, r, w) = map (\<lambda>i. buf (unat (r + of_nat i) mod n)) [0..<unat (w - r)]"

fun ring_put :: "nat \<Rightarrow> byte \<Rightarrow> ring \<Rightarrow> ring" where
  "ring_put n c (buf, r, w) = (buf(unat w mod n := c), r, w + 1)"

fun ring_get :: "nat \<Rightarrow> ring \<Rightarrow> byte \<times> ring" where
  "ring_get n (buf, r, w) = (buf (unat r mod n), (buf, r + 1, w))"

lemma length_ring_list [simp]: "length (ring_list n (buf, r, w)) = unat (w - r)"
  by simp

locale ring_buffer =
  fixes N :: nat
  assumes pos: "0 < N" and dvd: "N dvd 2 ^ 32" and small: "N < 2 ^ 32"
begin

text \<open>Distinct offsets below \<open>N\<close> are distinct slots, across the wrap-around of the index.\<close>

lemma slot_add: "unat (r + of_nat i :: uint32) mod N = (unat r + i) mod N"
proof -
  have "unat (r + of_nat i :: uint32) = (unat r + i) mod 2 ^ 32"
    by (simp add: unat_word_ariths unsigned_of_nat take_bit_eq_mod mod_simps)
  then show ?thesis using dvd by (simp add: mod_mod_cancel)
qed

lemma slot_le:
  assumes "i \<le> j" "j < N" "(a + j) mod N = (a + i) mod N"
  shows "i = j"
proof -
  have "N dvd (a + j) - (a + i)"
    using assms mod_eq_dvd_iff_nat [of "a + i" "a + j" N] by simp
  then show ?thesis using assms by (auto dest: dvd_imp_le)
qed

lemma slot_eq_iff:
  assumes "i < N" "j < N"
  shows "unat (r + of_nat i :: uint32) mod N = unat (r + of_nat j :: uint32) mod N \<longleftrightarrow> i = j"
  unfolding slot_add using assms slot_le [of i j "unat r"] slot_le [of j i "unat r"]
  by (metis nat_le_linear)

lemma ring_list_put:
  assumes "length (ring_list N q) < N"
  shows "ring_list N (ring_put N c q) = ring_list N q @ [c]"
proof -
  obtain buf r w where q: "q = (buf, r, w)" by (cases q)
  let ?n = "unat (w - r)"
  have n: "?n < N" using assms q by simp
  have "w + 1 - r = (w - r) + 1" by simp
  then have "unat (w + 1 - r) = (?n + 1) mod 2 ^ 32"
    using unat_word_ariths(1) [of "w - r" 1] by (simp only: unsigned_1) simp
  then have "unat (w + 1 - r) = Suc ?n"
    using n small by simp
  moreover have "unat (r + of_nat i) mod N \<noteq> unat w mod N" if "i < ?n" for i
    using slot_eq_iff [of i ?n r] that n by simp
  ultimately show ?thesis
    by (simp add: q)
qed

lemma ring_list_get:
  assumes "ring_list N q = c # cs"
  shows "fst (ring_get N q) = c \<and> ring_list N (snd (ring_get N q)) = cs"
proof -
  obtain buf r w where q: "q = (buf, r, w)" by (cases q)
  obtain n where n: "unat (w - r) = Suc n"
    using assms q by (cases "unat (w - r)") auto
  then have "unat (w - (r + 1)) = n"
    using unat_minus_one [of "w - r"] by (metis add_diff_cancel_left' diff_diff_add nat.distinct(1) plus_1_eq_Suc unsigned_0)
  then show ?thesis
    using assms unfolding q ring_list.simps n map_upt_Suc by (auto simp: algebra_simps)
qed

end

sublocale ring_buffer \<subseteq> fifo "ring_list N" "ring_put N" "ring_get N" N
  by unfold_locales (auto dest: ring_list_put ring_list_get)

end
