(* ===== verification/Pipe.thy ===== *)
theory Pipe
  imports Vm Ring
begin

text \<open>
  \<open>kernel/pipe.c\<close>, the operations on a pipe. A pipe is named by the address of its page; \<open>nread\<close> and
  \<open>nwrite\<close> are free-running counters into the 512-byte ring \<open>data\<close>.
\<close>

definition upd_pipe :: "uint32 \<Rightarrow> (pipe \<Rightarrow> pipe) \<Rightarrow> kstate \<Rightarrow> kstate" where
  "upd_pipe pi f s = s\<lparr>pipes := (pipes s)(pi := f (pipes s pi))\<rparr>"

definition pipeclose :: "uint32 \<Rightarrow> bool \<Rightarrow> kstate \<Rightarrow> unit kres" where
  "pipeclose pi writable s =
     andthen (acquire (LkPipe pi) s) (\<lambda>_ s.
     andthen
       (if writable then wakeup (ChPipeRead pi) (upd_pipe pi (\<lambda>x. x\<lparr>pi_writeopen := False\<rparr>) s)
        else wakeup (ChPipeWrite pi) (upd_pipe pi (\<lambda>x. x\<lparr>pi_readopen := False\<rparr>) s)) (\<lambda>_ s.
     if \<not> pi_readopen (pipes s pi) \<and> \<not> pi_writeopen (pipes s pi) then
       andthen (release (LkPipe pi) s) (\<lambda>_ s. kfree pi s)
     else release (LkPipe pi) s))"

text \<open>One round of \<open>pipewrite\<close>; \<open>None\<close> is the return of -1, after the lock has been given up.\<close>

definition pipewrite_body ::
  "uint32 \<Rightarrow> nat \<Rightarrow> uint32 \<Rightarrow> int \<Rightarrow> int \<Rightarrow> kstate \<Rightarrow> (int + int option) kres" where
  "pipewrite_body pi pr addr n i s =
     (if \<not> i < n then Ok (Inr (Some i)) s
      else
        andthen (if \<not> pi_readopen (pipes s pi) then Ok True s else killed pr s) (\<lambda>stop s.
        if stop then andthen (release (LkPipe pi) s) (\<lambda>_ s. Ok (Inr None) s)
        else if pi_nwrite (pipes s pi) = pi_nread (pipes s pi) + of_nat PIPESIZE then
          andthen (wakeup (ChPipeRead pi) s) (\<lambda>_ s.
          andthen (sleep (ChPipeWrite pi) (LkPipe pi) s) (\<lambda>_ s. Ok (Inl i) s))
        else
          andthen (copyin (p_pagetable (procs s pr)) (\<lambda>_. 0) (addr + word_of_int i) 1 s) (\<lambda>(r, ch) s.
          if r = -1 then Ok (Inr (Some i)) s
          else Ok (Inl (i + 1)) (upd_pipe pi (\<lambda>x. x\<lparr>pi_data := (pi_data x)(unat (pi_nwrite x) mod PIPESIZE := ch 0),
                 pi_nwrite := pi_nwrite x + 1\<rparr>) s))))"

definition pipewrite :: "uint32 \<Rightarrow> uint32 \<Rightarrow> int \<Rightarrow> kstate \<Rightarrow> int kres" where
  "pipewrite pi addr n = with_proc (\<lambda>pr s.
     andthen (acquire (LkPipe pi) s) (\<lambda>_ s.
     andthen (wloop (\<lambda>i. nat (n - i)) (pipewrite_body pi pr addr n) (Ok (Inl 0) s)) (\<lambda>r s.
     case r of
       None \<Rightarrow> Ok (-1) s
     | Some i \<Rightarrow>
         andthen (wakeup (ChPipeRead pi) s) (\<lambda>_ s.
         andthen (release (LkPipe pi) s) (\<lambda>_ s. Ok i s)))))"

definition piperead_wait :: "uint32 \<Rightarrow> nat \<Rightarrow> unit \<Rightarrow> kstate \<Rightarrow> (unit + bool) kres" where
  "piperead_wait pi pr u s =
     (if pi_nread (pipes s pi) = pi_nwrite (pipes s pi) \<and> pi_writeopen (pipes s pi) then
        andthen (killed pr s) (\<lambda>k s.
        if k then andthen (release (LkPipe pi) s) (\<lambda>_ s. Ok (Inr False) s)
        else andthen (sleep (ChPipeRead pi) (LkPipe pi) s) (\<lambda>_ s. Ok (Inl ()) s))
      else Ok (Inr True) s)"

definition piperead_one :: "uint32 \<Rightarrow> nat \<Rightarrow> uint32 \<Rightarrow> nat \<Rightarrow> kstate \<Rightarrow> int option kres" where
  "piperead_one pi pr addr i s =
     (if pi_nread (pipes s pi) = pi_nwrite (pipes s pi) then Ok (Some (int i)) s
      else
        let ch = pi_data (pipes s pi) (unat (pi_nread (pipes s pi)) mod PIPESIZE);
            s = upd_pipe pi (\<lambda>x. x\<lparr>pi_nread := pi_nread x + 1\<rparr>) s
        in andthen (copyout (p_pagetable (procs s pr)) (addr + of_nat i) (\<lambda>_. ch) 1 s) (\<lambda>r s.
           Ok (if r = -1 then Some (int i) else None) s))"

definition piperead :: "uint32 \<Rightarrow> uint32 \<Rightarrow> int \<Rightarrow> kstate \<Rightarrow> int kres" where
  "piperead pi addr n = with_proc (\<lambda>pr s.
     andthen (acquire (LkPipe pi) s) (\<lambda>_ s.
     andthen (wloop (\<lambda>_. 0) (piperead_wait pi pr) (Ok (Inl ()) s)) (\<lambda>ok s.
     if \<not> ok then Ok (-1) s
     else
       andthen (for_each [0..<nat n] (piperead_one pi pr addr) s) (\<lambda>r s.
       andthen (wakeup (ChPipeWrite pi) s) (\<lambda>_ s.
       andthen (release (LkPipe pi) s) (\<lambda>_ s.
       Ok (case r of Some i \<Rightarrow> i | None \<Rightarrow> int (nat n)) s))))))"

end
