(* ===== verification/Console.thy ===== *)
theory Console
  imports Vm Printf Ring
begin

text \<open>
  \<open>kernel/console.c\<close>: line-buffered console input and console output, and \<open>procdump\<close> of \<open>proc.c\<close>. The
  input buffer is a ring with three free-running indices: \<open>r\<close> (consumed), \<open>w\<close> (whole lines), \<open>e\<close> (being
  edited).
\<close>

definition upd_cons :: "(cons \<Rightarrow> cons) \<Rightarrow> kstate \<Rightarrow> kstate" where
  "upd_cons f s = s\<lparr>cons := f (cons s)\<rparr>"

definition cons_at :: "kstate \<Rightarrow> uint32 \<Rightarrow> byte" where
  "cons_at s i = cons_buf (cons s) (unat i mod INPUT_BUF_SIZE)"

definition consolewrite_one :: "bool \<Rightarrow> uint32 \<Rightarrow> nat \<Rightarrow> kstate \<Rightarrow> int option kres" where
  "consolewrite_one user_src src i s =
     andthen (either_copyin (\<lambda>_. 0) user_src (src + of_nat i) 1 s) (\<lambda>(r, c) s.
     if r = -1 then Ok (Some (int i)) s
     else Ok None (platform_uart_putc (uint (c 0)) s))"

definition consolewrite :: "bool \<Rightarrow> uint32 \<Rightarrow> int \<Rightarrow> kstate \<Rightarrow> int kres" where
  "consolewrite user_src src n s =
     andthen (for_each [0..<nat n] (consolewrite_one user_src src) s) (\<lambda>r s.
     Ok (case r of Some i \<Rightarrow> i | None \<Rightarrow> int (nat n)) s)"

text \<open>One round of \<open>consoleread\<close>, with \<open>dst\<close> and \<open>n\<close>: wait while there is no input, else take one
  character. \<open>None\<close> is the return on being killed, after the lock has been given up.\<close>

definition consoleread_body ::
  "bool \<Rightarrow> uint32 \<Rightarrow> uint32 \<times> int \<Rightarrow> kstate \<Rightarrow> (uint32 \<times> int + int option) kres" where
  "consoleread_body user_dst target l s =
     (let (dst, n) = l in
      if \<not> n > 0 then Ok (Inr (Some n)) s
      else if cons_r (cons s) = cons_w (cons s) then
        with_proc (\<lambda>p s.
          andthen (killed p s) (\<lambda>k s.
          if k then andthen (release LkCons s) (\<lambda>_ s. Ok (Inr None) s)
          else andthen (sleep ChCons LkCons s) (\<lambda>_ s. Ok (Inl (dst, n)) s))) s
      else
        let c = cons_at s (cons_r (cons s));
            s = upd_cons (\<lambda>x. x\<lparr>cons_r := cons_r x + 1\<rparr>) s
        in if c = 4 then
             Ok (Inr (Some n)) (if (word_of_int n :: uint32) < target
                                then upd_cons (\<lambda>x. x\<lparr>cons_r := cons_r x - 1\<rparr>) s else s)
           else
             andthen (either_copyout user_dst dst (\<lambda>_. c) 1 s) (\<lambda>r s.
             if r = -1 then Ok (Inr (Some n)) s
             else if c = 10 then Ok (Inr (Some (n - 1))) s
             else Ok (Inl (dst + 1, n - 1)) s))"

definition consoleread :: "bool \<Rightarrow> uint32 \<Rightarrow> int \<Rightarrow> kstate \<Rightarrow> int kres" where
  "consoleread user_dst dst n s =
     (let target = word_of_int n in
      andthen (acquire LkCons s) (\<lambda>_ s.
      andthen (wloop (\<lambda>(_, n). nat n) (consoleread_body user_dst target) (Ok (Inl (dst, n)) s)) (\<lambda>r s.
      case r of
        None \<Rightarrow> Ok (-1) s
      | Some n \<Rightarrow> andthen (release LkCons s) (\<lambda>_ s. Ok (sint (target - word_of_int n)) s))))"

primrec state_name :: "procstate \<Rightarrow> string" where
  "state_name UNUSED = ''unused''"
| "state_name USED = ''used''"
| "state_name SLEEPING = ''sleep ''"
| "state_name RUNNABLE = ''runble''"
| "state_name RUNNING = ''run   ''"
| "state_name ZOMBIE = ''zombie''"

definition procdump_one :: "nat \<Rightarrow> kstate \<Rightarrow> unit option kres" where
  "procdump_one p s =
     (let q = procs s p in
      if p_state q = UNUSED then Ok None s
      else
        andthen (printf ''%d %s %s'' [ArgW (word_of_int (p_pid q)), ArgS (Some (bstr (state_name (p_state q)))),
            ArgS (Some (cstr 16 (p_name q)))] s) (\<lambda>_ s.
        andthen (printf ''\<newline>'' [] s) (\<lambda>_ s. Ok None s)))"

definition procdump :: "kstate \<Rightarrow> unit kres" where
  "procdump s =
     andthen (printf ''\<newline>'' [] s) (\<lambda>_ s.
     andthen (for_each [0..<NPROC] procdump_one s) (\<lambda>_ s. Ok () s))"

text \<open>The loop of control-U, with the value of \<open>cons.e\<close>.\<close>

definition kill_line_body :: "uint32 \<Rightarrow> kstate \<Rightarrow> (uint32 + unit) kres" where
  "kill_line_body e s =
     (if e \<noteq> cons_w (cons s) \<and> cons_at s (e - 1) \<noteq> 10 then
        Ok (Inl (e - 1)) (consputc BACKSPACE (upd_cons (\<lambda>x. x\<lparr>cons_e := e - 1\<rparr>) s))
      else Ok (Inr ()) s)"

definition cons_store :: "int \<Rightarrow> kstate \<Rightarrow> unit kres" where
  "cons_store c s =
     (if c \<noteq> 0 \<and> cons_e (cons s) - cons_r (cons s) < of_nat INPUT_BUF_SIZE then
        (let c = (if c = 13 then 10 else c);
             s = consputc c s;
             s = upd_cons (\<lambda>x. x\<lparr>cons_buf := (cons_buf x)(unat (cons_e x) mod INPUT_BUF_SIZE := word_of_int c),
                                 cons_e := cons_e x + 1\<rparr>) s
         in if c = 10 \<or> c = 4 \<or> cons_e (cons s) - cons_r (cons s) = of_nat INPUT_BUF_SIZE
            then wakeup ChCons (upd_cons (\<lambda>x. x\<lparr>cons_w := cons_e x\<rparr>) s)
            else Ok () s)
      else Ok () s)"

definition consoleintr :: "int \<Rightarrow> kstate \<Rightarrow> unit kres" where
  "consoleintr c s =
     andthen (acquire LkCons s) (\<lambda>_ s.
     andthen
       (if c = 0x10 then procdump s
        else if c = 0x15 then
          wloop (\<lambda>e. unat (e - cons_w (cons s))) kill_line_body (Ok (Inl (cons_e (cons s))) s)
        else if c = 8 \<or> c = 0x7f then
          (if cons_e (cons s) \<noteq> cons_w (cons s)
           then Ok () (consputc BACKSPACE (upd_cons (\<lambda>x. x\<lparr>cons_e := cons_e x - 1\<rparr>) s))
           else Ok () s)
        else cons_store c s) (\<lambda>_ s.
     release LkCons s))"

definition consoleinit :: "kstate \<Rightarrow> kstate" where
  "consoleinit s =
     (initlock LkCons ''cons'' s)\<lparr>devsw_read := (devsw_read s)(CONSOLE := DevConsole),
        devsw_write := (devsw_write s)(CONSOLE := DevConsole)\<rparr>"

end
