(* ===== verification/File.thy ===== *)
theory File
  imports Dir Pipe Console
begin

text \<open>
  \<open>kernel/file.c\<close> and \<open>pipealloc\<close>: the table of open files and the operations behind the file system
  calls. A \<open>struct file *\<close> is an index into \<open>ftable\<close>. The device switch holds the console's functions
  or nothing.
\<close>

definition upd_file :: "nat \<Rightarrow> (kfile \<Rightarrow> kfile) \<Rightarrow> kstate \<Rightarrow> kstate" where
  "upd_file f g s = s\<lparr>ftable := (ftable s)(f := g (ftable s f))\<rparr>"

definition fileinit :: "kstate \<Rightarrow> kstate" where
  "fileinit s = initlock LkFtable ''ftable'' s"

definition filealloc :: "kstate \<Rightarrow> nat option kres" where
  "filealloc s =
     andthen (acquire LkFtable s) (\<lambda>_ s.
     case find (\<lambda>f. f_ref (ftable s f) = 0) [0..<NFILE] of
       Some f \<Rightarrow> andthen (release LkFtable (upd_file f (\<lambda>x. x\<lparr>f_ref := 1\<rparr>) s)) (\<lambda>_ s. Ok (Some f) s)
     | None \<Rightarrow> andthen (release LkFtable s) (\<lambda>_ s. Ok None s))"

definition filedup :: "nat \<Rightarrow> kstate \<Rightarrow> nat kres" where
  "filedup f s =
     andthen (acquire LkFtable s) (\<lambda>_ s.
     if f_ref (ftable s f) < 1 then Panic ''filedup''
     else andthen (release LkFtable (upd_file f (\<lambda>x. x\<lparr>f_ref := f_ref x + 1\<rparr>) s)) (\<lambda>_ s. Ok f s))"

definition iput_opt :: "nat option \<Rightarrow> kstate \<Rightarrow> unit kres" where
  "iput_opt ip s = (case ip of None \<Rightarrow> null_deref | Some ip \<Rightarrow> iput ip s)"

definition fileclose :: "nat \<Rightarrow> kstate \<Rightarrow> unit kres" where
  "fileclose f s =
     andthen (acquire LkFtable s) (\<lambda>_ s.
     if f_ref (ftable s f) < 1 then Panic ''fileclose''
     else
       let s = upd_file f (\<lambda>x. x\<lparr>f_ref := f_ref x - 1\<rparr>) s in
       if f_ref (ftable s f) > 0 then release LkFtable s
       else
         let ff = ftable s f in
         andthen (release LkFtable (upd_file f (\<lambda>x. x\<lparr>f_ref := 0, f_type := FD_NONE\<rparr>) s)) (\<lambda>_ s.
         if f_type ff = FD_PIPE then pipeclose (f_pipe ff) (f_writable ff) s
         else if f_type ff = FD_INODE \<or> f_type ff = FD_DEVICE then
           andthen (begin_op s) (\<lambda>_ s.
           andthen (iput_opt (f_ip ff) s) (\<lambda>_ s.
           end_op s))
         else Ok () s))"

definition stat_bytes :: "stat \<Rightarrow> bytes" where
  "stat_bytes st =
     put32 (put16 (put16 (put32 (put32 (\<lambda>_. 0) 0 (word_of_int (st_dev st))) 4 (st_ino st))
        8 (st_type st)) 10 (st_nlink st)) 12 (st_size st)"

definition filestat :: "nat \<Rightarrow> uint32 \<Rightarrow> kstate \<Rightarrow> int kres" where
  "filestat f addr = with_proc (\<lambda>p s.
     if f_type (ftable s f) = FD_INODE \<or> f_type (ftable s f) = FD_DEVICE then
       andthen (ilock (f_ip (ftable s f)) s) (\<lambda>_ s.
       case f_ip (ftable s f) of
         None \<Rightarrow> null_deref
       | Some ip \<Rightarrow>
           let st = stati ip s in
           andthen (iunlock (Some ip) s) (\<lambda>_ s.
           andthen (copyout (p_pagetable (procs s p)) addr (stat_bytes st) 16 s) (\<lambda>r s.
           Ok (if r < 0 then -1 else 0) s)))
     else Ok (-1) s)"

definition dev_read :: "devfn \<Rightarrow> uint32 \<Rightarrow> int \<Rightarrow> kstate \<Rightarrow> int kres" where
  "dev_read d addr n s = (case d of DevNone \<Rightarrow> Ok (-1) s | DevConsole \<Rightarrow> consoleread True addr n s)"

definition dev_write :: "devfn \<Rightarrow> uint32 \<Rightarrow> int \<Rightarrow> kstate \<Rightarrow> int kres" where
  "dev_write d addr n s = (case d of DevNone \<Rightarrow> Ok (-1) s | DevConsole \<Rightarrow> consolewrite True addr n s)"

definition fileread :: "nat \<Rightarrow> uint32 \<Rightarrow> int \<Rightarrow> kstate \<Rightarrow> int kres" where
  "fileread f addr n s =
     (let ff = ftable s f in
      if \<not> f_readable ff then Ok (-1) s
      else case f_type ff of
        FD_PIPE \<Rightarrow> piperead (f_pipe ff) addr n s
      | FD_DEVICE \<Rightarrow>
          if sint (f_major ff) < 0 \<or> sint (f_major ff) \<ge> int NDEV then Ok (-1) s
          else dev_read (devsw_read s (unat (f_major ff))) addr n s
      | FD_INODE \<Rightarrow>
          andthen (ilock (f_ip ff) s) (\<lambda>_ s.
          case f_ip (ftable s f) of
            None \<Rightarrow> null_deref
          | Some ip \<Rightarrow>
              andthen (readi ip True addr (f_off (ftable s f)) (word_of_int n) s) (\<lambda>r s.
              let s = (if r > 0 then upd_file f (\<lambda>x. x\<lparr>f_off := f_off x + word_of_int r\<rparr>) s else s) in
              andthen (iunlock (Some ip) s) (\<lambda>_ s. Ok r s)))
      | FD_NONE \<Rightarrow> Panic ''fileread'')"

definition filewrite_body :: "nat \<Rightarrow> uint32 \<Rightarrow> int \<Rightarrow> int \<Rightarrow> kstate \<Rightarrow> (int + int) kres" where
  "filewrite_body f addr n i s =
     (if \<not> i < n then Ok (Inr i) s
      else
        let mx = int (((MAXOPBLOCKS - 1 - 1 - 2) div 2) * BSIZE);
            n1 = (if n - i > mx then mx else n - i) in
        andthen (begin_op s) (\<lambda>_ s.
        andthen (ilock (f_ip (ftable s f)) s) (\<lambda>_ s.
        case f_ip (ftable s f) of
          None \<Rightarrow> null_deref
        | Some ip \<Rightarrow>
            andthen (writei ip True (addr + word_of_int i) (f_off (ftable s f)) (word_of_int n1) s) (\<lambda>r s.
            let s = (if r > 0 then upd_file f (\<lambda>x. x\<lparr>f_off := f_off x + word_of_int r\<rparr>) s else s) in
            andthen (iunlock (Some ip) s) (\<lambda>_ s.
            andthen (end_op s) (\<lambda>_ s.
            Ok (if r \<noteq> n1 then Inr i else Inl (i + r)) s))))))"

definition filewrite :: "nat \<Rightarrow> uint32 \<Rightarrow> int \<Rightarrow> kstate \<Rightarrow> int kres" where
  "filewrite f addr n s =
     (let ff = ftable s f in
      if \<not> f_writable ff then Ok (-1) s
      else case f_type ff of
        FD_PIPE \<Rightarrow> pipewrite (f_pipe ff) addr n s
      | FD_DEVICE \<Rightarrow>
          if sint (f_major ff) < 0 \<or> sint (f_major ff) \<ge> int NDEV then Ok (-1) s
          else dev_write (devsw_write s (unat (f_major ff))) addr n s
      | FD_INODE \<Rightarrow>
          andthen (wloop (\<lambda>i. nat (n - i)) (filewrite_body f addr n) (Ok (Inl 0) s)) (\<lambda>i s.
          Ok (if i = n then n else -1) s)
      | FD_NONE \<Rightarrow> Panic ''filewrite'')"

text \<open>The cleanup at \<open>bad\<close> of \<open>pipealloc\<close>; \<open>pi\<close> is null there whenever the code reaches it.\<close>

definition pipealloc_bad :: "nat option \<Rightarrow> nat option \<Rightarrow> kstate \<Rightarrow> (nat \<times> nat) option kres" where
  "pipealloc_bad f0 f1 s =
     andthen (case f0 of Some f \<Rightarrow> fileclose f s | None \<Rightarrow> Ok () s) (\<lambda>_ s.
     andthen (case f1 of Some f \<Rightarrow> fileclose f s | None \<Rightarrow> Ok () s) (\<lambda>_ s.
     Ok None s))"

definition pipealloc :: "kstate \<Rightarrow> (nat \<times> nat) option kres" where
  "pipealloc s =
     andthen (filealloc s) (\<lambda>f0 s.
     case f0 of
       None \<Rightarrow> pipealloc_bad None None s
     | Some r \<Rightarrow>
         andthen (filealloc s) (\<lambda>f1 s.
         case f1 of
           None \<Rightarrow> pipealloc_bad f0 None s
         | Some w \<Rightarrow>
             andthen (kalloc s) (\<lambda>pi s.
             if pi = 0 then pipealloc_bad f0 f1 s
             else
               let s = upd_pipe pi (\<lambda>x. x\<lparr>pi_readopen := True, pi_writeopen := True, pi_nwrite := 0, pi_nread := 0\<rparr>) s;
                   s = initlock (LkPipe pi) ''pipe'' s;
                   s = upd_file r (\<lambda>x. x\<lparr>f_type := FD_PIPE, f_readable := True, f_writable := False, f_pipe := pi\<rparr>) s;
                   s = upd_file w (\<lambda>x. x\<lparr>f_type := FD_PIPE, f_readable := False, f_writable := True, f_pipe := pi\<rparr>) s
               in Ok (Some (r, w)) s)))"

end
