(* ===== verification/Proc.thy ===== *)
theory Proc
  imports File
begin

text \<open>
  \<open>kernel/proc.c\<close>, the life cycle of processes: allocation of a process slot with its trapframe and page
  table, \<open>fork\<close>, \<open>exit\<close>, \<open>wait\<close>, growing and freeing memory. \<open>Sched\<close> holds the part that blocks and wakes.
\<close>

definition upd_tf :: "uint32 \<Rightarrow> (trapframe \<Rightarrow> trapframe) \<Rightarrow> kstate \<Rightarrow> kstate" where
  "upd_tf a f s = s\<lparr>trapframes := (trapframes s)(a := f (trapframes s a))\<rparr>"

definition procinit :: "kstate \<Rightarrow> kstate" where
  "procinit s =
     fold (\<lambda>p s. upd_proc p (\<lambda>q. q\<lparr>p_state := UNUSED, p_kstack := KSTACK p\<rparr>) (initlock (LkProc p) ''proc'' s))
       [0..<NPROC] (initlock LkWait ''wait_lock'' (initlock LkPid ''nextpid'' s))"

definition allocpid :: "kstate \<Rightarrow> int kres" where
  "allocpid s =
     andthen (acquire LkPid s) (\<lambda>_ s.
     let pid = nextpid s in
     andthen (release LkPid (s\<lparr>nextpid := nextpid s + 1\<rparr>)) (\<lambda>_ s. Ok pid s))"

definition proc_pagetable :: "nat \<Rightarrow> kstate \<Rightarrow> uint32 kres" where
  "proc_pagetable p s =
     andthen (uvmcreate s) (\<lambda>pagetable s.
     if pagetable = 0 then Ok 0 s
     else
       andthen (mappages pagetable TRAMPOLINE PGSIZE (k_trampoline s) (PTE_R OR PTE_X) s) (\<lambda>r s.
       if r < 0 then andthen (uvmfree pagetable 0 s) (\<lambda>_ s. Ok 0 s)
       else
         andthen (mappages pagetable TRAPFRAME PGSIZE (p_trapframe (procs s p)) (PTE_R OR PTE_W) s) (\<lambda>r s.
         if r < 0 then
           andthen (uvmunmap pagetable TRAMPOLINE 1 False s) (\<lambda>_ s.
           andthen (uvmfree pagetable 0 s) (\<lambda>_ s. Ok 0 s))
         else Ok pagetable s)))"

definition proc_freepagetable :: "uint32 \<Rightarrow> uint32 \<Rightarrow> kstate \<Rightarrow> unit kres" where
  "proc_freepagetable pagetable sz s =
     andthen (uvmunmap pagetable TRAMPOLINE 1 False s) (\<lambda>_ s.
     andthen (uvmunmap pagetable TRAPFRAME 1 False s) (\<lambda>_ s.
     uvmfree pagetable sz s))"

definition freeproc :: "nat \<Rightarrow> kstate \<Rightarrow> unit kres" where
  "freeproc p s =
     andthen (if p_trapframe (procs s p) \<noteq> 0 then kfree (p_trapframe (procs s p)) s else Ok () s) (\<lambda>_ s.
     let s = upd_proc p (\<lambda>q. q\<lparr>p_trapframe := 0\<rparr>) s in
     andthen (if p_pagetable (procs s p) \<noteq> 0
              then proc_freepagetable (p_pagetable (procs s p)) (p_sz (procs s p)) s else Ok () s) (\<lambda>_ s.
     Ok () (upd_proc p (\<lambda>q. q\<lparr>p_pagetable := 0, p_sz := 0, p_pid := 0, p_parent := None,
        p_name := (p_name q)(0 := 0), p_chan := None, p_killed := False, p_xstate := 0, p_state := UNUSED\<rparr>) s)))"

definition allocproc_slot :: "nat \<Rightarrow> kstate \<Rightarrow> nat option kres" where
  "allocproc_slot p s =
     andthen (acquire (LkProc p) s) (\<lambda>_ s.
     if p_state (procs s p) = UNUSED then Ok (Some p) s
     else andthen (release (LkProc p) s) (\<lambda>_ s. Ok None s))"

definition allocproc_bad :: "nat \<Rightarrow> kstate \<Rightarrow> nat option kres" where
  "allocproc_bad p s =
     andthen (freeproc p s) (\<lambda>_ s.
     andthen (release (LkProc p) s) (\<lambda>_ s. Ok None s))"

definition allocproc :: "kstate \<Rightarrow> nat option kres" where
  "allocproc s =
     andthen (for_each [0..<NPROC] allocproc_slot s) (\<lambda>r s.
     case r of
       None \<Rightarrow> Ok None s
     | Some p \<Rightarrow>
         andthen (allocpid s) (\<lambda>pid s.
         let s = upd_proc p (\<lambda>q. q\<lparr>p_pid := pid, p_state := USED\<rparr>) s in
         andthen (kalloc s) (\<lambda>tf s.
         let s = upd_proc p (\<lambda>q. q\<lparr>p_trapframe := tf\<rparr>) s in
         if tf = 0 then allocproc_bad p s
         else
           andthen (proc_pagetable p s) (\<lambda>pt s.
           let s = upd_proc p (\<lambda>q. q\<lparr>p_pagetable := pt\<rparr>) s in
           if pt = 0 then allocproc_bad p s
           else Ok (Some p) (upd_proc p (\<lambda>q. q\<lparr>p_context := \<lparr>ctx_ra = k_sym s ''forkret'',
                  ctx_sp = p_kstack q + PGSIZE, ctx_s = (\<lambda>_. 0)\<rparr>\<rparr>) s)))))"

definition initcode :: "byte list" where
  "initcode = [
     0x17, 0x05, 0x00, 0x00, 0x13, 0x05, 0x45, 0x02,
     0x97, 0x05, 0x00, 0x00, 0x93, 0x85, 0x35, 0x02,
     0x93, 0x08, 0x70, 0x00, 0x73, 0x00, 0x00, 0x00,
     0x93, 0x08, 0x20, 0x00, 0x73, 0x00, 0x00, 0x00,
     0xef, 0xf0, 0x9f, 0xff, 0x2f, 0x69, 0x6e, 0x69,
     0x74, 0x00, 0x00, 0x24, 0x00, 0x00, 0x00, 0x00,
     0x00, 0x00, 0x00, 0x00]"

definition userinit :: "kstate \<Rightarrow> unit kres" where
  "userinit s =
     andthen (allocproc s) (\<lambda>r s.
     let s = s\<lparr>initproc := r\<rparr> in
     case r of
       None \<Rightarrow> null_deref
     | Some p \<Rightarrow>
         andthen (uvmfirst (p_pagetable (procs s p)) (bytes_of initcode) (of_nat (length initcode)) s) (\<lambda>_ s.
         let s = upd_proc p (\<lambda>q. q\<lparr>p_sz := PGSIZE\<rparr>) s;
             s = upd_tf (p_trapframe (procs s p)) (\<lambda>t. t\<lparr>tf_epc := 0, tf_sp := PGSIZE\<rparr>) s;
             s = upd_proc p (\<lambda>q. q\<lparr>p_name := safestrcpy (p_name q) (bytes_of (bstr ''initcode'')) 16\<rparr>) s
         in andthen (namei [SLASH] s) (\<lambda>ip s.
            release (LkProc p) (upd_proc p (\<lambda>q. q\<lparr>p_cwd := ip, p_state := RUNNABLE\<rparr>) s))))"

definition growproc :: "int \<Rightarrow> kstate \<Rightarrow> int kres" where
  "growproc n = with_proc (\<lambda>p s.
     let sz = p_sz (procs s p) in
     if n > 0 then
       andthen (uvmalloc (p_pagetable (procs s p)) sz (sz + word_of_int n) PTE_W s) (\<lambda>sz s.
       if sz = 0 then Ok (-1) s
       else Ok 0 (upd_proc p (\<lambda>q. q\<lparr>p_sz := sz\<rparr>) s))
     else if n < 0 then
       andthen (uvmdealloc (p_pagetable (procs s p)) sz (sz + word_of_int n) s) (\<lambda>sz s.
       Ok 0 (upd_proc p (\<lambda>q. q\<lparr>p_sz := sz\<rparr>) s))
     else Ok 0 (upd_proc p (\<lambda>q. q\<lparr>p_sz := sz\<rparr>) s))"

definition fork_ofile :: "nat \<Rightarrow> nat \<Rightarrow> nat \<Rightarrow> kstate \<Rightarrow> unit option kres" where
  "fork_ofile p np i s =
     (case p_ofile (procs s p) i of
        None \<Rightarrow> Ok None s
      | Some f \<Rightarrow>
          andthen (filedup f s) (\<lambda>g s.
          Ok None (upd_proc np (\<lambda>q. q\<lparr>p_ofile := (p_ofile q)(i := Some g)\<rparr>) s)))"

definition fork :: "kstate \<Rightarrow> int kres" where
  "fork = with_proc (\<lambda>p s.
     andthen (allocproc s) (\<lambda>r s.
     case r of
       None \<Rightarrow> Ok (-1) s
     | Some np \<Rightarrow>
         andthen (uvmcopy (p_pagetable (procs s p)) (p_pagetable (procs s np)) (p_sz (procs s p)) s) (\<lambda>r s.
         if r < 0 then
           andthen (freeproc np s) (\<lambda>_ s.
           andthen (release (LkProc np) s) (\<lambda>_ s. Ok (-1) s))
         else
           let s = upd_proc np (\<lambda>q. q\<lparr>p_sz := p_sz (procs s p)\<rparr>) s;
               s = upd_tf (p_trapframe (procs s np)) (\<lambda>_. trapframes s (p_trapframe (procs s p))) s;
               s = upd_tf (p_trapframe (procs s np)) (\<lambda>t. t\<lparr>tf_a := (tf_a t)(0 := 0)\<rparr>) s
           in
           andthen (for_each [0..<NOFILE] (fork_ofile p np) s) (\<lambda>_ s.
           case p_cwd (procs s p) of
             None \<Rightarrow> null_deref
           | Some cwd \<Rightarrow>
               andthen (idup cwd s) (\<lambda>ip s.
               let s = upd_proc np (\<lambda>q. q\<lparr>p_cwd := Some ip\<rparr>) s;
                   s = upd_proc np (\<lambda>q. q\<lparr>p_name := safestrcpy (p_name q) (p_name (procs s p)) 16\<rparr>) s;
                   pid = p_pid (procs s np)
               in
               andthen (release (LkProc np) s) (\<lambda>_ s.
               andthen (acquire LkWait s) (\<lambda>_ s.
               andthen (release LkWait (upd_proc np (\<lambda>q. q\<lparr>p_parent := Some p\<rparr>) s)) (\<lambda>_ s.
               andthen (acquire (LkProc np) s) (\<lambda>_ s.
               andthen (release (LkProc np) (upd_proc np (\<lambda>q. q\<lparr>p_state := RUNNABLE\<rparr>) s)) (\<lambda>_ s.
               Ok pid s)))))))))) "

definition wakeup_proc :: "nat option \<Rightarrow> kstate \<Rightarrow> unit kres" where
  "wakeup_proc q s = wakeup (case q of None \<Rightarrow> ChNull | Some p \<Rightarrow> ChProc p) s"

definition reparent_one :: "nat \<Rightarrow> nat \<Rightarrow> kstate \<Rightarrow> unit option kres" where
  "reparent_one p pp s =
     (if p_parent (procs s pp) = Some p then
        andthen (wakeup_proc (initproc s) (upd_proc pp (\<lambda>q. q\<lparr>p_parent := initproc s\<rparr>) s)) (\<lambda>_ s. Ok None s)
      else Ok None s)"

definition reparent :: "nat \<Rightarrow> kstate \<Rightarrow> unit kres" where
  "reparent p s = andthen (for_each [0..<NPROC] (reparent_one p) s) (\<lambda>_ s. Ok () s)"

definition exit_ofile :: "nat \<Rightarrow> nat \<Rightarrow> kstate \<Rightarrow> unit option kres" where
  "exit_ofile p fd s =
     (case p_ofile (procs s p) fd of
        None \<Rightarrow> Ok None s
      | Some f \<Rightarrow>
          andthen (fileclose f s) (\<lambda>_ s.
          Ok None (upd_proc p (\<lambda>q. q\<lparr>p_ofile := (p_ofile q)(fd := None)\<rparr>) s)))"

definition exit :: "int \<Rightarrow> kstate \<Rightarrow> 'a kres" where
  "exit status = with_proc (\<lambda>p s.
     if Some p = initproc s then Panic ''init exiting''
     else
       andthen (for_each [0..<NOFILE] (exit_ofile p) s) (\<lambda>_ s.
       andthen (begin_op s) (\<lambda>_ s.
       andthen (iput_opt (p_cwd (procs s p)) s) (\<lambda>_ s.
       andthen (end_op s) (\<lambda>_ s.
       let s = upd_proc p (\<lambda>q. q\<lparr>p_cwd := None\<rparr>) s in
       andthen (acquire LkWait s) (\<lambda>_ s.
       andthen (reparent p s) (\<lambda>_ s.
       andthen (wakeup_proc (p_parent (procs s p)) s) (\<lambda>_ s.
       andthen (acquire (LkProc p) s) (\<lambda>_ s.
       andthen (release LkWait (upd_proc p (\<lambda>q. q\<lparr>p_xstate := status, p_state := ZOMBIE\<rparr>) s)) (\<lambda>_ s.
       andthen (sched s) (\<lambda>_ _.
       Panic ''zombie exit'')))))))))))"

definition wait_one :: "nat \<Rightarrow> uint32 \<Rightarrow> nat \<Rightarrow> kstate \<Rightarrow> int option kres" where
  "wait_one p addr pp s =
     (if p_parent (procs s pp) = Some p then
        andthen (acquire (LkProc pp) s) (\<lambda>_ s.
        if p_state (procs s pp) = ZOMBIE then
          (let pid = p_pid (procs s pp);
               xs = (\<lambda>i. byte_of i (word_of_int (p_xstate (procs s pp)) :: uint32)) in
           andthen (if addr \<noteq> 0 then copyout (p_pagetable (procs s p)) addr xs 4 s else Ok 0 s) (\<lambda>r s.
           if r < 0 then
             andthen (release (LkProc pp) s) (\<lambda>_ s.
             andthen (release LkWait s) (\<lambda>_ s. Ok (Some (-1)) s))
           else
             andthen (freeproc pp s) (\<lambda>_ s.
             andthen (release (LkProc pp) s) (\<lambda>_ s.
             andthen (release LkWait s) (\<lambda>_ s. Ok (Some pid) s)))))
        else andthen (release (LkProc pp) s) (\<lambda>_ s. Ok None s))
      else Ok None s)"

definition wait_body :: "nat \<Rightarrow> uint32 \<Rightarrow> unit \<Rightarrow> kstate \<Rightarrow> (unit + int) kres" where
  "wait_body p addr u s =
     andthen (for_each [0..<NPROC] (wait_one p addr) s) (\<lambda>r s.
     case r of
       Some v \<Rightarrow> Ok (Inr v) s
     | None \<Rightarrow>
         let havekids = list_ex (\<lambda>pp. p_parent (procs s pp) = Some p) [0..<NPROC] in
         andthen (if \<not> havekids then Ok True s else killed p s) (\<lambda>stop s.
         if stop then andthen (release LkWait s) (\<lambda>_ s. Ok (Inr (-1)) s)
         else andthen (sleep (ChProc p) LkWait s) (\<lambda>_ s. Ok (Inl ()) s)))"

definition wait :: "uint32 \<Rightarrow> kstate \<Rightarrow> int kres" where
  "wait addr = with_proc (\<lambda>p s.
     andthen (acquire LkWait s) (\<lambda>_ s.
     wloop (\<lambda>_. 0) (wait_body p addr) (Ok (Inl ()) s)))"

end
