(* ===== verification/Exec.thy ===== *)
theory Exec
  imports Proc
begin

text \<open>
  \<open>kernel/exec.c\<close> and the ELF structures of \<open>elf.h\<close>. \<open>argv\<close> is the list of the addresses of the argument
  strings (its null terminator left out); the strings are read from memory. \<open>elf\<close> and \<open>ph\<close> are read from
  the kernel buffer as soon as \<open>readi\<close> has filled it.
\<close>

record elfhdr =
  eh_magic :: uint32
  eh_type :: uint16
  eh_machine :: uint16
  eh_version :: uint32
  eh_entry :: uint32
  eh_phoff :: uint32
  eh_shoff :: uint32
  eh_flags :: uint32
  eh_ehsize :: uint16
  eh_phentsize :: uint16
  eh_phnum :: uint16
  eh_shentsize :: uint16
  eh_shnum :: uint16
  eh_shstrndx :: uint16

record proghdr =
  ph_type :: uint32
  ph_off :: uint32
  ph_vaddr :: uint32
  ph_paddr :: uint32
  ph_filesz :: uint32
  ph_memsz :: uint32
  ph_flags :: uint32
  ph_align :: uint32

definition ELF_MAGIC :: uint32 where [const_defs]: "ELF_MAGIC = 0x464C457F"
definition ELF_PROG_LOAD :: uint32 where [const_defs]: "ELF_PROG_LOAD = 1"
definition ELFHDR_SIZE :: nat where [const_defs]: "ELFHDR_SIZE = 52"
definition PROGHDR_SIZE :: nat where [const_defs]: "PROGHDR_SIZE = 32"

definition dec_elfhdr :: "bytes \<Rightarrow> elfhdr" where
  "dec_elfhdr d = \<lparr>eh_magic = get32 d 0, eh_type = get16 d 16, eh_machine = get16 d 18, eh_version = get32 d 20,
     eh_entry = get32 d 24, eh_phoff = get32 d 28, eh_shoff = get32 d 32, eh_flags = get32 d 36,
     eh_ehsize = get16 d 40, eh_phentsize = get16 d 42, eh_phnum = get16 d 44, eh_shentsize = get16 d 46,
     eh_shnum = get16 d 48, eh_shstrndx = get16 d 50\<rparr>"

definition dec_proghdr :: "bytes \<Rightarrow> proghdr" where
  "dec_proghdr d = \<lparr>ph_type = get32 d 0, ph_off = get32 d 4, ph_vaddr = get32 d 8, ph_paddr = get32 d 12,
     ph_filesz = get32 d 16, ph_memsz = get32 d 20, ph_flags = get32 d 24, ph_align = get32 d 28\<rparr>"

definition flags2perm :: "uint32 \<Rightarrow> uint32" where
  "flags2perm flags =
     (let perm = (if flags AND 1 \<noteq> 0 then PTE_X else 0)
      in if flags AND 2 \<noteq> 0 then perm OR PTE_W else perm)"

definition loadseg_body ::
  "uint32 \<Rightarrow> uint32 \<Rightarrow> nat \<Rightarrow> uint32 \<Rightarrow> uint32 \<Rightarrow> uint32 \<Rightarrow> kstate \<Rightarrow> (uint32 + int) kres" where
  "loadseg_body pagetable va ip offset sz i s =
     (if \<not> i < sz then Ok (Inr 0) s
      else
        andthen (walkaddr pagetable (va + i) s) (\<lambda>pa s.
        if pa = 0 then Panic ''loadseg: address should exist''
        else
          let n = (if sz - i < PGSIZE then sz - i else PGSIZE) in
          andthen (readi ip False pa (offset + i) n s) (\<lambda>r s.
          Ok (if word_of_int r \<noteq> n then Inr (-1) else Inl (i + PGSIZE)) s)))"

definition loadseg :: "uint32 \<Rightarrow> uint32 \<Rightarrow> nat \<Rightarrow> uint32 \<Rightarrow> uint32 \<Rightarrow> kstate \<Rightarrow> int kres" where
  "loadseg pagetable va ip offset sz s =
     wloop (\<lambda>i. unat (sz - i)) (loadseg_body pagetable va ip offset sz) (Ok (Inl 0) s)"

text \<open>The loop over the program headers: \<open>n\<close> headers left, the next at \<open>off\<close>, memory size \<open>sz\<close> so far.
  Says whether all went well, and the size reached, which the cleanup needs.\<close>

primrec exec_load :: "nat \<Rightarrow> uint32 \<Rightarrow> nat \<Rightarrow> uint32 \<Rightarrow> uint32 \<Rightarrow> kstate \<Rightarrow> (bool \<times> uint32) kres" where
  "exec_load 0 pagetable ip off sz s = Ok (True, sz) s"
| "exec_load (Suc n) pagetable ip off sz s =
     andthen (readi ip False (frame s) off (of_nat PROGHDR_SIZE) s) (\<lambda>r s.
     if r \<noteq> int PROGHDR_SIZE then Ok (False, sz) s
     else
       let ph = dec_proghdr (view (mem s) (frame s)) in
       if ph_type ph \<noteq> ELF_PROG_LOAD then exec_load n pagetable ip (off + of_nat PROGHDR_SIZE) sz s
       else if ph_memsz ph < ph_filesz ph then Ok (False, sz) s
       else if ph_vaddr ph + ph_memsz ph < ph_vaddr ph then Ok (False, sz) s
       else if ph_vaddr ph mod PGSIZE \<noteq> 0 then Ok (False, sz) s
       else
         andthen (uvmalloc pagetable sz (ph_vaddr ph + ph_memsz ph) (flags2perm (ph_flags ph)) s) (\<lambda>sz1 s.
         if sz1 = 0 then Ok (False, sz) s
         else
           andthen (loadseg pagetable (ph_vaddr ph) ip (ph_off ph) (ph_filesz ph) s) (\<lambda>r s.
           if r < 0 then Ok (False, sz1) s
           else exec_load n pagetable ip (off + of_nat PROGHDR_SIZE) sz1 s)))"

text \<open>Pushing the argument strings: the result is \<open>argc\<close>, the stack pointer and \<open>ustack\<close>.\<close>

primrec exec_args ::
  "uint32 list \<Rightarrow> uint32 \<Rightarrow> uint32 \<Rightarrow> nat \<Rightarrow> uint32 \<Rightarrow> (nat \<Rightarrow> uint32) \<Rightarrow> kstate \<Rightarrow>
   (nat \<times> uint32 \<times> (nat \<Rightarrow> uint32)) option kres" where
  "exec_args [] pagetable stackbase argc sp ustack s = Ok (Some (argc, sp, ustack)) s"
| "exec_args (a # argv) pagetable stackbase argc sp ustack s =
     (if argc \<ge> MAXARG then Ok None s
      else case strlen (view (mem s) a) of
        None \<Rightarrow> Spin
      | Some len \<Rightarrow>
          let sp = sp - of_nat (len + 1);
              sp = sp - sp mod 16 in
          if sp < stackbase then Ok None s
          else
            andthen (copyout pagetable sp (view (mem s) a) (of_nat (len + 1)) s) (\<lambda>r s.
            if r < 0 then Ok None s
            else exec_args argv pagetable stackbase (Suc argc) sp (ustack(argc := sp)) s))"

text \<open>\<open>bad\<close>: free the new page table if there is one, and give up the inode if it is still held.\<close>

definition exec_bad :: "uint32 \<Rightarrow> uint32 \<Rightarrow> nat option \<Rightarrow> kstate \<Rightarrow> int kres" where
  "exec_bad pagetable sz ip s =
     andthen (if pagetable \<noteq> 0 then proc_freepagetable pagetable sz s else Ok () s) (\<lambda>_ s.
     andthen (case ip of None \<Rightarrow> Ok () s
              | Some ip \<Rightarrow> andthen (iunlockput ip s) (\<lambda>_ s. end_op s)) (\<lambda>_ s.
     Ok (-1) s))"

definition path_last :: "byte list \<Rightarrow> byte list" where
  "path_last path = rev (takeWhile (\<lambda>c. c \<noteq> SLASH) (rev path))"

text \<open>The second half: the stack, the arguments and the switch to the new image.\<close>

definition exec_stack ::
  "nat \<Rightarrow> byte list \<Rightarrow> uint32 list \<Rightarrow> elfhdr \<Rightarrow> uint32 \<Rightarrow> uint32 \<Rightarrow> kstate \<Rightarrow> int kres" where
  "exec_stack p path argv elf pagetable sz s =
     (let oldsz = p_sz (procs s p);
          sz = PGROUNDUP sz in
      andthen (uvmalloc pagetable sz (sz + 2 * PGSIZE) PTE_W s) (\<lambda>sz1 s.
      if sz1 = 0 then exec_bad pagetable sz None s
      else
        let sz = sz1 in
        andthen (uvmclear pagetable (sz - 2 * PGSIZE) s) (\<lambda>_ s.
        let stackbase = sz - PGSIZE in
        andthen (exec_args argv pagetable stackbase 0 sz (\<lambda>_. 0) s) (\<lambda>r s.
        case r of
          None \<Rightarrow> exec_bad pagetable sz None s
        | Some (argc, sp, ustack) \<Rightarrow>
            let ustack = ustack(argc := 0);
                sp = sp - of_nat ((argc + 1) * 4);
                sp = sp - sp mod 16 in
            if sp < stackbase then exec_bad pagetable sz None s
            else
              andthen (copyout pagetable sp (put32s (\<lambda>_. 0) 0 (argc + 1) ustack) (of_nat ((argc + 1) * 4)) s) (\<lambda>r s.
              if r < 0 then exec_bad pagetable sz None s
              else
                let s = upd_tf (p_trapframe (procs s p)) (\<lambda>t. t\<lparr>tf_a := (tf_a t)(1 := sp)\<rparr>) s;
                    s = upd_proc p (\<lambda>q. q\<lparr>p_name := safestrcpy (p_name q) (bytes_of (path_last path)) 16\<rparr>) s;
                    oldpagetable = p_pagetable (procs s p);
                    s = upd_proc p (\<lambda>q. q\<lparr>p_pagetable := pagetable, p_sz := sz\<rparr>) s;
                    s = upd_tf (p_trapframe (procs s p)) (\<lambda>t. t\<lparr>tf_epc := eh_entry elf, tf_sp := sp\<rparr>) s
                in andthen (proc_freepagetable oldpagetable oldsz s) (\<lambda>_ s.
                   Ok (int argc) s)))))) "

definition exec :: "byte list \<Rightarrow> uint32 list \<Rightarrow> kstate \<Rightarrow> int kres" where
  "exec path argv = with_proc (\<lambda>p s.
     andthen (begin_op s) (\<lambda>_ s.
     andthen (namei path s) (\<lambda>ip s.
     case ip of
       None \<Rightarrow> andthen (end_op s) (\<lambda>_ s. Ok (-1) s)
     | Some ip \<Rightarrow>
         andthen (ilock (Some ip) s) (\<lambda>_ s.
         andthen (readi ip False (frame s) 0 (of_nat ELFHDR_SIZE) s) (\<lambda>r s.
         if r \<noteq> int ELFHDR_SIZE then exec_bad 0 0 (Some ip) s
         else
           let elf = dec_elfhdr (view (mem s) (frame s)) in
           if eh_magic elf \<noteq> ELF_MAGIC then exec_bad 0 0 (Some ip) s
           else
             andthen (proc_pagetable p s) (\<lambda>pagetable s.
             if pagetable = 0 then exec_bad 0 0 (Some ip) s
             else
               andthen (exec_load (unat (eh_phnum elf)) pagetable ip (eh_phoff elf) 0 s) (\<lambda>(ok, sz) s.
               if \<not> ok then exec_bad pagetable sz (Some ip) s
               else
                 andthen (iunlockput ip s) (\<lambda>_ s.
                 andthen (end_op s) (\<lambda>_ s.
                 exec_stack p path argv elf pagetable sz s)))))))))"

end
