(* ===== verification/Syscall.thy ===== *)
theory Syscall
  imports Exec
begin

text \<open>
  \<open>kernel/syscall.c\<close> (argument fetching), \<open>sysproc.c\<close> and \<open>sysfile.c\<close>: the system calls, each returning the
  word that goes to the user's \<open>a0\<close>, and the dispatcher.
\<close>

section \<open>Arguments\<close>

definition fetchaddr :: "uint32 \<Rightarrow> kstate \<Rightarrow> (int \<times> uint32) kres" where
  "fetchaddr addr = with_proc (\<lambda>p s.
     if addr \<ge> p_sz (procs s p) \<or> addr + 4 > p_sz (procs s p) then Ok (-1, 0) s
     else
       andthen (copyin (p_pagetable (procs s p)) (\<lambda>_. 0) addr 4 s) (\<lambda>(r, d) s.
       Ok (if r \<noteq> 0 then -1 else 0, get32 d 0) s))"

text \<open>The destination buffer is passed in and comes back beside the result.\<close>

definition fetchstr :: "uint32 \<Rightarrow> bytes \<Rightarrow> uint32 \<Rightarrow> kstate \<Rightarrow> (int \<times> bytes) kres" where
  "fetchstr addr buf mx = with_proc (\<lambda>p s.
     andthen (copyinstr (p_pagetable (procs s p)) buf addr mx s) (\<lambda>(r, buf) s.
     if r < 0 then Ok (-1, buf) s
     else case strlen buf of None \<Rightarrow> Spin | Some n \<Rightarrow> Ok (int n, buf) s))"

definition argraw :: "nat \<Rightarrow> kstate \<Rightarrow> uint32 kres" where
  "argraw n = with_proc (\<lambda>p s.
     if n \<le> 5 then Ok (tf_a (trapframes s (p_trapframe (procs s p))) n) s else Panic ''argraw'')"

definition argint :: "nat \<Rightarrow> kstate \<Rightarrow> int kres" where
  "argint n s = andthen (argraw n s) (\<lambda>v s. Ok (sint v) s)"

definition argaddr :: "nat \<Rightarrow> kstate \<Rightarrow> uint32 kres" where
  "argaddr n s = argraw n s"

definition argstr :: "nat \<Rightarrow> nat \<Rightarrow> kstate \<Rightarrow> (int \<times> bytes) kres" where
  "argstr n mx s = andthen (argaddr n s) (\<lambda>addr s. fetchstr addr (\<lambda>_. 0) (of_nat mx) s)"

section \<open>Process system calls\<close>

definition sys_exit :: "kstate \<Rightarrow> uint32 kres" where
  "sys_exit s = andthen (argint 0 s) (\<lambda>n s. exit n s)"

definition sys_getpid :: "kstate \<Rightarrow> uint32 kres" where
  "sys_getpid = with_proc (\<lambda>p s. Ok (word_of_int (p_pid (procs s p))) s)"

definition sys_fork :: "kstate \<Rightarrow> uint32 kres" where
  "sys_fork s = andthen (fork s) (\<lambda>r s. Ok (word_of_int r) s)"

definition sys_wait :: "kstate \<Rightarrow> uint32 kres" where
  "sys_wait s = andthen (argaddr 0 s) (\<lambda>p s. andthen (wait p s) (\<lambda>r s. Ok (word_of_int r) s))"

definition sys_sbrk :: "kstate \<Rightarrow> uint32 kres" where
  "sys_sbrk s =
     andthen (argint 0 s) (\<lambda>n s.
     with_proc (\<lambda>p s.
       let addr = p_sz (procs s p) in
       andthen (growproc n s) (\<lambda>r s.
       Ok (if r < 0 then -1 else addr) s)) s)"

definition sys_sleep_body :: "uint32 \<Rightarrow> int \<Rightarrow> unit \<Rightarrow> kstate \<Rightarrow> (unit + bool) kres" where
  "sys_sleep_body ticks0 n u s =
     (if ticks s - ticks0 < word_of_int n then
        with_proc (\<lambda>p s.
          andthen (killed p s) (\<lambda>k s.
          if k then andthen (release LkTicks s) (\<lambda>_ s. Ok (Inr False) s)
          else andthen (sleep ChTicks LkTicks s) (\<lambda>_ s. Ok (Inl ()) s))) s
      else Ok (Inr True) s)"

definition sys_sleep :: "kstate \<Rightarrow> uint32 kres" where
  "sys_sleep s =
     andthen (argint 0 s) (\<lambda>n s.
     andthen (acquire LkTicks s) (\<lambda>_ s.
     andthen (wloop (\<lambda>_. 0) (sys_sleep_body (ticks s) n) (Ok (Inl ()) s)) (\<lambda>ok s.
     if \<not> ok then Ok (-1) s
     else andthen (release LkTicks s) (\<lambda>_ s. Ok 0 s))))"

definition sys_kill :: "kstate \<Rightarrow> uint32 kres" where
  "sys_kill s = andthen (argint 0 s) (\<lambda>pid s. andthen (kill pid s) (\<lambda>r s. Ok (word_of_int r) s))"

definition sys_uptime :: "kstate \<Rightarrow> uint32 kres" where
  "sys_uptime s =
     andthen (acquire LkTicks s) (\<lambda>_ s.
     let xticks = ticks s in
     andthen (release LkTicks s) (\<lambda>_ s. Ok xticks s))"

section \<open>File descriptors\<close>

definition argfd :: "nat \<Rightarrow> kstate \<Rightarrow> (nat \<times> nat) option kres" where
  "argfd n s =
     andthen (argint n s) (\<lambda>fd s.
     if fd < 0 \<or> fd \<ge> int NOFILE then Ok None s
     else with_proc (\<lambda>p s.
       case p_ofile (procs s p) (nat fd) of
         None \<Rightarrow> Ok None s
       | Some f \<Rightarrow> Ok (Some (nat fd, f)) s) s)"

definition fdalloc :: "nat \<Rightarrow> kstate \<Rightarrow> int kres" where
  "fdalloc f = with_proc (\<lambda>p s.
     case find (\<lambda>fd. p_ofile (procs s p) fd = None) [0..<NOFILE] of
       Some fd \<Rightarrow> Ok (int fd) (upd_proc p (\<lambda>q. q\<lparr>p_ofile := (p_ofile q)(fd := Some f)\<rparr>) s)
     | None \<Rightarrow> Ok (-1) s)"

definition sys_dup :: "kstate \<Rightarrow> uint32 kres" where
  "sys_dup s =
     andthen (argfd 0 s) (\<lambda>r s.
     case r of
       None \<Rightarrow> Ok (-1) s
     | Some (_, f) \<Rightarrow>
         andthen (fdalloc f s) (\<lambda>fd s.
         if fd < 0 then Ok (-1) s
         else andthen (filedup f s) (\<lambda>_ s. Ok (word_of_int fd) s)))"

definition sys_read :: "kstate \<Rightarrow> uint32 kres" where
  "sys_read s =
     andthen (argaddr 1 s) (\<lambda>p s.
     andthen (argint 2 s) (\<lambda>n s.
     andthen (argfd 0 s) (\<lambda>r s.
     case r of
       None \<Rightarrow> Ok (-1) s
     | Some (_, f) \<Rightarrow> andthen (fileread f p n s) (\<lambda>r s. Ok (word_of_int r) s))))"

definition sys_write :: "kstate \<Rightarrow> uint32 kres" where
  "sys_write s =
     andthen (argaddr 1 s) (\<lambda>p s.
     andthen (argint 2 s) (\<lambda>n s.
     andthen (argfd 0 s) (\<lambda>r s.
     case r of
       None \<Rightarrow> Ok (-1) s
     | Some (_, f) \<Rightarrow> andthen (filewrite f p n s) (\<lambda>r s. Ok (word_of_int r) s))))"

definition sys_close :: "kstate \<Rightarrow> uint32 kres" where
  "sys_close s =
     andthen (argfd 0 s) (\<lambda>r s.
     case r of
       None \<Rightarrow> Ok (-1) s
     | Some (fd, f) \<Rightarrow>
         with_proc (\<lambda>p s.
           andthen (fileclose f (upd_proc p (\<lambda>q. q\<lparr>p_ofile := (p_ofile q)(fd := None)\<rparr>) s)) (\<lambda>_ s.
           Ok 0 s)) s)"

definition sys_fstat :: "kstate \<Rightarrow> uint32 kres" where
  "sys_fstat s =
     andthen (argaddr 1 s) (\<lambda>st s.
     andthen (argfd 0 s) (\<lambda>r s.
     case r of
       None \<Rightarrow> Ok (-1) s
     | Some (_, f) \<Rightarrow> andthen (filestat f st s) (\<lambda>r s. Ok (word_of_int r) s)))"

section \<open>Paths\<close>

text \<open>\<open>end_op(); return v\<close> and \<open>iunlockput(ip); end_op(); return v\<close>.\<close>

definition end_ret :: "uint32 \<Rightarrow> kstate \<Rightarrow> uint32 kres" where
  "end_ret v s = andthen (end_op s) (\<lambda>_ s. Ok v s)"

definition put_end_ret :: "nat \<Rightarrow> uint32 \<Rightarrow> kstate \<Rightarrow> uint32 kres" where
  "put_end_ret ip v s = andthen (iunlockput ip s) (\<lambda>_ s. end_ret v s)"

definition sys_link_bad :: "nat \<Rightarrow> kstate \<Rightarrow> uint32 kres" where
  "sys_link_bad ip s =
     andthen (ilock (Some ip) s) (\<lambda>_ s.
     andthen (iupdate ip (upd_inode ip (\<lambda>x. x\<lparr>i_nlink := i_nlink x - 1\<rparr>) s)) (\<lambda>_ s.
     put_end_ret ip (-1) s))"

definition sys_link :: "kstate \<Rightarrow> uint32 kres" where
  "sys_link s =
     andthen (argstr 0 MAXPATH s) (\<lambda>(r, old) s.
     if r < 0 then Ok (-1) s
     else
       andthen (argstr 1 MAXPATH s) (\<lambda>(r, new) s.
       if r < 0 then Ok (-1) s
       else
         andthen (begin_op s) (\<lambda>_ s.
         andthen (namei (cstr MAXPATH old) s) (\<lambda>ip s.
         case ip of
           None \<Rightarrow> end_ret (-1) s
         | Some ip \<Rightarrow>
             andthen (ilock (Some ip) s) (\<lambda>_ s.
             if i_type (itable s ip) = T_DIR then put_end_ret ip (-1) s
             else
               andthen (iupdate ip (upd_inode ip (\<lambda>x. x\<lparr>i_nlink := i_nlink x + 1\<rparr>) s)) (\<lambda>_ s.
               andthen (iunlock (Some ip) s) (\<lambda>_ s.
               andthen (nameiparent (cstr MAXPATH new) (\<lambda>_. 0) s) (\<lambda>(dp, name) s.
               case dp of
                 None \<Rightarrow> sys_link_bad ip s
               | Some dp \<Rightarrow>
                   andthen (ilock (Some dp) s) (\<lambda>_ s.
                   andthen (if i_dev (itable s dp) \<noteq> i_dev (itable s ip) then Ok (-1) s
                            else dirlink dp name (i_inum (itable s ip)) s) (\<lambda>r s.
                   if r < 0 then andthen (iunlockput dp s) (\<lambda>_ s. sys_link_bad ip s)
                   else
                     andthen (iunlockput dp s) (\<lambda>_ s.
                     andthen (iput ip s) (\<lambda>_ s.
                     end_ret 0 s))))))))))))"

definition isdirempty_one :: "nat \<Rightarrow> nat \<Rightarrow> kstate \<Rightarrow> int option kres" where
  "isdirempty_one dp k s =
     andthen (read_de ''isdirempty: readi'' dp (of_nat (k * DIRENT_SIZE)) s) (\<lambda>_ s.
     Ok (if de_inum s \<noteq> 0 then Some 0 else None) s)"

definition isdirempty :: "nat \<Rightarrow> kstate \<Rightarrow> int kres" where
  "isdirempty dp s =
     andthen (for_each [2..<dirents (i_size (itable s dp))] (isdirempty_one dp) s) (\<lambda>r s.
     Ok (case r of Some v \<Rightarrow> v | None \<Rightarrow> 1) s)"

text \<open>What \<open>sys_unlink\<close> does once it has found the entry of \<open>ip\<close> at offset \<open>off\<close> of \<open>dp\<close>.\<close>

definition unlink_entry :: "nat \<Rightarrow> nat \<Rightarrow> uint32 \<Rightarrow> kstate \<Rightarrow> uint32 kres" where
  "unlink_entry dp ip off s =
     andthen (ilock (Some ip) s) (\<lambda>_ s.
     if sint (i_nlink (itable s ip)) < 1 then Panic ''unlink: nlink < 1''
     else
       andthen (if i_type (itable s ip) = T_DIR then isdirempty ip s else Ok 1 s) (\<lambda>empty s.
       if empty = 0 then andthen (iunlockput ip s) (\<lambda>_ s. put_end_ret dp (-1) s)
       else
         andthen (writei dp False (frame s) off (of_nat DIRENT_SIZE) (put_de 0 (\<lambda>_. 0) s)) (\<lambda>r s.
         if r \<noteq> int DIRENT_SIZE then Panic ''unlink: writei''
         else
           andthen (if i_type (itable s ip) = T_DIR
                    then iupdate dp (upd_inode dp (\<lambda>x. x\<lparr>i_nlink := i_nlink x - 1\<rparr>) s) else Ok () s) (\<lambda>_ s.
           andthen (iunlockput dp s) (\<lambda>_ s.
           andthen (iupdate ip (upd_inode ip (\<lambda>x. x\<lparr>i_nlink := i_nlink x - 1\<rparr>) s)) (\<lambda>_ s.
           put_end_ret ip 0 s))))))"

definition sys_unlink :: "kstate \<Rightarrow> uint32 kres" where
  "sys_unlink s =
     andthen (argstr 0 MAXPATH s) (\<lambda>(r, path) s.
     if r < 0 then Ok (-1) s
     else
       andthen (begin_op s) (\<lambda>_ s.
       andthen (nameiparent (cstr MAXPATH path) (\<lambda>_. 0) s) (\<lambda>(dp, name) s.
       case dp of
         None \<Rightarrow> end_ret (-1) s
       | Some dp \<Rightarrow>
           andthen (ilock (Some dp) s) (\<lambda>_ s.
           if namecmp name (bytes_of (bstr ''.'')) = 0 \<or> namecmp name (bytes_of (bstr ''..'')) = 0
           then put_end_ret dp (-1) s
           else
             andthen (dirlookup dp name s) (\<lambda>r s.
             case r of
               None \<Rightarrow> put_end_ret dp (-1) s
             | Some (ip, off) \<Rightarrow> unlink_entry dp ip off s)))))"

definition create_fail :: "nat \<Rightarrow> nat \<Rightarrow> kstate \<Rightarrow> nat option kres" where
  "create_fail ip dp s =
     andthen (iupdate ip (upd_inode ip (\<lambda>x. x\<lparr>i_nlink := 0\<rparr>) s)) (\<lambda>_ s.
     andthen (iunlockput ip s) (\<lambda>_ s.
     andthen (iunlockput dp s) (\<lambda>_ s. Ok None s)))"

definition create :: "byte list \<Rightarrow> uint16 \<Rightarrow> uint16 \<Rightarrow> uint16 \<Rightarrow> kstate \<Rightarrow> nat option kres" where
  "create path type major minor s =
     andthen (nameiparent path (\<lambda>_. 0) s) (\<lambda>(dp, name) s.
     case dp of
       None \<Rightarrow> Ok None s
     | Some dp \<Rightarrow>
         andthen (ilock (Some dp) s) (\<lambda>_ s.
         andthen (dirlookup dp name s) (\<lambda>r s.
         case r of
           Some (ip, _) \<Rightarrow>
             andthen (iunlockput dp s) (\<lambda>_ s.
             andthen (ilock (Some ip) s) (\<lambda>_ s.
             if type = T_FILE \<and> (i_type (itable s ip) = T_FILE \<or> i_type (itable s ip) = T_DEVICE)
             then Ok (Some ip) s
             else andthen (iunlockput ip s) (\<lambda>_ s. Ok None s)))
         | None \<Rightarrow>
             andthen (ialloc (i_dev (itable s dp)) type s) (\<lambda>r s.
             case r of
               None \<Rightarrow> andthen (iunlockput dp s) (\<lambda>_ s. Ok None s)
             | Some ip \<Rightarrow>
                 andthen (ilock (Some ip) s) (\<lambda>_ s.
                 andthen (iupdate ip (upd_inode ip (\<lambda>x. x\<lparr>i_major := major, i_minor := minor, i_nlink := 1\<rparr>) s)) (\<lambda>_ s.
                 andthen
                   (if type = T_DIR then
                      andthen (dirlink ip (bytes_of (bstr ''.'')) (i_inum (itable s ip)) s) (\<lambda>r s.
                      if r < 0 then Ok r s
                      else dirlink ip (bytes_of (bstr ''..'')) (i_inum (itable s dp)) s)
                    else Ok 0 s) (\<lambda>r s.
                 if r < 0 then create_fail ip dp s
                 else
                   andthen (dirlink dp name (i_inum (itable s ip)) s) (\<lambda>r s.
                   if r < 0 then create_fail ip dp s
                   else
                     andthen (if type = T_DIR
                              then iupdate dp (upd_inode dp (\<lambda>x. x\<lparr>i_nlink := i_nlink x + 1\<rparr>) s)
                              else Ok () s) (\<lambda>_ s.
                     andthen (iunlockput dp s) (\<lambda>_ s.
                     Ok (Some ip) s)))))))))) "

text \<open>The part of \<open>sys_open\<close> after the inode has been found and locked.\<close>

definition open_inode :: "nat \<Rightarrow> uint32 \<Rightarrow> kstate \<Rightarrow> uint32 kres" where
  "open_inode ip omode s =
     (if i_type (itable s ip) = T_DEVICE \<and> (sint (i_major (itable s ip)) < 0 \<or> sint (i_major (itable s ip)) \<ge> int NDEV)
      then put_end_ret ip (-1) s
      else
        andthen (filealloc s) (\<lambda>r s.
        case r of
          None \<Rightarrow> put_end_ret ip (-1) s
        | Some f \<Rightarrow>
            andthen (fdalloc f s) (\<lambda>fd s.
            if fd < 0 then andthen (fileclose f s) (\<lambda>_ s. put_end_ret ip (-1) s)
            else
              let s = (if i_type (itable s ip) = T_DEVICE
                       then upd_file f (\<lambda>x. x\<lparr>f_type := FD_DEVICE, f_major := i_major (itable s ip)\<rparr>) s
                       else upd_file f (\<lambda>x. x\<lparr>f_type := FD_INODE, f_off := 0\<rparr>) s);
                  s = upd_file f (\<lambda>x. x\<lparr>f_ip := Some ip, f_readable := (omode AND O_WRONLY = 0),
                        f_writable := (omode AND O_WRONLY \<noteq> 0 \<or> omode AND O_RDWR \<noteq> 0)\<rparr>) s
              in
              andthen (if omode AND O_TRUNC \<noteq> 0 \<and> i_type (itable s ip) = T_FILE then itrunc ip s else Ok () s) (\<lambda>_ s.
              andthen (iunlock (Some ip) s) (\<lambda>_ s.
              end_ret (word_of_int fd) s)))))"

definition sys_open :: "kstate \<Rightarrow> uint32 kres" where
  "sys_open s =
     andthen (argint 1 s) (\<lambda>omode s.
     andthen (argstr 0 MAXPATH s) (\<lambda>(n, path) s.
     if n < 0 then Ok (-1) s
     else
       let omode = word_of_int omode in
       andthen (begin_op s) (\<lambda>_ s.
       if omode AND O_CREATE \<noteq> 0 then
         andthen (create (cstr MAXPATH path) T_FILE 0 0 s) (\<lambda>ip s.
         case ip of None \<Rightarrow> end_ret (-1) s | Some ip \<Rightarrow> open_inode ip omode s)
       else
         andthen (namei (cstr MAXPATH path) s) (\<lambda>ip s.
         case ip of
           None \<Rightarrow> end_ret (-1) s
         | Some ip \<Rightarrow>
             andthen (ilock (Some ip) s) (\<lambda>_ s.
             if i_type (itable s ip) = T_DIR \<and> omode \<noteq> O_RDONLY then put_end_ret ip (-1) s
             else open_inode ip omode s)))))"

definition sys_mkdir :: "kstate \<Rightarrow> uint32 kres" where
  "sys_mkdir s =
     andthen (begin_op s) (\<lambda>_ s.
     andthen (argstr 0 MAXPATH s) (\<lambda>(r, path) s.
     if r < 0 then end_ret (-1) s
     else
       andthen (create (cstr MAXPATH path) T_DIR 0 0 s) (\<lambda>ip s.
       case ip of None \<Rightarrow> end_ret (-1) s | Some ip \<Rightarrow> put_end_ret ip 0 s)))"

definition sys_mknod :: "kstate \<Rightarrow> uint32 kres" where
  "sys_mknod s =
     andthen (begin_op s) (\<lambda>_ s.
     andthen (argint 1 s) (\<lambda>major s.
     andthen (argint 2 s) (\<lambda>minor s.
     andthen (argstr 0 MAXPATH s) (\<lambda>(r, path) s.
     if r < 0 then end_ret (-1) s
     else
       andthen (create (cstr MAXPATH path) T_DEVICE (word_of_int major) (word_of_int minor) s) (\<lambda>ip s.
       case ip of None \<Rightarrow> end_ret (-1) s | Some ip \<Rightarrow> put_end_ret ip 0 s)))))"

definition sys_chdir :: "kstate \<Rightarrow> uint32 kres" where
  "sys_chdir = with_proc (\<lambda>p s.
     andthen (begin_op s) (\<lambda>_ s.
     andthen (argstr 0 MAXPATH s) (\<lambda>(r, path) s.
     if r < 0 then end_ret (-1) s
     else
       andthen (namei (cstr MAXPATH path) s) (\<lambda>ip s.
       case ip of
         None \<Rightarrow> end_ret (-1) s
       | Some ip \<Rightarrow>
           andthen (ilock (Some ip) s) (\<lambda>_ s.
           if i_type (itable s ip) \<noteq> T_DIR then put_end_ret ip (-1) s
           else
             andthen (iunlock (Some ip) s) (\<lambda>_ s.
             andthen (iput_opt (p_cwd (procs s p)) s) (\<lambda>_ s.
             andthen (end_op s) (\<lambda>_ s.
             Ok 0 (upd_proc p (\<lambda>q. q\<lparr>p_cwd := Some ip\<rparr>) s)))))))))"

section \<open>exec and pipe\<close>

text \<open>The loop of \<open>sys_exec\<close> that copies the arguments in, \<open>n\<close> entries of \<open>argv\<close> left: whether it met the end
  of the vector, and the pages it has allocated.\<close>

primrec exec_argv :: "nat \<Rightarrow> uint32 \<Rightarrow> uint32 list \<Rightarrow> kstate \<Rightarrow> (bool \<times> uint32 list) kres" where
  "exec_argv 0 uargv pages s = Ok (False, pages) s"
| "exec_argv (Suc n) uargv pages s =
     andthen (fetchaddr uargv s) (\<lambda>(r, uarg) s.
     if r < 0 then Ok (False, pages) s
     else if uarg = 0 then Ok (True, pages) s
     else
       andthen (kalloc s) (\<lambda>pg s.
       if pg = 0 then Ok (False, pages) s
       else
         andthen (fetchstr uarg (view (mem s) pg) PGSIZE s) (\<lambda>(r, buf) s.
         let s = s\<lparr>mem := store (mem s) pg PGBYTES buf\<rparr> in
         if r < 0 then Ok (False, pages @ [pg]) s
         else exec_argv n (uargv + 4) (pages @ [pg]) s)))"

definition free_pages :: "uint32 list \<Rightarrow> kstate \<Rightarrow> unit kres" where
  "free_pages pages s =
     andthen (for_each pages (\<lambda>pg s. andthen (kfree pg s) (\<lambda>_ s. Ok (None :: unit option) s)) s) (\<lambda>_ s. Ok () s)"

definition sys_exec :: "kstate \<Rightarrow> uint32 kres" where
  "sys_exec s =
     andthen (argaddr 1 s) (\<lambda>uargv s.
     andthen (argstr 0 MAXPATH s) (\<lambda>(r, path) s.
     if r < 0 then Ok (-1) s
     else
       andthen (exec_argv MAXARG uargv [] s) (\<lambda>(ok, pages) s.
       if \<not> ok then andthen (free_pages pages s) (\<lambda>_ s. Ok (-1) s)
       else
         andthen (exec (cstr MAXPATH path) pages s) (\<lambda>ret s.
         andthen (free_pages pages s) (\<lambda>_ s.
         Ok (word_of_int ret) s)))))"

definition word_bytes :: "uint32 \<Rightarrow> bytes" where
  "word_bytes w = (\<lambda>i. byte_of i w)"

definition sys_pipe :: "kstate \<Rightarrow> uint32 kres" where
  "sys_pipe = with_proc (\<lambda>p s.
     andthen (argaddr 0 s) (\<lambda>fdarray s.
     andthen (pipealloc s) (\<lambda>r s.
     case r of
       None \<Rightarrow> Ok (-1) s
     | Some (rfl, wfl) \<Rightarrow>
         let close2 = (\<lambda>s. andthen (fileclose rfl s) (\<lambda>_ s. andthen (fileclose wfl s) (\<lambda>_ s. Ok (-1) s)));
             unset = (\<lambda>fd. upd_proc p (\<lambda>q. q\<lparr>p_ofile := (p_ofile q)(nat fd := None)\<rparr>)) in
         andthen (fdalloc rfl s) (\<lambda>fd0 s.
         if fd0 < 0 then close2 s
         else
           andthen (fdalloc wfl s) (\<lambda>fd1 s.
           if fd1 < 0 then close2 (unset fd0 s)
           else
             andthen (copyout (p_pagetable (procs s p)) fdarray (word_bytes (word_of_int fd0)) 4 s) (\<lambda>r s.
             andthen (if r < 0 then Ok r s
                      else copyout (p_pagetable (procs s p)) (fdarray + 4) (word_bytes (word_of_int fd1)) 4 s) (\<lambda>r s.
             if r < 0 then close2 (unset fd1 (unset fd0 s))
             else Ok 0 s)))))))"

section \<open>Dispatch\<close>

text \<open>The table \<open>syscalls\<close>, indexed by the numbers of \<open>syscall.h\<close>.\<close>

definition syscalls :: "(kstate \<Rightarrow> uint32 kres) list" where
  "syscalls = [sys_fork, sys_exit, sys_wait, sys_pipe, sys_read, sys_kill, sys_exec, sys_fstat, sys_chdir,
     sys_dup, sys_getpid, sys_sbrk, sys_sleep, sys_uptime, sys_open, sys_write, sys_mknod, sys_unlink,
     sys_link, sys_mkdir, sys_close]"

definition set_a0 :: "nat \<Rightarrow> uint32 \<Rightarrow> kstate \<Rightarrow> kstate" where
  "set_a0 p v s = upd_tf (p_trapframe (procs s p)) (\<lambda>t. t\<lparr>tf_a := (tf_a t)(0 := v)\<rparr>) s"

definition syscall :: "kstate \<Rightarrow> unit kres" where
  "syscall = with_proc (\<lambda>p s.
     let num = sint (tf_a (trapframes s (p_trapframe (procs s p))) 7) in
     if num > 0 \<and> num < 22 then
       andthen ((syscalls ! (nat num - 1)) s) (\<lambda>v s. Ok () (set_a0 p v s))
     else
       andthen (printf ''%d %s: unknown sys call %d\<newline>'' [ArgW (word_of_int (p_pid (procs s p))),
           ArgS (Some (cstr 16 (p_name (procs s p)))), ArgW (word_of_int num)] s) (\<lambda>_ s.
       Ok () (set_a0 p (-1) s)))"

end
