(* ===== verification/Nemu.thy ===== *)
theory Nemu
  imports Console
begin

text \<open>
  \<open>platform/nemu/platform.c\<close>: the keyboard that serves as console input, the interrupt controller and
  the timer. Reading the keyboard's data register takes the next scan code from the controller's queue,
  0 when it is empty; reading the interrupt controller's claim register takes the next pending interrupt,
  0 when there is none. The disk is the block device of \<open>Bio\<close>; \<open>platform_nemu_disk\<close> is the command
  sequence it receives.
\<close>

section \<open>Keyboard\<close>

text \<open>The key codes, in the order of \<open>NEMU_KEYS\<close>; code 0 is no key.\<close>

definition nemu_keys :: "string list" where
  "nemu_keys = [''ESCAPE'', ''F1'', ''F2'', ''F3'', ''F4'', ''F5'', ''F6'', ''F7'', ''F8'', ''F9'',
     ''F10'', ''F11'', ''F12'', ''GRAVE'', ''1'', ''2'', ''3'', ''4'', ''5'', ''6'', ''7'',
     ''8'', ''9'', ''0'', ''MINUS'', ''EQUALS'', ''BACKSPACE'', ''TAB'', ''Q'', ''W'', ''E'',
     ''R'', ''T'', ''Y'', ''U'', ''I'', ''O'', ''P'', ''LEFTBRACKET'', ''RIGHTBRACKET'',
     ''BACKSLASH'', ''CAPSLOCK'', ''A'', ''S'', ''D'', ''F'', ''G'', ''H'', ''J'', ''K'',
     ''L'', ''SEMICOLON'', ''APOSTROPHE'', ''RETURN'', ''LSHIFT'', ''Z'', ''X'', ''C'', ''V'',
     ''B'', ''N'', ''M'', ''COMMA'', ''PERIOD'', ''SLASH'', ''RSHIFT'', ''LCTRL'',
     ''APPLICATION'', ''LALT'', ''SPACE'', ''RALT'', ''RCTRL'', ''UP'', ''DOWN'', ''LEFT'',
     ''RIGHT'', ''INSERT'', ''DELETE'', ''HOME'', ''END'', ''PAGEUP'', ''PAGEDOWN'']"

definition NEMU_KEYDOWN_MASK :: uint32 where [const_defs]: "NEMU_KEYDOWN_MASK = 0x8000"

definition key_of :: "uint32 \<Rightarrow> string option" where
  "key_of code = (if code \<noteq> 0 \<and> unat code \<le> length nemu_keys then Some (nemu_keys ! (unat code - 1)) else None)"

definition platform_nemu_key_letter :: "string \<Rightarrow> int" where
  "platform_nemu_key_letter key = (case map_of
     [(''A'', 97), (''B'', 98), (''C'', 99), (''D'', 100), (''E'', 101), (''F'', 102),
      (''G'', 103), (''H'', 104), (''I'', 105), (''J'', 106), (''K'', 107), (''L'', 108),
      (''M'', 109), (''N'', 110), (''O'', 111), (''P'', 112), (''Q'', 113), (''R'', 114),
      (''S'', 115), (''T'', 116), (''U'', 117), (''V'', 118), (''W'', 119), (''X'', 120),
      (''Y'', 121), (''Z'', 122)] key of
     Some c \<Rightarrow> c | None \<Rightarrow> -1)"

text \<open>The shifted and the plain character of a key.\<close>

definition platform_nemu_key_char :: "string \<Rightarrow> bool \<Rightarrow> int" where
  "platform_nemu_key_char key shifted = (case map_of
     [(''1'', 0x21, 0x31), (''2'', 0x40, 0x32), (''3'', 0x23, 0x33), (''4'', 0x24, 0x34),
      (''5'', 0x25, 0x35), (''6'', 0x5e, 0x36), (''7'', 0x26, 0x37), (''8'', 0x2a, 0x38),
      (''9'', 0x28, 0x39), (''0'', 0x29, 0x30), (''GRAVE'', 0x7e, 0x60), (''MINUS'', 0x5f, 0x2d),
      (''EQUALS'', 0x2b, 0x3d), (''LEFTBRACKET'', 0x7b, 0x5b), (''RIGHTBRACKET'', 0x7d, 0x5d), (''BACKSLASH'', 0x7c, 0x5c),
      (''SEMICOLON'', 0x3a, 0x3b), (''APOSTROPHE'', 0x22, 0x27), (''COMMA'', 0x3c, 0x2c), (''PERIOD'', 0x3e, 0x2e),
      (''SLASH'', 0x3f, 0x2f)] key of
     Some (u, c) \<Rightarrow> if shifted then u else c | None \<Rightarrow> -1)"

text \<open>The character a scan code produces, -1 for none, and the new modifier state.\<close>

definition platform_nemu_keyboard_event :: "uint32 \<Rightarrow> nemu_kbd \<Rightarrow> int \<times> nemu_kbd" where
  "platform_nemu_keyboard_event scancode k =
     (let keydown = (scancode AND NEMU_KEYDOWN_MASK \<noteq> 0)
      in case key_of (scancode AND NOT NEMU_KEYDOWN_MASK) of
           None \<Rightarrow> (-1, k)
         | Some key \<Rightarrow>
             if key = ''LSHIFT'' \<or> key = ''RSHIFT'' then (-1, k\<lparr>nemu_shift_down := keydown\<rparr>)
             else if key = ''LCTRL'' \<or> key = ''RCTRL'' then (-1, k\<lparr>nemu_ctrl_down := keydown\<rparr>)
             else if key = ''CAPSLOCK'' then
               (-1, if keydown then k\<lparr>nemu_caps_lock := \<not> nemu_caps_lock k\<rparr> else k)
             else if \<not> keydown then (-1, k)
             else
               let c = platform_nemu_key_letter key in
               if c \<noteq> -1 then
                 (if nemu_ctrl_down k then c - 97 + 1
                  else if nemu_shift_down k \<noteq> nemu_caps_lock k then c - 97 + 65
                  else c, k)
               else if key = ''ESCAPE'' then (0x1b, k)
               else if key = ''BACKSPACE'' \<or> key = ''DELETE'' then (0x7f, k)
               else if key = ''TAB'' then (9, k)
               else if key = ''RETURN'' then (13, k)
               else if key = ''SPACE'' then (0x20, k)
               else (platform_nemu_key_char key (nemu_shift_down k), k))"

primrec kbd_getc :: "uint32 list \<Rightarrow> nemu_kbd \<Rightarrow> int \<times> nemu_kbd" where
  "kbd_getc [] k = (-1, k\<lparr>kbd_codes := []\<rparr>)"
| "kbd_getc (code # codes) k =
     (if code AND NOT NEMU_KEYDOWN_MASK = 0 then (-1, k\<lparr>kbd_codes := codes\<rparr>)
      else let (c, k) = platform_nemu_keyboard_event code k
           in if c \<noteq> -1 then (c, k\<lparr>kbd_codes := codes\<rparr>) else kbd_getc codes k)"

definition platform_uart_getc :: "kstate \<Rightarrow> int \<times> kstate" where
  "platform_uart_getc s = (let (c, k) = kbd_getc (kbd_codes (kbd s)) (kbd s) in (c, s\<lparr>kbd := k\<rparr>))"

text \<open>The loop variable is the number of scan codes left.\<close>

definition keyboard_intr_body :: "nat \<Rightarrow> kstate \<Rightarrow> (nat + unit) kres" where
  "keyboard_intr_body n s =
     (let (c, s) = platform_uart_getc s in
      if c = -1 then Ok (Inr ()) s
      else andthen (consoleintr c s) (\<lambda>_ s. Ok (Inl (length (kbd_codes (kbd s)))) s))"

definition platform_nemu_keyboard_intr :: "kstate \<Rightarrow> unit kres" where
  "platform_nemu_keyboard_intr s =
     wloop (\<lambda>n. n) keyboard_intr_body (Ok (Inl (length (kbd_codes (kbd s)))) s)"

section \<open>Disk commands\<close>

definition NEMU_DISK :: uint32 where [const_defs]: "NEMU_DISK = 0xa0000300"

definition mmio_write :: "uint32 \<Rightarrow> uint32 \<Rightarrow> kstate \<Rightarrow> kstate" where
  "mmio_write a v s = s\<lparr>mmio_out := (a, v) # mmio_out s\<rparr>"

definition platform_nemu_disk :: "uint32 \<Rightarrow> uint32 \<Rightarrow> uint32 \<Rightarrow> kstate \<Rightarrow> kstate" where
  "platform_nemu_disk cmd blockno buf s =
     mmio_write (NEMU_DISK + 16) 1
       (mmio_write (NEMU_DISK + 12) 1
         (mmio_write (NEMU_DISK + 8) blockno
           (mmio_write (NEMU_DISK + 4) buf
             (mmio_write NEMU_DISK cmd s))))"

definition nemu_disk_read :: "uint32 \<Rightarrow> uint32 \<Rightarrow> kstate \<Rightarrow> kstate" where
  "nemu_disk_read blockno buf = platform_nemu_disk 2 blockno buf"

definition nemu_disk_write :: "uint32 \<Rightarrow> uint32 \<Rightarrow> kstate \<Rightarrow> kstate" where
  "nemu_disk_write blockno buf = platform_nemu_disk 1 blockno buf"

section \<open>Interrupts and timer\<close>

definition NEMU_UART0_IRQ :: nat where [const_defs]: "NEMU_UART0_IRQ = 10"

definition NEMU_PLIC_SENABLE :: "nat \<Rightarrow> uint32" where
  "NEMU_PLIC_SENABLE hart = NEMU_PLIC + 0x2080 + of_nat hart * 0x100"

definition NEMU_PLIC_SPRIORITY :: "nat \<Rightarrow> uint32" where
  "NEMU_PLIC_SPRIORITY hart = NEMU_PLIC + 0x201000 + of_nat hart * 0x2000"

definition NEMU_PLIC_SCLAIM :: "nat \<Rightarrow> uint32" where
  "NEMU_PLIC_SCLAIM hart = NEMU_PLIC + 0x201004 + of_nat hart * 0x2000"

definition platform_irq_init :: "kstate \<Rightarrow> kstate" where
  "platform_irq_init s = mmio_write (NEMU_PLIC + of_nat NEMU_UART0_IRQ * 4) 1 s"

definition platform_irq_init_hart :: "kstate \<Rightarrow> kstate" where
  "platform_irq_init_hart s =
     mmio_write (NEMU_PLIC_SPRIORITY (cpuid s)) 0
       (mmio_write (NEMU_PLIC_SENABLE (cpuid s)) (push_bit NEMU_UART0_IRQ 1) s)"

definition platform_irq_claim :: "kstate \<Rightarrow> uint32 \<times> kstate" where
  "platform_irq_claim s =
     (case irq_pending s of [] \<Rightarrow> (0, s) | i # is \<Rightarrow> (i, s\<lparr>irq_pending := is\<rparr>))"

definition platform_irq_complete :: "uint32 \<Rightarrow> kstate \<Rightarrow> kstate" where
  "platform_irq_complete irq s = mmio_write (NEMU_PLIC_SCLAIM (cpuid s)) irq s"

definition PLATFORM_INTR_NONE :: nat where [const_defs]: "PLATFORM_INTR_NONE = 0"
definition PLATFORM_INTR_DEV :: nat where [const_defs]: "PLATFORM_INTR_DEV = 1"
definition PLATFORM_INTR_TIMER :: nat where [const_defs]: "PLATFORM_INTR_TIMER = 2"

definition platform_timer_ack :: "kstate \<Rightarrow> kstate" where
  "platform_timer_ack s =
     (let scause = csr_scause (csr s); sip = csr_sip (csr s);
          sip = (if scause = 0x80000001 then sip AND NOT 2
                 else if scause = 0x80000005 then sip AND NOT 0x20 else sip)
      in s\<lparr>csr := (csr s)\<lparr>csr_sip := sip\<rparr>\<rparr>)"

definition platform_handle_irq :: "kstate \<Rightarrow> nat kres" where
  "platform_handle_irq s =
     (let scause = csr_scause (csr s) in
      if scause AND 0x80000000 \<noteq> 0 \<and> scause AND 0xff = 9 then
        (let (irq, s) = platform_irq_claim s in
         andthen
           (if irq = of_nat NEMU_UART0_IRQ then Ok () s
            else if irq \<noteq> 0 then printf ''unexpected interrupt irq=%d\<newline>'' [ArgW irq] s
            else Ok () s) (\<lambda>_ s.
         Ok PLATFORM_INTR_DEV (if irq \<noteq> 0 then platform_irq_complete irq s else s)))
      else if scause = 0x80000001 \<or> scause = 0x80000005 then
        andthen (platform_nemu_keyboard_intr (platform_timer_ack s)) (\<lambda>_ s.
        Ok PLATFORM_INTR_TIMER s)
      else Ok PLATFORM_INTR_NONE s)"

end
