(* ===== verification/Trap.thy ===== *)
theory Trap
  imports Syscall Nemu
begin

text \<open>
  \<open>kernel/trap.c\<close> and \<open>forkret\<close> of \<open>proc.c\<close>: traps from user space and from the kernel. \<open>usertrapret\<close> ends by
  jumping to \<open>userret\<close> in the trampoline with the user page table; its result is that \<open>satp\<close> value. The
  fields \<open>csr_spp\<close>, \<open>csr_spie\<close>, \<open>csr_sie\<close> are the bits of \<open>sstatus\<close>.
\<close>

definition trapinit :: "kstate \<Rightarrow> kstate" where
  "trapinit s = initlock LkTicks ''time'' s"

definition w_stvec :: "uint32 \<Rightarrow> kstate \<Rightarrow> kstate" where
  "w_stvec a s = s\<lparr>csr := (csr s)\<lparr>csr_stvec := a\<rparr>\<rparr>"

definition trapinithart :: "kstate \<Rightarrow> kstate" where
  "trapinithart s = w_stvec (k_sym s ''kernelvec'') s"

definition clockintr :: "kstate \<Rightarrow> unit kres" where
  "clockintr s =
     andthen (acquire LkTicks s) (\<lambda>_ s.
     andthen (wakeup ChTicks (s\<lparr>ticks := ticks s + 1\<rparr>)) (\<lambda>_ s.
     release LkTicks s))"

definition devintr :: "kstate \<Rightarrow> nat kres" where
  "devintr s =
     andthen (platform_handle_irq s) (\<lambda>which_dev s.
     andthen (if which_dev = PLATFORM_INTR_TIMER \<and> cpuid s = 0 then clockintr s else Ok () s) (\<lambda>_ s.
     Ok which_dev s))"

definition usertrapret :: "kstate \<Rightarrow> uint32 kres" where
  "usertrapret = with_proc (\<lambda>p s.
     let s = intr_off s;
         s = w_stvec (TRAMPOLINE + (k_sym s ''uservec'' - k_trampoline s)) s;
         s = upd_tf (p_trapframe (procs s p)) (\<lambda>t. t\<lparr>tf_kernel_satp := csr_satp (csr s),
               tf_kernel_sp := p_kstack (procs s p) + PGSIZE, tf_kernel_trap := k_sym s ''usertrap'',
               tf_kernel_hartid := of_nat (cpuid s)\<rparr>) s;
         s = s\<lparr>csr := (csr s)\<lparr>csr_spp := False, csr_spie := True\<rparr>\<rparr>;
         s = s\<lparr>csr := (csr s)\<lparr>csr_sepc := tf_epc (trapframes s (p_trapframe (procs s p)))\<rparr>\<rparr>
     in Ok (MAKE_SATP (p_pagetable (procs s p))) s)"

definition usertrap :: "kstate \<Rightarrow> uint32 kres" where
  "usertrap s =
     (if csr_spp (csr s) then Panic ''usertrap: not from user mode''
      else with_proc (\<lambda>p s.
        let s = upd_tf (p_trapframe (procs s p)) (\<lambda>t. t\<lparr>tf_epc := csr_sepc (csr s)\<rparr>) s in
        andthen
          (if csr_scause (csr s) = 8 then
             andthen (killed p s) (\<lambda>k s.
             andthen (if k then exit (-1) s else Ok () s) (\<lambda>_ s.
             let s = upd_tf (p_trapframe (procs s p)) (\<lambda>t. t\<lparr>tf_epc := tf_epc t + 4\<rparr>) s in
             andthen (syscall (intr_on s)) (\<lambda>_ s. Ok 0 s)))
           else
             andthen (devintr s) (\<lambda>which_dev s.
             if which_dev \<noteq> 0 then Ok which_dev s
             else
               andthen (printf ''usertrap(): unexpected scause %p pid=%d\<newline>''
                  [ArgW (csr_scause (csr s)), ArgW (word_of_int (p_pid (procs s p)))] s) (\<lambda>_ s.
               andthen (printf ''            sepc=%p stval=%p\<newline>''
                  [ArgW (csr_sepc (csr s)), ArgW (csr_stval (csr s))] s) (\<lambda>_ s.
               andthen (setkilled p s) (\<lambda>_ s. Ok 0 s))))) (\<lambda>which_dev s.
        andthen (killed p s) (\<lambda>k s.
        andthen (if k then exit (-1) s else Ok () s) (\<lambda>_ s.
        andthen (if which_dev = PLATFORM_INTR_TIMER then yield s else Ok () s) (\<lambda>_ s.
        usertrapret s))))) (w_stvec (k_sym s ''kernelvec'') s))"

definition kerneltrap :: "kstate \<Rightarrow> unit kres" where
  "kerneltrap s =
     (let c = csr s in
      if \<not> csr_spp c then Panic ''kerneltrap: not from supervisor mode''
      else if intr_get s then Panic ''kerneltrap: interrupts enabled''
      else
        andthen (devintr s) (\<lambda>which_dev s.
        if which_dev = 0 then
          andthen (printf ''scause %p\<newline>'' [ArgW (csr_scause c)] s) (\<lambda>_ s.
          andthen (printf ''sepc=%p stval=%p\<newline>'' [ArgW (csr_sepc (csr s)), ArgW (csr_stval (csr s))] s) (\<lambda>_ s.
          Panic ''kerneltrap''))
        else
          andthen
            (if which_dev = PLATFORM_INTR_TIMER then
               andthen (myproc s) (\<lambda>q s.
               case q of
                 None \<Rightarrow> Ok () s
               | Some p \<Rightarrow> if p_state (procs s p) = RUNNING then yield s else Ok () s)
             else Ok () s) (\<lambda>_ s.
          Ok () (s\<lparr>csr := (csr s)\<lparr>csr_sepc := csr_sepc c, csr_spp := csr_spp c, csr_spie := csr_spie c,
                   csr_sie := csr_sie c\<rparr>\<rparr>))))"

definition forkret :: "kstate \<Rightarrow> uint32 kres" where
  "forkret = with_proc (\<lambda>p s.
     andthen (release (LkProc p) s) (\<lambda>_ s.
     andthen (if forkret_first s then fsinit ROOTDEV (s\<lparr>forkret_first := False\<rparr>) else Ok () s) (\<lambda>_ s.
     usertrapret s)))"

end
