(* ===== verification/Boot.thy ===== *)
theory Boot
  imports Trap
begin

text \<open>
  \<open>kernel/start.c\<close>, \<open>platform_timer_init\<close> of the NEMU platform and \<open>kernel/main.c\<close>: from machine mode to the
  scheduler. \<open>mregs\<close> are the machine-mode registers \<open>start\<close> sets; \<open>addr_of\<close> gives the addresses of \<open>main\<close>,
  \<open>timervec\<close> and \<open>timer_scratch\<close>.
\<close>

record mregs =
  mr_mstatus :: uint32
  mr_mepc :: uint32
  mr_satp :: uint32
  mr_medeleg :: uint32
  mr_mideleg :: uint32
  mr_sie :: uint32
  mr_mie :: uint32
  mr_pmpaddr0 :: uint32
  mr_pmpcfg0 :: uint32
  mr_mscratch :: uint32
  mr_mtvec :: uint32
  mr_mhartid :: uint32
  mr_tp :: uint32
  mr_scratch :: "nat \<Rightarrow> uint32"

definition MSTATUS_MPP_MASK :: uint32 where [const_defs]: "MSTATUS_MPP_MASK = 0x1800"
definition MSTATUS_MPP_S :: uint32 where [const_defs]: "MSTATUS_MPP_S = 0x800"
definition MSTATUS_MIE :: uint32 where [const_defs]: "MSTATUS_MIE = 8"
definition SIE_SEIE :: uint32 where [const_defs]: "SIE_SEIE = 0x200"
definition SIE_STIE :: uint32 where [const_defs]: "SIE_STIE = 0x20"
definition SIE_SSIE :: uint32 where [const_defs]: "SIE_SSIE = 2"
definition MIE_MTIE :: uint32 where [const_defs]: "MIE_MTIE = 0x80"

definition platform_timer_init :: "(string \<Rightarrow> uint32) \<Rightarrow> mregs \<Rightarrow> mregs" where
  "platform_timer_init addr_of m =
     (let m = m\<lparr>mr_scratch := (mr_scratch m)(4 := 0, 5 := 0)\<rparr>;
          m = m\<lparr>mr_mscratch := addr_of ''timer_scratch'' + mr_mhartid m * 24\<rparr>;
          m = m\<lparr>mr_mtvec := addr_of ''timervec''\<rparr>;
          m = m\<lparr>mr_mstatus := mr_mstatus m OR MSTATUS_MIE\<rparr>
      in m\<lparr>mr_mie := mr_mie m OR MIE_MTIE\<rparr>)"

definition start :: "(string \<Rightarrow> uint32) \<Rightarrow> mregs \<Rightarrow> mregs" where
  "start addr_of m =
     (let m = m\<lparr>mr_mstatus := (mr_mstatus m AND NOT MSTATUS_MPP_MASK) OR MSTATUS_MPP_S\<rparr>;
          m = m\<lparr>mr_mepc := addr_of ''main''\<rparr>;
          m = m\<lparr>mr_satp := 0\<rparr>;
          m = m\<lparr>mr_medeleg := 0xffff, mr_mideleg := 0xffff\<rparr>;
          m = m\<lparr>mr_sie := mr_sie m OR SIE_SEIE OR SIE_STIE OR SIE_SSIE\<rparr>;
          m = m\<lparr>mr_pmpaddr0 := 0x3fffffff, mr_pmpcfg0 := 0xf\<rparr>;
          m = platform_timer_init addr_of m
      in m\<lparr>mr_tp := mr_mhartid m\<rparr>)"

text \<open>\<open>main\<close> on the only CPU, up to the call of \<open>scheduler\<close>; \<open>platform_disk_init\<close> does nothing on NEMU.\<close>

definition main :: "kstate \<Rightarrow> unit kres" where
  "main s =
     (let s = printfinit (consoleinit s) in
      andthen (printf ''\<newline>'' [] s) (\<lambda>_ s.
      andthen (printf ''xv6 kernel is booting\<newline>'' [] s) (\<lambda>_ s.
      andthen (printf ''\<newline>'' [] s) (\<lambda>_ s.
      andthen (printf ''kinit()\<newline>'' [] s) (\<lambda>_ s.
      andthen (kinit s) (\<lambda>_ s.
      andthen (printf ''kvminit()\<newline>'' [] s) (\<lambda>_ s.
      andthen (kvminit s) (\<lambda>_ s.
      andthen (printf ''kvminithart()\<newline>'' [] s) (\<lambda>_ s.
      andthen (printf ''procinit()\<newline>'' [] (kvminithart s)) (\<lambda>_ s.
      andthen (printf ''trapinit()\<newline>'' [] (procinit s)) (\<lambda>_ s.
      andthen (printf ''trapinithart()\<newline>'' [] (trapinit s)) (\<lambda>_ s.
      andthen (printf ''platform_irq_init()\<newline>'' [] (trapinithart s)) (\<lambda>_ s.
      andthen (printf ''platform_irq_init_hart()\<newline>'' [] (platform_irq_init s)) (\<lambda>_ s.
      andthen (printf ''binit()\<newline>'' [] (platform_irq_init_hart s)) (\<lambda>_ s.
      andthen (printf ''iinit()\<newline>'' [] (binit s)) (\<lambda>_ s.
      andthen (printf ''fileinit()\<newline>'' [] (iinit s)) (\<lambda>_ s.
      andthen (printf ''disk_init()\<newline>'' [] (fileinit s)) (\<lambda>_ s.
      andthen (printf ''userinit()\<newline>'' [] s) (\<lambda>_ s.
      userinit s)))))))))))))))))))"

text \<open>The privileged state \<open>mret\<close> finds: supervisor mode next, paging off, every trap delegated.\<close>

lemma start_mpp: "mr_mstatus (start addr_of m) AND MSTATUS_MPP_MASK = MSTATUS_MPP_S"
  by (simp add: start_def platform_timer_init_def Let_def const_defs bit.conj_disj_distrib2 and.assoc)

lemma start_regs:
  "mr_satp (start addr_of m) = 0" "mr_mepc (start addr_of m) = addr_of ''main''"
  "mr_tp (start addr_of m) = mr_mhartid m" "mr_mtvec (start addr_of m) = addr_of ''timervec''"
  by (simp_all add: start_def platform_timer_init_def Let_def)

end
