(* ===== verification/Addrspace.thy ===== *)
theory Addrspace
  imports Vm
begin

text \<open>
  What \<open>vm.c\<close> does to an address space, seen through the map from virtual pages to page-table entries
  that a table in memory denotes (\<open>lookup\<close>).

  \<^item> \<open>as_ok s pt ps\<close>: the table rooted at \<open>pt\<close> is a proper two-level table whose pages are distinct and
    none of which is on the free list \<open>ps\<close>.
  \<^item> \<open>walk\<close> with allocation keeps the map; \<open>mappages\<close> updates it on the range and nowhere else.
  \<^item> \<open>copyin\<close>, \<open>copyout\<close> and \<open>copyinstr\<close> transfer the bytes of the user's address space.
\<close>

section \<open>Addresses of page-table entries\<close>

lemma PX_lt: "unat (PX l va) < 1024"
proof -
  have "PX l va = take_bit 10 (drop_bit (12 + 10 * l) va)"
    by (simp add: PX_def mask_10 take_bit_eq_mask)
  then show ?thesis
    by (simp add: take_bit_eq_mod unat_mod_distrib)
qed

lemma unat_4PX: "unat (4 * PX l va) = 4 * unat (PX l va)"
  using PX_lt [of l va] by (simp add: unat_word_ariths)

lemma pte_addr_off: "pte_addr t l va = t + of_nat (4 * unat (PX l va))"
  by (simp add: pte_addr_def)

lemma page_of_off: "aligned t \<Longrightarrow> k < PGBYTES \<Longrightarrow> PGROUNDDOWN (t + of_nat k) = t"
  by (rule PGROUNDDOWN_add) (simp_all add: unat_of_nat_small PGBYTES_def)

lemma page_of_pte: "aligned t \<Longrightarrow> PGROUNDDOWN (pte_addr t l va) = t"
  unfolding pte_addr_off using PX_lt [of l va] by (intro page_of_off) (simp_all add: PGBYTES_def)

lemma pte_addr_nonzero: "aligned t \<Longrightarrow> t \<noteq> 0 \<Longrightarrow> pte_addr t l va \<noteq> 0"
  using page_of_pte [of t l va] by (auto simp: PGROUNDDOWN_def)

lemma off_inj: "k < PGBYTES \<Longrightarrow> j < PGBYTES \<Longrightarrow> t + of_nat k = (t + of_nat j :: uint32) \<Longrightarrow> k = j"
proof -
  assume k: "k < PGBYTES" "j < PGBYTES" and "t + of_nat k = (t + of_nat j :: uint32)"
  then have "unat (of_nat k :: uint32) = unat (of_nat j :: uint32)" by simp
  with k show "k = j" by (simp add: unat_of_nat_small PGBYTES_def)
qed

lemma get32_off:
  "get32 h (t + of_nat k :: uint32) =
     le32 (h (t + of_nat k)) (h (t + of_nat (k + 1))) (h (t + of_nat (k + 2))) (h (t + of_nat (k + 3)))"
  by (simp add: get32_def ac_simps)

text \<open>Entries are words that do not overlap.\<close>

lemma get32_put32_off:
  assumes t: "aligned t" "aligned t'" and k: "k < 1024" "j < 1024"
    and ne: "t \<noteq> t' \<or> k \<noteq> j"
  shows "get32 (put32 m (t + of_nat (4 * k)) v) (t' + of_nat (4 * j)) = get32 m (t' + of_nat (4 * j))"
proof -
  have pg: "PGROUNDDOWN (t + of_nat (4 * k + i)) = t" "PGROUNDDOWN (t' + of_nat (4 * j + i)) = t'" if "i < 4" for i
    using t k that by (simp_all only: page_of_off PGBYTES_def)
  have d: "t' + of_nat (4 * j + i) \<noteq> t + of_nat (4 * k + i')" if "i < 4" "i' < 4" for i i'
  proof
    assume eq: "t' + of_nat (4 * j + i) = t + of_nat (4 * k + i')"
    then have "t = t'" using pg that by metis
    with eq have "4 * j + i = 4 * k + i'"
      using off_inj [of "4 * j + i" "4 * k + i'" t] k that by (simp add: PGBYTES_def)
    moreover have "k \<noteq> j" using ne \<open>t = t'\<close> by simp
    ultimately show False using that by presburger
  qed
  have a: "t + of_nat (4 * k) + 1 = t + of_nat (4 * k + 1)" "t + of_nat (4 * k) + 2 = t + of_nat (4 * k + 2)"
      "t + of_nat (4 * k) + 3 = t + of_nat (4 * k + 3)" for t :: uint32 and k
    by simp_all
  have "put32 m (t + of_nat (4 * k)) v (t' + of_nat (4 * j + i)) = m (t' + of_nat (4 * j + i))" if "i < 4" for i
    using d [OF that, of 0] d [OF that, of 1] d [OF that, of 2] d [OF that, of 3]
    by (intro put32_other) (simp_all only: a add_0_right, simp_all)
  note p = this
  show ?thesis
    unfolding get32_def a using p [of 0] p [of 1] p [of 2] p [of 3] by simp
qed

section \<open>The map a table denotes\<close>

definition tbl :: "(uint32 \<Rightarrow> byte) \<Rightarrow> uint32 \<Rightarrow> uint32 \<Rightarrow> uint32 option" where
  "tbl m pt va =
     (let e = get32 m (pte_addr pt 1 va) in if e AND PTE_V \<noteq> 0 then Some (PTE2PA e) else None)"

definition lookup :: "(uint32 \<Rightarrow> byte) \<Rightarrow> uint32 \<Rightarrow> uint32 \<Rightarrow> uint32" where
  "lookup m pt va = (case tbl m pt va of None \<Rightarrow> 0 | Some t \<Rightarrow> get32 m (pte_addr t 0 va))"

definition tables :: "(uint32 \<Rightarrow> byte) \<Rightarrow> uint32 \<Rightarrow> uint32 set" where
  "tables m pt = insert pt {t. \<exists>va. tbl m pt va = Some t}"

definition pt_ok :: "(uint32 \<Rightarrow> byte) \<Rightarrow> uint32 \<Rightarrow> bool" where
  "pt_ok m pt \<longleftrightarrow> aligned pt \<and> pt \<noteq> 0 \<and> (\<forall>va t. tbl m pt va = Some t \<longrightarrow> t \<noteq> 0 \<and> t \<noteq> pt)
     \<and> (\<forall>va va' t. tbl m pt va = Some t \<and> tbl m pt va' = Some t \<longrightarrow> PX 1 va = PX 1 va')"

definition as_ok :: "kstate \<Rightarrow> uint32 \<Rightarrow> uint32 list \<Rightarrow> bool" where
  "as_ok s pt ps \<longleftrightarrow> kmem_ok s ps \<and> pt_ok (mem s) pt \<and> tables (mem s) pt \<inter> set ps = {}"

lemma aligned_PTE2PA [simp]: "aligned (PTE2PA e)"
  by (simp add: aligned_iff PTE2PA_def take_bit_push_bit)

lemma tbl_aligned: "tbl m pt va = Some t \<Longrightarrow> aligned t"
  by (auto simp: tbl_def Let_def split: if_splits)

lemma tbl_cong: "PX 1 v = PX 1 va \<Longrightarrow> tbl m pt v = tbl m pt va"
  by (simp add: tbl_def pte_addr_def)

lemma pt_okD:
  assumes "pt_ok m pt"
  shows "aligned pt" "pt \<noteq> 0" "tbl m pt va = Some t \<Longrightarrow> t \<noteq> 0" "tbl m pt va = Some t \<Longrightarrow> t \<noteq> pt"
    "tbl m pt va = Some t \<Longrightarrow> tbl m pt va' = Some t \<Longrightarrow> PX 1 va = PX 1 va'"
  using assms unfolding pt_ok_def by blast+

lemma not_above_MAXVA [simp]: "\<not> MAXVA < va"
  using unsigned_less [of va, where ?'a = nat] by (simp add: word_less_nat_alt MAXVA_def)

lemma walk_noalloc:
  "walk pt va False s = Ok (case tbl (mem s) pt va of None \<Rightarrow> 0 | Some t \<Rightarrow> pte_addr t 0 va) s"
  by (simp add: walk_def tbl_def Let_def)

lemma walk_found: "tbl (mem s) pt va = Some t \<Longrightarrow> walk pt va alloc s = Ok (pte_addr t 0 va) s"
  by (auto simp: walk_def tbl_def Let_def split: if_splits)

text \<open>\<open>uva\<close> is the physical page behind a user address.\<close>

definition uva :: "(uint32 \<Rightarrow> byte) \<Rightarrow> uint32 \<Rightarrow> uint32 \<Rightarrow> uint32 option" where
  "uva m pt va =
     (let e = lookup m pt va in if e AND PTE_V \<noteq> 0 \<and> e AND PTE_U \<noteq> 0 then Some (PTE2PA e) else None)"

lemma walkaddr_eq:
  assumes "pt_ok (mem s) pt"
  shows "walkaddr pt va s = Ok (case uva (mem s) pt va of None \<Rightarrow> 0 | Some pa \<Rightarrow> pa) s"
proof (cases "tbl (mem s) pt va")
  case None
  then show ?thesis by (simp add: walkaddr_def walk_noalloc uva_def lookup_def)
next
  case (Some t)
  then have "pte_addr t 0 va \<noteq> 0"
    using pt_okD(3) [OF assms Some] tbl_aligned pte_addr_nonzero by blast
  with Some show ?thesis
    by (simp add: walkaddr_def walk_noalloc uva_def lookup_def Let_def)
qed

section \<open>Adding a page-table page\<close>

lemma store_store: "store (store m a n f) a n g = store m a n g"
  by (auto simp: store_def fun_eq_iff)

lemma PTE2PA_valid: "aligned p \<Longrightarrow> PTE2PA (PA2PTE p OR PTE_V) = p"
  using PTE2PA_PA2PTE [of p PTE_V] by (simp add: PTE_FLAGS_def PTE_V_def PGROUNDDOWN_aligned)

lemma valid_bit: "(x OR PTE_V) AND PTE_V \<noteq> 0"
  by (simp add: PTE_V_def bit.conj_disj_distrib2)

lemma pte_root_upd:
  assumes "aligned pt"
  shows "get32 (put32 m (pte_addr pt 1 va) e) (pte_addr pt 1 v) =
    (if PX 1 v = PX 1 va then e else get32 m (pte_addr pt 1 v))"
proof (cases "PX 1 v = PX 1 va")
  case True
  then show ?thesis by (simp add: pte_addr_def mem_simps)
next
  case False
  then have "unat (PX 1 va) \<noteq> unat (PX 1 v)" by (simp add: word_unat_eq_iff)
  with assms have "get32 (put32 m (pte_addr pt 1 va) e) (pte_addr pt 1 v) = get32 m (pte_addr pt 1 v)"
    unfolding pte_addr_off by (intro get32_put32_off PX_lt) auto
  with False show ?thesis by simp
qed

lemma get32_pte_other_page:
  assumes "aligned t" "aligned t'" "t \<noteq> t'"
  shows "get32 (put32 m (pte_addr t l va) e) (pte_addr t' l' v) = get32 m (pte_addr t' l' v)"
  using assms unfolding pte_addr_off by (intro get32_put32_off PX_lt) auto

lemma get32_pte_store:
  assumes "aligned t" "aligned p"
  shows "get32 (store m p PGBYTES f) (pte_addr t l va) =
    (if t = p then le32 (f (4 * unat (PX l va))) (f (4 * unat (PX l va) + 1)) (f (4 * unat (PX l va) + 2))
       (f (4 * unat (PX l va) + 3))
     else get32 m (pte_addr t l va))"
proof -
  let ?k = "4 * unat (PX l va)"
  have k: "?k + i < PGBYTES" if "i < 4" for i
    using PX_lt [of l va] that by (simp add: PGBYTES_def)
  have "store m p PGBYTES f (t + of_nat (?k + i)) = (if t = p then f (?k + i) else m (t + of_nat (?k + i)))"
    if "i < 4" for i
  proof (cases "t = p")
    case True
    have "unat (of_nat (?k + i) :: uint32) = ?k + i"
      using k [OF that] by (intro unat_of_nat_small) (simp add: PGBYTES_def)
    with True k [OF that] show ?thesis by (simp add: store_def del: of_nat_add)
  next
    case False
    then show ?thesis
      using store_other_page [OF assms(2)] page_of_off [OF assms(1) k [OF that]] by metis
  qed
  then have s: "store m p PGBYTES f (t + of_nat ?k) = (if t = p then f ?k else m (t + of_nat ?k))"
      "store m p PGBYTES f (t + of_nat (?k + 1)) = (if t = p then f (?k + 1) else m (t + of_nat (?k + 1)))"
      "store m p PGBYTES f (t + of_nat (?k + 2)) = (if t = p then f (?k + 2) else m (t + of_nat (?k + 2)))"
      "store m p PGBYTES f (t + of_nat (?k + 3)) = (if t = p then f (?k + 3) else m (t + of_nat (?k + 3)))"
    by (metis add_0_right zero_less_numeral, metis one_less_numeral_iff semiring_norm(76), metis numeral_less_iff semiring_norm(76,78,81), metis numeral_less_iff semiring_norm(76,78,81) num.distinct)
  show ?thesis
    unfolding pte_addr_off get32_off s by simp
qed

text \<open>The effect of \<open>walk\<close> installing a zeroed page \<open>p\<close> as the second-level table for \<open>va\<close>.\<close>

lemma new_table:
  assumes ok: "pt_ok m pt" and p: "aligned p" "p \<noteq> 0" "p \<notin> tables m pt" and none: "tbl m pt va = None"
  defines "m2 \<equiv> put32 (store m p PGBYTES (\<lambda>_. 0)) (pte_addr pt 1 va) (PA2PTE p OR PTE_V)"
  shows "tbl m2 pt = (\<lambda>v. if PX 1 v = PX 1 va then Some p else tbl m pt v)" (is ?tbl)
    and "lookup m2 pt = lookup m pt" and "pt_ok m2 pt" and "tables m2 pt = insert p (tables m pt)"
    and "PGROUNDDOWN x \<noteq> p \<Longrightarrow> PGROUNDDOWN x \<noteq> pt \<Longrightarrow> m2 x = m x"
proof -
  note pt = pt_okD(1,2) [OF ok]
  have ne: "pt \<noteq> p" using p(3) by (auto simp: tables_def)
  have root: "get32 m2 (pte_addr pt 1 v) = (if PX 1 v = PX 1 va then PA2PTE p OR PTE_V else get32 m (pte_addr pt 1 v))" for v
    unfolding m2_def pte_root_upd [OF pt(1)] using ne p(1) pt(1) by (simp add: get32_pte_store)
  show tbl: ?tbl
    unfolding tbl_def root using PTE2PA_valid [OF p(1)] valid_bit [of "PA2PTE p"]
    by (auto simp: Let_def fun_eq_iff)
  have t: "t \<noteq> p" "t \<noteq> pt" "aligned t" if "tbl m pt v = Some t" for v t
    using p(3) that pt_okD(4) [OF ok that] tbl_aligned [OF that] by (auto simp: tables_def)
  have leaf: "get32 m2 (pte_addr t 0 v) = get32 m (pte_addr t 0 v)" if "tbl m pt v' = Some t" for v v' t
    using t [OF that] pt(1) p(1) by (simp add: m2_def get32_pte_other_page get32_pte_store)
  have zero: "get32 m2 (pte_addr p 0 v) = 0" for v
    using ne pt(1) p(1) by (simp add: m2_def get32_pte_other_page get32_pte_store le32_def)
  have new: "PX 1 v \<noteq> PX 1 va" if "tbl m pt v = Some t" for v t
    using none that tbl_cong [of v va m pt] by auto
  show "lookup m2 pt = lookup m pt"
  proof
    fix v
    have "tbl m pt v = None" if "PX 1 v = PX 1 va"
      using none tbl_cong [OF that] by simp
    then show "lookup m2 pt v = lookup m pt v"
      using leaf [of v _ v] zero by (auto simp: lookup_def tbl split: option.splits)
  qed
  show "pt_ok m2 pt"
    unfolding pt_ok_def tbl
  proof (intro conjI allI impI)
    fix v v' x
    assume a: "(if PX 1 v = PX 1 va then Some p else tbl m pt v) = Some x \<and>
      (if PX 1 v' = PX 1 va then Some p else tbl m pt v') = Some x"
    show "PX 1 v = PX 1 v'"
      using a t(1) [of v x] t(1) [of v' x] pt_okD(5) [OF ok, of v x v'] by (auto split: if_splits)
  next
    fix v x
    assume a: "(if PX 1 v = PX 1 va then Some p else tbl m pt v) = Some x"
    show "x \<noteq> 0" "x \<noteq> pt"
      using a p(2) ne pt_okD(3,4) [OF ok, of v x] by (auto split: if_splits)
  qed (fact pt)+
  show "tables m2 pt = insert p (tables m pt)"
  proof -
    have "(\<exists>v. (if PX 1 v = PX 1 va then Some p else tbl m pt v) = Some x) \<longleftrightarrow> x = p \<or> (\<exists>v. tbl m pt v = Some x)" for x
    proof
      assume "x = p \<or> (\<exists>v. tbl m pt v = Some x)"
      then show "\<exists>v. (if PX 1 v = PX 1 va then Some p else tbl m pt v) = Some x"
      proof
        assume "x = p"
        then show ?thesis by (intro exI [of _ va]) simp
      next
        assume "\<exists>v. tbl m pt v = Some x"
        then obtain v where "tbl m pt v = Some x" by blast
        with new [OF this] show ?thesis by (intro exI [of _ v]) simp
      qed
    qed (auto split: if_splits)
    then show ?thesis unfolding tables_def tbl by blast
  qed
  show "PGROUNDDOWN x \<noteq> p \<Longrightarrow> PGROUNDDOWN x \<noteq> pt \<Longrightarrow> m2 x = m x"
  proof -
    assume x: "PGROUNDDOWN x \<noteq> p" "PGROUNDDOWN x \<noteq> pt"
    have "x \<noteq> pte_addr pt 1 va + of_nat i" if "i < 4" for i
    proof
      assume "x = pte_addr pt 1 va + of_nat i"
      then have "x = pt + of_nat (4 * unat (PX 1 va) + i)" by (simp add: pte_addr_off add.assoc)
      then have "PGROUNDDOWN x = pt"
        using page_of_off [OF pt(1), of "4 * unat (PX 1 va) + i"] PX_lt [of 1 va] that by (simp add: PGBYTES_def)
      with x show False by simp
    qed
    from this [of 0] this [of 1] this [of 2] this [of 3]
    have "m2 x = store m p PGBYTES (\<lambda>_. 0) x"
      unfolding m2_def by (intro put32_other) auto
    with x(1) p(1) show ?thesis by (simp add: store_other_page)
  qed
qed

lemma as_okD:
  assumes "as_ok s pt ps"
  shows "kmem_ok s ps" "pt_ok (mem s) pt" "tables (mem s) pt \<inter> set ps = {}"
  using assms by (auto simp: as_ok_def)

text \<open>What a step of the page-table code may do besides changing the map: take pages off the free list
  for tables, and write to table pages only.\<close>

definition as_step :: "uint32 \<Rightarrow> kstate \<Rightarrow> uint32 list \<Rightarrow> kstate \<Rightarrow> uint32 list \<Rightarrow> bool" where
  "as_step pt s ps u qs \<longleftrightarrow> as_ok u pt qs
     \<and> (\<exists>used. ps = used @ qs \<and> tables (mem u) pt = tables (mem s) pt \<union> set used)
     \<and> (\<forall>x. PGROUNDDOWN x \<notin> tables (mem u) pt \<longrightarrow> mem u x = mem s x)
     \<and> (\<exists>m fl. u = s\<lparr>mem := m, freelist := fl\<rparr>)"

lemma as_step_refl: "as_ok s pt ps \<Longrightarrow> as_step pt s ps s ps"
  unfolding as_step_def by (intro conjI exI [of _ "[]"] exI [of _ "mem s"] exI [of _ "freelist s"]) auto

lemma as_step_ok: "as_step pt s ps u qs \<Longrightarrow> as_ok u pt qs"
  by (simp add: as_step_def)

lemma as_step_trans:
  assumes "as_step pt s ps u qs" and "as_step pt u qs v rs"
  shows "as_step pt s ps v rs"
proof -
  obtain used1 used2 where
    u: "ps = used1 @ qs" "tables (mem u) pt = tables (mem s) pt \<union> set used1" and
    v: "qs = used2 @ rs" "tables (mem v) pt = tables (mem u) pt \<union> set used2"
    using assms unfolding as_step_def by blast
  obtain m1 f1 m2 f2 where "u = s\<lparr>mem := m1, freelist := f1\<rparr>" "v = u\<lparr>mem := m2, freelist := f2\<rparr>"
    using assms unfolding as_step_def by blast
  then have "v = s\<lparr>mem := m2, freelist := f2\<rparr>" by simp
  moreover have "ps = (used1 @ used2) @ rs" "tables (mem v) pt = tables (mem s) pt \<union> set (used1 @ used2)"
    using u v by auto
  moreover have "mem v x = mem s x" if "PGROUNDDOWN x \<notin> tables (mem v) pt" for x
  proof -
    have "PGROUNDDOWN x \<notin> tables (mem u) pt" using that v(2) by simp
    then show ?thesis using assms that unfolding as_step_def by simp
  qed
  ultimately show ?thesis
    using as_step_ok [OF assms(2)] unfolding as_step_def by blast
qed

text \<open>\<open>walk\<close> with \<open>alloc\<close>: either there is no memory for a table page, or the entry's address comes back
  and the map is as before.\<close>

lemma walk_alloc:
  assumes ok: "as_ok s pt ps"
  shows "(\<exists>t u qs. walk pt va True s = Ok (pte_addr t 0 va) u \<and> tbl (mem u) pt va = Some t
      \<and> as_step pt s ps u qs \<and> lookup (mem u) pt = lookup (mem s) pt)
    \<or> (ps = [] \<and> walk pt va True s = Ok 0 s)"
proof (cases "tbl (mem s) pt va")
  case (Some t)
  then show ?thesis using walk_found [OF Some] as_step_refl [OF ok] by blast
next
  case None
  then have e: "get32 (mem s) (pte_addr pt 1 va) AND PTE_V = 0"
    by (auto simp: tbl_def Let_def split: if_splits)
  note k = as_okD [OF ok]
  show ?thesis
  proof (cases ps)
    case Nil
    with k(1) e show ?thesis by (simp add: walk_def kalloc_none)
  next
    case (Cons p qs)
    let ?s1 = "s\<lparr>freelist := get32 (mem s) p, mem := store (mem s) p PGBYTES (\<lambda>_. 5)\<rparr>"
    let ?m = "put32 (store (mem s) p PGBYTES (\<lambda>_. 0)) (pte_addr pt 1 va) (PA2PTE p OR PTE_V)"
    let ?u = "s\<lparr>freelist := get32 (mem s) p, mem := ?m\<rparr>"
    have kp: "kmem_ok s (p # qs)" using k(1) Cons by simp
    have p: "aligned p" "p \<noteq> 0" "p \<notin> tables (mem s) pt" "p \<notin> set qs"
      using kp k(3) Cons by (auto simp: kmem_ok_def page_ok_def)
    note n = new_table [OF k(2) p(1-3) None]
    have "kmem_ok (s\<lparr>freelist := get32 (mem s) p, mem := store (mem s) p PGBYTES (\<lambda>_. 0)\<rparr>) qs"
      by (rule kmem_ok_kalloc [OF kp])
    moreover have "get32 ?m q = get32 (store (mem s) p PGBYTES (\<lambda>_. 0)) q" if "q \<in> set qs" for q
    proof -
      have "aligned q" "q \<noteq> pt" using kp k(3) Cons that by (auto simp: kmem_ok_def page_ok_def list_all_iff tables_def)
      then show ?thesis
        using get32_put32_off [of pt q "unat (PX 1 va)" 0] pt_okD(1) [OF k(2)] PX_lt [of 1 va] by (simp add: pte_addr_off)
    qed
    ultimately have "kmem_ok ?u qs"
      using flist_cong [of qs ?m "store (mem s) p PGBYTES (\<lambda>_. 0)"]
      by (simp add: kmem_ok_def page_ok_def [abs_def])
    then have as: "as_ok ?u pt qs"
      using n(3,4) p(4) k(3) Cons by (simp add: as_ok_def)
    have w: "walk pt va True s = Ok (pte_addr p 0 va) ?u"
      using e p(2) kalloc_some [OF kp] by (simp add: walk_def mem_set_eq store_store)
    have "mem ?u x = mem s x" if "PGROUNDDOWN x \<notin> tables (mem ?u) pt" for x
      using that n(4,5) by (auto simp: tables_def)
    then have "as_step pt s ps ?u qs"
      unfolding as_step_def using as n(4) Cons
      by (intro conjI exI [of _ "[p]"] exI [of _ ?m] exI [of _ "get32 (mem s) p"]) auto
    with w n(1,2) show ?thesis
      by (intro disjI1 exI [of _ p] exI [of _ ?u] exI [of _ qs]) simp
  qed
qed

section \<open>Changing one entry\<close>

lemma PX_take: "PX l v = take_bit 10 (drop_bit (12 + 10 * l) v)"
  by (simp add: PX_def mask_10 take_bit_eq_mask)

lemma PX_PGROUNDDOWN: "PX l (PGROUNDDOWN v) = PX l v"
  by (rule bit_word_eqI) (auto simp: PX_take PGROUNDDOWN_alt bit_simps add.assoc dest: bit_imp_le_length)

lemma PGROUNDDOWN_PX: "PGROUNDDOWN v = push_bit 12 (PX 0 v) OR push_bit 22 (PX 1 v)"
proof (rule bit_word_eqI)
  fix n
  assume "n < LENGTH(32)"
  then show "bit (PGROUNDDOWN v) n = bit (push_bit 12 (PX 0 v) OR push_bit 22 (PX 1 v)) n"
    by (cases "n < 22") (auto simp: PX_take PGROUNDDOWN_alt bit_simps)
qed

lemma same_page_iff: "PGROUNDDOWN v = PGROUNDDOWN w \<longleftrightarrow> PX 1 v = PX 1 w \<and> PX 0 v = PX 0 w"
  by (metis PGROUNDDOWN_PX PX_PGROUNDDOWN)

lemma pte_frame:
  assumes "aligned t" "PGROUNDDOWN x \<noteq> t"
  shows "put32 m (pte_addr t l va) e x = m x"
proof -
  have "x \<noteq> pte_addr t l va + of_nat i" if "i < 4" for i
  proof
    assume "x = pte_addr t l va + of_nat i"
    then have "x = t + of_nat (4 * unat (PX l va) + i)" by (simp add: pte_addr_off add.assoc)
    then have "PGROUNDDOWN x = t"
      using page_of_off [OF assms(1), of "4 * unat (PX l va) + i"] PX_lt [of l va] that by (simp add: PGBYTES_def)
    with assms(2) show False by simp
  qed
  from this [of 0] this [of 1] this [of 2] this [of 3] show ?thesis
    by (intro put32_other) auto
qed

lemma leaf_upd:
  fixes e :: uint32
  assumes ok: "pt_ok m pt" and t: "tbl m pt va = Some t"
  defines "m' \<equiv> put32 m (pte_addr t 0 va) e"
  shows "tbl m' pt = tbl m pt"
    and "lookup m' pt = (\<lambda>v. if PGROUNDDOWN v = PGROUNDDOWN va then e else lookup m pt v)"
    and "pt_ok m' pt" and "tables m' pt = tables m pt"
    and "PGROUNDDOWN x \<noteq> t \<Longrightarrow> m' x = m x"
proof -
  note pt = pt_okD(1) [OF ok] and ta = tbl_aligned [OF t] and tn = pt_okD(4) [OF ok t]
  show tbl: "tbl m' pt = tbl m pt"
    unfolding tbl_def m'_def using get32_pte_other_page [OF ta pt tn] by (simp add: fun_eq_iff)
  show "lookup m' pt = (\<lambda>v. if PGROUNDDOWN v = PGROUNDDOWN va then e else lookup m pt v)"
  proof
    fix v
    show "lookup m' pt v = (if PGROUNDDOWN v = PGROUNDDOWN va then e else lookup m pt v)"
    proof (cases "tbl m pt v")
      case None
      then have "PX 1 v \<noteq> PX 1 va" using t tbl_cong [of v va m pt] by auto
      with None show ?thesis by (simp add: lookup_def tbl same_page_iff)
    next
      case (Some t')
      have "get32 m' (pte_addr t' 0 v) = (if PGROUNDDOWN v = PGROUNDDOWN va then e else get32 m (pte_addr t' 0 v))"
      proof (cases "t' = t")
        case True
        then have px: "PX 1 v = PX 1 va" using pt_okD(5) [OF ok] Some t by metis
        show ?thesis
        proof (cases "PX 0 v = PX 0 va")
          case True
          then show ?thesis using px \<open>t' = t\<close> by (simp add: m'_def same_page_iff pte_addr_def mem_simps)
        next
          case False
          then have "unat (PX 0 va) \<noteq> unat (PX 0 v)" by (simp add: word_unat_eq_iff)
          then have "get32 m' (pte_addr t' 0 v) = get32 m (pte_addr t' 0 v)"
            unfolding m'_def pte_addr_off \<open>t' = t\<close> using ta by (intro get32_put32_off PX_lt) auto
          with False show ?thesis by (simp add: same_page_iff)
        qed
      next
        case False
        then have "PX 1 v \<noteq> PX 1 va" using Some t tbl_cong [of v va m pt] by auto
        with get32_pte_other_page [OF ta tbl_aligned [OF Some]] False show ?thesis
          by (simp add: m'_def same_page_iff)
      qed
      with Some show ?thesis by (simp add: lookup_def tbl)
    qed
  qed
  show "pt_ok m' pt" "tables m' pt = tables m pt"
    using ok by (simp_all add: pt_ok_def tables_def tbl)
  show "PGROUNDDOWN x \<noteq> t \<Longrightarrow> m' x = m x"
    unfolding m'_def by (rule pte_frame [OF ta])
qed

lemma kmem_ok_mem:
  assumes "kmem_ok s ps" and "\<And>x. PGROUNDDOWN x \<in> set ps \<Longrightarrow> m x = mem s x"
  shows "kmem_ok (s\<lparr>mem := m\<rparr>) ps"
proof -
  have "get32 m p = get32 (mem s) p" if "p \<in> set ps" for p
    using assms that page_word [of p] by (simp add: get32_def kmem_ok_def list_all_iff page_ok_def)
  with assms(1) flist_cong [of ps m "mem s"] show ?thesis
    by (simp add: kmem_ok_def page_ok_def [abs_def])
qed

lemma as_ok_leaf:
  assumes ok: "as_ok s pt ps" and t: "tbl (mem s) pt va = Some t"
  shows "as_ok (s\<lparr>mem := put32 (mem s) (pte_addr t 0 va) e\<rparr>) pt ps"
proof -
  note k = as_okD [OF ok] and l = leaf_upd [OF as_okD(2) [OF ok] t, where e = e]
  have "t \<notin> set ps" using k(3) t by (auto simp: tables_def)
  then have "PGROUNDDOWN x \<noteq> t" if "PGROUNDDOWN x \<in> set ps" for x using that by auto
  with l(5) have "kmem_ok (s\<lparr>mem := put32 (mem s) (pte_addr t 0 va) e\<rparr>) ps"
    using k(1) by (intro kmem_ok_mem) blast+
  with k(3) l(3,4) show ?thesis by (simp add: as_ok_def)
qed

section \<open>mappages\<close>

definition perm_norm :: "uint32 \<Rightarrow> uint32" where
  "perm_norm perm = (let p = perm OR PTE_A in if p AND PTE_W \<noteq> 0 then p OR PTE_D else p)"

lemma perm_norm_idem: "perm_norm (perm_norm perm) = perm_norm perm"
  by (auto simp: perm_norm_def Let_def const_defs bit.conj_disj_distrib2 ac_simps)

definition pte_new :: "uint32 \<Rightarrow> uint32 \<Rightarrow> uint32" where
  "pte_new pa perm = PA2PTE pa OR perm_norm perm OR PTE_V"

lemma as_step_leaf:
  assumes ok: "as_ok s pt ps" and t: "tbl (mem s) pt va = Some t"
  shows "as_step pt s ps (s\<lparr>mem := put32 (mem s) (pte_addr t 0 va) e\<rparr>) ps"
proof -
  note l = leaf_upd [OF as_okD(2) [OF ok] t, where e = e]
  have "t \<in> tables (mem s) pt" using t by (auto simp: tables_def)
  then have "PGROUNDDOWN x \<noteq> t" if "PGROUNDDOWN x \<notin> tables (mem s) pt" for x using that by auto
  with l(5) have "\<forall>x. PGROUNDDOWN x \<notin> tables (mem s) pt \<longrightarrow> put32 (mem s) (pte_addr t 0 va) e x = mem s x"
    by blast
  then show ?thesis
    unfolding as_step_def using as_ok_leaf [OF ok t, of e] l(4)
    by (intro conjI exI [of _ "[]"] exI [of _ "put32 (mem s) (pte_addr t 0 va) e"] exI [of _ "freelist s"]) simp_all
qed

lemma mappages_one:
  assumes ok: "as_ok s pt ps" and free: "lookup (mem s) pt a AND PTE_V = 0"
  shows "(\<exists>u qs. mappages_body pt final (a, pa, perm) s =
        Ok (if a = final then Inr 0 else Inl (a + PGSIZE, pa + PGSIZE, perm_norm perm)) u
      \<and> as_step pt s ps u qs
      \<and> lookup (mem u) pt = (\<lambda>v. if PGROUNDDOWN v = PGROUNDDOWN a then pte_new pa perm else lookup (mem s) pt v))
    \<or> (ps = [] \<and> mappages_body pt final (a, pa, perm) s = Ok (Inr (-1)) s)"
proof -
  from walk_alloc [OF ok, of a] consider
    t u qs where "walk pt a True s = Ok (pte_addr t 0 a) u" "tbl (mem u) pt a = Some t"
      "as_step pt s ps u qs" "lookup (mem u) pt = lookup (mem s) pt"
  | "ps = []" "walk pt a True s = Ok 0 s"
    by blast
  then show ?thesis
  proof cases
    case 1
    note ou = as_step_ok [OF 1(3)]
    have nz: "pte_addr t 0 a \<noteq> 0"
      using pt_okD(3) [OF as_okD(2) [OF ou] 1(2)] tbl_aligned [OF 1(2)] by (intro pte_addr_nonzero)
    have "get32 (mem u) (pte_addr t 0 a) AND PTE_V = 0"
      using free 1(2,4) by (metis lookup_def option.simps(5))
    then have "mappages_body pt final (a, pa, perm) s =
        Ok (if a = final then Inr 0 else Inl (a + PGSIZE, pa + PGSIZE, perm_norm perm))
          (u\<lparr>mem := put32 (mem u) (pte_addr t 0 a) (pte_new pa perm)\<rparr>)"
      using 1(1) nz by (simp add: mappages_body_def Let_def perm_norm_def pte_new_def ac_simps)
    moreover have "as_step pt s ps (u\<lparr>mem := put32 (mem u) (pte_addr t 0 a) (pte_new pa perm)\<rparr>) qs"
      using 1(3) as_step_leaf [OF ou 1(2)] by (rule as_step_trans)
    ultimately show ?thesis
      using leaf_upd(2) [OF as_okD(2) [OF ou] 1(2), of "pte_new pa perm"] 1(4) by auto
  next
    case 2
    then show ?thesis by (simp add: mappages_body_def)
  qed
qed

text \<open>The number of the page of \<open>v\<close>, counted from the page \<open>a\<close> and around the address space.\<close>

definition pidx :: "uint32 \<Rightarrow> uint32 \<Rightarrow> nat" where
  "pidx a v = unat (PGROUNDDOWN v - a) div 4096"

lemma aligned_uint: "aligned a \<longleftrightarrow> 4096 dvd uint a"
  unfolding aligned_unat uint_nat by (metis int_dvd_int_iff of_nat_numeral)

lemma dvd_mod_2p32: "4096 dvd x mod (2 ^ 32 :: int) \<longleftrightarrow> 4096 dvd x"
  by (rule dvd_mod_iff) simp

lemma aligned_add: "aligned a \<Longrightarrow> aligned b \<Longrightarrow> aligned (a + b)"
  unfolding aligned_uint uint_word_ariths by (simp add: dvd_mod_2p32 [simplified])

lemma aligned_diff: "aligned a \<Longrightarrow> aligned b \<Longrightarrow> aligned (a - b)"
  unfolding aligned_uint uint_word_ariths by (simp add: dvd_mod_2p32 [simplified])

lemma aligned_mult: "aligned (k * PGSIZE)"
proof -
  have "k * PGSIZE = push_bit 12 k" by (simp add: push_bit_eq_mult PGSIZE_def)
  then show ?thesis by (simp add: aligned_iff take_bit_push_bit)
qed

lemma unat_pages: "k < 2 ^ 20 \<Longrightarrow> unat (of_nat k * PGSIZE) = k * 4096"
  by (simp add: unat_word_ariths PGSIZE_def unsigned_of_nat take_bit_nat_eq_self)

lemma page_eq_iff:
  assumes "aligned a" "k < 2 ^ 20"
  shows "PGROUNDDOWN v = a + of_nat k * PGSIZE \<longleftrightarrow> pidx a v = k"
proof
  assume "PGROUNDDOWN v = a + of_nat k * PGSIZE"
  then show "pidx a v = k" using unat_pages [OF assms(2)] by (simp add: pidx_def)
next
  assume k: "pidx a v = k"
  have "4096 dvd unat (PGROUNDDOWN v - a)"
    using aligned_diff [OF aligned_PGROUNDDOWN assms(1)] by (simp add: aligned_unat)
  then have "unat (PGROUNDDOWN v - a) = unat (of_nat k * PGSIZE :: uint32)"
    using k unat_pages [OF assms(2)] by (auto simp: pidx_def elim!: dvdE)
  then show "PGROUNDDOWN v = a + of_nat k * PGSIZE"
    by (metis add_diff_cancel_left' diff_add_cancel word_unat_eq_iff add.commute)
qed

lemma pidx_lt: "pidx a v < 2 ^ 20"
  using unsigned_less [of "PGROUNDDOWN v - a", where ?'a = nat] by (simp add: pidx_def less_mult_imp_div_less)

text \<open>The map with \<open>k\<close> pages from \<open>a\<close> on mapped to the pages from \<open>pa\<close> on.\<close>

definition mapped :: "uint32 \<Rightarrow> uint32 \<Rightarrow> uint32 \<Rightarrow> nat \<Rightarrow> (uint32 \<Rightarrow> uint32) \<Rightarrow> uint32 \<Rightarrow> uint32" where
  "mapped a pa perm k L =
     (\<lambda>v. if pidx a v < k then pte_new (pa + of_nat (pidx a v) * PGSIZE) perm else L v)"

lemma mapped_0 [simp]: "mapped a pa perm 0 L = L"
  by (simp add: mapped_def)

lemma mapped_Suc:
  assumes "aligned a" "k < 2 ^ 20"
  shows "mapped a pa perm (Suc k) L =
    (\<lambda>v. if PGROUNDDOWN v = a + of_nat k * PGSIZE then pte_new (pa + of_nat k * PGSIZE) perm else mapped a pa perm k L v)"
  using page_eq_iff [OF assms] by (auto simp: mapped_def fun_eq_iff less_Suc_eq)

lemma mappages_spec:
  fixes va sz :: uint32
  assumes ok: "as_ok s pt ps" and sz: "sz \<noteq> 0"
  defines "a \<equiv> PGROUNDDOWN va"
  defines "n \<equiv> Suc (pidx a (va + sz - 1))"
  assumes free: "\<And>v. pidx a v < n \<Longrightarrow> lookup (mem s) pt v AND PTE_V = 0"
  shows "returns (mappages pt va sz pa perm s) (\<lambda>r u. \<exists>qs. as_step pt s ps u qs \<and>
    (r = 0 \<and> lookup (mem u) pt = mapped a pa perm n (lookup (mem s) pt)
     \<or> r = -1 \<and> qs = [] \<and> (\<exists>k < n. lookup (mem u) pt = mapped a pa perm k (lookup (mem s) pt))))"
proof -
  let ?final = "PGROUNDDOWN (va + sz - 1)"
  let ?I = "\<lambda>(a', pa', perm') u. \<exists>k qs. k < n \<and> a' = a + of_nat k * PGSIZE \<and> pa' = pa + of_nat k * PGSIZE
      \<and> perm_norm perm' = perm_norm perm \<and> as_step pt s ps u qs
      \<and> lookup (mem u) pt = mapped a pa perm k (lookup (mem s) pt)"
  have a: "aligned a" by (simp add: a_def)
  have n: "n - 1 < 2 ^ 20" using pidx_lt [of a "va + sz - 1"] by (simp add: n_def)
  have final: "?final = a + of_nat (n - 1) * PGSIZE"
    using page_eq_iff [OF a, of "n - 1" "va + sz - 1"] n by (simp add: n_def)
  have "returns (wloop (\<lambda>(a, _). unat (?final - a)) (mappages_body pt ?final) (Ok (Inl (a, pa, perm)) s))
    (\<lambda>r u. \<exists>qs. as_step pt s ps u qs \<and>
    (r = 0 \<and> lookup (mem u) pt = mapped a pa perm n (lookup (mem s) pt)
     \<or> r = -1 \<and> qs = [] \<and> (\<exists>k < n. lookup (mem u) pt = mapped a pa perm k (lookup (mem s) pt))))"
    (is "returns _ ?P")
  proof (rule wloop_rule [where I = ?I])
    show "?I (a, pa, perm) s"
      using as_step_refl [OF ok] by (auto simp: n_def intro!: exI [of _ 0] exI [of _ ps])
  next
    fix l u
    assume "?I l u"
    then obtain k qs perm' where l: "l = (a + of_nat k * PGSIZE, pa + of_nat k * PGSIZE, perm')" and k: "k < n"
      and pn: "perm_norm perm' = perm_norm perm" and st: "as_step pt s ps u qs"
      and lk: "lookup (mem u) pt = mapped a pa perm k (lookup (mem s) pt)"
      by (cases l) auto
    let ?a = "a + of_nat k * PGSIZE"
    have k20: "k < 2 ^ 20" using k n by linarith
    have al: "aligned ?a" using a aligned_mult by (rule aligned_add)
    have ia: "pidx a ?a = k" using page_eq_iff [OF a k20, of ?a] PGROUNDDOWN_aligned [OF al] by simp
    have "lookup (mem u) pt ?a AND PTE_V = 0"
      using free [of ?a] ia k by (simp add: lk mapped_def)
    from mappages_one [OF as_step_ok [OF st] this, of ?final "pa + of_nat k * PGSIZE" perm']
    consider w rs where "mappages_body pt ?final l u =
          Ok (if ?a = ?final then Inr 0 else Inl (?a + PGSIZE, pa + of_nat k * PGSIZE + PGSIZE, perm_norm perm')) w"
        "as_step pt u qs w rs"
        "lookup (mem w) pt = (\<lambda>v. if PGROUNDDOWN v = ?a then pte_new (pa + of_nat k * PGSIZE) perm' else lookup (mem u) pt v)"
      | "qs = []" "mappages_body pt ?final l u = Ok (Inr (-1)) u"
      unfolding l PGROUNDDOWN_aligned [OF al] by blast
    then show "returns (mappages_body pt ?final l u)
      (\<lambda>v s'. case v of Inl l' \<Rightarrow> ?I l' s' \<and> (case l' of (a, _) \<Rightarrow> unat (?final - a)) < (case l of (a, _) \<Rightarrow> unat (?final - a))
         | Inr r \<Rightarrow> ?P r s')"
    proof cases
      case 1
      have st': "as_step pt s ps w rs" using st 1(2) by (rule as_step_trans)
      have lw: "lookup (mem w) pt = mapped a pa perm (Suc k) (lookup (mem s) pt)"
        unfolding 1(3) mapped_Suc [OF a k20] lk pte_new_def pn ..
      show ?thesis
      proof (cases "k = n - 1")
        case True
        then have "?a = ?final" using final by simp
        moreover have "Suc k = n" using True k by simp
        ultimately show ?thesis using 1(1) st' lw by auto
      next
        case False
        have "pidx a ?final = n - 1" by (simp add: n_def pidx_def PGROUNDDOWN_aligned)
        then have "?a \<noteq> ?final" using False ia by metis
        moreover have "?I (?a + PGSIZE, pa + of_nat k * PGSIZE + PGSIZE, perm_norm perm') w"
          using st' lw False k pn
          by (auto simp: algebra_simps perm_norm_idem intro!: exI [of _ "Suc k"] exI [of _ rs])
        moreover have "unat (?final - (?a + PGSIZE)) < unat (?final - ?a)"
        proof -
          have "?final - ?a = of_nat (n - 1 - k) * PGSIZE"
            using k unfolding final by (simp add: of_nat_diff algebra_simps)
          moreover have "?final - (?a + PGSIZE) = of_nat (n - 1 - Suc k) * PGSIZE"
            using k False unfolding final by (simp add: of_nat_diff algebra_simps)
          ultimately show ?thesis
            using unat_pages [of "n - 1 - k"] unat_pages [of "n - 1 - Suc k"] n k False by simp
        qed
        ultimately show ?thesis using 1(1) by (simp add: l)
      qed
    next
      case 2
      with st lk k show ?thesis by auto
    qed
  qed
  with sz show ?thesis by (simp add: mappages_def Let_def a_def)
qed

section \<open>Memory outside the tables\<close>

text \<open>A table denotes the same map in two memories that agree on its pages.\<close>

lemma get32_agree:
  assumes "aligned t" and "\<And>x. PGROUNDDOWN x = t \<Longrightarrow> m' x = m x"
  shows "get32 m' (pte_addr t l va) = get32 m (pte_addr t l va)"
proof -
  have "m' (t + of_nat (4 * unat (PX l va) + i)) = m (t + of_nat (4 * unat (PX l va) + i))" if "i < 4" for i
    using PX_lt [of l va] that by (intro assms(2) page_of_off assms(1)) (simp add: PGBYTES_def)
  from this [of 0] this [of 1] this [of 2] this [of 3] show ?thesis
    unfolding pte_addr_off get32_off by simp
qed

lemma pt_agree:
  assumes pt: "aligned pt" and ag: "\<And>x. PGROUNDDOWN x \<in> tables m pt \<Longrightarrow> m' x = m x"
  shows "tbl m' pt = tbl m pt" and "lookup m' pt = lookup m pt"
    and "tables m' pt = tables m pt" and "pt_ok m' pt = pt_ok m pt"
proof -
  have "get32 m' (pte_addr pt 1 va) = get32 m (pte_addr pt 1 va)" for va
    by (rule get32_agree [OF pt]) (simp add: ag tables_def)
  then show tbl: "tbl m' pt = tbl m pt"
    by (simp add: tbl_def fun_eq_iff)
  then show "tables m' pt = tables m pt" "pt_ok m' pt = pt_ok m pt"
    by (simp_all add: tables_def pt_ok_def)
  have "get32 m' (pte_addr t 0 va) = get32 m (pte_addr t 0 va)" if "tbl m pt va = Some t" for t va
    using tbl_aligned [OF that] by (rule get32_agree) (use that in \<open>auto intro!: ag simp: tables_def\<close>)
  then show "lookup m' pt = lookup m pt"
    by (auto simp: lookup_def fun_eq_iff tbl split: option.splits)
qed

lemma as_ok_kfree:
  assumes ok: "as_ok s pt ps" and p: "page_ok s p" "p \<notin> set ps" "p \<notin> tables (mem s) pt"
  shows "\<exists>u. kfree p s = Ok () u \<and> as_ok u pt (p # ps) \<and> lookup (mem u) pt = lookup (mem s) pt
    \<and> tbl (mem u) pt = tbl (mem s) pt
    \<and> (\<forall>x. PGROUNDDOWN x \<noteq> p \<longrightarrow> mem u x = mem s x) \<and> (\<exists>m fl. u = s\<lparr>mem := m, freelist := fl\<rparr>)"
proof -
  note k = as_okD [OF ok]
  let ?m = "put32 (store (mem s) p PGBYTES (\<lambda>_. 1)) p (freelist s)"
  let ?u = "s\<lparr>mem := ?m, freelist := p\<rparr>"
  have al: "aligned p" using p(1) by (simp add: page_ok_def)
  have fr: "?m x = mem s x" if "PGROUNDDOWN x \<noteq> p" for x
    using put32_other_page [OF al that] store_other_page [OF al that] by simp
  have "?m x = mem s x" if "PGROUNDDOWN x \<in> tables (mem s) pt" for x
    using that p(3) by (intro fr) auto
  note ag = pt_agree [OF pt_okD(1) [OF k(2)] this]
  have "as_ok ?u pt (p # ps)"
    using kmem_ok_kfree [OF k(1) p(1,2)] k(2,3) p(3) by (simp add: as_ok_def ag)
  moreover have "\<forall>x. PGROUNDDOWN x \<noteq> p \<longrightarrow> mem ?u x = mem s x"
    using fr by simp
  moreover have "lookup (mem ?u) pt = lookup (mem s) pt" "tbl (mem ?u) pt = tbl (mem s) pt"
    using ag by simp_all
  ultimately show ?thesis
    using kfree_eq [OF k(1) p(1)] by blast
qed

section \<open>uvmunmap\<close>

text \<open>One page: the entry must be a valid leaf; with \<open>do_free\<close> its page goes back to the allocator.\<close>

lemma uvmunmap_one:
  fixes va :: uint32 and i :: nat
  assumes ok: "as_ok s pt ps"
  defines "v \<equiv> push_bit 12 (drop_bit 12 va + of_nat i)"
  defines "e \<equiv> lookup (mem s) pt v"
  assumes e: "e AND PTE_V \<noteq> 0" "PTE_FLAGS e \<noteq> PTE_V"
    and p: "do_free \<Longrightarrow> page_ok s (PTE2PA e) \<and> PTE2PA e \<notin> set ps \<and> PTE2PA e \<notin> tables (mem s) pt"
  shows "\<exists>u. uvmunmap_page pt va do_free i s = Ok None u \<and> as_ok u pt (if do_free then PTE2PA e # ps else ps)
    \<and> lookup (mem u) pt = (\<lambda>w. if PGROUNDDOWN w = PGROUNDDOWN v then 0 else lookup (mem s) pt w)
    \<and> tables (mem u) pt = tables (mem s) pt
    \<and> (\<forall>x. PGROUNDDOWN x \<notin> tables (mem s) pt \<longrightarrow> \<not> (do_free \<and> PGROUNDDOWN x = PTE2PA e) \<longrightarrow> mem u x = mem s x)
    \<and> (\<exists>m fl. u = s\<lparr>mem := m, freelist := fl\<rparr>)"
proof -
  note k = as_okD [OF ok]
  obtain t where t: "tbl (mem s) pt v = Some t"
    using e(1) by (cases "tbl (mem s) pt v") (auto simp: e_def lookup_def)
  have nz: "pte_addr t 0 v \<noteq> 0"
    using pt_okD(3) [OF k(2) t] tbl_aligned [OF t] by (intro pte_addr_nonzero)
  have g: "get32 (mem s) (pte_addr t 0 v) = e" using t by (simp add: e_def lookup_def)
  obtain u where u: "(if do_free then kfree (PTE2PA e) s else Ok () s) = Ok () u"
      "as_ok u pt (if do_free then PTE2PA e # ps else ps)" "lookup (mem u) pt = lookup (mem s) pt"
      "tbl (mem u) pt = tbl (mem s) pt" "\<forall>x. \<not> (do_free \<and> PGROUNDDOWN x = PTE2PA e) \<longrightarrow> mem u x = mem s x"
      "\<exists>m fl. u = s\<lparr>mem := m, freelist := fl\<rparr>"
  proof (cases do_free)
    case True
    with p as_ok_kfree [OF ok, of "PTE2PA e"] that show ?thesis by auto
  next
    case False
    have x: "\<exists>m fl. s = s\<lparr>mem := m, freelist := fl\<rparr>"
      by (rule exI [of _ "mem s"], rule exI [of _ "freelist s"]) simp
    show ?thesis by (rule that [of s, OF _ _ _ _ _ x]) (simp_all add: False ok)
  qed
  let ?u = "u\<lparr>mem := put32 (mem u) (pte_addr t 0 v) 0\<rparr>"
  have tu: "tbl (mem u) pt v = Some t" using t u(4) by simp
  have l: "lookup (mem ?u) pt = (\<lambda>w. if PGROUNDDOWN w = PGROUNDDOWN v then 0 else lookup (mem u) pt w)"
      "tables (mem ?u) pt = tables (mem u) pt"
    using leaf_upd [OF as_okD(2) [OF u(2)] tu, where e = 0] by simp_all
  have "t \<in> tables (mem s) pt" using t by (auto simp: tables_def)
  then have "PGROUNDDOWN x \<noteq> t" if "PGROUNDDOWN x \<notin> tables (mem s) pt" for x using that by auto
  then have f: "mem ?u x = mem u x" if "PGROUNDDOWN x \<notin> tables (mem s) pt" for x
    using leaf_upd(5) [OF as_okD(2) [OF u(2)] tu, where e = 0 and x = x] that by simp
  have r: "uvmunmap_page pt va do_free i s = Ok None ?u"
    using t e g nz u(1) by (cases do_free) (simp_all add: uvmunmap_page_def Let_def walk_noalloc v_def [symmetric])
  have tt: "tables (mem ?u) pt = tables (mem s) pt" unfolding l(2) by (simp add: tables_def u(4))
  obtain m fl where "u = s\<lparr>mem := m, freelist := fl\<rparr>" using u(6) by blast
  then have "?u = s\<lparr>mem := put32 m (pte_addr t 0 v) 0, freelist := fl\<rparr>"
    by (intro kstate.equality) simp_all
  then have x: "\<exists>m fl. ?u = s\<lparr>mem := m, freelist := fl\<rparr>" by blast
  have "\<forall>x. PGROUNDDOWN x \<notin> tables (mem s) pt \<longrightarrow> \<not> (do_free \<and> PGROUNDDOWN x = PTE2PA e) \<longrightarrow> mem ?u x = mem s x"
    using f u(5) by simp
  with r as_ok_leaf [OF u(2) tu, of 0] l(1) [unfolded u(3)] tt x show ?thesis
    by (intro exI [of _ ?u] conjI) simp_all
qed

lemma mem_only_refl: "\<exists>m fl. s = s\<lparr>mem := m, freelist := fl\<rparr>"
  by (rule exI [of _ "mem s"], rule exI [of _ "freelist s"]) simp

lemma mem_only_trans:
  assumes "\<exists>m fl. u = s\<lparr>mem := m, freelist := fl\<rparr>" and "\<exists>m fl. v = u\<lparr>mem := m, freelist := fl\<rparr>"
  shows "\<exists>m fl. v = s\<lparr>mem := m, freelist := fl\<rparr>"
proof -
  obtain m fl m' fl' where "u = s\<lparr>mem := m, freelist := fl\<rparr>" "v = u\<lparr>mem := m', freelist := fl'\<rparr>"
    using assms by blast
  then have "v = s\<lparr>mem := m', freelist := fl'\<rparr>" by simp
  then show ?thesis by blast
qed

lemma mem_only_page_ok: "\<exists>m fl. u = s\<lparr>mem := m, freelist := fl\<rparr> \<Longrightarrow> page_ok u = page_ok s"
  by (auto simp: page_ok_def fun_eq_iff)

lemma page_shift:
  assumes "aligned va"
  shows "push_bit 12 (drop_bit 12 va + of_nat i) = va + of_nat i * PGSIZE"
proof -
  have "push_bit 12 (drop_bit 12 va) = va"
    using PGROUNDDOWN_aligned [OF assms] by (simp add: PGROUNDDOWN_alt)
  moreover have "push_bit 12 (of_nat i) = of_nat i * PGSIZE"
    by (simp add: push_bit_eq_mult PGSIZE_def)
  ultimately show ?thesis by (simp add: push_bit_add)
qed

text \<open>The pages behind \<open>n\<close> virtual pages from \<open>va\<close> on, and the map without them.\<close>

definition frames :: "(uint32 \<Rightarrow> uint32) \<Rightarrow> uint32 \<Rightarrow> nat \<Rightarrow> uint32 list" where
  "frames L va n = map (\<lambda>k. PTE2PA (L (va + of_nat k * PGSIZE))) [0..<n]"

definition unmapped :: "uint32 \<Rightarrow> nat \<Rightarrow> (uint32 \<Rightarrow> uint32) \<Rightarrow> uint32 \<Rightarrow> uint32" where
  "unmapped va n L = (\<lambda>v. if pidx va v < n then 0 else L v)"

definition leaf :: "uint32 \<Rightarrow> bool" where
  "leaf e \<longleftrightarrow> e AND PTE_V \<noteq> 0 \<and> PTE_FLAGS e \<noteq> PTE_V"

lemma frames_Suc: "frames L va (Suc n) = frames L va n @ [PTE2PA (L (va + of_nat n * PGSIZE))]"
  by (simp add: frames_def)

lemma unmapped_Suc:
  assumes "aligned va" "k < 2 ^ 20"
  shows "unmapped va (Suc k) L = (\<lambda>v. if PGROUNDDOWN v = va + of_nat k * PGSIZE then 0 else unmapped va k L v)"
  using page_eq_iff [OF assms] by (auto simp: unmapped_def fun_eq_iff less_Suc_eq)

lemma pidx_page: "aligned va \<Longrightarrow> k < 2 ^ 20 \<Longrightarrow> pidx va (va + of_nat k * PGSIZE) = k"
  using page_eq_iff [of va k "va + of_nat k * PGSIZE"] PGROUNDDOWN_aligned [OF aligned_add [OF _ aligned_mult]]
  by simp

lemma uvmunmap_loop:
  fixes va :: uint32
  assumes ok: "as_ok s pt ps" and al: "aligned va" and n: "n \<le> 2 ^ 20"
  defines "L \<equiv> lookup (mem s) pt"
  assumes lf: "\<And>k. k < n \<Longrightarrow> leaf (L (va + of_nat k * PGSIZE))"
    and fr: "do_free \<Longrightarrow> distinct (frames L va n @ ps) \<and> list_all (page_ok s) (frames L va n)
      \<and> set (frames L va n) \<inter> tables (mem s) pt = {}"
  shows "returns (for_each [0..<n] (uvmunmap_page pt va do_free) s) (\<lambda>r u. r = None \<and>
    (as_ok u pt ((if do_free then rev (frames L va n) else []) @ ps) \<and> lookup (mem u) pt = unmapped va n L
    \<and> tables (mem u) pt = tables (mem s) pt
    \<and> (\<forall>x. PGROUNDDOWN x \<notin> tables (mem s) pt \<longrightarrow> \<not> (do_free \<and> PGROUNDDOWN x \<in> set (frames L va n)) \<longrightarrow> mem u x = mem s x)
    \<and> (\<exists>m fl. u = s\<lparr>mem := m, freelist := fl\<rparr>)))" (is "returns _ (\<lambda>r u. _ \<and> ?I n u)")
proof (rule for_each_upt [where I = ?I])
  show "?I 0 s" using ok mem_only_refl by (simp add: frames_def unmapped_def L_def)
next
  fix k u
  assume k: "k < n" and I: "?I k u"
  let ?v = "push_bit 12 (drop_bit 12 va + of_nat k)" and ?p = "PTE2PA (L (va + of_nat k * PGSIZE))"
  have k20: "k < 2 ^ 20" using k n by simp
  have v: "?v = va + of_nat k * PGSIZE" using al by (rule page_shift)
  have pv: "PGROUNDDOWN ?v = ?v" unfolding v by (rule PGROUNDDOWN_aligned [OF aligned_add [OF al aligned_mult]])
  have e: "lookup (mem u) pt ?v = L ?v" using I pidx_page [OF al k20] by (simp add: unmapped_def v)
  have l: "L ?v AND PTE_V \<noteq> 0" "PTE_FLAGS (L ?v) \<noteq> PTE_V" using lf [OF k] by (simp_all add: v leaf_def)
  have set: "?p \<in> set (frames L va n)" using k by (auto simp: frames_def)
  have d: "?p \<notin> set (frames L va k) \<and> ?p \<notin> set ps" if do_free
  proof -
    have "[0..<n] = [0..<k] @ k # [Suc k..<n]" using k by (metis upt_add_eq_append upt_conv_Cons le_add1 less_imp_le_nat zero_less_iff_neq_zero le0 le_add_diff_inverse)
    then show ?thesis using fr [OF that] by (auto simp: frames_def)
  qed
  have p: "page_ok u (PTE2PA (lookup (mem u) pt ?v)) \<and>
     PTE2PA (lookup (mem u) pt ?v) \<notin> set ((if do_free then rev (frames L va k) else []) @ ps) \<and>
     PTE2PA (lookup (mem u) pt ?v) \<notin> tables (mem u) pt" if do_free
    unfolding e using fr [OF that] d [OF that] I set mem_only_page_ok [of u s] that
    by (auto simp: list_all_iff v)
  obtain w where w: "uvmunmap_page pt va do_free k u = Ok None w"
    "as_ok w pt (if do_free then ?p # (if do_free then rev (frames L va k) else []) @ ps else (if do_free then rev (frames L va k) else []) @ ps)"
    "lookup (mem w) pt = (\<lambda>x. if PGROUNDDOWN x = ?v then 0 else lookup (mem u) pt x)"
    "tables (mem w) pt = tables (mem u) pt"
    "\<forall>x. PGROUNDDOWN x \<notin> tables (mem u) pt \<longrightarrow> \<not> (do_free \<and> PGROUNDDOWN x = ?p) \<longrightarrow> mem w x = mem u x"
    "\<exists>m fl. w = u\<lparr>mem := m, freelist := fl\<rparr>"
    using uvmunmap_one [OF conjunct1 [OF I], of va k do_free] l p unfolding e pv unfolding v by blast
  have "\<exists>m fl. w = s\<lparr>mem := m, freelist := fl\<rparr>" using I w(6) by (intro mem_only_trans [of u s w]) simp_all
  moreover have "lookup (mem w) pt = unmapped va (Suc k) L"
    unfolding unmapped_Suc [OF al k20] w(3) v conjunct1 [OF conjunct2 [OF I]] ..
  moreover have "mem w x = mem s x" if "PGROUNDDOWN x \<notin> tables (mem s) pt"
    "\<not> (do_free \<and> PGROUNDDOWN x \<in> set (frames L va (Suc k)))" for x
    using that w(5) I by (simp add: frames_Suc)
  moreover have "as_ok w pt ((if do_free then rev (frames L va (Suc k)) else []) @ ps)"
    using w(2) by (cases do_free) (simp_all add: frames_Suc)
  ultimately show "returns (uvmunmap_page pt va do_free k u) (\<lambda>r u. r = None \<and> ?I (Suc k) u)"
    using w(1,4) I by simp
qed

lemma uvmunmap_rounds:
  fixes va npages :: uint32
  assumes "unat npages \<le> 2 ^ 20"
  shows "unat (drop_bit 12 va + npages) - unat (drop_bit 12 va) = unat npages"
proof -
  have "unat (drop_bit 12 va) < 2 ^ 20"
    using unsigned_less [of va, where ?'a = nat] by (simp add: drop_bit_eq_div unat_div less_mult_imp_div_less)
  then have "unat (drop_bit 12 va + npages) = unat (drop_bit 12 va) + unat npages"
    using assms by (subst unat_add_lem [THEN iffD1]) simp_all
  then show ?thesis by simp
qed

text \<open>\<open>frees\<close> collects what \<open>uvmunmap\<close> of \<open>n\<close> pages needs to give them back: they are leaves, and their
  pages are pairwise distinct pages of memory, neither free nor tables.\<close>

definition frees :: "kstate \<Rightarrow> uint32 \<Rightarrow> uint32 list \<Rightarrow> uint32 \<Rightarrow> nat \<Rightarrow> bool" where
  "frees s pt ps va n \<longleftrightarrow> (let F = frames (lookup (mem s) pt) va n in
     (\<forall>k < n. leaf (lookup (mem s) pt (va + of_nat k * PGSIZE))) \<and> distinct (F @ ps) \<and> list_all (page_ok s) F
     \<and> set F \<inter> tables (mem s) pt = {})"

definition as_free :: "uint32 \<Rightarrow> kstate \<Rightarrow> uint32 list \<Rightarrow> uint32 \<Rightarrow> nat \<Rightarrow> kstate \<Rightarrow> bool" where
  "as_free pt s ps va n u \<longleftrightarrow> (let F = frames (lookup (mem s) pt) va n in
     as_ok u pt (rev F @ ps) \<and> lookup (mem u) pt = unmapped va n (lookup (mem s) pt)
     \<and> tables (mem u) pt = tables (mem s) pt
     \<and> (\<forall>x. PGROUNDDOWN x \<notin> tables (mem s) pt \<union> set F \<longrightarrow> mem u x = mem s x)
     \<and> (\<exists>m fl. u = s\<lparr>mem := m, freelist := fl\<rparr>))"

lemma uvmunmap_free:
  fixes va npages :: uint32
  assumes ok: "as_ok s pt ps" and al: "aligned va" and n: "unat npages \<le> 2 ^ 20"
    and fr: "frees s pt ps va (unat npages)"
  shows "returns (uvmunmap pt va npages True s) (\<lambda>_. as_free pt s ps va (unat npages))"
proof -
  have "returns (for_each [0..<unat npages] (uvmunmap_page pt va True) s)
    (\<lambda>r u. r = None \<and> as_free pt s ps va (unat npages) u)"
    using fr by (intro returns_mono [OF uvmunmap_loop [OF ok al n, of True]]) (auto simp: frees_def as_free_def Let_def)
  then show ?thesis
    using al by (auto simp: uvmunmap_def aligned_def uvmunmap_rounds [OF n] wp elim!: returns_mono)
qed

lemma uvmunmap_keep:
  fixes va npages :: uint32
  assumes ok: "as_ok s pt ps" and al: "aligned va" and n: "unat npages \<le> 2 ^ 20"
    and lf: "\<And>k. k < unat npages \<Longrightarrow> leaf (lookup (mem s) pt (va + of_nat k * PGSIZE))"
  shows "returns (uvmunmap pt va npages False s) (\<lambda>_ u. as_ok u pt ps
    \<and> lookup (mem u) pt = unmapped va (unat npages) (lookup (mem s) pt) \<and> tables (mem u) pt = tables (mem s) pt
    \<and> (\<forall>x. PGROUNDDOWN x \<notin> tables (mem s) pt \<longrightarrow> mem u x = mem s x))"
proof -
  note l = uvmunmap_loop [OF ok al n lf, of False, simplified]
  show ?thesis
    using al by (auto simp: uvmunmap_def aligned_def uvmunmap_rounds [OF n] wp intro!: returns_mono [OF l])
qed

text \<open>An entry that is missing in the middle of the range stops the kernel.\<close>

lemma uvmunmap_hole:
  assumes "aligned va" and "npages > 0" "unat npages \<le> 2 ^ 20" and "pt_ok (mem s) pt"
    and "lookup (mem s) pt va AND PTE_V = 0"
  shows "\<exists>msg. uvmunmap pt va npages do_free s = Panic msg"
proof -
  obtain n where n: "unat npages = Suc n" using assms(2) by (cases "unat npages") (auto simp: word_less_nat_alt)
  have "\<exists>msg. uvmunmap_page pt va do_free 0 s = Panic msg"
    using assms(4,5) page_shift [OF assms(1), of 0] pt_okD(3) [OF assms(4)] tbl_aligned
    by (auto simp: uvmunmap_page_def Let_def walk_noalloc lookup_def pte_addr_nonzero split: option.splits)
  then show ?thesis
    using assms(1) by (auto simp: uvmunmap_def aligned_def uvmunmap_rounds [OF assms(3)] n upt_conv_Cons simp del: upt_Suc)
qed

end
