(* ===== verification/Uvm.thy ===== *)
theory Uvm
  imports Addrspace "HOL-Library.Multiset"
begin

text \<open>
  User address spaces (\<open>uvmcreate\<close>, \<open>uvmalloc\<close>, \<open>uvmdealloc\<close>, \<open>uvmcopy\<close> and \<open>uvmfree\<close> of \<open>kernel/vm.c\<close>): what they do to
  the map a page table denotes and to the allocator. A step that fails for want of memory leaves
  the map as it was and gives back every page except those that became page-table pages.
\<close>

section \<open>Entries\<close>

lemma lt_1024: "(x :: uint32) < 1024 \<longleftrightarrow> take_bit 10 x = x"
proof
  assume "x < 1024"
  then show "take_bit 10 x = x"
    by (simp add: word_unat_eq_iff unsigned_take_bit_eq take_bit_nat_eq_self word_less_nat_alt)
next
  assume "take_bit 10 x = x"
  then have "unat x = take_bit 10 (unat x)" by (metis unsigned_take_bit_eq)
  also have "\<dots> < 2 ^ 10" by (rule take_bit_nat_less_exp)
  finally show "x < 1024" by (simp add: word_less_nat_alt)
qed

lemma perm_norm_lt: "perm < 1024 \<Longrightarrow> PTE_FLAGS (perm_norm perm OR PTE_V) = perm_norm perm OR PTE_V"
proof -
  assume "perm < 1024"
  then have "take_bit 10 perm = perm" by (simp only: lt_1024)
  then have m: "perm AND 0x3FF = perm" using take_bit_eq_mask [of 10 perm] by (simp add: mask_eq_exp_minus_1)
  show ?thesis
    by (simp add: PTE_FLAGS_def perm_norm_def Let_def bit.conj_disj_distrib2 m const_defs)
qed

lemma pte_new_pa:
  assumes "aligned pa" "perm < 1024"
  shows "PTE2PA (pte_new pa perm) = pa"
  using PTE2PA_PA2PTE [of pa "perm_norm perm OR PTE_V"] perm_norm_lt [OF assms(2)] PGROUNDDOWN_aligned [OF assms(1)]
  by (simp add: pte_new_def or.assoc)

lemma pte_new_valid: "pte_new pa perm AND PTE_V \<noteq> 0"
  using valid_bit [of "PA2PTE pa OR perm_norm perm"] by (simp add: pte_new_def or.assoc)

lemma pte_new_leaf: "leaf (pte_new pa perm)"
proof -
  have "bit (pte_new pa perm) 6"
    by (auto simp: pte_new_def perm_norm_def Let_def bit_or_iff PTE_A_def bit_simps)
  then have "bit (PTE_FLAGS (pte_new pa perm)) 6" by (simp add: PTE_FLAGS_def bit_and_iff)
  moreover have "\<not> bit PTE_V 6" by (simp add: PTE_V_def)
  ultimately have "PTE_FLAGS (pte_new pa perm) \<noteq> PTE_V" by metis
  with pte_new_valid show ?thesis by (simp add: leaf_def)
qed

section \<open>One page\<close>

lemma mappages_page:
  assumes ok: "as_ok s pt ps" and al: "aligned a" and free: "lookup (mem s) pt a AND PTE_V = 0"
  shows "(\<exists>u qs. mappages pt a PGSIZE pa perm s = Ok 0 u \<and> as_step pt s ps u qs
      \<and> lookup (mem u) pt = (\<lambda>v. if PGROUNDDOWN v = a then pte_new pa perm else lookup (mem s) pt v))
    \<or> (ps = [] \<and> mappages pt a PGSIZE pa perm s = Ok (-1) s)"
proof -
  have "PGROUNDDOWN (a + PGSIZE - 1) = a"
    using page_of_off [OF al, of 4095] by (simp add: PGBYTES_def PGSIZE_def add_diff_eq [symmetric])
  then have "mappages pt a PGSIZE pa perm s =
      wloop (\<lambda>(b, _). unat (a - b)) (mappages_body pt a) (Ok (Inl (a, pa, perm)) s)"
    using PGROUNDDOWN_aligned [OF al] by (simp add: mappages_def Let_def PGSIZE_def)
  with mappages_one [OF ok free, of a pa perm] PGROUNDDOWN_aligned [OF al] show ?thesis
    by (auto simp: wloop_Inl)
qed

lemma as_ok_head:
  assumes "as_ok s pt (p # ps)"
  shows "page_ok s p" "p \<notin> set ps" "p \<notin> tables (mem s) pt"
  using as_okD [OF assms] by (auto simp: kmem_ok_def)

lemma as_ok_kalloc:
  fixes f :: bytes
  assumes ok: "as_ok s pt (p # ps)"
  defines "u \<equiv> s\<lparr>freelist := get32 (mem s) p, mem := store (mem s) p PGBYTES f\<rparr>"
  shows "as_ok u pt ps" "lookup (mem u) pt = lookup (mem s) pt" "tables (mem u) pt = tables (mem s) pt"
proof -
  note k = as_okD [OF ok] and p = as_ok_head [OF ok]
  have "aligned p" using p(1) by (simp add: page_ok_def)
  then have "store (mem s) p PGBYTES f x = mem s x" if "PGROUNDDOWN x \<in> tables (mem s) pt" for x
    using p(3) that by (intro store_other_page) auto
  note ag = pt_agree [OF pt_okD(1) [OF k(2)] this]
  show "lookup (mem u) pt = lookup (mem s) pt" "tables (mem u) pt = tables (mem s) pt"
    using ag by (simp_all add: u_def)
  show "as_ok u pt ps"
    using kmem_ok_kalloc [OF k(1), of f] k(2,3) ag by (simp add: as_ok_def u_def)
qed

section \<open>A run of fresh pages\<close>

text \<open>The state \<open>u\<close> that comes from \<open>s\<close> by mapping the pages \<open>fs\<close>, taken off the free list, one after the other
  from \<open>b\<close> on, the \<open>k\<close>-th with permissions \<open>perm k\<close> and filled with \<open>c k\<close>. What else left the free list
  became page-table pages.\<close>

definition as_grow ::
  "(nat \<Rightarrow> uint32) \<Rightarrow> (nat \<Rightarrow> bytes) \<Rightarrow> uint32 \<Rightarrow> kstate \<Rightarrow> uint32 list \<Rightarrow> uint32 \<Rightarrow> uint32 list \<Rightarrow> kstate \<Rightarrow> uint32 list \<Rightarrow> bool"
  where
  "as_grow perm c pt s ps b fs u qs \<longleftrightarrow> as_ok u pt qs
     \<and> (\<exists>used. mset ps = mset used + mset fs + mset qs \<and> tables (mem u) pt = tables (mem s) pt \<union> set used)
     \<and> lookup (mem u) pt = (\<lambda>v. if pidx b v < length fs then pte_new (fs ! pidx b v) (perm (pidx b v)) else lookup (mem s) pt v)
     \<and> (\<forall>i < length fs. \<forall>j < PGBYTES. mem u (fs ! i + of_nat j) = c i j)
     \<and> (\<forall>x. PGROUNDDOWN x \<notin> tables (mem s) pt \<union> set ps \<longrightarrow> mem u x = mem s x)
     \<and> (\<exists>m fl. u = s\<lparr>mem := m, freelist := fl\<rparr>)"

lemma as_grow_refl: "as_ok s pt ps \<Longrightarrow> as_grow perm c pt s ps b [] s ps"
  unfolding as_grow_def by (intro conjI exI [of _ "[]"] mem_only_refl) auto

lemma as_growD:
  assumes "as_grow perm c pt s ps b fs u qs"
  shows "as_ok u pt qs"
    "lookup (mem u) pt = (\<lambda>v. if pidx b v < length fs then pte_new (fs ! pidx b v) (perm (pidx b v)) else lookup (mem s) pt v)"
    "i < length fs \<Longrightarrow> j < PGBYTES \<Longrightarrow> mem u (fs ! i + of_nat j) = c i j"
    "PGROUNDDOWN x \<notin> tables (mem s) pt \<union> set ps \<Longrightarrow> mem u x = mem s x"
    "\<exists>m fl. u = s\<lparr>mem := m, freelist := fl\<rparr>"
  using assms unfolding as_grow_def by blast+

lemma as_grow_pages:
  assumes ok: "as_ok s pt ps" and g: "as_grow perm c pt s ps b fs u qs"
  shows "distinct (fs @ qs)" "set fs \<subseteq> set ps" "set qs \<subseteq> set ps" "set fs \<inter> tables (mem u) pt = {}"
    "tables (mem s) pt \<subseteq> tables (mem u) pt" "tables (mem u) pt \<subseteq> tables (mem s) pt \<union> set ps" "list_all (page_ok u) fs"
proof -
  note k = as_okD [OF ok]
  obtain used where m: "mset ps = mset used + mset fs + mset qs" and t: "tables (mem u) pt = tables (mem s) pt \<union> set used"
    using g unfolding as_grow_def by blast
  have e: "mset ps = mset (used @ fs @ qs)" using m by simp
  have d: "distinct (used @ fs @ qs)" using k(1) mset_eq_imp_distinct_iff [OF e] by (simp add: kmem_ok_def)
  have st: "set ps = set used \<union> set fs \<union> set qs" using mset_eq_setD [OF e] by auto
  show "distinct (fs @ qs)" "set fs \<subseteq> set ps" "set qs \<subseteq> set ps" using d st by auto
  show "set fs \<inter> tables (mem u) pt = {}" using d st t k(3) by auto
  show "tables (mem s) pt \<subseteq> tables (mem u) pt" "tables (mem u) pt \<subseteq> tables (mem s) pt \<union> set ps" using t st by auto
  show "list_all (page_ok u) fs"
    using k(1) st mem_only_page_ok [OF as_growD(5) [OF g]] by (auto simp: kmem_ok_def list_all_iff)
qed

lemma fill_page:
  assumes "aligned p"
  shows "j < PGBYTES \<Longrightarrow> store m p PGBYTES f (p + of_nat j) = f j" and "PGROUNDDOWN x \<noteq> p \<Longrightarrow> store m p PGBYTES f x = m x"
  using store_other_page [OF assms] by (auto simp: store_def unsigned_of_nat take_bit_nat_eq_self PGBYTES_def)

lemma as_grow_step:
  assumes ok: "as_ok s pt ps" and g: "as_grow perm c pt s ps b fs u (p # qs)" and b: "aligned b"
  defines "k \<equiv> length fs"
  defines "u1 \<equiv> u\<lparr>freelist := get32 (mem u) p, mem := store (mem u) p PGBYTES (c k)\<rparr>"
  assumes k: "k < 2 ^ 20" and free: "lookup (mem s) pt (b + of_nat k * PGSIZE) AND PTE_V = 0"
  shows "(\<exists>w rs. mappages pt (b + of_nat k * PGSIZE) PGSIZE p (perm k) u1 = Ok 0 w
      \<and> as_grow perm c pt s ps b (fs @ [p]) w rs)
    \<or> (qs = [] \<and> mappages pt (b + of_nat k * PGSIZE) PGSIZE p (perm k) u1 = Ok (-1) u1
      \<and> (\<exists>w. kfree p u1 = Ok () w \<and> as_grow perm c pt s ps b fs w [p]))"
proof -
  let ?a = "b + of_nat k * PGSIZE"
  note gp = as_grow_pages [OF ok g] and gd = as_growD [OF g]
  note a = as_ok_kalloc [OF gd(1), where f = "c k", folded u1_def] as_ok_head [OF gd(1)]
  have m1: "\<exists>m fl. u1 = u\<lparr>mem := m, freelist := fl\<rparr>"
    by (rule exI [of _ "mem u1"], rule exI [of _ "freelist u1"]) (simp add: u1_def)
  have al: "aligned ?a" using b aligned_mult by (rule aligned_add)
  have pa: "aligned p" using a(4) by (simp add: page_ok_def)
  have "pidx b ?a = k" using b k by (rule pidx_page)
  then have "lookup (mem u1) pt ?a AND PTE_V = 0" using free gd(2) by (simp add: a(2) k_def)
  from mappages_page [OF a(1) al this, of p "perm k"]
  consider w rs where "mappages pt ?a PGSIZE p (perm k) u1 = Ok 0 w" "as_step pt u1 qs w rs"
      "lookup (mem w) pt = (\<lambda>v. if PGROUNDDOWN v = ?a then pte_new p (perm k) else lookup (mem u1) pt v)"
    | "qs = []" "mappages pt ?a PGSIZE p (perm k) u1 = Ok (-1) u1"
    by blast
  then show ?thesis
  proof cases
    case 1
    obtain used2 where u2: "qs = used2 @ rs" "tables (mem w) pt = tables (mem u1) pt \<union> set used2"
      using 1(2) unfolding as_step_def by blast
    have fw: "mem w x = mem u1 x" if "PGROUNDDOWN x \<notin> tables (mem w) pt" for x
      using 1(2) that unfolding as_step_def by blast
    have "\<exists>used. mset ps = mset used + mset (fs @ [p]) + mset rs \<and> tables (mem w) pt = tables (mem s) pt \<union> set used"
    proof -
      obtain used where "mset ps = mset used + mset fs + mset (p # qs)" "tables (mem u) pt = tables (mem s) pt \<union> set used"
        using g unfolding as_grow_def by blast
      then show ?thesis using u2 a(3) by (intro exI [of _ "used @ used2"]) auto
    qed
    moreover have "lookup (mem w) pt = (\<lambda>v. if pidx b v < length (fs @ [p])
        then pte_new ((fs @ [p]) ! pidx b v) (perm (pidx b v)) else lookup (mem s) pt v)"
      unfolding 1(3) a(2) gd(2) using page_eq_iff [OF b k]
      by (auto simp: fun_eq_iff nth_append less_Suc_eq k_def [symmetric])
    moreover have "mem w ((fs @ [p]) ! i + of_nat j) = c i j" if i: "i < length (fs @ [p])" and j: "j < PGBYTES" for i j
    proof -
      let ?q = "(fs @ [p]) ! i"
      have q: "?q \<in> set (fs @ [p])" using i by (rule nth_mem)
      have "aligned ?q" using q gp(7) pa by (auto simp: list_all_iff page_ok_def)
      then have pg: "PGROUNDDOWN (?q + of_nat j) = ?q" using j by (rule page_of_off)
      have "?q \<notin> tables (mem w) pt" using q gp(1,4) a(3,6) u2 by auto
      then have "mem w (?q + of_nat j) = mem u1 (?q + of_nat j)" by (intro fw) (simp add: pg)
      also have "\<dots> = c i j"
      proof (cases "i < k")
        case True
        then have "fs ! i \<in> set fs" by (simp add: k_def)
        then have "fs ! i \<noteq> p" using gp(1) by auto
        then show ?thesis using True fill_page(2) [OF pa] pg gd(3) [OF True [unfolded k_def] j] by (simp add: u1_def nth_append k_def)
      next
        case False
        then have "i = k" using i by (simp add: k_def)
        then show ?thesis using fill_page(1) [OF pa j] by (simp add: u1_def nth_append k_def)
      qed
      finally show ?thesis .
    qed
    moreover have "mem w x = mem s x" if x: "PGROUNDDOWN x \<notin> tables (mem s) pt \<union> set ps" for x
    proof -
      have "PGROUNDDOWN x \<notin> tables (mem w) pt" using x u2 a(3) gp(3,6) by auto
      moreover have "PGROUNDDOWN x \<noteq> p" using x gp(3) by auto
      ultimately show ?thesis using fw fill_page(2) [OF pa] gd(4) [OF x] by (simp add: u1_def)
    qed
    moreover have "\<exists>m fl. w = s\<lparr>mem := m, freelist := fl\<rparr>"
      using 1(2) by (intro mem_only_trans [OF gd(5)] mem_only_trans [OF m1]) (simp add: as_step_def)
    ultimately have "as_grow perm c pt s ps b (fs @ [p]) w rs"
      using as_step_ok [OF 1(2)] unfolding as_grow_def by blast
    with 1(1) show ?thesis by blast
  next
    case 2
    have "page_ok u1 p" using a(4) by (simp add: u1_def page_ok_def)
    then obtain w where w: "kfree p u1 = Ok () w" "as_ok w pt [p]" "lookup (mem w) pt = lookup (mem u1) pt"
       "tbl (mem w) pt = tbl (mem u1) pt" "\<forall>x. PGROUNDDOWN x \<noteq> p \<longrightarrow> mem w x = mem u1 x" "\<exists>m fl. w = u1\<lparr>mem := m, freelist := fl\<rparr>"
      using as_ok_kfree [OF a(1), of p] a(3,6) 2(1) by auto
    have "mem w (fs ! i + of_nat j) = c i j" if i: "i < length fs" and j: "j < PGBYTES" for i j
    proof -
      have q: "fs ! i \<in> set fs" using i by (rule nth_mem)
      then have "aligned (fs ! i)" "fs ! i \<noteq> p" using gp(1,7) by (auto simp: list_all_iff page_ok_def)
      then have "PGROUNDDOWN (fs ! i + of_nat j) \<noteq> p" using page_of_off [OF _ j] by metis
      then show ?thesis using w(5) fill_page(2) [OF pa] gd(3) [OF i j] by (simp add: u1_def)
    qed
    moreover have "mem w x = mem s x" if x: "PGROUNDDOWN x \<notin> tables (mem s) pt \<union> set ps" for x
    proof -
      have "PGROUNDDOWN x \<noteq> p" using x gp(3) by auto
      then show ?thesis using w(5) fill_page(2) [OF pa] gd(4) [OF x] by (simp add: u1_def)
    qed
    moreover have "\<exists>used. mset ps = mset used + mset fs + mset [p] \<and> tables (mem w) pt = tables (mem s) pt \<union> set used"
      using g 2(1) a(3) unfolding as_grow_def tables_def w(4) by simp
    moreover have "\<exists>m fl. w = s\<lparr>mem := m, freelist := fl\<rparr>"
      using w(6) by (intro mem_only_trans [OF gd(5)] mem_only_trans [OF m1])
    ultimately have "as_grow perm c pt s ps b fs w [p]"
      using w(2) gd(2) unfolding as_grow_def w(3) a(2) by blast
    with w(1) 2 show ?thesis by blast
  qed
qed

section \<open>Giving pages back\<close>

lemma as_grow_frees:
  assumes ok: "as_ok s pt ps" and g: "as_grow perm c pt s ps b fs u qs" and b: "aligned b" and n: "length fs \<le> 2 ^ 20"
    and perm: "\<And>i. i < length fs \<Longrightarrow> perm i < 1024"
  shows "frames (lookup (mem u) pt) b (length fs) = fs" and "frees u pt qs b (length fs)"
proof -
  note gp = as_grow_pages [OF ok g]
  have l: "lookup (mem u) pt (b + of_nat i * PGSIZE) = pte_new (fs ! i) (perm i)" if "i < length fs" for i
    using that n pidx_page [OF b, of i] by (simp add: as_growD(2) [OF g])
  have "aligned (fs ! i)" if "i < length fs" for i
    using gp(7) nth_mem [OF that] by (auto simp: list_all_iff page_ok_def)
  then have "PTE2PA (lookup (mem u) pt (b + of_nat i * PGSIZE)) = fs ! i" if "i < length fs" for i
    using that pte_new_pa perm by (simp add: l)
  then show fr: "frames (lookup (mem u) pt) b (length fs) = fs"
    by (intro nth_equalityI) (simp_all add: frames_def)
  show "frees u pt qs b (length fs)"
    unfolding frees_def fr Let_def using gp(1,4,7) pte_new_leaf by (simp add: l)
qed

lemma PGROUNDUP_unat:
  fixes a :: uint32
  assumes "unat a \<le> 2 ^ 32 - 4096"
  shows "unat (PGROUNDUP a) = (unat a + 4095) div 4096 * 4096"
proof -
  have "PGROUNDUP a = push_bit 12 (drop_bit 12 (a + 4095))"
    using PGROUNDDOWN_alt [of "a + 4095"] by (simp add: PGROUNDUP_def PGROUNDDOWN_def PGSIZE_def add_diff_eq [symmetric])
  moreover have "unat (a + 4095) = unat a + 4095"
    using assms by (subst unat_add_lem [THEN iffD1]) simp_all
  moreover have "unat (drop_bit 12 (a + 4095)) = unat (a + 4095) div 4096"
    by (simp add: drop_bit_eq_div unat_div)
  moreover have "(unat a + 4095) div 4096 * 4096 < 2 ^ 32"
    using assms by (intro le_less_trans [OF div_times_less_eq_dividend]) simp
  ultimately show ?thesis
    by (simp add: push_bit_eq_mult unat_word_ariths)
qed

lemma PGROUNDUP_mono: "unat b \<le> 2 ^ 32 - 4096 \<Longrightarrow> a \<le> b \<Longrightarrow> PGROUNDUP a \<le> PGROUNDUP b"
  by (auto simp: word_le_nat_alt PGROUNDUP_unat intro!: div_le_mono mult_le_mono1)

lemma PGROUNDUP_ge: "unat b \<le> 2 ^ 32 - 4096 \<Longrightarrow> b \<le> PGROUNDUP b"
  by (simp add: word_le_nat_alt PGROUNDUP_unat)

lemma as_free_refl: "as_ok s pt ps \<Longrightarrow> as_free pt s ps va 0 s"
  unfolding as_free_def Let_def by (intro conjI mem_only_refl) (simp_all add: frames_def unmapped_def)

text \<open>The pages between two sizes.\<close>

definition npages :: "uint32 \<Rightarrow> uint32 \<Rightarrow> nat" where
  "npages newsz oldsz = (unat (PGROUNDUP oldsz) - unat (PGROUNDUP newsz)) div 4096"

lemma uvmdealloc_spec:
  assumes ok: "as_ok s pt ps" and le: "newsz \<le> oldsz" and lim: "unat oldsz \<le> 2 ^ 32 - 4096"
    and fr: "frees s pt ps (PGROUNDUP newsz) (npages newsz oldsz)"
  shows "returns (uvmdealloc pt oldsz newsz s) (\<lambda>r u. if newsz = oldsz then r = oldsz \<and> u = s
    else r = newsz \<and> as_free pt s ps (PGROUNDUP newsz) (npages newsz oldsz) u)"
proof (cases "newsz = oldsz")
  case True
  then show ?thesis by (simp add: uvmdealloc_def)
next
  case False
  note mono = PGROUNDUP_mono [OF lim le]
  have n: "unat ((PGROUNDUP oldsz - PGROUNDUP newsz) div PGSIZE) = npages newsz oldsz"
    using mono by (simp add: npages_def unat_div unat_sub PGSIZE_def)
  have "unat (PGROUNDUP oldsz) < 2 ^ 32" using unsigned_less [of "PGROUNDUP oldsz", where ?'a = nat] by simp
  then have n20: "npages newsz oldsz \<le> 2 ^ 20" by (simp add: npages_def)
  show ?thesis
  proof (cases "PGROUNDUP newsz < PGROUNDUP oldsz")
    case True
    have "returns (uvmunmap pt (PGROUNDUP newsz) ((PGROUNDUP oldsz - PGROUNDUP newsz) div PGSIZE) True s)
        (\<lambda>_. as_free pt s ps (PGROUNDUP newsz) (npages newsz oldsz))"
      using uvmunmap_free [OF ok, of "PGROUNDUP newsz" "(PGROUNDUP oldsz - PGROUNDUP newsz) div PGSIZE"] fr n20 by (simp add: n)
    with True False le show ?thesis by (auto simp: uvmdealloc_def wp elim!: returns_mono)
  next
    case eq: False
    with mono have "PGROUNDUP newsz = PGROUNDUP oldsz" by simp
    then have "npages newsz oldsz = 0" by (simp add: npages_def)
    with eq False le as_free_refl [OF ok] show ?thesis by (simp add: uvmdealloc_def)
  qed
qed

text \<open>The state after a growth that failed: the map is as it was, every page is free again or has become
  a page-table page, and nothing else has changed.\<close>

definition as_back :: "uint32 \<Rightarrow> kstate \<Rightarrow> uint32 list \<Rightarrow> uint32 \<Rightarrow> nat \<Rightarrow> kstate \<Rightarrow> bool" where
  "as_back pt s ps b n u \<longleftrightarrow> (\<exists>qs. as_ok u pt qs
     \<and> (\<exists>used. mset ps = mset used + mset qs \<and> tables (mem u) pt = tables (mem s) pt \<union> set used))
     \<and> (\<forall>v. lookup (mem u) pt v = (if pidx b v < n then 0 else lookup (mem s) pt v))
     \<and> (\<forall>x. PGROUNDDOWN x \<notin> tables (mem s) pt \<union> set ps \<longrightarrow> mem u x = mem s x)
     \<and> (\<exists>m fl. u = s\<lparr>mem := m, freelist := fl\<rparr>)"

lemma as_grow_undo:
  assumes ok: "as_ok s pt ps" and g: "as_grow perm c pt s ps b fs u qs" and b: "aligned b" and n: "length fs \<le> 2 ^ 20"
    and perm: "\<And>i. i < length fs \<Longrightarrow> perm i < 1024" and f: "as_free pt u qs b (length fs) w"
  shows "as_back pt s ps b (length fs) w"
proof -
  note gp = as_grow_pages [OF ok g] and gd = as_growD [OF g]
  have fr: "frames (lookup (mem u) pt) b (length fs) = fs" using ok g b n perm by (rule as_grow_frees(1))
  note f = f [unfolded as_free_def fr Let_def]
  obtain used where "mset ps = mset used + mset fs + mset qs" "tables (mem u) pt = tables (mem s) pt \<union> set used"
    using g unfolding as_grow_def by blast
  then have "mset ps = mset used + mset (rev fs @ qs)" "tables (mem w) pt = tables (mem s) pt \<union> set used"
    using f by simp_all
  moreover have "lookup (mem w) pt v = (if pidx b v < length fs then 0 else lookup (mem s) pt v)" for v
    using f by (simp add: unmapped_def gd(2))
  moreover have "mem w x = mem s x" if "PGROUNDDOWN x \<notin> tables (mem s) pt \<union> set ps" for x
    using that f gd(4) [OF that] gp(2,6) by auto
  moreover have "\<exists>m fl. w = s\<lparr>mem := m, freelist := fl\<rparr>" using f by (intro mem_only_trans [OF gd(5)]) blast
  ultimately show ?thesis unfolding as_back_def using f by blast
qed

lemma page_end:
  assumes "aligned b" and "unat b + k * 4096 \<le> 2 ^ 32 - 4096"
  shows "unat (b + of_nat k * PGSIZE) = unat b + k * 4096" "npages b (b + of_nat k * PGSIZE) = k"
    "PGROUNDUP b = b" "b \<le> b + of_nat k * PGSIZE" "k < 2 ^ 20"
proof -
  show k: "k < 2 ^ 20" using assms(2) by simp
  show u: "unat (b + of_nat k * PGSIZE) = unat b + k * 4096"
    using assms(2) unat_pages [OF k] by (subst unat_add_lem [THEN iffD1]) simp_all
  then show "b \<le> b + of_nat k * PGSIZE" by (simp add: word_le_nat_alt)
  have up: "PGROUNDUP a = a" if "aligned a" "unat a \<le> 2 ^ 32 - 4096" for a
    using that by (auto simp: word_unat_eq_iff PGROUNDUP_unat aligned_unat elim!: dvdE)
  show b: "PGROUNDUP b = b" using assms by (intro up) simp_all
  have "PGROUNDUP (b + of_nat k * PGSIZE) = b + of_nat k * PGSIZE"
    using aligned_add [OF assms(1) aligned_mult] assms(2) u by (intro up) simp_all
  then show "npages b (b + of_nat k * PGSIZE) = k" by (simp add: npages_def b u)
qed

lemma uvmdealloc_undo:
  assumes ok: "as_ok s pt ps" and g: "as_grow perm c pt s ps b fs u qs" and b: "aligned b"
    and n: "unat b + length fs * 4096 \<le> 2 ^ 32 - 4096" and perm: "\<And>i. i < length fs \<Longrightarrow> perm i < 1024"
  shows "returns (uvmdealloc pt (b + of_nat (length fs) * PGSIZE) b u) (\<lambda>_. as_back pt s ps b (length fs))"
proof -
  note e = page_end [OF b n]
  have n20: "length fs \<le> 2 ^ 20" using e(5) by simp
  have "frees u pt qs (PGROUNDUP b) (npages b (b + of_nat (length fs) * PGSIZE))"
    unfolding e(2,3) using ok g b n20 perm by (rule as_grow_frees)
  note d = uvmdealloc_spec [OF as_growD(1) [OF g] e(4) _ this, unfolded e(2,3)]
  have "as_free pt u qs b (length fs) w" if "b = b + of_nat (length fs) * PGSIZE" "w = u" for w
  proof -
    have "unat b = unat b + length fs * 4096" using e(1) that(1) by simp
    then show ?thesis using that as_free_refl [OF as_growD(1) [OF g]] by simp
  qed
  then have "returns (uvmdealloc pt (b + of_nat (length fs) * PGSIZE) b u) (\<lambda>_. as_free pt u qs b (length fs))"
    using n e(1) by (intro returns_mono [OF d]) (auto split: if_splits)
  then show ?thesis
    by (rule returns_mono) (rule as_grow_undo [OF ok g b n20 perm])
qed

section \<open>uvmalloc\<close>

lemma uvmalloc_body_step:
  assumes ok: "as_ok s pt ps" and g: "as_grow (\<lambda>_. PTE_R OR PTE_U OR xperm) (\<lambda>_ _. 0) pt s ps b fs u qs" and b: "aligned b"
    and x: "xperm < 1024" and free: "lookup (mem s) pt (b + of_nat (length fs) * PGSIZE) AND PTE_V = 0"
    and n: "unat b + length fs * 4096 \<le> 2 ^ 32 - 4096" and lt: "b + of_nat (length fs) * PGSIZE < newsz"
  defines "a \<equiv> b + of_nat (length fs) * PGSIZE"
  shows "returns (uvmalloc_body pt b newsz xperm a u) (\<lambda>r w. case r of
      Inl a' \<Rightarrow> a' = a + PGSIZE \<and> (\<exists>p rs. as_grow (\<lambda>_. PTE_R OR PTE_U OR xperm) (\<lambda>_ _. 0) pt s ps b (fs @ [p]) w rs)
    | Inr r \<Rightarrow> r = 0 \<and> as_back pt s ps b (length fs) w)"
proof -
  let ?perm = "PTE_R OR PTE_U OR xperm"
  note e = page_end [OF b n] and gd = as_growD [OF g]
  have perm: "?perm < 1024"
  proof -
    have "take_bit 10 ?perm = ?perm" using x by (simp add: lt_1024 const_defs)
    then show ?thesis by (simp only: lt_1024)
  qed
  show ?thesis
  proof (cases qs)
    case Nil
    then have "kalloc u = Ok 0 u" using as_okD(1) [OF gd(1)] by (simp add: kalloc_none)
    with uvmdealloc_undo [OF ok g b n perm] lt show ?thesis
      by (auto simp: uvmalloc_body_def a_def wp elim!: returns_mono)
  next
    case (Cons p qs')
    let ?u1 = "u\<lparr>freelist := get32 (mem u) p, mem := store (mem u) p PGBYTES (\<lambda>_. 0)\<rparr>"
    have nz: "p \<noteq> 0" using gd(1) as_ok_head(1) unfolding Cons by (auto simp: page_ok_def)
    have k: "uvmalloc_body pt b newsz xperm a u =
        andthen (mappages pt a PGSIZE p ?perm ?u1) (\<lambda>r s.
          if r \<noteq> 0 then andthen (kfree p s) (\<lambda>_ s. andthen (uvmdealloc pt a b s) (\<lambda>_ s. Ok (Inr 0) s))
          else Ok (Inl (a + PGSIZE)) s)"
      using lt nz kalloc_some [OF as_okD(1) [OF gd(1) [unfolded Cons]]] unfolding a_def
      by (simp add: uvmalloc_body_def mem_set_eq store_store)
    from as_grow_step [OF ok g [unfolded Cons] b e(5) free, folded a_def]
    show ?thesis
    proof (elim disjE exE conjE)
      fix w rs
      assume "mappages pt a PGSIZE p ?perm ?u1 = Ok 0 w" "as_grow (\<lambda>_. ?perm) (\<lambda>_ _. 0) pt s ps b (fs @ [p]) w rs"
      then show ?thesis by (auto simp: k)
    next
      fix w
      assume "mappages pt a PGSIZE p ?perm ?u1 = Ok (-1) ?u1" "kfree p ?u1 = Ok () w"
        and gw: "as_grow (\<lambda>_. ?perm) (\<lambda>_ _. 0) pt s ps b fs w [p]"
      with uvmdealloc_undo [OF ok gw b n perm] show ?thesis
        unfolding k by (auto simp: a_def wp elim!: returns_mono)
    qed
  qed
qed

text \<open>Counting the pages below a size.\<close>

lemma round_up_nat:
  fixes x B k :: nat
  shows "4096 * B + k * 4096 < x \<Longrightarrow> 4096 * B + Suc k * 4096 \<le> (x + 4095) div 4096 * 4096"
    and "x \<le> 4096 * B + k * 4096 \<Longrightarrow> (x + 4095) div 4096 * 4096 \<le> 4096 * B + k * 4096"
proof -
  assume "4096 * B + k * 4096 < x"
  then have "B + Suc k \<le> (x + 4095) div 4096" by (simp add: less_eq_div_iff_mult_less_eq)
  then show "4096 * B + Suc k * 4096 \<le> (x + 4095) div 4096 * 4096" by simp
next
  assume "x \<le> 4096 * B + k * 4096"
  then have "(x + 4095) div 4096 < Suc (B + k)" by (simp add: div_less_iff_less_mult)
  then show "(x + 4095) div 4096 * 4096 \<le> 4096 * B + k * 4096" by simp
qed

lemma PGROUNDUP_steps:
  fixes b newsz :: uint32
  assumes "aligned b" and lim: "unat newsz \<le> 2 ^ 32 - 4096"
  shows "unat b + k * 4096 < unat newsz \<Longrightarrow> unat b + Suc k * 4096 \<le> unat (PGROUNDUP newsz)"
    and "unat newsz \<le> unat b + k * 4096 \<Longrightarrow> unat (PGROUNDUP newsz) \<le> unat b + k * 4096"
    and "unat (PGROUNDUP newsz) \<le> 2 ^ 32 - 4096"
proof -
  obtain B where B: "unat b = 4096 * B" using assms(1) by (auto simp: aligned_unat elim: dvdE)
  note u = PGROUNDUP_unat [OF lim]
  show "unat b + Suc k * 4096 \<le> unat (PGROUNDUP newsz)" if "unat b + k * 4096 < unat newsz"
    using that unfolding u B by (rule round_up_nat)
  show "unat (PGROUNDUP newsz) \<le> unat b + k * 4096" if "unat newsz \<le> unat b + k * 4096"
    using that unfolding u B by (rule round_up_nat)
  show "unat (PGROUNDUP newsz) \<le> 2 ^ 32 - 4096"
    using lim unfolding u by simp
qed

lemma npages_eq:
  assumes "oldsz \<le> newsz" and "unat newsz \<le> 2 ^ 32 - 4096"
  shows "unat (PGROUNDUP oldsz) + npages oldsz newsz * 4096 = unat (PGROUNDUP newsz)"
proof -
  have "4096 dvd unat (PGROUNDUP oldsz)" "4096 dvd unat (PGROUNDUP newsz)"
    by (simp_all flip: aligned_unat)
  then show ?thesis
    using PGROUNDUP_mono [OF assms(2,1)] unfolding npages_def word_le_nat_alt by (auto elim!: dvdE)
qed

text \<open>The loops of \<open>uvmalloc\<close> and \<open>uvmcopy\<close>: an address runs from \<open>b\<close> in steps of a page while it is below \<open>sz\<close>;
  \<open>J fs\<close> holds once the pages \<open>fs\<close> are mapped.\<close>

lemma page_loop:
  fixes b sz :: uint32 and f :: "uint32 \<Rightarrow> 's \<Rightarrow> ('s, uint32 + 'r) res"
  assumes b: "aligned b" and lim: "unat sz \<le> 2 ^ 32 - 4096" and n: "unat b + n * 4096 = unat (PGROUNDUP sz)"
    and init: "J [] s"
    and final: "\<And>fs u a. J fs u \<Longrightarrow> length fs = n \<Longrightarrow> \<not> a < sz \<Longrightarrow> returns (f a u) (\<lambda>v w. case v of Inl a' \<Rightarrow> False | Inr r \<Rightarrow> P r w)"
    and step: "\<And>fs u. J fs u \<Longrightarrow> length fs < n \<Longrightarrow> b + of_nat (length fs) * PGSIZE < sz \<Longrightarrow>
      unat b + length fs * 4096 \<le> 2 ^ 32 - 4096 \<Longrightarrow>
      returns (f (b + of_nat (length fs) * PGSIZE) u) (\<lambda>v w. case v of
        Inl a' \<Rightarrow> a' = b + of_nat (length fs) * PGSIZE + PGSIZE \<and> (\<exists>p. J (fs @ [p]) w) | Inr r \<Rightarrow> P r w)"
  shows "returns (wloop (\<lambda>a. unat (sz - a)) f (Ok (Inl b) s)) P"
proof -
  note st = PGROUNDUP_steps [OF b lim]
  let ?I = "\<lambda>a u. \<exists>fs. a = b + of_nat (length fs) * PGSIZE \<and> J fs u \<and> length fs \<le> n"
  show ?thesis
  proof (rule wloop_rule_measure [where I = ?I and m' = "\<lambda>a. unat sz - unat a"])
    show "?I b s" using init by (intro exI [of _ "[]"]) auto
  next
    show "unat sz - unat b \<le> unat (sz - b)"
      by (cases "b \<le> sz") (simp_all add: unat_sub word_le_nat_alt)
  next
    fix a u
    assume "?I a u"
    then obtain fs where a: "a = b + of_nat (length fs) * PGSIZE" and g: "J fs u" and k: "length fs \<le> n" by blast
    have "unat b + length fs * 4096 \<le> unat (PGROUNDUP sz)" using n k by (simp flip: n)
    then have lk: "unat b + length fs * 4096 \<le> 2 ^ 32 - 4096" using st(3) by simp
    note e = page_end [OF b lk, folded a]
    show "returns (f a u) (\<lambda>v s'. case v of
        Inl a' \<Rightarrow> ?I a' s' \<and> unat sz - unat a' < unat sz - unat a | Inr r \<Rightarrow> P r s')"
    proof (cases "a < sz")
      case True
      then have lt: "unat b + length fs * 4096 < unat sz" by (simp add: word_less_nat_alt e(1))
      have "unat b + Suc (length fs) * 4096 \<le> unat b + n * 4096" using st(1) [OF lt] n by simp
      then have kn: "length fs < n" by simp
      have "unat (a + PGSIZE) = unat a + 4096"
        using e(1) lt lim by (subst unat_add_lem [THEN iffD1]) (simp_all add: PGSIZE_def)
      then have m: "unat sz - unat (a + PGSIZE) < unat sz - unat a" using True by (simp add: word_less_nat_alt)
      show ?thesis
      proof (rule returns_mono [OF step [OF g kn True [unfolded a] lk, folded a]])
        fix v :: "uint32 + 'r" and w
        assume v: "case v of Inl a' \<Rightarrow> a' = a + PGSIZE \<and> (\<exists>p. J (fs @ [p]) w) | Inr r \<Rightarrow> P r w"
        show "case v of Inl a' \<Rightarrow> ?I a' w \<and> unat sz - unat a' < unat sz - unat a | Inr r \<Rightarrow> P r w"
        proof (cases v)
          case (Inl a')
          then obtain p where w: "a' = a + PGSIZE" "J (fs @ [p]) w" using v by auto
          then have "?I a' w" using kn by (intro exI [of _ "fs @ [p]"]) (simp add: a algebra_simps)
          then show ?thesis using Inl w(1) m by simp
        qed (use v in simp)
      qed
    next
      case False
      then have "unat sz \<le> unat b + length fs * 4096" by (simp add: word_less_nat_alt e(1))
      from st(2) [OF this] have "n * 4096 \<le> length fs * 4096" unfolding n [symmetric] by simp
      then have "length fs = n" using k by simp
      from final [OF g this False] show ?thesis by (rule returns_mono) (simp split: sum.splits)
    qed
  qed
qed

lemma uvmalloc_spec:
  fixes oldsz newsz :: uint32
  assumes ok: "as_ok s pt ps" and le: "oldsz \<le> newsz" and lim: "unat newsz \<le> 2 ^ 32 - 4096" and x: "xperm < 1024"
  defines "b \<equiv> PGROUNDUP oldsz" and "n \<equiv> npages oldsz newsz"
  assumes free: "\<And>k. k < n \<Longrightarrow> lookup (mem s) pt (b + of_nat k * PGSIZE) AND PTE_V = 0"
  shows "returns (uvmalloc pt oldsz newsz xperm s) (\<lambda>r u.
      (\<exists>fs qs. r = newsz \<and> length fs = n \<and> as_grow (\<lambda>_. PTE_R OR PTE_U OR xperm) (\<lambda>_ _. 0) pt s ps b fs u qs)
    \<or> (\<exists>k < n. r = 0 \<and> as_back pt s ps b k u))" (is "returns _ ?P")
proof -
  let ?G = "as_grow (\<lambda>_. PTE_R OR PTE_U OR xperm) (\<lambda>_ _. 0) pt s ps b"
  have b: "aligned b" by (simp add: b_def)
  have "returns (wloop (\<lambda>a. unat (newsz - a)) (uvmalloc_body pt b newsz xperm) (Ok (Inl b) s)) ?P"
  proof (rule page_loop [where J = "\<lambda>fs u. \<exists>qs. ?G fs u qs", OF b lim npages_eq [OF le lim, folded b_def n_def]])
    show "\<exists>qs. ?G [] s qs" using as_grow_refl [OF ok] by blast
  next
    fix fs u a
    assume "\<exists>qs. ?G fs u qs" "length fs = n" "\<not> a < newsz"
    then show "returns (uvmalloc_body pt b newsz xperm a u) (\<lambda>v w. case v of Inl a' \<Rightarrow> False | Inr r \<Rightarrow> ?P r w)"
      by (auto simp: uvmalloc_body_def)
  next
    fix fs :: "uint32 list" and u
    let ?a = "b + of_nat (length fs) * PGSIZE"
    assume "\<exists>qs. ?G fs u qs" and k: "length fs < n" and a: "?a < newsz" and lk: "unat b + length fs * 4096 \<le> 2 ^ 32 - 4096"
    then obtain qs where "?G fs u qs" by blast
    from uvmalloc_body_step [OF ok this b x free [OF k] lk a]
    show "returns (uvmalloc_body pt b newsz xperm ?a u) (\<lambda>v w. case v of
        Inl a' \<Rightarrow> a' = ?a + PGSIZE \<and> (\<exists>p qs. ?G (fs @ [p]) w qs) | Inr r \<Rightarrow> ?P r w)"
      using k by (auto split: sum.splits elim!: returns_mono)
  qed
  moreover have "\<not> newsz < oldsz" using le by simp
  ultimately show ?thesis unfolding uvmalloc_def Let_def b_def by simp
qed

section \<open>uvmcopy\<close>

text \<open>The parent's table \<open>old\<close> and the pages behind its first \<open>n\<close> entries lie apart from the child's table \<open>new\<close> and
  from the free list.\<close>

definition copy_src :: "kstate \<Rightarrow> uint32 \<Rightarrow> uint32 \<Rightarrow> uint32 list \<Rightarrow> nat \<Rightarrow> bool" where
  "copy_src s old new ps n \<longleftrightarrow> pt_ok (mem s) old \<and> tables (mem s) old \<inter> (tables (mem s) new \<union> set ps) = {}
     \<and> (\<forall>k < n. lookup (mem s) old (of_nat k * PGSIZE) AND PTE_V \<noteq> 0
          \<and> PTE2PA (lookup (mem s) old (of_nat k * PGSIZE)) \<notin> tables (mem s) new \<union> set ps)"

lemma copy_src_agree:
  assumes src: "copy_src s old new ps n" and fr: "\<And>x. PGROUNDDOWN x \<notin> tables (mem s) new \<union> set ps \<Longrightarrow> m x = mem s x"
  shows "pt_ok m old" "lookup m old = lookup (mem s) old" "tbl m old = tbl (mem s) old"
    "k < n \<Longrightarrow> j < PGBYTES \<Longrightarrow> view m (PTE2PA (lookup (mem s) old (of_nat k * PGSIZE))) j =
       view (mem s) (PTE2PA (lookup (mem s) old (of_nat k * PGSIZE))) j"
proof -
  have "m x = mem s x" if "PGROUNDDOWN x \<in> tables (mem s) old" for x
    using that src by (intro fr) (auto simp: copy_src_def)
  moreover have "pt_ok (mem s) old" using src by (simp add: copy_src_def)
  ultimately show "pt_ok m old" "lookup m old = lookup (mem s) old" "tbl m old = tbl (mem s) old"
    using pt_agree [of old "mem s" m] pt_okD(1) by auto
  show "view m (PTE2PA (lookup (mem s) old (of_nat k * PGSIZE))) j = view (mem s) (PTE2PA (lookup (mem s) old (of_nat k * PGSIZE))) j"
    if "k < n" "j < PGBYTES"
    unfolding view_def using that(1) src page_of_off [OF aligned_PTE2PA that(2)]
    by (intro fr) (simp add: copy_src_def)
qed

lemma aligned_le: "aligned a \<Longrightarrow> unat a \<le> 4294963200"
proof -
  assume "aligned a"
  then obtain B where "unat a = 4096 * B" by (auto simp: aligned_unat elim: dvdE)
  then show ?thesis using unsigned_less [of a, where ?'a = nat] by simp
qed

lemma copy_page:
  assumes p: "aligned p" "aligned q" "p \<noteq> q"
  shows "memmove (store m p PGBYTES f) p q PGSIZE = store m p PGBYTES (view m q)"
proof -
  let ?m = "store m p PGBYTES f"
  have "memmove ?m p q PGSIZE = store ?m p PGBYTES (view ?m q)"
    using aligned_le [OF p(1)] aligned_le [OF p(2)] by (subst memmove_eq) (simp_all add: PGSIZE_def PGBYTES_def)
  also have "\<dots> = store ?m p PGBYTES (view m q)"
    using p page_of_off [OF p(2)] by (intro store_cong) (auto simp: view_def intro!: store_other_page)
  finally show ?thesis by (simp add: store_store)
qed

lemma uvmunmap_undo:
  assumes ok: "as_ok s pt ps" and g: "as_grow perm c pt s ps 0 fs u qs"
    and n: "length fs < 2 ^ 20" and perm: "\<And>i. i < length fs \<Longrightarrow> perm i < 1024"
  shows "returns (uvmunmap pt 0 (of_nat (length fs) * PGSIZE div PGSIZE) True u) (\<lambda>_. as_back pt s ps 0 (length fs))"
proof -
  have n': "unat (of_nat (length fs) * PGSIZE div PGSIZE :: uint32) = length fs"
    using unat_pages [OF n] by (simp add: unat_div PGSIZE_def)
  have n20: "length fs \<le> 2 ^ 20" using n by simp
  have "frees u pt qs 0 (length fs)" using ok g aligned_0 n20 perm by (rule as_grow_frees)
  then have "returns (uvmunmap pt 0 (of_nat (length fs) * PGSIZE div PGSIZE) True u) (\<lambda>_. as_free pt u qs 0 (length fs))"
    using uvmunmap_free [OF as_growD(1) [OF g] aligned_0, of "of_nat (length fs) * PGSIZE div PGSIZE"] n20 by (simp add: n')
  then show ?thesis
    by (rule returns_mono) (rule as_grow_undo [OF ok g aligned_0 n20 perm])
qed

lemma PTE_FLAGS_lt: "PTE_FLAGS e < 1024"
proof -
  have "PTE_FLAGS e = take_bit 10 e" using take_bit_eq_mask [of 10 e] by (simp add: PTE_FLAGS_def mask_eq_exp_minus_1)
  then show ?thesis by (simp add: lt_1024)
qed

abbreviation copy_perm :: "kstate \<Rightarrow> uint32 \<Rightarrow> nat \<Rightarrow> uint32" where
  "copy_perm s old \<equiv> \<lambda>k. PTE_FLAGS (lookup (mem s) old (of_nat k * PGSIZE))"

abbreviation copy_data :: "kstate \<Rightarrow> uint32 \<Rightarrow> nat \<Rightarrow> bytes" where
  "copy_data s old \<equiv> \<lambda>k. view (mem s) (PTE2PA (lookup (mem s) old (of_nat k * PGSIZE)))"

lemma uvmcopy_body_step:
  fixes s :: kstate
  assumes ok: "as_ok s new ps" and src: "copy_src s old new ps n"
    and g: "as_grow (copy_perm s old) (copy_data s old) new s ps 0 fs u qs" and k: "length fs < n" "n \<le> 2 ^ 20"
    and free: "lookup (mem s) new (of_nat (length fs) * PGSIZE) AND PTE_V = 0" and lt: "of_nat (length fs) * PGSIZE < sz"
  defines "a \<equiv> of_nat (length fs) * PGSIZE"
  shows "returns (uvmcopy_body old new sz a u) (\<lambda>r w. case r of
      Inl a' \<Rightarrow> a' = a + PGSIZE \<and> (\<exists>p rs. as_grow (copy_perm s old) (copy_data s old) new s ps 0 (fs @ [p]) w rs)
    | Inr r \<Rightarrow> r = -1 \<and> as_back new s ps 0 (length fs) w)"
proof -
  let ?e = "lookup (mem s) old a"
  note gd = as_growD [OF g]
  have k20: "length fs < 2 ^ 20" using k by simp
  note sa = copy_src_agree [OF src gd(4)]
  have e: "?e AND PTE_V \<noteq> 0" "PTE2PA ?e \<notin> tables (mem s) new \<union> set ps"
    using src k(1) by (auto simp: copy_src_def a_def)
  obtain t where t: "tbl (mem u) old a = Some t" "get32 (mem u) (pte_addr t 0 a) = ?e"
    using e(1) sa(2) by (cases "tbl (mem u) old a") (auto simp: lookup_def [of "mem u"] dest!: fun_cong [of _ _ a])
  have tz: "pte_addr t 0 a \<noteq> 0"
    using pt_okD(3) [OF sa(1) t(1)] tbl_aligned [OF t(1)] by (intro pte_addr_nonzero)
  have err: "returns (uvmcopy_err new a w) (\<lambda>r w. case r of Inl a' \<Rightarrow> False | Inr r \<Rightarrow> r = -1 \<and> as_back new s ps 0 (length fs) w)"
    if "as_grow (copy_perm s old) (copy_data s old) new s ps 0 fs w rs" for w rs
    using uvmunmap_undo [OF ok that k20 PTE_FLAGS_lt] by (auto simp: uvmcopy_err_def a_def wp elim!: returns_mono)
  show ?thesis
  proof (cases qs)
    case Nil
    then have "kalloc u = Ok 0 u" using as_okD(1) [OF gd(1)] by (simp add: kalloc_none)
    with err [OF g] lt t tz e(1) show ?thesis
      by (auto simp: uvmcopy_body_def a_def walk_noalloc Let_def elim!: returns_mono split: sum.splits)
  next
    case (Cons p qs')
    let ?u1 = "u\<lparr>freelist := get32 (mem u) p, mem := store (mem u) p PGBYTES (view (mem s) (PTE2PA ?e))\<rparr>"
    note h = as_ok_head [OF gd(1) [unfolded Cons]]
    have nz: "p \<noteq> 0" "aligned p" using h by (auto simp: page_ok_def)
    have "p \<in> set ps" using as_grow_pages(3) [OF ok g] by (auto simp: Cons)
    then have "p \<noteq> PTE2PA ?e" using e(2) by auto
    then have "memmove (store (mem u) p PGBYTES (\<lambda>_. 5)) p (PTE2PA ?e) PGSIZE = store (mem u) p PGBYTES (view (mem u) (PTE2PA ?e))"
      using nz(2) by (intro copy_page) simp_all
    also have "\<dots> = store (mem u) p PGBYTES (view (mem s) (PTE2PA ?e))"
      unfolding a_def using sa(4) [OF _ k(1)] by (intro store_cong) simp
    finally have mv: "memmove (store (mem u) p PGBYTES (\<lambda>_. 5)) p (PTE2PA ?e) PGSIZE = mem ?u1" by simp
    have b: "uvmcopy_body old new sz a u =
        andthen (mappages new a PGSIZE p (PTE_FLAGS ?e) ?u1) (\<lambda>r s.
          if r \<noteq> 0 then andthen (kfree p s) (\<lambda>_ s. uvmcopy_err new a s) else Ok (Inl (a + PGSIZE)) s)"
      using lt nz t tz e(1) mv kalloc_some [OF as_okD(1) [OF gd(1) [unfolded Cons]]]
      by (simp add: uvmcopy_body_def a_def [symmetric] walk_noalloc Let_def)
    from as_grow_step [OF ok g [unfolded Cons] aligned_0 k20, unfolded add_0, OF free, folded a_def]
    show ?thesis
    proof (elim disjE exE conjE)
      fix w rs
      assume "mappages new a PGSIZE p (PTE_FLAGS ?e) ?u1 = Ok 0 w" "as_grow (copy_perm s old) (copy_data s old) new s ps 0 (fs @ [p]) w rs"
      then show ?thesis unfolding b by auto
    next
      fix w
      assume "mappages new a PGSIZE p (PTE_FLAGS ?e) ?u1 = Ok (-1) ?u1" "kfree p ?u1 = Ok () w"
        and gw: "as_grow (copy_perm s old) (copy_data s old) new s ps 0 fs w [p]"
      with err [OF gw] show ?thesis
        unfolding b by (auto simp: wp elim!: returns_mono split: sum.splits)
    qed
  qed
qed

lemma uvmcopy_spec:
  fixes sz :: uint32
  assumes ok: "as_ok s new ps" and lim: "unat sz \<le> 2 ^ 32 - 4096"
  defines "n \<equiv> npages 0 sz"
  assumes src: "copy_src s old new ps n"
    and free: "\<And>k. k < n \<Longrightarrow> lookup (mem s) new (of_nat k * PGSIZE) AND PTE_V = 0"
  shows "returns (uvmcopy old new sz s) (\<lambda>r u.
      (\<exists>fs qs. r = 0 \<and> length fs = n \<and> as_grow (copy_perm s old) (copy_data s old) new s ps 0 fs u qs)
    \<or> (\<exists>k < n. r = -1 \<and> as_back new s ps 0 k u))" (is "returns _ ?P")
proof -
  let ?G = "as_grow (copy_perm s old) (copy_data s old) new s ps 0"
  have n: "unat (0 :: uint32) + n * 4096 = unat (PGROUNDUP sz)"
    using npages_eq [of 0 sz] lim by (simp add: n_def PGROUNDUP_def PGSIZE_def)
  then have n20: "n \<le> 2 ^ 20" using PGROUNDUP_steps(3) [OF aligned_0 lim] by simp
  show ?thesis
    unfolding uvmcopy_def
  proof (rule page_loop [where J = "\<lambda>fs u. \<exists>qs. ?G fs u qs", OF aligned_0 lim n])
    show "\<exists>qs. ?G [] s qs" using as_grow_refl [OF ok] by blast
  next
    fix fs u a
    assume "\<exists>qs. ?G fs u qs" "length fs = n" "\<not> a < sz"
    then show "returns (uvmcopy_body old new sz a u) (\<lambda>v w. case v of Inl a' \<Rightarrow> False | Inr r \<Rightarrow> ?P r w)"
      by (auto simp: uvmcopy_body_def)
  next
    fix fs :: "uint32 list" and u
    let ?a = "of_nat (length fs) * PGSIZE :: uint32"
    assume "\<exists>qs. ?G fs u qs" and k: "length fs < n" and a: "0 + ?a < sz"
    then obtain qs where "?G fs u qs" by blast
    from uvmcopy_body_step [OF ok src this k n20 free [OF k] a [unfolded add_0]]
    show "returns (uvmcopy_body old new sz (0 + ?a) u) (\<lambda>v w. case v of
        Inl a' \<Rightarrow> a' = 0 + ?a + PGSIZE \<and> (\<exists>p qs. ?G (fs @ [p]) w qs) | Inr r \<Rightarrow> ?P r w)"
      unfolding add_0 using k by (auto split: sum.splits elim!: returns_mono)
  qed
qed

text \<open>The child's view: every page of the parent has in the child's map an entry with the same flags to a page of its own. That page was
  free before, is not a page of the parent, and holds what the parent's page held when the copy began. Beyond the copied pages the map is as before,
  and the pages taken from the free list are those pages and new tables of the child.\<close>

definition copied :: "kstate \<Rightarrow> uint32 \<Rightarrow> uint32 \<Rightarrow> uint32 list \<Rightarrow> nat \<Rightarrow> kstate \<Rightarrow> bool" where
  "copied s old new ps n u \<longleftrightarrow> (\<exists>fs qs used. length fs = n \<and> distinct (fs @ qs) \<and> as_ok u new qs
     \<and> mset ps = mset used + mset fs + mset qs \<and> tables (mem u) new = tables (mem s) new \<union> set used
     \<and> (\<forall>k < n. lookup (mem u) new (of_nat k * PGSIZE) = pte_new (fs ! k) (PTE_FLAGS (lookup (mem s) old (of_nat k * PGSIZE)))
         \<and> (\<forall>i < n. fs ! k \<noteq> PTE2PA (lookup (mem s) old (of_nat i * PGSIZE)))
         \<and> (\<forall>j < PGBYTES. mem u (fs ! k + of_nat j) = mem s (PTE2PA (lookup (mem s) old (of_nat k * PGSIZE)) + of_nat j)))
     \<and> (\<forall>v. n \<le> pidx 0 v \<longrightarrow> lookup (mem u) new v = lookup (mem s) new v))"

text \<open>The parent keeps its map and the contents of its pages.\<close>

definition parent_kept :: "kstate \<Rightarrow> uint32 \<Rightarrow> nat \<Rightarrow> kstate \<Rightarrow> bool" where
  "parent_kept s old n u \<longleftrightarrow> lookup (mem u) old = lookup (mem s) old
     \<and> (\<forall>k < n. \<forall>j < PGBYTES. mem u (PTE2PA (lookup (mem s) old (of_nat k * PGSIZE)) + of_nat j)
          = mem s (PTE2PA (lookup (mem s) old (of_nat k * PGSIZE)) + of_nat j))"

lemma parent_keptI:
  assumes "copy_src s old new ps n" and "\<And>x. PGROUNDDOWN x \<notin> tables (mem s) new \<union> set ps \<Longrightarrow> mem u x = mem s x"
  shows "parent_kept s old n u"
  using copy_src_agree(2,4) [OF assms] by (simp add: parent_kept_def view_def)

lemma as_grow_copied:
  assumes ok: "as_ok s new ps" and src: "copy_src s old new ps (length fs)" and n: "length fs \<le> 2 ^ 20"
    and g: "as_grow (copy_perm s old) (copy_data s old) new s ps 0 fs u qs"
  shows "parent_kept s old (length fs) u" and "copied s old new ps (length fs) u"
proof -
  note gd = as_growD [OF g]
  show "parent_kept s old (length fs) u" by (rule parent_keptI [OF src gd(4)])
  obtain used where used: "mset ps = mset used + mset fs + mset qs" "tables (mem u) new = tables (mem s) new \<union> set used"
    using g by (auto simp: as_grow_def)
  have "lookup (mem u) new (of_nat k * PGSIZE) = pte_new (fs ! k) (PTE_FLAGS (lookup (mem s) old (of_nat k * PGSIZE)))"
    if "k < length fs" for k using that n pidx_page [OF aligned_0, of k] by (simp add: gd(2))
  moreover have "mem u (fs ! k + of_nat j) = mem s (PTE2PA (lookup (mem s) old (of_nat k * PGSIZE)) + of_nat j)"
    if "k < length fs" "j < PGBYTES" for k j
    using that gd(3) [of k j] by (simp add: view_def)
  moreover have "fs ! k \<noteq> PTE2PA (lookup (mem s) old (of_nat i * PGSIZE))" if "k < length fs" "i < length fs" for k i
  proof -
    have "fs ! k \<in> set ps"
      using that(1) arg_cong [OF used(1), of set_mset] by simp
    then show ?thesis using src that(2) by (auto simp: copy_src_def)
  qed
  moreover have "lookup (mem u) new v = lookup (mem s) new v" if "length fs \<le> pidx 0 v" for v
    using that by (simp add: gd(2))
  ultimately show "copied s old new ps (length fs) u"
    unfolding copied_def using gd(1) as_grow_pages(1) [OF ok g] used by blast
qed

lemma as_back_old:
  assumes "copy_src s old new ps n" and "as_back new s ps 0 k u"
  shows "parent_kept s old n u"
  using assms(2) by (intro parent_keptI [OF assms(1)]) (auto simp: as_back_def)

lemma npages_0_le: "unat sz \<le> 2 ^ 32 - 4096 \<Longrightarrow> npages 0 sz \<le> 2 ^ 20"
  using npages_eq [of 0 sz] PGROUNDUP_steps(3) [OF aligned_0, of sz] by (simp add: PGROUNDUP_def PGSIZE_def)

end
