(* ===== verification/Usercopy.thy ===== *)
theory Usercopy
  imports Addrspace
begin

text \<open>
  What \<open>copyin\<close>, \<open>copyout\<close> and \<open>copyinstr\<close> of \<open>kernel/vm.c\<close> do to user memory, seen through the map a page table
  denotes: \<open>upage\<close> is the page behind a user address (0 if there is none, as for \<open>walkaddr\<close>), \<open>phys\<close> the
  address of the byte behind it, \<open>uread\<close> that byte. The loops go page by page; the lemmas speak of
  single bytes.
\<close>

definition upage :: "(uint32 \<Rightarrow> byte) \<Rightarrow> uint32 \<Rightarrow> uint32 \<Rightarrow> uint32" where
  "upage m pt va = (case uva m pt va of None \<Rightarrow> 0 | Some pa \<Rightarrow> pa)"

definition phys :: "(uint32 \<Rightarrow> byte) \<Rightarrow> uint32 \<Rightarrow> uint32 \<Rightarrow> uint32" where
  "phys m pt va = upage m pt va + (va - PGROUNDDOWN va)"

definition uread :: "(uint32 \<Rightarrow> byte) \<Rightarrow> uint32 \<Rightarrow> uint32 \<Rightarrow> byte" where
  "uread m pt va = m (phys m pt va)"

text \<open>The first \<open>n\<close> addresses from \<open>va\<close> on are the user's.\<close>

definition uaccess :: "(uint32 \<Rightarrow> byte) \<Rightarrow> uint32 \<Rightarrow> uint32 \<Rightarrow> nat \<Rightarrow> bool" where
  "uaccess m pt va n \<longleftrightarrow> (\<forall>i < n. upage m pt (va + of_nat i) \<noteq> 0)"

section \<open>Offsets in a page\<close>

lemma PGROUNDDOWN_idem [simp]: "PGROUNDDOWN (PGROUNDDOWN v) = PGROUNDDOWN v"
  by (simp add: PGROUNDDOWN_aligned)

lemma lookup_page: "PGROUNDDOWN v = PGROUNDDOWN w \<Longrightarrow> lookup m pt v = lookup m pt w"
  unfolding same_page_iff by (simp add: lookup_def pte_addr_def tbl_cong [of v w] split: option.splits)

lemma upage_page: "PGROUNDDOWN v = PGROUNDDOWN w \<Longrightarrow> upage m pt v = upage m pt w"
  using lookup_page [of v w] by (simp add: upage_def uva_def)

lemma aligned_upage [simp]: "aligned (upage m pt v)"
  by (auto simp: upage_def uva_def Let_def split: option.splits if_splits)

lemma page_off: "v - PGROUNDDOWN v = take_bit 12 v"
  using PGROUNDDOWN_split [of v] by (metis add_diff_cancel_left')

lemma page_off_lt: "unat (v - PGROUNDDOWN v) < 4096"
proof -
  have "unat (take_bit 12 v) < 2 ^ 12" unfolding unsigned_take_bit_eq by (rule take_bit_nat_less_exp)
  then show ?thesis by (simp add: page_off)
qed

lemma same_page:
  assumes "j + unat (v - PGROUNDDOWN v) < 4096"
  shows "PGROUNDDOWN (v + of_nat j) = PGROUNDDOWN v"
proof -
  have "v + of_nat j = PGROUNDDOWN v + of_nat (j + unat (v - PGROUNDDOWN v))" by simp
  then show ?thesis using assms page_of_off [of "PGROUNDDOWN v"] by (metis PGBYTES_def aligned_PGROUNDDOWN)
qed

lemma phys_add:
  assumes "j + unat (v - PGROUNDDOWN v) < 4096"
  shows "phys m pt (v + of_nat j) = phys m pt v + of_nat j"
  using same_page [OF assms] upage_page [OF same_page [OF assms]] by (simp add: phys_def)

lemma page_of_phys: "PGROUNDDOWN (phys m pt v) = upage m pt v"
  using page_of_off [of "upage m pt v" "unat (v - PGROUNDDOWN v)"] page_off_lt [of v]
  by (simp add: phys_def PGBYTES_def)

text \<open>The length of one round: up to the end of the page or of the copy.\<close>

definition chunk :: "uint32 \<Rightarrow> uint32 \<Rightarrow> uint32" where
  "chunk va len = (let n = PGSIZE - (va - PGROUNDDOWN va) in if n > len then len else n)"

lemma unat_page_rest: "unat (PGSIZE - (v - PGROUNDDOWN v)) = 4096 - unat (v - PGROUNDDOWN v)"
  using page_off_lt [of v] by (subst unat_sub) (simp_all add: PGSIZE_def word_le_nat_alt)

lemma unat_chunk: "unat (chunk va len) = min (4096 - unat (va - PGROUNDDOWN va)) (unat len)"
  by (simp add: chunk_def Let_def unat_page_rest word_less_nat_alt min_def not_less)

lemma chunk_le: "unat (chunk va len) \<le> unat len"
  by (simp add: unat_chunk)

lemma chunk_pos: "0 < len \<Longrightarrow> 0 < unat (chunk va len)"
  using page_off_lt [of va] by (simp add: unat_chunk word_less_nat_alt)

lemma chunk_in_page: "j < unat (chunk va len) \<Longrightarrow> j + unat (va - PGROUNDDOWN va) < 4096"
  using page_off_lt [of va] by (auto simp: unat_chunk)

lemma unat_len_chunk: "unat (len - chunk va len) = unat len - unat (chunk va len)"
  using chunk_le by (simp add: unat_sub word_le_nat_alt)

lemma chunk_next:
  assumes "len - chunk va len \<noteq> 0"
  shows "PGROUNDDOWN va + PGSIZE = va + of_nat (unat (chunk va len))"
proof -
  have "chunk va len \<noteq> len" using assms by auto
  then have "chunk va len = PGSIZE - (va - PGROUNDDOWN va)" by (auto simp: chunk_def Let_def split: if_splits)
  then show ?thesis by simp
qed

section \<open>copyin\<close>

lemma copyin_body_eq:
  assumes "pt_ok (mem s) pt" and "0 < len"
  shows "copyin_body pt (d, k, va, len) s =
    (if upage (mem s) pt va = 0 then Ok (Inr (-1, d)) s
     else Ok (Inl (blit d k (unat (chunk va len)) (view (mem s) (phys (mem s) pt va)), k + unat (chunk va len),
        PGROUNDDOWN va + PGSIZE, len - chunk va len)) s)"
  using assms upage_page [of "PGROUNDDOWN va" va "mem s" pt]
  by (simp add: copyin_body_def Let_def walkaddr_eq upage_def [symmetric] chunk_def [unfolded Let_def] phys_def)

lemma view_phys:
  assumes "j < unat (chunk va len)"
  shows "view m (phys m pt va) j = uread m pt (va + of_nat j)"
  using phys_add [OF chunk_in_page [OF assms]] by (simp add: view_def uread_def)

lemma blit_0 [simp]: "blit d k 0 f = d"
  by (rule ext) (auto simp: blit_def)

lemma blit_blit:
  assumes "\<And>j. j < n \<Longrightarrow> g j = f (k + j)"
  shows "blit (blit d 0 k f) k n g = blit d 0 (k + n) f"
proof
  fix i
  show "blit (blit d 0 k f) k n g i = blit d 0 (k + n) f i"
    using assms [of "i - k"] by (auto simp: blit_def)
qed

text \<open>Part of a copy: after \<open>k\<close> of \<open>n\<close> bytes the rest starts at \<open>v\<close> and has length \<open>l\<close>.\<close>

definition at_byte :: "uint32 \<Rightarrow> nat \<Rightarrow> nat \<Rightarrow> uint32 \<Rightarrow> uint32 \<Rightarrow> bool" where
  "at_byte va n k v l \<longleftrightarrow> k + unat l = n \<and> (l \<noteq> 0 \<longrightarrow> v = va + of_nat k)"

lemma at_byte_next:
  assumes "at_byte va n k v l"
  shows "at_byte va n (k + unat (chunk v l)) (PGROUNDDOWN v + PGSIZE) (l - chunk v l)"
proof -
  have "l \<noteq> 0" if "l - chunk v l \<noteq> 0"
    using that chunk_le [of v l] by (auto simp: unat_eq_zero)
  then have "v = va + of_nat k" if "l - chunk v l \<noteq> 0"
    using that assms by (auto simp: at_byte_def)
  then show ?thesis
    using assms chunk_le [of v l] chunk_next [of l v] by (auto simp: at_byte_def unat_len_chunk)
qed

lemma uaccess_chunk:
  assumes "uaccess m pt va k" and "upage m pt (va + of_nat k) \<noteq> 0"
  shows "uaccess m pt va (k + unat (chunk (va + of_nat k) l))"
  unfolding uaccess_def
proof (intro allI impI)
  fix i
  assume i: "i < k + unat (chunk (va + of_nat k) l)"
  show "upage m pt (va + of_nat i) \<noteq> 0"
  proof (cases "i < k")
    case True
    then show ?thesis using assms(1) by (simp add: uaccess_def)
  next
    case False
    then obtain j where j: "i = k + j" using le_Suc_ex [of k i] by auto
    then have "PGROUNDDOWN (va + of_nat k + of_nat j) = PGROUNDDOWN (va + of_nat k)"
      using i by (intro same_page chunk_in_page [of j]) simp
    from upage_page [OF this] assms(2) show ?thesis by (simp add: j add.assoc)
  qed
qed

lemma copyin_eq:
  assumes pt: "pt_ok (mem s) pt"
  shows "\<exists>d. copyin pt dst va len s = Ok (if uaccess (mem s) pt va (unat len) then 0 else -1, d) s
    \<and> (uaccess (mem s) pt va (unat len) \<longrightarrow> d = blit dst 0 (unat len) (\<lambda>i. uread (mem s) pt (va + of_nat i)))"
proof -
  let ?f = "\<lambda>i. uread (mem s) pt (va + of_nat i)" and ?n = "unat len"
  let ?I = "\<lambda>(d, k, v, l) u. u = s \<and> at_byte va ?n k v l \<and> uaccess (mem s) pt va k \<and> d = blit dst 0 k ?f"
  let ?P = "\<lambda>(r, d) u. u = s \<and> r = (if uaccess (mem s) pt va ?n then 0 else - 1 :: int)
    \<and> (uaccess (mem s) pt va ?n \<longrightarrow> d = blit dst 0 ?n ?f)"
  have "returns (copyin pt dst va len s) ?P"
    unfolding copyin_def
  proof (rule wloop_rule [where I = ?I])
    show "?I (dst, 0, va, len) s" by (simp add: at_byte_def uaccess_def)
  next
    fix l u
    assume "?I l u"
    then obtain k v r where l: "l = (blit dst 0 k ?f, k, v, r)" and u: "u = s" and a: "at_byte va ?n k v r"
      and acc: "uaccess (mem s) pt va k" by (cases l) auto
    show "returns (copyin_body pt l u) (\<lambda>x s'. case x of Inl l' \<Rightarrow> ?I l' s' \<and>
        (case l' of (_, _, _, len) \<Rightarrow> unat len) < (case l of (_, _, _, len) \<Rightarrow> unat len) | Inr a \<Rightarrow> ?P a s')"
    proof (cases "r = 0")
      case True
      then show ?thesis using a acc by (simp add: l u copyin_body_def at_byte_def)
    next
      case False
      then have v: "v = va + of_nat k" and r: "0 < r" using a by (auto simp: at_byte_def word_gt_0)
      show ?thesis
      proof (cases "upage (mem s) pt v = 0")
        case True
        have "k < ?n" using a r by (auto simp: at_byte_def word_less_nat_alt)
        then have "\<not> uaccess (mem s) pt va ?n" using True v by (auto simp: uaccess_def)
        with True show ?thesis by (simp add: l u copyin_body_eq [OF pt r])
      next
        case nz: False
        have "blit (blit dst 0 k ?f) k (unat (chunk v r)) (view (mem s) (phys (mem s) pt v)) = blit dst 0 (k + unat (chunk v r)) ?f"
          by (rule blit_blit) (simp add: view_phys v add.assoc)
        with nz show ?thesis
          using at_byte_next [OF a] uaccess_chunk [OF acc, of r] chunk_pos [OF r, of v] chunk_le [of v r]
          by (simp add: l u copyin_body_eq [OF pt r] v [symmetric] unat_len_chunk)
      qed
    qed
  qed
  then show ?thesis by (auto simp: returns_iff)
qed

section \<open>copyout\<close>

text \<open>The destination must be user memory proper: no table page, and no page behind two addresses.\<close>

definition uwritable :: "(uint32 \<Rightarrow> byte) \<Rightarrow> uint32 \<Rightarrow> uint32 \<Rightarrow> nat \<Rightarrow> bool" where
  "uwritable m pt va n \<longleftrightarrow> (\<forall>i < n. upage m pt (va + of_nat i) \<notin> tables m pt)
     \<and> (\<forall>i < n. \<forall>j < n. upage m pt (va + of_nat i) = upage m pt (va + of_nat j)
          \<longrightarrow> PGROUNDDOWN (va + of_nat i) = PGROUNDDOWN (va + of_nat j))"

lemma phys_inj:
  assumes w: "uwritable m pt va n" and n: "n \<le> 2 ^ 32" and ij: "i < n" "j < n"
    and e: "phys m pt (va + of_nat i) = phys m pt (va + of_nat j)"
  shows "i = j"
proof -
  have u: "upage m pt (va + of_nat i) = upage m pt (va + of_nat j)"
    using arg_cong [OF e, of PGROUNDDOWN] by (simp add: page_of_phys)
  then have p: "PGROUNDDOWN (va + of_nat i) = PGROUNDDOWN (va + of_nat j)"
    using w ij unfolding uwritable_def by blast
  have "va + of_nat i = va + of_nat j" using e unfolding phys_def u p by simp
  then have "unat (of_nat i :: uint32) = unat (of_nat j :: uint32)" by simp
  then show ?thesis
    unfolding unsigned_of_nat using ij n by (simp add: take_bit_nat_eq_self)
qed

text \<open>What a copy of \<open>k\<close> bytes to \<open>va\<close> has done: those bytes are written, no other, and so the map is as before.\<close>

definition uwritten :: "uint32 \<Rightarrow> (uint32 \<Rightarrow> byte) \<Rightarrow> uint32 \<Rightarrow> nat \<Rightarrow> bytes \<Rightarrow> (uint32 \<Rightarrow> byte) \<Rightarrow> bool" where
  "uwritten pt m va k src m' \<longleftrightarrow> (\<forall>i < k. m' (phys m pt (va + of_nat i)) = src i)
     \<and> (\<forall>x. (\<forall>i < k. x \<noteq> phys m pt (va + of_nat i)) \<longrightarrow> m' x = m x)"

lemma uwritten_pt:
  assumes wr: "uwritten pt m va k src m'" and w: "uwritable m pt va n" and "k \<le> n" and pt: "pt_ok m pt"
  shows "pt_ok m' pt" "lookup m' pt = lookup m pt" "tables m' pt = tables m pt"
    "upage m' pt = upage m pt" "phys m' pt = phys m pt" "uaccess m' pt = uaccess m pt"
proof -
  have "x \<noteq> phys m pt (va + of_nat i)" if "PGROUNDDOWN x \<in> tables m pt" "i < k" for x i
    using that w \<open>k \<le> n\<close> by (auto simp: uwritable_def page_of_phys)
  then have "m' x = m x" if "PGROUNDDOWN x \<in> tables m pt" for x
    using that wr unfolding uwritten_def by blast
  note ag = pt_agree [OF pt_okD(1) [OF pt] this]
  show "pt_ok m' pt" "lookup m' pt = lookup m pt" "tables m' pt = tables m pt"
    using ag pt by simp_all
  show u: "upage m' pt = upage m pt" using ag(2) by (simp add: upage_def uva_def fun_eq_iff)
  show "phys m' pt = phys m pt" "uaccess m' pt = uaccess m pt"
    by (simp_all add: phys_def uaccess_def fun_eq_iff u)
qed

lemma copyout_body_eq:
  assumes "pt_ok (mem s) pt" and "0 < len"
  shows "copyout_body pt (va, src, len) s =
    (if upage (mem s) pt va = 0 then Ok (Inr (-1)) s
     else Ok (Inl (PGROUNDDOWN va + PGSIZE, (\<lambda>i. src (i + unat (chunk va len))), len - chunk va len))
       (s\<lparr>mem := store (mem s) (phys (mem s) pt va) (unat (chunk va len)) src\<rparr>))"
  using assms upage_page [of "PGROUNDDOWN va" va "mem s" pt]
  by (simp add: copyout_body_def Let_def walkaddr_eq upage_def [symmetric] chunk_def [unfolded Let_def] phys_def)

lemma unat_diff_less_iff:
  fixes x a :: uint32
  assumes "n \<le> 2 ^ 32"
  shows "unat (x - a) < n \<longleftrightarrow> (\<exists>j < n. x = a + of_nat j)"
proof
  assume "unat (x - a) < n"
  moreover have "x = a + of_nat (unat (x - a))" by simp
  ultimately show "\<exists>j < n. x = a + of_nat j" by blast
next
  assume "\<exists>j < n. x = a + of_nat j"
  then show "unat (x - a) < n"
    using assms by (auto simp: unsigned_of_nat take_bit_nat_eq_self)
qed

lemma store_extend:
  fixes P :: "nat \<Rightarrow> uint32"
  assumes inj: "\<And>i j. i < n \<Longrightarrow> j < n \<Longrightarrow> P i = P j \<Longrightarrow> i = j"
    and p: "\<And>j. j < c \<Longrightarrow> P (k + j) = P k + of_nat j" and kc: "k + c \<le> n" and n: "n < 2 ^ 32"
    and m': "\<forall>i < k. m' (P i) = f i" "\<forall>x. (\<forall>i < k. x \<noteq> P i) \<longrightarrow> m' x = m x"
  defines "m'' \<equiv> store m' (P k) c (\<lambda>i. f (i + k))"
  shows "\<forall>i < k + c. m'' (P i) = f i" and "\<forall>x. (\<forall>i < k + c. x \<noteq> P i) \<longrightarrow> m'' x = m x"
proof -
  have c32: "c \<le> 2 ^ 32" "c < 2 ^ 32" using kc n by simp_all
  have in_iff: "unat (x - P k) < c \<longleftrightarrow> (\<exists>j < c. x = P (k + j))" for x
    using p by (auto simp: unat_diff_less_iff [OF c32(1)])
  show "\<forall>i < k + c. m'' (P i) = f i"
  proof (intro allI impI)
    fix i
    assume i: "i < k + c"
    show "m'' (P i) = f i"
    proof (cases "i < k")
      case True
      then have "P i \<noteq> P (k + j)" if "j < c" for j using inj [of i "k + j"] kc that by auto
      then have "\<not> unat (P i - P k) < c" using in_iff by blast
      then show ?thesis using True m'(1) by (simp add: store_def m''_def)
    next
      case False
      then obtain j where j: "i = k + j" "j < c" using i le_Suc_ex [of k i] by auto
      have "unat (P i - P k) = j" using p [OF j(2)] j c32 by (simp add: unsigned_of_nat take_bit_nat_eq_self)
      then show ?thesis using j by (simp add: store_def m''_def add.commute)
    qed
  qed
  show "\<forall>x. (\<forall>i < k + c. x \<noteq> P i) \<longrightarrow> m'' x = m x"
  proof (intro allI impI)
    fix x
    assume x: "\<forall>i < k + c. x \<noteq> P i"
    then have "\<not> unat (x - P k) < c" unfolding in_iff by auto
    moreover have "m' x = m x" using x m'(2) by simp
    ultimately show "m'' x = m x" by (simp add: store_def m''_def)
  qed
qed

lemma uwritten_step:
  assumes wr: "uwritten pt m va k src m'" and w: "uwritable m pt va n" and n: "n < 2 ^ 32"
    and kc: "k + unat (chunk (va + of_nat k) l) \<le> n"
  shows "uwritten pt m va (k + unat (chunk (va + of_nat k) l)) src
    (store m' (phys m pt (va + of_nat k)) (unat (chunk (va + of_nat k) l)) (\<lambda>i. src (i + k)))"
proof -
  have p: "phys m pt (va + of_nat (k + j)) = phys m pt (va + of_nat k) + of_nat j"
    if "j < unat (chunk (va + of_nat k) l)" for j
    using phys_add [OF chunk_in_page [OF that], of m pt] by (simp add: add.assoc)
  have "n \<le> 2 ^ 32" using n by simp
  note e = store_extend [where P = "\<lambda>i. phys m pt (va + of_nat i)" and m = m, OF phys_inj [OF w this] p kc n]
  show ?thesis
    using wr unfolding uwritten_def by (intro conjI e) blast+
qed

lemma copyout_eq:
  assumes pt: "pt_ok (mem s) pt" and w: "uwritable (mem s) pt va (unat len)"
  shows "returns (copyout pt va src len s) (\<lambda>r u. \<exists>k m. u = s\<lparr>mem := m\<rparr> \<and> uwritten pt (mem s) va k src m
    \<and> (if uaccess (mem s) pt va (unat len) then r = 0 \<and> k = unat len
       else r = -1 \<and> k < unat len \<and> uaccess (mem s) pt va k \<and> upage (mem s) pt (va + of_nat k) = 0))"
    (is "returns _ ?P")
proof -
  let ?n = "unat len" and ?m = "mem s"
  have n: "?n < 2 ^ 32" using unsigned_less [of len, where ?'a = nat] by simp
  let ?I = "\<lambda>(v, f, l) u. \<exists>k m. u = s\<lparr>mem := m\<rparr> \<and> f = (\<lambda>i. src (i + k)) \<and> at_byte va ?n k v l
     \<and> uaccess ?m pt va k \<and> uwritten pt ?m va k src m"
  show ?thesis
    unfolding copyout_def
  proof (rule wloop_rule [where I = ?I])
    show "?I (va, src, len) s"
      by (auto simp: at_byte_def uaccess_def uwritten_def intro!: exI [of _ 0] exI [of _ "mem s"])
  next
    fix l u
    assume "?I l u"
    then obtain k v r m where l: "l = (v, \<lambda>i. src (i + k), r)" and u: "u = s\<lparr>mem := m\<rparr>" and a: "at_byte va ?n k v r"
      and acc: "uaccess ?m pt va k" and wr: "uwritten pt ?m va k src m" by (cases l) auto
    have kn: "k \<le> ?n" using a by (simp add: at_byte_def)
    note ag = uwritten_pt [OF wr w kn pt]
    have ptu: "pt_ok (mem u) pt" using ag(1) by (simp add: u)
    show "returns (copyout_body pt l u) (\<lambda>x s'. case x of Inl l' \<Rightarrow> ?I l' s' \<and>
        (case l' of (_, _, len) \<Rightarrow> unat len) < (case l of (_, _, len) \<Rightarrow> unat len) | Inr a \<Rightarrow> ?P a s')"
    proof (cases "r = 0")
      case True
      then have "k = ?n" using a by (simp add: at_byte_def)
      with True show ?thesis using acc wr by (auto simp: l u copyout_body_def)
    next
      case False
      then have v: "v = va + of_nat k" and r: "0 < r" using a by (auto simp: at_byte_def word_gt_0)
      let ?c = "unat (chunk v r)" and ?m' = "store m (phys ?m pt v) (unat (chunk v r)) (\<lambda>i. src (i + k))"
      have b: "copyout_body pt l u = (if upage ?m pt v = 0 then Ok (Inr (-1)) (s\<lparr>mem := m\<rparr>)
          else Ok (Inl (PGROUNDDOWN v + PGSIZE, \<lambda>i. src (i + ?c + k), r - chunk v r)) (s\<lparr>mem := ?m'\<rparr>))"
        unfolding l copyout_body_eq [OF ptu r] using ag by (simp add: u)
      show ?thesis
      proof (cases "upage ?m pt v = 0")
        case True
        have k: "k < ?n" using a r by (auto simp: at_byte_def word_less_nat_alt)
        then have "\<not> uaccess ?m pt va ?n" using True v by (auto simp: uaccess_def)
        then have "?P (-1) (s\<lparr>mem := m\<rparr>)" using True k wr acc v by auto
        with True show ?thesis by (simp add: b)
      next
        case nz: False
        have "k + ?c \<le> ?n" using a chunk_le [of v r] by (simp add: at_byte_def)
        note wr' = uwritten_step [OF wr w n this [unfolded v]]
        have "?I (PGROUNDDOWN v + PGSIZE, \<lambda>i. src (i + ?c + k), r - chunk v r) (s\<lparr>mem := ?m'\<rparr>)"
          using wr' at_byte_next [OF a] uaccess_chunk [OF acc, of r] nz
          by (auto simp: v [symmetric] add.assoc add.commute [of k] intro!: exI [of _ "k + ?c"])
        then show ?thesis
          unfolding b using nz chunk_pos [OF r, of v] chunk_le [of v r] by (simp add: l unat_len_chunk)
      qed
    qed
  qed
qed

text \<open>What \<open>copyout\<close> put into a user buffer is what \<open>copyin\<close> gets out of it.\<close>

lemma uwritten_uread:
  assumes "uwritten pt m va n src m'" and "uwritable m pt va n" and "pt_ok m pt" and "i < n"
  shows "uread m' pt (va + of_nat i) = src i"
  using assms uwritten_pt(5) [OF assms(1,2) order_refl assms(3)] by (simp add: uread_def uwritten_def)

lemma copyout_copyin:
  assumes pt: "pt_ok (mem s) pt" and w: "uwritable (mem s) pt va (unat len)" and a: "uaccess (mem s) pt va (unat len)"
  shows "andthen (copyout pt va src len s) (\<lambda>_. copyin pt dst va len) =
    andthen (copyout pt va src len s) (\<lambda>_. Ok (0, blit dst 0 (unat len) src))"
proof -
  obtain m where u: "copyout pt va src len s = Ok 0 (s\<lparr>mem := m\<rparr>)" and wr: "uwritten pt (mem s) va (unat len) src m"
    using copyout_eq [OF pt w, of src] a by (auto simp: returns_iff)
  note ag = uwritten_pt [OF wr w order_refl pt]
  have "copyin pt dst va len (s\<lparr>mem := m\<rparr>) =
      Ok (0, blit dst 0 (unat len) (\<lambda>i. uread m pt (va + of_nat i))) (s\<lparr>mem := m\<rparr>)"
    using copyin_eq [of "s\<lparr>mem := m\<rparr>" pt dst va len] ag a by auto
  moreover have "blit dst 0 (unat len) (\<lambda>i. uread m pt (va + of_nat i)) = blit dst 0 (unat len) src"
    by (rule ext) (simp add: blit_def uwritten_uread [OF wr w pt])
  ultimately show ?thesis by (simp add: u)
qed

section \<open>copyinstr\<close>

lemma blit_Suc: "blit d k (Suc n) p = blit (d(k := p 0)) (Suc k) n (\<lambda>i. p (Suc i))"
proof
  fix i
  show "blit d k (Suc n) p i = blit (d(k := p 0)) (Suc k) n (\<lambda>i. p (Suc i)) i"
    by (cases "i = k") (auto simp: blit_def simp flip: Suc_diff_le)
qed

lemma copyinstr_page_stop:
  "j < n \<Longrightarrow> p j = 0 \<Longrightarrow> (\<forall>i < j. p i \<noteq> 0) \<Longrightarrow> copyinstr_page n p d k = (blit d k (Suc j) p, True)"
proof (induction n arbitrary: j p d k)
  case (Suc n)
  show ?case
  proof (cases j)
    case 0
    then show ?thesis using Suc.prems by (simp add: blit_Suc fun_upd_def)
  next
    case (Suc i)
    have "\<forall>l < i. p (Suc l) \<noteq> 0" using Suc.prems(3) Suc by simp
    moreover have "p 0 \<noteq> 0" using Suc.prems(3) Suc by simp
    ultimately show ?thesis
      using Suc.IH [of i "\<lambda>i. p (Suc i)" "d(k := p 0)" "Suc k"] Suc.prems Suc
      by (simp add: blit_Suc [of d k "Suc i"] fun_upd_def)
  qed
qed simp

lemma copyinstr_page_go:
  "(\<forall>i < n. p i \<noteq> 0) \<Longrightarrow> copyinstr_page n p d k = (blit d k n p, False)"
proof (induction n arbitrary: p d k)
  case (Suc n)
  have "\<forall>i < n. p (Suc i) \<noteq> 0" using Suc.prems by simp
  moreover have "p 0 \<noteq> 0" using Suc.prems by simp
  ultimately show ?case using Suc.IH [of "\<lambda>i. p (Suc i)"] by (simp add: blit_Suc)
qed simp

lemma copyinstr_body_eq:
  assumes "pt_ok (mem s) pt" and "0 < len"
  shows "copyinstr_body pt (d, k, va, len) s =
    (if upage (mem s) pt va = 0 then Ok (Inr (-1, d)) s
     else let (d', got_null) = copyinstr_page (unat (chunk va len)) (view (mem s) (phys (mem s) pt va)) d k
       in if got_null then Ok (Inr (0, d')) s
          else Ok (Inl (d', k + unat (chunk va len), PGROUNDDOWN va + PGSIZE, len - chunk va len)) s)"
  using assms upage_page [of "PGROUNDDOWN va" va "mem s" pt]
  by (simp add: copyinstr_body_def Let_def walkaddr_eq upage_def [symmetric] chunk_def [unfolded Let_def] phys_def
    split: prod.split)

lemma first_zero:
  fixes n :: nat
  shows "\<not> (\<forall>i < n. f i \<noteq> 0) \<Longrightarrow> \<exists>j < n. f j = (0 :: byte) \<and> (\<forall>i < j. f i \<noteq> 0)"
  using exists_least_iff [of "\<lambda>j. j < n \<and> f j = 0"] by (auto intro: less_trans)

lemma nonzero_append:
  fixes f :: bytes
  assumes "\<forall>i < k. f i \<noteq> 0" and "\<forall>j < c. f (k + j) \<noteq> 0"
  shows "\<forall>i < k + c. f i \<noteq> 0"
proof (intro allI impI)
  fix i
  assume "i < k + c"
  then show "f i \<noteq> 0" using assms(1) assms(2) [rule_format, of "i - k"] by (cases "i < k") auto
qed

lemma uaccess_le: "uaccess m pt va n \<Longrightarrow> k \<le> n \<Longrightarrow> uaccess m pt va k"
  by (simp add: uaccess_def)

lemma copyinstr_eq:
  fixes va mx :: uint32
  assumes pt: "pt_ok (mem s) pt"
  defines "f \<equiv> \<lambda>i. uread (mem s) pt (va + of_nat i)"
  shows "\<exists>k r d. copyinstr pt dst va mx s = Ok (r, d) s \<and> k \<le> unat mx \<and> uaccess (mem s) pt va k \<and> (\<forall>i < k. f i \<noteq> 0)
    \<and> (r = 0 \<and> k < unat mx \<and> upage (mem s) pt (va + of_nat k) \<noteq> 0 \<and> f k = 0 \<and> d = blit dst 0 (Suc k) f
       \<or> r = -1 \<and> (k = unat mx \<or> upage (mem s) pt (va + of_nat k) = 0))"
proof -
  let ?n = "unat mx" and ?a = "\<lambda>k. upage (mem s) pt (va + of_nat k)"
  let ?I = "\<lambda>(d, k, v, l) u. u = s \<and> at_byte va ?n k v l \<and> uaccess (mem s) pt va k \<and> d = blit dst 0 k f \<and> (\<forall>i < k. f i \<noteq> 0)"
  let ?P = "\<lambda>(r, d) u. u = s \<and> (\<exists>k \<le> ?n. uaccess (mem s) pt va k \<and> (\<forall>i < k. f i \<noteq> 0)
    \<and> (r = (0 :: int) \<and> k < ?n \<and> ?a k \<noteq> 0 \<and> f k = 0 \<and> d = blit dst 0 (Suc k) f \<or> r = -1 \<and> (k = ?n \<or> ?a k = 0)))"
  have "returns (copyinstr pt dst va mx s) ?P"
    unfolding copyinstr_def
  proof (rule wloop_rule [where I = ?I])
    show "?I (dst, 0, va, mx) s" by (simp add: at_byte_def uaccess_def)
  next
    fix l u
    assume "?I l u"
    then obtain k v r where l: "l = (blit dst 0 k f, k, v, r)" and u: "u = s" and a: "at_byte va ?n k v r"
      and acc: "uaccess (mem s) pt va k" and nz: "\<forall>i < k. f i \<noteq> 0" by (cases l) auto
    show "returns (copyinstr_body pt l u) (\<lambda>x s'. case x of Inl l' \<Rightarrow> ?I l' s' \<and>
        (case l' of (_, _, _, len) \<Rightarrow> unat len) < (case l of (_, _, _, len) \<Rightarrow> unat len) | Inr a \<Rightarrow> ?P a s')"
    proof (cases "r = 0 \<or> upage (mem s) pt v = 0")
      case True
      have "\<exists>k \<le> ?n. uaccess (mem s) pt va k \<and> (\<forall>i < k. f i \<noteq> 0) \<and> (k = ?n \<or> ?a k = 0)"
        using True a acc nz by (intro exI [of _ k]) (auto simp: at_byte_def)
      moreover have "copyinstr_body pt l u = Ok (Inr (-1, blit dst 0 k f)) s"
        using True copyinstr_body_eq [OF pt, of r "blit dst 0 k f" k v]
        by (cases "r = 0") (auto simp: l u copyinstr_body_def word_gt_0)
      ultimately show ?thesis by auto
    next
      case False
      then have v: "v = va + of_nat k" and r: "0 < r" and pg: "upage (mem s) pt v \<noteq> 0"
        using a by (auto simp: at_byte_def word_gt_0)
      let ?c = "unat (chunk v r)" and ?p = "view (mem s) (phys (mem s) pt v)"
      have p: "?p j = f (k + j)" if "j < ?c" for j using that by (simp add: f_def view_phys v add.assoc)
      have c: "k + ?c \<le> ?n" using a chunk_le [of v r] by (simp add: at_byte_def)
      have acc': "uaccess (mem s) pt va (k + ?c)" using uaccess_chunk [OF acc, of r] pg by (simp add: v)
      show ?thesis
      proof (cases "\<forall>i < ?c. ?p i \<noteq> 0")
        case True
        have "\<forall>i < k + ?c. f i \<noteq> 0" using True p by (intro nonzero_append [OF nz]) simp
        moreover have "blit (blit dst 0 k f) k ?c ?p = blit dst 0 (k + ?c) f" by (rule blit_blit) (rule p)
        ultimately show ?thesis
          using pg at_byte_next [OF a] acc' chunk_pos [OF r, of v] chunk_le [of v r] copyinstr_page_go [OF True]
          by (simp add: l u copyinstr_body_eq [OF pt r] unat_len_chunk)
      next
        case False
        then obtain j where j: "j < ?c" "?p j = 0" "\<forall>i < j. ?p i \<noteq> 0" using first_zero by blast
        have "blit (blit dst 0 k f) k (Suc j) ?p = blit dst 0 (k + Suc j) f"
          by (rule blit_blit) (use p j(1) in simp)
        then have b: "copyinstr_body pt l u = Ok (Inr (0, blit dst 0 (Suc (k + j)) f)) s"
          using pg copyinstr_page_stop [OF j] by (simp add: l u copyinstr_body_eq [OF pt r])
        have "\<forall>i < k + j. f i \<noteq> 0" using j p by (intro nonzero_append [OF nz]) simp
        moreover have "k + j < ?n" "f (k + j) = 0" using j c p [of j] by auto
        moreover have "uaccess (mem s) pt va (k + j)" "?a (k + j) \<noteq> 0"
          using acc' [unfolded uaccess_def, rule_format, of "k + j"] uaccess_le [OF acc', of "k + j"] j(1) by simp_all
        ultimately show ?thesis
          unfolding b by (auto intro!: exI [of _ "k + j"] less_imp_le)
      qed
    qed
  qed
  then show ?thesis by (auto simp: returns_iff)
qed

end
