(* ===== verification/Memory.thy ===== *)
theory Memory
  imports Uvm Usercopy
begin

text \<open>
  What the memory system promises its clients, \<open>kernel/kalloc.c\<close> and \<open>kernel/vm.c\<close> taken together: address spaces
  that grow, are copied and are torn down without losing a page, and copies to and from user
  memory. The statements are over the operations of the C code; the map a page table denotes
  (\<^const>\<open>lookup\<close>) and the list of free pages are their abstraction.
\<close>

section \<open>A small address space\<close>

text \<open>Three free pages; the table at \<open>0x80040000\<close> maps user page 0 to \<open>0x80045000\<close> through the second-level
  table \<open>0x80044000\<close>; the table at \<open>0x80046000\<close> is empty.\<close>

definition demo_mem :: "uint32 \<Rightarrow> byte" where
  "demo_mem = put32 (put32 (put32 (put32 (\<lambda>_. 0) 0x80041000 0x80042000) 0x80042000 0x80043000)
     0x80040000 (PA2PTE 0x80044000 OR PTE_V)) 0x80044000 (pte_new 0x80045000 (PTE_R OR PTE_W OR PTE_U))"

definition demo_space :: kstate where
  "demo_space = (bss demo_mem (\<lambda>_ _. 0))\<lparr>freelist := 0x80041000\<rparr>"

lemma demo_aligned:
  "aligned 0x80040000" "aligned 0x80041000" "aligned 0x80042000" "aligned 0x80043000" "aligned 0x80044000"
  "aligned 0x80045000" "aligned 0x80046000"
  by (simp_all add: aligned_def PGSIZE_def)

lemma pte_addr_00: "pte_addr t l 0 = t"
  by (simp add: pte_addr_def PX_def)

lemma get32_put32_page:
  assumes "aligned t" "aligned t'"
  shows "get32 (put32 m t e) (pte_addr t' l v) = (if t = t' \<and> PX l v = 0 then e else get32 m (pte_addr t' l v))"
proof (cases "t = t' \<and> PX l v = 0")
  case True
  then have "pte_addr t' l v = t" by (simp add: pte_addr_def)
  then show ?thesis using True by (simp add: mem_simps)
next
  case False
  then have "unat (PX l v) \<noteq> 0" if "t = t'" using that by (auto simp: unat_eq_zero)
  then show ?thesis
    using assms False get32_put32_off [of t t' 0 "unat (PX l v)" m e] PX_lt [of l v]
    by (auto simp: pte_addr_off)
qed

lemma demo_tbl: "tbl demo_mem 0x80040000 v = (if PX 1 v = 0 then Some 0x80044000 else None)"
proof -
  have "get32 demo_mem (pte_addr 0x80040000 1 v) = (if PX 1 v = 0 then PA2PTE 0x80044000 OR PTE_V else 0)"
    by (simp add: demo_mem_def get32_put32_page demo_aligned) (simp add: get32_def le32_def)
  then show ?thesis
    using PTE2PA_valid [OF demo_aligned(5)] by (simp add: tbl_def Let_def valid_bit PTE_V_def)
qed

lemma demo_lookup:
  "lookup demo_mem 0x80040000 v = (if PX 1 v = 0 \<and> PX 0 v = 0 then pte_new 0x80045000 (PTE_R OR PTE_W OR PTE_U) else 0)"
proof -
  have "get32 demo_mem (pte_addr 0x80044000 0 v) = (if PX 0 v = 0 then pte_new 0x80045000 (PTE_R OR PTE_W OR PTE_U) else 0)"
    by (simp add: demo_mem_def get32_put32_page demo_aligned) (simp add: get32_def le32_def)
  then show ?thesis by (simp add: lookup_def demo_tbl)
qed

lemma demo_empty: "tbl demo_mem 0x80046000 v = None" "lookup demo_mem 0x80046000 v = 0"
proof -
  have "get32 demo_mem (pte_addr 0x80046000 1 v) = 0"
    by (simp add: demo_mem_def get32_put32_page demo_aligned) (simp add: get32_def le32_def)
  then show "tbl demo_mem 0x80046000 v = None" by (simp add: tbl_def)
  then show "lookup demo_mem 0x80046000 v = 0" by (simp add: lookup_def)
qed

lemma demo_kmem: "kmem_ok demo_space [0x80041000, 0x80042000, 0x80043000]"
proof -
  have "get32 demo_mem 0x80041000 = 0x80042000" "get32 demo_mem 0x80042000 = 0x80043000" "get32 demo_mem 0x80043000 = 0"
    by (simp_all add: demo_mem_def get32_put32_other_page demo_aligned mem_simps) (simp add: get32_def le32_def)
  then show ?thesis
    by (simp add: kmem_ok_def demo_space_def bss_def page_ok_def demo_aligned PHYSTOP_def KERNBASE_def free_lk_def cpu_ok_def intr_get_def)
qed

lemma demo_pa: "PTE2PA (pte_new 0x80045000 (PTE_R OR PTE_W OR PTE_U)) = 0x80045000"
  by (rule pte_new_pa) (simp_all add: demo_aligned const_defs)

lemma PX_0: "PX l 0 = 0"
  by (simp add: PX_def)

lemma demo_tables: "tables demo_mem 0x80040000 = {0x80040000, 0x80044000}" "tables demo_mem 0x80046000 = {0x80046000}"
  by (auto simp: tables_def demo_tbl demo_empty PX_0 split: if_splits intro: exI [of _ 0])

lemma demo_upage: "upage demo_mem 0x80040000 0 = 0x80045000"
proof -
  have "pte_new 0x80045000 (PTE_R OR PTE_W OR PTE_U) AND PTE_U \<noteq> 0"
    by (simp add: pte_new_def perm_norm_def PA2PTE_def const_defs)
  then show ?thesis
    using pte_new_valid by (simp add: upage_def uva_def demo_lookup PX_0 demo_pa)
qed

lemma demo_mem_eq [simp]: "mem demo_space = demo_mem"
  by (simp add: demo_space_def bss_def)

lemma demo_as_ok:
  "as_ok demo_space 0x80040000 [0x80041000, 0x80042000, 0x80043000]"
  "as_ok demo_space 0x80046000 [0x80041000, 0x80042000, 0x80043000]"
  by (auto simp: as_ok_def demo_kmem pt_ok_def demo_tables demo_tbl demo_empty demo_aligned split: if_splits)

section \<open>Page tables\<close>

text \<open>C6. \<open>mappages\<close> refines the update of a map from virtual pages to entries: on success exactly the pages
  of the range are mapped, to consecutive physical pages and with the accessed and dirty bits the
  code sets, whatever the range (it may wrap around the top of the address space); it fails only
  when the free list runs out, and then a part of the range is mapped. Either way only table pages
  change, and the only pages taken off the free list become table pages.\<close>

theorem mappages_maps:
  assumes "as_ok s pt ps" and "sz \<noteq> 0"
    and "\<forall>v. pidx (PGROUNDDOWN va) v \<le> pidx (PGROUNDDOWN va) (va + sz - 1) \<longrightarrow> lookup (mem s) pt v AND PTE_V = 0"
  shows "returns (mappages pt va sz pa perm s) (\<lambda>r u. \<exists>qs. as_step pt s ps u qs \<and>
    (r = 0 \<and> lookup (mem u) pt = mapped (PGROUNDDOWN va) pa perm (Suc (pidx (PGROUNDDOWN va) (va + sz - 1))) (lookup (mem s) pt)
     \<or> r = -1 \<and> qs = [] \<and> (\<exists>k \<le> pidx (PGROUNDDOWN va) (va + sz - 1).
         lookup (mem u) pt = mapped (PGROUNDDOWN va) pa perm k (lookup (mem s) pt))))"
  using mappages_spec [OF assms(1,2), of va pa perm] assms(3) by (simp add: less_Suc_eq_le)

theorem mappages_maps_witness:
  "returns (mappages 0x80046000 0x1000 0x2000 0x80045000 PTE_W demo_space) (\<lambda>r u.
     r = 0 \<and> lookup (mem u) 0x80046000 0x1234 = pte_new 0x80045000 PTE_W
       \<and> lookup (mem u) 0x80046000 0x2fff = pte_new 0x80046000 PTE_W \<and> lookup (mem u) 0x80046000 0x3000 = 0
     \<or> r = -1 \<and> freelist u = 0)"
proof -
  have n: "pidx (PGROUNDDOWN 0x1000) (0x1000 + 0x2000 - 1) = 1" by (simp add: pidx_def PGROUNDDOWN_def PGSIZE_def)
  have "returns (mappages 0x80046000 0x1000 0x2000 0x80045000 PTE_W demo_space) (\<lambda>r u. \<exists>qs.
      as_step 0x80046000 demo_space [0x80041000, 0x80042000, 0x80043000] u qs \<and>
    (r = 0 \<and> lookup (mem u) 0x80046000 = mapped (PGROUNDDOWN 0x1000) 0x80045000 PTE_W (Suc 1) (lookup (mem demo_space) 0x80046000)
     \<or> r = -1 \<and> qs = [] \<and> (\<exists>k \<le> 1.
         lookup (mem u) 0x80046000 = mapped (PGROUNDDOWN 0x1000) 0x80045000 PTE_W k (lookup (mem demo_space) 0x80046000))))"
    using mappages_maps [OF demo_as_ok(2), of "0x2000" "0x1000" "0x80045000" PTE_W] unfolding n by (simp add: demo_empty)
  then show ?thesis
    by (rule returns_mono)
       (auto simp: mapped_def pidx_def PGROUNDDOWN_def PGSIZE_def demo_empty as_step_def as_ok_def kmem_ok_def)
qed

text \<open>C7. \<open>uvmunmap\<close> with \<open>do_free\<close> takes a run of mapped pages out of the map and gives the pages behind
  them back to the allocator, in that order; no other entry and no other memory changes, and it
  always returns.\<close>

theorem uvmunmap_frees:
  assumes "as_ok s pt ps" and "aligned va" and "unat n \<le> 2 ^ 20" and "frees s pt ps va (unat n)"
  shows "returns (uvmunmap pt va n True s) (\<lambda>_ u.
     as_ok u pt (rev (frames (lookup (mem s) pt) va (unat n)) @ ps)
     \<and> lookup (mem u) pt = unmapped va (unat n) (lookup (mem s) pt)
     \<and> (\<forall>x. PGROUNDDOWN x \<notin> tables (mem s) pt \<union> set (frames (lookup (mem s) pt) va (unat n)) \<longrightarrow> mem u x = mem s x))"
  using uvmunmap_free [OF assms] by (auto simp: as_free_def Let_def elim!: returns_mono)

theorem uvmunmap_frees_witness:
  "returns (uvmunmap 0x80040000 0 1 True demo_space) (\<lambda>_ u.
     as_ok u 0x80040000 [0x80045000, 0x80041000, 0x80042000, 0x80043000] \<and> lookup (mem u) 0x80040000 0 = 0)"
proof -
  have F: "frames (lookup (mem demo_space) 0x80040000) 0 (unat (1 :: uint32)) = [0x80045000]"
    by (simp add: frames_def demo_lookup PX_0 demo_pa)
  have f: "frees demo_space 0x80040000 [0x80041000, 0x80042000, 0x80043000] 0 (unat (1 :: uint32))"
    unfolding frees_def F Let_def
    by (simp add: demo_lookup PX_0 pte_new_leaf demo_tables page_ok_def demo_aligned demo_space_def bss_def PHYSTOP_def KERNBASE_def)
  show ?thesis
    by (rule returns_mono [OF uvmunmap_frees [OF demo_as_ok(1) aligned_0 _ f]])
       (simp_all add: F [simplified] unmapped_def pidx_def PGROUNDDOWN_def)
qed

section \<open>User address spaces\<close>

text \<open>C8. \<open>uvmalloc\<close> is all or nothing: either it returns the new size with every page of the extension mapped
  for the user to a fresh zeroed page, or it returns 0 with the map as it was before, every page
  it took given back or kept as a page-table page, and no other memory changed.\<close>

theorem uvmalloc_all_or_nothing:
  assumes "as_ok s pt ps" and "oldsz \<le> newsz" and "unat newsz \<le> 2 ^ 32 - 4096" and "xperm < 1024"
    and "\<forall>k < npages oldsz newsz. lookup (mem s) pt (PGROUNDUP oldsz + of_nat k * PGSIZE) AND PTE_V = 0"
  shows "returns (uvmalloc pt oldsz newsz xperm s) (\<lambda>r u.
      (\<exists>fs qs. r = newsz \<and> length fs = npages oldsz newsz
         \<and> as_grow (\<lambda>_. PTE_R OR PTE_U OR xperm) (\<lambda>_ _. 0) pt s ps (PGROUNDUP oldsz) fs u qs)
    \<or> (\<exists>k < npages oldsz newsz. r = 0 \<and> as_back pt s ps (PGROUNDUP oldsz) k u))"
  using uvmalloc_spec [OF assms(1-4)] assms(5) by simp

theorem uvmalloc_all_or_nothing_witness:
  "returns (uvmalloc 0x80040000 0x1000 0x2001 PTE_W demo_space) (\<lambda>r u.
     r = 0x2001 \<and> (\<exists>p q. lookup (mem u) 0x80040000 0x1000 = pte_new p (PTE_R OR PTE_U OR PTE_W)
       \<and> lookup (mem u) 0x80040000 0x2000 = pte_new q (PTE_R OR PTE_U OR PTE_W) \<and> mem u p = 0 \<and> p \<noteq> q)
     \<or> r = 0 \<and> lookup (mem u) 0x80040000 0 = lookup demo_mem 0x80040000 0)" (is "returns _ ?Q")
proof -
  have n: "npages 0x1000 0x2001 = 2" "PGROUNDUP 0x1000 = 0x1000" by (simp_all add: npages_def PGROUNDUP_def PGSIZE_def)
  have px: "PX 0 0x1000 = 1" "PX 0 0x2000 = 2" by (simp_all add: PX_def)
  have l: "\<forall>k < 2. lookup (mem demo_space) 0x80040000 (0x1000 + of_nat k * PGSIZE) AND PTE_V = 0"
    by (auto simp: demo_lookup px PGSIZE_def dest!: less_2_cases)
  note t = uvmalloc_all_or_nothing [OF demo_as_ok(1), of "0x1000" "0x2001" PTE_W, unfolded n, OF _ _ _ l]
  have "returns (uvmalloc 0x80040000 0x1000 0x2001 PTE_W demo_space) (\<lambda>r u.
      (\<exists>fs qs. r = 0x2001 \<and> length fs = 2 \<and> as_grow (\<lambda>_. PTE_R OR PTE_U OR PTE_W) (\<lambda>_ _. 0) 0x80040000 demo_space
         [0x80041000, 0x80042000, 0x80043000] 0x1000 fs u qs)
    \<or> (\<exists>k < 2. r = 0 \<and> as_back 0x80040000 demo_space [0x80041000, 0x80042000, 0x80043000] 0x1000 k u))"
    by (rule t) (simp_all add: PTE_W_def)
  then show ?thesis
  proof (rule returns_mono, elim disjE exE conjE)
    fix r :: uint32 and u fs qs
    assume r: "r = 0x2001" and len: "length fs = 2" and g: "as_grow (\<lambda>_. PTE_R OR PTE_U OR PTE_W) (\<lambda>_ _. 0) 0x80040000
      demo_space [0x80041000, 0x80042000, 0x80043000] 0x1000 fs u qs"
    obtain p q where fs: "fs = [p, q]" using len by (auto simp: numeral_2_eq_2 length_Suc_conv)
    have "mem u p = 0" using as_growD(3) [OF g, of 0 0] by (simp add: fs PGBYTES_def)
    moreover have "p \<noteq> q" using as_grow_pages(1) [OF demo_as_ok(1) g] by (simp add: fs)
    moreover have "pidx 0x1000 0x1000 = 0" "pidx 0x1000 0x2000 = 1" by (simp_all add: pidx_def PGROUNDDOWN_def PGSIZE_def)
    ultimately show "?Q r u"
      using r as_growD(2) [OF g] by (auto simp: fs)
  next
    fix r :: uint32 and u k
    assume "r = 0" "(k :: nat) < 2" and b: "as_back 0x80040000 demo_space [0x80041000, 0x80042000, 0x80043000] 0x1000 k u"
    moreover have "\<not> pidx 0x1000 0 < 2" by (simp add: pidx_def PGROUNDDOWN_def PGSIZE_def)
    ultimately show "?Q r u"
      by (auto simp: as_back_def)
  qed
qed

text \<open>C9. \<open>uvmcopy\<close> gives the child its own copy: on success each of the parent's pages below \<open>sz\<close> has in the
  child's map an entry with the same flags to a page that was free before, is none of the parent's pages, and holds what the parent's page
  held before the call; when memory runs out it returns -1 and the child's map is as before. In both cases the parent's map and the contents of
  its pages stay as they were.\<close>

theorem uvmcopy_copies:
  assumes "as_ok s new ps" and "unat sz \<le> 2 ^ 32 - 4096" and "copy_src s old new ps (npages 0 sz)"
    and "\<forall>k < npages 0 sz. lookup (mem s) new (of_nat k * PGSIZE) AND PTE_V = 0"
  shows "returns (uvmcopy old new sz s) (\<lambda>r u. parent_kept s old (npages 0 sz) u
      \<and> (r = 0 \<and> copied s old new ps (npages 0 sz) u \<or> r = -1 \<and> (\<exists>k < npages 0 sz. as_back new s ps 0 k u)))"
proof -
  have "lookup (mem s) new (of_nat k * PGSIZE) AND PTE_V = 0" if "k < npages 0 sz" for k
    using assms(4) that by blast
  note c = uvmcopy_spec [OF assms(1-3) this] and n = npages_0_le [OF assms(2)]
  have "parent_kept s old (npages 0 sz) u \<and> copied s old new ps (npages 0 sz) u"
    if "length fs = npages 0 sz" "as_grow (copy_perm s old) (copy_data s old) new s ps 0 fs u qs" for fs u qs
    using as_grow_copied [OF assms(1) _ _ that(2)] assms(3) n that(1) by simp
  then show ?thesis
    by - (rule returns_mono [OF c], assumption, use as_back_old [OF assms(3)] in blast)
qed

theorem uvmcopy_copies_witness:
  "returns (uvmcopy 0x80040000 0x80046000 0x234 demo_space) (\<lambda>r u. lookup (mem u) 0x80040000 0 = lookup demo_mem 0x80040000 0
     \<and> (r = 0 \<and> (\<exists>p. lookup (mem u) 0x80046000 0 = pte_new p (PTE_FLAGS (lookup demo_mem 0x80040000 0))
          \<and> p \<noteq> PTE2PA (lookup demo_mem 0x80040000 0) \<and> mem u (p + 8) = demo_mem (PTE2PA (lookup demo_mem 0x80040000 0) + 8))
        \<or> r = -1 \<and> lookup (mem u) 0x80046000 0x1000 = 0))"
proof -
  have n: "npages 0 0x234 = 1" by (simp add: npages_def PGROUNDUP_def PGSIZE_def)
  have src: "copy_src demo_space 0x80040000 0x80046000 [0x80041000, 0x80042000, 0x80043000] (npages 0 0x234)"
    unfolding n using demo_as_ok(1)
    by (simp add: copy_src_def as_ok_def demo_tables demo_lookup PX_0 pte_new_valid demo_pa)
  show ?thesis
  proof (rule returns_mono [OF uvmcopy_copies [OF demo_as_ok(2) _ src]], simp, simp add: demo_empty)
    fix r u
    assume "parent_kept demo_space 0x80040000 (npages 0 0x234) u
      \<and> (r = 0 \<and> copied demo_space 0x80040000 0x80046000 [0x80041000, 0x80042000, 0x80043000] (npages 0 0x234) u \<or> r = -1 \<and> (\<exists>k < npages 0 0x234.
        as_back 0x80046000 demo_space [0x80041000, 0x80042000, 0x80043000] 0 k u))"
    moreover have "mem u (p + 8) = m (q + 8)" if "\<forall>j < PGBYTES. mem u (p + of_nat j) = m (q + of_nat j)" for p q and m :: "uint32 \<Rightarrow> byte"
      using that [rule_format, of 8] by (simp add: PGBYTES_def)
    ultimately show "lookup (mem u) 0x80040000 0 = lookup demo_mem 0x80040000 0
     \<and> (r = 0 \<and> (\<exists>p. lookup (mem u) 0x80046000 0 = pte_new p (PTE_FLAGS (lookup demo_mem 0x80040000 0))
          \<and> p \<noteq> PTE2PA (lookup demo_mem 0x80040000 0) \<and> mem u (p + 8) = demo_mem (PTE2PA (lookup demo_mem 0x80040000 0) + 8))
        \<or> r = -1 \<and> lookup (mem u) 0x80046000 0x1000 = 0)"
      unfolding n by (auto simp: copied_def as_back_def parent_kept_def demo_empty)
  qed
qed

section \<open>Copies to and from user memory\<close>

text \<open>C10. What \<open>copyout\<close> writes to a user buffer is what \<open>copyin\<close> reads back from it, for any length and
  alignment and across page boundaries; both succeed when every byte of the buffer is mapped for the user.\<close>

theorem copyout_copyin_roundtrip:
  assumes "pt_ok (mem s) pt" and "uwritable (mem s) pt va (unat len)" and "uaccess (mem s) pt va (unat len)"
  shows "\<exists>u. copyout pt va src len s = Ok 0 u
    \<and> (\<exists>d. copyin pt dst va len u = Ok (0, d) u \<and> (\<forall>i < unat len. d i = src i) \<and> (\<forall>i \<ge> unat len. d i = dst i))
    \<and> (\<forall>x. (\<forall>i < unat len. x \<noteq> phys (mem s) pt (va + of_nat i)) \<longrightarrow> mem u x = mem s x)"
proof -
  obtain m where u: "copyout pt va src len s = Ok 0 (s\<lparr>mem := m\<rparr>)" and w: "uwritten pt (mem s) va (unat len) src m"
    using copyout_eq [OF assms(1,2), of src] assms(3) by (auto simp: returns_iff)
  have "copyin pt dst va len (s\<lparr>mem := m\<rparr>) = Ok (0, blit dst 0 (unat len) src) (s\<lparr>mem := m\<rparr>)"
    using copyout_copyin [OF assms, of src dst] by (simp add: u)
  with w show ?thesis unfolding u by (auto simp: blit_def uwritten_def)
qed

theorem copyout_copyin_roundtrip_witness:
  "\<exists>u. copyout 0x80040000 0x10 (\<lambda>i. of_nat i) 300 demo_space = Ok 0 u
    \<and> (\<exists>d. copyin 0x80040000 (\<lambda>_. 7) 0x10 300 u = Ok (0, d) u \<and> d 299 = 43 \<and> d 300 = 7)"
proof -
  have pg: "upage demo_mem 0x80040000 (0x10 + of_nat i) = 0x80045000 \<and> PGROUNDDOWN (0x10 + of_nat i) = 0" if "i < 300" for i
  proof -
    have p: "PGROUNDDOWN (0x10 + of_nat i) = PGROUNDDOWN 0x10"
      using that by (intro same_page) (simp add: PGROUNDDOWN_def PGSIZE_def)
    with demo_upage show ?thesis
      using upage_page [of "0x10 + of_nat i" 0 demo_mem] by (simp add: PGROUNDDOWN_def PGSIZE_def)
  qed
  have "uwritable (mem demo_space) 0x80040000 0x10 (unat (300 :: uint32))" "uaccess (mem demo_space) 0x80040000 0x10 (unat (300 :: uint32))"
    using pg by (simp_all add: uwritable_def uaccess_def demo_tables)
  from copyout_copyin_roundtrip [OF as_okD(2) [OF demo_as_ok(1)] this, of "\<lambda>i. of_nat i" "\<lambda>_. 7"]
  obtain u d where "copyout 0x80040000 0x10 (\<lambda>i. of_nat i) 300 demo_space = Ok 0 u"
    "copyin 0x80040000 (\<lambda>_. 7) 0x10 300 u = Ok (0, d) u" "\<forall>i < 300. d i = of_nat i" "\<forall>i \<ge> 300. d i = 7" by auto
  then show ?thesis by auto
qed

text \<open>C11. \<open>copyinstr\<close> always returns, changes no memory, and copies a string exactly when there is one: it
  succeeds if and only if there is a NUL within the limit with every byte up to it mapped for the
  user, and then the destination holds the string and its NUL and is otherwise as before.\<close>

theorem copyinstr_string:
  assumes "pt_ok (mem s) pt"
  shows "\<exists>r d. copyinstr pt dst va mx s = Ok (r, d) s \<and> (r = 0 \<or> r = -1)
    \<and> (r = 0 \<longleftrightarrow> (\<exists>k < unat mx. uaccess (mem s) pt va (Suc k) \<and> uread (mem s) pt (va + of_nat k) = 0))
    \<and> (r = 0 \<longrightarrow> (\<exists>k < unat mx. d = blit dst 0 (Suc k) (\<lambda>i. uread (mem s) pt (va + of_nat i)) \<and> d k = 0 \<and> (\<forall>i < k. d i \<noteq> 0)))"
proof -
  let ?f = "\<lambda>i. uread (mem s) pt (va + of_nat i)" and ?a = "\<lambda>k. upage (mem s) pt (va + of_nat k)"
  obtain k r d where c: "copyinstr pt dst va mx s = Ok (r, d) s" "k \<le> unat mx" "uaccess (mem s) pt va k" "\<forall>i < k. ?f i \<noteq> 0"
    and rd: "r = 0 \<and> k < unat mx \<and> ?a k \<noteq> 0 \<and> ?f k = 0 \<and> d = blit dst 0 (Suc k) ?f \<or> r = -1 \<and> (k = unat mx \<or> ?a k = 0)"
    using copyinstr_eq [OF assms, of dst va mx] by blast
  have "\<not> (\<exists>j < unat mx. uaccess (mem s) pt va (Suc j) \<and> ?f j = 0)" if "k = unat mx \<or> ?a k = 0"
  proof
    assume "\<exists>j < unat mx. uaccess (mem s) pt va (Suc j) \<and> ?f j = 0"
    then obtain j where j: "j < unat mx" "uaccess (mem s) pt va (Suc j)" "?f j = 0" by blast
    have "k \<le> j" using j(3) c(4) by (meson not_less)
    then show False using that j by (auto simp: uaccess_def)
  qed
  moreover have "uaccess (mem s) pt va (Suc k)" if "?a k \<noteq> 0" using c(3) that by (auto simp: uaccess_def less_Suc_eq)
  moreover have "blit dst 0 (Suc k) ?f k = ?f k" "\<forall>i < k. blit dst 0 (Suc k) ?f i = ?f i" by (simp_all add: blit_def)
  ultimately show ?thesis
    using rd c by (intro exI [of _ r] exI [of _ d]) auto
qed

theorem copyinstr_string_witness:
  "(\<exists>d. copyinstr 0x80046000 (\<lambda>_. 7) 0 100 demo_space = Ok (-1, d) demo_space)
   \<and> (\<exists>d. copyinstr 0x80040000 (\<lambda>_. 7) 0 100 demo_space = Ok (0, d) demo_space \<and> (\<exists>k < 100. d k = 0))"
proof
  have "\<not> uaccess (mem demo_space) 0x80046000 0 (Suc k)" for k
    by (auto simp: uaccess_def upage_def uva_def demo_empty intro!: exI [of _ 0])
  then show "\<exists>d. copyinstr 0x80046000 (\<lambda>_. 7) 0 100 demo_space = Ok (-1, d) demo_space"
    using copyinstr_string [OF as_okD(2) [OF demo_as_ok(2)], of "\<lambda>_. 7" 0 100] by auto
next
  have "demo_mem 0x80045000 = 0"
    by (simp add: demo_mem_def put32_other_page demo_aligned PGROUNDDOWN_aligned)
  then have "uaccess (mem demo_space) 0x80040000 0 (Suc 0)" "uread (mem demo_space) 0x80040000 (0 + of_nat 0) = 0"
    by (simp_all add: uaccess_def uread_def phys_def demo_upage PGROUNDDOWN_aligned)
  then have "\<exists>k < unat (100 :: uint32). uaccess (mem demo_space) 0x80040000 0 (Suc k) \<and> uread (mem demo_space) 0x80040000 (0 + of_nat k) = 0"
    by (intro exI [of _ 0]) simp
  then show "\<exists>d. copyinstr 0x80040000 (\<lambda>_. 7) 0 100 demo_space = Ok (0, d) demo_space \<and> (\<exists>k < 100. d k = 0)"
    using copyinstr_string [OF as_okD(2) [OF demo_as_ok(1)], of "\<lambda>_. 7" 0 100] by auto
qed

section \<open>The allocator\<close>

text \<open>C12. After \<open>kinit\<close> every page between the end of the kernel and \<open>PHYSTOP\<close> is free: as many calls of
  \<open>kalloc\<close> return each of them once, highest first, and every further call returns the null pointer.\<close>

theorem kinit_kalloc_all:
  assumes "cpu_ok s" and "freelist s = 0" and "0 < PGROUNDUP (k_end s)"
    and "k_end s \<le> PGROUNDUP (k_end s)" and "PGROUNDUP (k_end s) \<le> PHYSTOP"
  defines "pages \<equiv> rev (pages_from (PGROUNDUP (k_end s)) (unat (PHYSTOP - PGROUNDUP (k_end s)) div 4096))"
  shows "\<exists>t u. kinit s = Ok () t \<and> kmem.alloc_many (length pages + n) t = Ok (pages @ replicate n 0) u \<and> distinct pages"
proof -
  obtain t where t: "kinit s = Ok () t" "kmem_ok t pages" using kinit_ok [OF assms(1-5)] by (auto simp: pages_def)
  with kmem.alloc_many_exhausted [OF t(2), of n] show ?thesis by (auto simp: kmem_ok_def)
qed

theorem kinit_kalloc_all_witness:
  "\<exists>t u. kinit ((bss (\<lambda>_. 0) (\<lambda>_ _. 0))\<lparr>k_end := 0x80ffe800\<rparr>) = Ok () t
     \<and> kmem.alloc_many 3 t = Ok [0x80fff000, 0, 0] u"
proof -
  let ?s = "(bss (\<lambda>_. 0) (\<lambda>_ _. 0))\<lparr>k_end := 0x80ffe800\<rparr>"
  have a: "cpu_ok ?s" "freelist ?s = 0" "0 < PGROUNDUP (k_end ?s)" "k_end ?s \<le> PGROUNDUP (k_end ?s)" "PGROUNDUP (k_end ?s) \<le> PHYSTOP"
    by (simp_all add: bss_def cpu_ok_def intr_get_def PGROUNDUP_def PGSIZE_def PHYSTOP_def KERNBASE_def)
  have p: "rev (pages_from (PGROUNDUP (k_end ?s)) (unat (PHYSTOP - PGROUNDUP (k_end ?s)) div 4096)) = [0x80fff000]"
    by (simp add: bss_def PGROUNDUP_def PGSIZE_def PHYSTOP_def KERNBASE_def pages_from_def)
  from kinit_kalloc_all [OF a, of 2, unfolded p] show ?thesis by (simp add: numeral_2_eq_2 numeral_3_eq_3)
qed

text \<open>C13. \<open>memmove\<close> copies as if through a temporary: whatever the overlap of source and destination, the
  destination afterwards holds what the source held before, and nothing else changes.\<close>

theorem memmove_overlap:
  assumes "unat src + unat n \<le> 2 ^ 32" and "unat dst + unat n \<le> 2 ^ 32"
  shows "(\<forall>i < unat n. memmove m dst src n (dst + of_nat i) = m (src + of_nat i))
    \<and> (\<forall>x. (\<forall>i < unat n. x \<noteq> dst + of_nat i) \<longrightarrow> memmove m dst src n x = m x)"
proof -
  have n: "unat n \<le> 2 ^ 32" using assms(1) by simp
  have e: "memmove m dst src n = store m dst (unat n) (view m src)" by (rule memmove_eq [OF assms])
  have "store m dst (unat n) (view m src) (dst + of_nat i) = m (src + of_nat i)" if "i < unat n" for i
    using view_store [of i "unat n" m dst "view m src"] that n by (simp add: view_def)
  moreover have "store m dst (unat n) (view m src) x = m x" if "\<forall>i < unat n. x \<noteq> dst + of_nat i" for x
    using that unat_diff_less_iff [OF n, of x dst] by (intro store_outside) auto
  ultimately show ?thesis by (simp add: e)
qed

theorem memmove_overlap_witness:
  "memmove (\<lambda>x. ucast x) 0x1002 0x1000 6 0x1007 = 5 \<and> memmove (\<lambda>x. ucast x) 0x1000 0x1002 6 0x1000 = (2 :: byte)
   \<and> memmove (\<lambda>x. ucast x) 0x1002 0x1000 6 0x1008 = (8 :: byte)"
proof -
  note a = memmove_overlap [of "0x1000" 6 "0x1002" "\<lambda>x. ucast x"] and b = memmove_overlap [of "0x1002" 6 "0x1000" "\<lambda>x. ucast x"]
  have "\<forall>i < unat (6 :: uint32). 0x1008 \<noteq> (0x1002 :: uint32) + of_nat i"
  proof (intro allI impI notI)
    fix i
    assume i: "i < unat (6 :: uint32)" and e: "0x1008 = (0x1002 :: uint32) + of_nat i"
    have "of_nat i = (0x1008 - 0x1002 :: uint32)" unfolding e by simp
    then have "unat (of_nat i :: uint32) = 6" by simp
    with i show False by (simp add: unsigned_of_nat take_bit_nat_eq_self)
  qed
  then show ?thesis
    using a b by (auto dest: spec [of _ 5] spec [of _ 0] spec [of _ "0x1008"])
qed

end
