(* ===== verification/Concurrency.thy ===== *)
theory Concurrency
  imports Sleeplock
begin

text \<open>
  What \<open>kernel/spinlock.c\<close>, \<open>kernel/sleeplock.c\<close> and the scheduling part of \<open>kernel/proc.c\<close> guarantee together: interrupts
  stay off while a spin lock is held, the scheduler always gets the CPU back and never stops,
  a sleeper is woken and gets its lock again, and at most one process owns a sleep lock.
\<close>

section \<open>The scheduler and its threads\<close>

text \<open>A thread handed the CPU finds itself \<open>ready\<close>; it must give the CPU back \<open>parked\<close>, which is what the
  checks of \<open>sched\<close> enforce, without taking the CPU from another process that waits for it, and so
  on for ever. That is \<open>polite\<close>.\<close>

definition others_free :: "nat \<Rightarrow> kstate \<Rightarrow> bool" where
  "others_free p s \<longleftrightarrow> (\<forall>q < NPROC. q \<noteq> p \<longrightarrow> free_lk (LkProc q) s)"

definition ready :: "nat \<Rightarrow> kstate \<Rightarrow> bool" where
  "ready p s \<longleftrightarrow> resumed p s \<and> p_state (procs s p) = RUNNING \<and> others_free p s"

definition parked :: "nat \<Rightarrow> kstate \<Rightarrow> bool" where
  "parked p s \<longleftrightarrow> resumed p s \<and> p_state (procs s p) \<noteq> RUNNING \<and> others_free p s"

definition spares :: "nat \<Rightarrow> kstate \<Rightarrow> kstate \<Rightarrow> bool" where
  "spares p s t \<longleftrightarrow> (\<forall>q. q \<noteq> p \<longrightarrow> p_state (procs s q) = RUNNABLE \<longrightarrow> p_state (procs t q) = RUNNABLE)"

coinductive polite :: "nat \<Rightarrow> (kstate \<Rightarrow> unit kres) \<Rightarrow> bool" where
  "(\<And>s. ready p s \<Longrightarrow> \<exists>s' k. f s = Swtch s' k \<and> parked p s' \<and> spares p s s' \<and> polite p k) \<Longrightarrow> polite p f"

inductive_cases politeE: "polite p f"

lemma politeD: "polite p f \<Longrightarrow> ready p s \<Longrightarrow> \<exists>s' k. f s = Swtch s' k \<and> parked p s' \<and> spares p s s' \<and> polite p k"
  by (erule politeE) blast

text \<open>The CPU between two processes.\<close>

definition idle :: "kstate \<Rightarrow> bool" where
  "idle s \<longleftrightarrow> c_noff (cpu s) = 0 \<and> c_proc (cpu s) = None \<and> (\<forall>p < NPROC. free_lk (LkProc p) s)"

text \<open>The state in which \<open>scheduler\<close> hands the CPU to \<open>p\<close>.\<close>

definition dispatch :: "nat \<Rightarrow> kstate \<Rightarrow> kstate" where
  "dispatch p s = s\<lparr>csr := (csr s)\<lparr>csr_sie := False\<rparr>,
     locks := (locks s)(LkProc p := (locks s (LkProc p))\<lparr>lk_locked := True, lk_cpu := Some 0\<rparr>),
     procs := (procs s)(p := (procs s p)\<lparr>p_state := RUNNING\<rparr>), cpu := \<lparr>c_proc = Some p, c_noff = 1, c_intena = intr_get s\<rparr>\<rparr>"

text \<open>The state after it has come back and its lock is released.\<close>

definition retire :: "nat \<Rightarrow> kstate \<Rightarrow> kstate" where
  "retire p s = s\<lparr>csr := (csr s)\<lparr>csr_sie := c_intena (cpu s)\<rparr>, cpu := (cpu s)\<lparr>c_proc := None, c_noff := 0\<rparr>,
     locks := (locks s)(LkProc p := (locks s (LkProc p))\<lparr>lk_cpu := None, lk_locked := False\<rparr>)\<rparr>"

lemma acquire_idle:
  assumes "idle s" and "p < NPROC"
  shows "acquire (LkProc p) s = Ok () (s\<lparr>csr := (csr s)\<lparr>csr_sie := False\<rparr>,
     cpu := \<lparr>c_proc = None, c_noff = 1, c_intena = intr_get s\<rparr>,
     locks := (locks s)(LkProc p := (locks s (LkProc p))\<lparr>lk_locked := True, lk_cpu := Some 0\<rparr>)\<rparr>)"
  using assms
  by (simp add: idle_def acquire_def Let_def push_off_def intr_off_def holding_def free_lk_def cpuid_def)

lemma release_resumed:
  assumes "holding (LkProc p) s" and "c_noff (cpu s) = 1" and "\<not> intr_get s"
  shows "release (LkProc p) s = Ok () (s\<lparr>csr := (csr s)\<lparr>csr_sie := c_intena (cpu s)\<rparr>, cpu := (cpu s)\<lparr>c_noff := 0\<rparr>,
     locks := (locks s)(LkProc p := (locks s (LkProc p))\<lparr>lk_cpu := None, lk_locked := False\<rparr>)\<rparr>)"
proof -
  have "(csr s)\<lparr>csr_sie := False\<rparr> = csr s" using assms(3) by (intro csrs.equality) (simp_all add: intr_get_def)
  then show ?thesis
    using assms by (cases "c_intena (cpu s)") (auto simp: release_def pop_off_def Let_def intr_on_def intr_get_def
      intro!: kstate.equality)
qed

lemma ready_dispatch: "idle s \<Longrightarrow> p < NPROC \<Longrightarrow> ready p (dispatch p s)"
  by (auto simp: idle_def ready_def resumed_def dispatch_def holding_def cpuid_def intr_get_def others_free_def free_lk_def)

lemma idle_retire: "parked p s \<Longrightarrow> p < NPROC \<Longrightarrow> idle (retire p s)"
  by (auto simp: idle_def parked_def retire_def others_free_def free_lk_def)

lemma scheduler_slot_runs:
  assumes s: "idle s" "p < NPROC" and th: "polite p (th p)" and r: "p_state (procs s p) = RUNNABLE"
  shows "\<exists>t k. th p (dispatch p s) = Swtch t k \<and> parked p t \<and> spares p s t \<and> polite p k
    \<and> scheduler_slot p (s, th) = Ok None (retire p t, th(p := k))"
proof -
  obtain t k where t: "th p (dispatch p s) = Swtch t k" "parked p t" "polite p k" "spares p (dispatch p s) t"
    using politeD [OF th ready_dispatch [OF s]] by blast
  have "spares p s t" using t(4) by (simp add: spares_def dispatch_def)
  have "release (LkProc p) (t\<lparr>cpu := (cpu t)\<lparr>c_proc := None\<rparr>\<rparr>) = Ok () (retire p t)"
    using t(2) by (subst release_resumed) (auto simp: parked_def resumed_def holding_def intr_get_def cpuid_def retire_def)
  then have "scheduler_slot p (s, th) = Ok None (retire p t, th(p := k))"
    using r t(1) by (simp add: scheduler_slot_def acquire_idle [OF s] upd_proc_def Let_def dispatch_def)
  with t \<open>spares p s t\<close> show ?thesis by blast
qed

lemma scheduler_slot_skips:
  assumes s: "idle s" "p < NPROC" and r: "p_state (procs s p) \<noteq> RUNNABLE"
  shows "\<exists>t. scheduler_slot p (s, th) = Ok None (t, th) \<and> idle t \<and> procs t = procs s \<and> intr_get t = intr_get s"
  using r s by (simp add: scheduler_slot_def acquire_idle [OF s] release_resumed holding_def cpuid_def intr_get_def)
     (auto simp: idle_def free_lk_def)

lemma scheduler_slot_ok:
  assumes "idle s" "p < NPROC" "\<forall>q < NPROC. polite q (th q)"
  shows "\<exists>t th'. scheduler_slot p (s, th) = Ok None (t, th') \<and> idle t \<and> (\<forall>q < NPROC. polite q (th' q))
    \<and> spares p s t \<and> (\<forall>q. q \<noteq> p \<longrightarrow> th' q = th q)"
proof (cases "p_state (procs s p) = RUNNABLE")
  case True
  then obtain t k where t: "parked p t" "spares p s t" "polite p k" "scheduler_slot p (s, th) = Ok None (retire p t, th(p := k))"
    using assms scheduler_slot_runs [of s p th] by blast
  moreover have "spares p s (retire p t)" using t(2) by (simp add: spares_def retire_def)
  ultimately show ?thesis using assms idle_retire [OF t(1) assms(2)] by auto
next
  case False
  then obtain t where "scheduler_slot p (s, th) = Ok None (t, th)" "idle t" "procs t = procs s"
    using scheduler_slot_skips [OF assms(1,2)] by blast
  with assms(3) show ?thesis by (auto simp: spares_def)
qed

lemma scheduler_slots:
  assumes "idle s" and "\<forall>q < NPROC. polite q (th q)" and "set ps \<subseteq> {..<NPROC}"
  shows "\<exists>t th'. for_each ps scheduler_slot (s, th) = Ok None (t, th') \<and> idle t \<and> (\<forall>q < NPROC. polite q (th' q))
    \<and> (\<forall>q. q \<notin> set ps \<longrightarrow> th' q = th q \<and> (p_state (procs s q) = RUNNABLE \<longrightarrow> p_state (procs t q) = RUNNABLE))"
  using assms
proof (induction ps arbitrary: s th)
  case (Cons p ps)
  obtain t th' where t: "scheduler_slot p (s, th) = Ok None (t, th')" "idle t" "\<forall>q < NPROC. polite q (th' q)"
      "spares p s t" "\<forall>q. q \<noteq> p \<longrightarrow> th' q = th q"
    using scheduler_slot_ok [OF Cons.prems(1) _ Cons.prems(2), of p] Cons.prems(3) by auto
  obtain u th'' where "for_each ps scheduler_slot (t, th') = Ok None (u, th'')" "idle u" "\<forall>q < NPROC. polite q (th'' q)"
      "\<forall>q. q \<notin> set ps \<longrightarrow> th'' q = th' q \<and> (p_state (procs t q) = RUNNABLE \<longrightarrow> p_state (procs u q) = RUNNABLE)"
    using Cons.IH [OF t(2,3)] Cons.prems(3) by auto
  with t show ?case by (auto simp: spares_def)
qed auto

text \<open>A round as the slots before \<open>p\<close>, the slot of \<open>p\<close> and those after it.\<close>

lemma scheduler_round_reaches:
  assumes s: "idle s" and th: "\<forall>q < NPROC. polite q (th q)" and p: "p < NPROC"
    and r: "p_state (procs s p) = RUNNABLE"
  shows "\<exists>u t k s' th'. idle u \<and> p_state (procs u p) = RUNNABLE \<and> th p (dispatch p u) = Swtch t k \<and> parked p t
    \<and> scheduler_round (s, th) = Ok None (s', th') \<and> idle s' \<and> (\<forall>q < NPROC. polite q (th' q)) \<and> th' p = k"
proof -
  have up: "[0..<NPROC] = [0..<p] @ p # [Suc p..<NPROC]"
    using upt_add_eq_append [of 0 p "NPROC - p"] p by (simp add: upt_conv_Cons)
  have sub: "set [0..<p] \<subseteq> {..<NPROC}" "set [Suc p..<NPROC] \<subseteq> {..<NPROC}" using p by auto
  have s': "idle (intr_on s)" "p_state (procs (intr_on s) p) = RUNNABLE" using s r by (simp_all add: idle_def intr_on_def free_lk_def)
  obtain u th1 where u: "for_each [0..<p] scheduler_slot (intr_on s, th) = Ok None (u, th1)" "idle u"
      "\<forall>q < NPROC. polite q (th1 q)" "th1 p = th p" "p_state (procs u p) = RUNNABLE"
    using scheduler_slots [OF s'(1) th sub(1)] s'(2) by auto
  have pp: "polite p (th1 p)" using u(3) p by simp
  obtain t k where t: "th p (dispatch p u) = Swtch t k" "parked p t" "polite p k"
      "scheduler_slot p (u, th1) = Ok None (retire p t, th1(p := k))"
    using scheduler_slot_runs [OF u(2) p, of th1, OF pp u(5)] u(4) by auto
  have "\<forall>q < NPROC. polite q ((th1(p := k)) q)" using u(3) t(3) by simp
  then obtain v th2 where v: "for_each [Suc p..<NPROC] scheduler_slot (retire p t, th1(p := k)) = Ok None (v, th2)" "idle v"
      "\<forall>q < NPROC. polite q (th2 q)" "\<forall>q. q \<notin> set [Suc p..<NPROC] \<longrightarrow> th2 q = (th1(p := k)) q"
    using scheduler_slots [OF idle_retire [OF t(2) p] _ sub(2), of "th1(p := k)"] by blast
  have "scheduler_round (s, th) = Ok None (v, th2)"
    unfolding scheduler_round_def up using u(1) t(4) v(1) by (simp add: for_each_append)
  moreover have "th2 p = k" using v(4) by simp
  ultimately show ?thesis using u(2,5) t(1,2) v(2,3) by blast
qed

text \<open>A process that does nothing but \<open>yield\<close> (a computation in user mode, interrupted by the timer) is polite:
  it starts, as in \<open>forkret\<close>, by releasing the lock it was handed.\<close>

definition set_intena :: "bool \<Rightarrow> kstate \<Rightarrow> kstate" where
  "set_intena i s = s\<lparr>cpu := (cpu s)\<lparr>c_intena := i\<rparr>\<rparr>"

definition spin_from :: "nat \<Rightarrow> (kstate \<Rightarrow> kstate) \<Rightarrow> kstate \<Rightarrow> unit kres" where
  "spin_from p g s = wloop (\<lambda>_. 0) (\<lambda>_ s. andthen (yield s) (\<lambda>_ s. Ok (Inl ()) s))
     (andthen (release (LkProc p) (g s)) (\<lambda>_ s. Ok (Inl ()) s))"

definition spinner :: "nat \<Rightarrow> kstate \<Rightarrow> unit kres" where
  "spinner p = spin_from p (\<lambda>s. s)"

lemma yield_Swtch:
  assumes "cpu_ok s" and "c_noff (cpu s) = 0" and p: "c_proc (cpu s) = Some p" "free_lk (LkProc p) s"
  defines "s1 \<equiv> upd_proc p (\<lambda>q. q\<lparr>p_state := RUNNABLE\<rparr>) (acq (LkProc p) s)"
  shows "yield s = Swtch s1 (\<lambda>t. release (LkProc p) (t\<lparr>cpu := (cpu t)\<lparr>c_intena := c_intena (cpu s)\<rparr>\<rparr>))"
    and "resumed p s1" "p_state (procs s1 p) = RUNNABLE" "procs s1 = (procs s)(p := (procs s p)\<lparr>p_state := RUNNABLE\<rparr>)"
    "q \<noteq> p \<Longrightarrow> free_lk (LkProc q) s1 = free_lk (LkProc q) s"
proof -
  show r: "resumed p s1"
    using assms by (simp add: resumed_def s1_def upd_proc_def acq_def holding_def cpuid_def intr_get_def)
  show st: "p_state (procs s1 p) = RUNNABLE" "procs s1 = (procs s)(p := (procs s p)\<lparr>p_state := RUNNABLE\<rparr>)"
    by (simp_all add: s1_def upd_proc_def)
  show "q \<noteq> p \<Longrightarrow> free_lk (LkProc q) s1 = free_lk (LkProc q) s"
    by (simp add: s1_def upd_proc_def acq_def free_lk_def)
  have "c_intena (cpu s1) = c_intena (cpu s)" by (simp add: s1_def upd_proc_def acq_def)
  then show "yield s = Swtch s1 (\<lambda>t. release (LkProc p) (t\<lparr>cpu := (cpu t)\<lparr>c_intena := c_intena (cpu s)\<rparr>\<rparr>))"
    using sched_Swtch [OF r] st by (simp add: yield_def with_proc_eq [OF assms(1) p(1)] acquire_acq [OF assms(1) p(2)] s1_def)
qed

lemma spin_step:
  assumes r: "ready p s" and g: "g s = s \<or> g s = set_intena i s"
  shows "\<exists>s' j. spin_from p g s = Swtch s' (spin_from p (set_intena j)) \<and> parked p s' \<and> spares p s s'"
proof -
  let ?t = "retire p (g s)\<lparr>cpu := (cpu (retire p (g s)))\<lparr>c_proc := Some p\<rparr>\<rparr>"
  have gs: "resumed p (g s)" "procs (g s) = procs s" "locks (g s) = locks s"
    using g r by (auto simp: ready_def resumed_def holding_def intr_get_def cpuid_def set_intena_def)
  then have rel: "release (LkProc p) (g s) = Ok () ?t"
    by (subst release_resumed) (auto simp: resumed_def retire_def intro!: kstate.equality)
  have t: "cpu_ok ?t" "c_noff (cpu ?t) = 0" "c_proc (cpu ?t) = Some p" "free_lk (LkProc p) ?t"
    by (simp_all add: retire_def cpu_ok_def intr_get_def free_lk_def)
  note y = yield_Swtch [OF t]
  let ?s1 = "upd_proc p (\<lambda>q. q\<lparr>p_state := RUNNABLE\<rparr>) (acq (LkProc p) ?t)"
  have "spin_from p g s = Swtch ?s1 (spin_from p (set_intena (c_intena (cpu ?t))))"
    unfolding spin_from_def by (simp add: rel wloop_Inl y(1) spin_from_def fun_eq_iff set_intena_def)
  moreover have "free_lk (LkProc q) ?s1" if "q < NPROC" "q \<noteq> p" for q
    using that y(5) [OF that(2)] r gs(3) by (auto simp: ready_def others_free_def retire_def free_lk_def)
  then have "parked p ?s1" using y(2,3) by (simp add: parked_def others_free_def)
  moreover have "spares p s ?s1" unfolding spares_def y(4) using gs(2) by (auto simp: retire_def)
  ultimately show ?thesis by blast
qed

lemma polite_spinner: "polite p (spinner p)"
proof -
  let ?X = "\<lambda>f. \<exists>g i. f = spin_from p g \<and> (\<forall>s. g s = s \<or> g s = set_intena i s)"
  have "polite p f" if "?X f" for f
    using that
  proof (coinduction arbitrary: f)
    case polite
    then obtain g i where f: "f = spin_from p g" and g: "\<forall>s. g s = s \<or> g s = set_intena i s" by blast
    have x: "?X (spin_from p (set_intena j))" for j by blast
    have "\<exists>s' k. f s = Swtch s' k \<and> parked p s' \<and> spares p s s' \<and> (?X k \<or> polite p k)" if r: "ready p s" for s
    proof -
      obtain s' j where "spin_from p g s = Swtch s' (spin_from p (set_intena j))" "parked p s'" "spares p s s'"
        using spin_step [OF r, of g i] g by blast
      with x [of j] show ?thesis unfolding f by blast
    qed
    then show ?case by simp
  qed
  moreover have "?X (spinner p)" unfolding spinner_def by blast
  ultimately show ?thesis by blast
qed

section \<open>kill\<close>

definition killing :: "proc \<Rightarrow> proc" where
  "killing q = q\<lparr>p_killed := True, p_state := (if p_state q = SLEEPING then RUNNABLE else p_state q)\<rparr>"

lemma kill_one_killing:
  assumes "cpu_ok s" and "free_lk (LkProc p) s"
  shows "kill_one pid p s = (if p_pid (procs s p) = pid then Ok (Some 0) (upd_proc p killing s) else Ok None s)"
proof -
  have "q\<lparr>p_killed := True, p_state := RUNNABLE\<rparr> = killing q" if "p_state q = SLEEPING" for q
    using that by (simp add: killing_def)
  moreover have "q\<lparr>p_killed := True\<rparr> = killing q" if "p_state q \<noteq> SLEEPING" for q
    using that by (intro proc.equality) (simp_all add: killing_def)
  ultimately show ?thesis
    using assms by (simp add: kill_one_def acquire_acq upd_proc_def Let_def)
qed

lemma for_each_kill:
  assumes "cpu_ok s" and "\<forall>p \<in> set ps. free_lk (LkProc p) s"
  shows "for_each ps (kill_one pid) s = (case find (\<lambda>p. p_pid (procs s p) = pid) ps of
     None \<Rightarrow> Ok None s | Some p \<Rightarrow> Ok (Some 0) (upd_proc p killing s))"
  using assms by (induction ps) (auto simp: kill_one_killing)

lemma kill_eq:
  assumes "cpu_ok s" and "\<forall>p < NPROC. free_lk (LkProc p) s"
  shows "kill pid s = (case find (\<lambda>p. p_pid (procs s p) = pid) [0..<NPROC] of
     None \<Rightarrow> Ok (-1) s | Some p \<Rightarrow> Ok 0 (upd_proc p killing s))"
  using assms by (simp add: kill_def for_each_kill split: option.split)

section \<open>Sleeping and waking\<close>

text \<open>The state in which a process that has been given the CPU again in \<open>sleep\<close> has dropped its own lock.\<close>

definition awake :: "nat \<Rightarrow> bool \<Rightarrow> kstate \<Rightarrow> kstate" where
  "awake p i t = t\<lparr>procs := (procs t)(p := (procs t p)\<lparr>p_chan := None\<rparr>),
     csr := (csr t)\<lparr>csr_sie := i\<rparr>, cpu := (cpu t)\<lparr>c_intena := i, c_noff := 0\<rparr>,
     locks := (locks t)(LkProc p := (locks t (LkProc p))\<lparr>lk_cpu := None, lk_locked := False\<rparr>)\<rparr>"

lemma awake_simps [simp]:
  "cpu_ok (awake p i t)" "slocks (awake p i t) = slocks t" "c_proc (cpu (awake p i t)) = c_proc (cpu t)"
  "p_pid (procs (awake p i t) q) = p_pid (procs t q)" "p_chan (procs (awake p i t) p) = None"
  "lk \<noteq> LkProc p \<Longrightarrow> free_lk lk (awake p i t) = free_lk lk t" "free_lk (LkProc p) (awake p i t)"
  "c_noff (cpu (awake p i t)) = 0"
  by (simp_all add: awake_def cpu_ok_def intr_get_def free_lk_def)

lemma sleep_wakes:
  assumes t: "resumed p t" and lk: "free_lk lk t" "lk \<noteq> LkProc p"
  shows "andthen (release (LkProc p) (upd_proc p (\<lambda>q. q\<lparr>p_chan := None\<rparr>) (t\<lparr>cpu := (cpu t)\<lparr>c_intena := i\<rparr>\<rparr>))) (\<lambda>_ u. acquire lk u)
    = Ok () (acq lk (awake p i t))"
proof -
  have "release (LkProc p) (upd_proc p (\<lambda>q. q\<lparr>p_chan := None\<rparr>) (t\<lparr>cpu := (cpu t)\<lparr>c_intena := i\<rparr>\<rparr>)) = Ok () (awake p i t)"
    using t by (subst release_resumed)
      (auto simp: resumed_def holding_def cpuid_def intr_get_def upd_proc_def awake_def intro!: kstate.equality)
  then show ?thesis using lk by (simp add: acquire_acq)
qed

text \<open>Asleep on a channel, with the CPU given back.\<close>

definition asleep :: "nat \<Rightarrow> chan \<Rightarrow> kstate \<Rightarrow> bool" where
  "asleep p ch s \<longleftrightarrow> resumed p s \<and> p_state (procs s p) = SLEEPING \<and> p_chan (procs s p) = Some ch"

lemma sleep_spec:
  fixes ch :: chan
  assumes s: "holding lk s" "c_noff (cpu s) = 1" "\<not> intr_get s" and p: "c_proc (cpu s) = Some p" "free_lk (LkProc p) s" "lk \<noteq> LkProc p"
  shows "\<exists>s1 k. sleep ch lk s = Swtch s1 k \<and> asleep p ch s1 \<and> free_lk lk s1 \<and> slocks s1 = slocks s
    \<and> (\<forall>q. q \<noteq> p \<longrightarrow> procs s1 q = procs s q) \<and> p_pid (procs s1 p) = p_pid (procs s p)
    \<and> (\<forall>t. resumed p t \<longrightarrow> free_lk lk t \<longrightarrow> k t = Ok () (acq lk (awake p (c_intena (cpu s)) t)))"
proof -
  note sw = sleep_to_swtch [OF s p, of ch]
  show ?thesis
    unfolding sw(1) using sleep_wakes [of p _ lk "c_intena (cpu s)"] p(3) sw(2)
    by (auto simp: asleep_def upd_proc_def free_lk_def acq_def)
qed

text \<open>Execution with interrupts. Whenever interrupts are enabled between two statements, any amount of
  other code may run (a device interrupt, or a timer interrupt that yields to other processes);
  \<open>env\<close> relates the states before and after. \<open>reaches env fs s t\<close>: started in \<open>s\<close>, the statements
  \<open>fs\<close> may give up the CPU in the state \<open>t\<close>.\<close>

inductive reaches :: "(kstate \<Rightarrow> kstate \<Rightarrow> bool) \<Rightarrow> (kstate \<Rightarrow> unit kres) list \<Rightarrow> kstate \<Rightarrow> kstate \<Rightarrow> bool"
  for env :: "kstate \<Rightarrow> kstate \<Rightarrow> bool" where
  reaches_switch: "f s = Swtch t k \<Longrightarrow> reaches env (f # fs) s t"
| reaches_stmt: "f s = Ok () s' \<Longrightarrow> reaches env fs s' t \<Longrightarrow> reaches env (f # fs) s t"
| reaches_env: "intr_get s \<Longrightarrow> env s s' \<Longrightarrow> reaches env fs s' t \<Longrightarrow> reaches env fs s t"

inductive_simps reaches_Cons: "reaches env (f # fs) s t"

lemma reaches_off:
  "\<not> intr_get s \<Longrightarrow> f s = Ok () s' \<Longrightarrow> reaches env (f # fs) s t \<longleftrightarrow> reaches env fs s' t"
  by (subst reaches_Cons) simp

lemma reaches_switch_off:
  "\<not> intr_get s \<Longrightarrow> f s = Swtch s' k \<Longrightarrow> reaches env (f # fs) s t \<longleftrightarrow> t = s'"
  by (subst reaches_Cons) auto

text \<open>From the condition lock to the switch interrupts stay off, whatever they are to be restored to.\<close>

lemma sleep_uninterrupted:
  fixes ch :: chan
  assumes s: "holding lk s" "c_noff (cpu s) = 1" "\<not> intr_get s" and p: "c_proc (cpu s) = Some p" "free_lk (LkProc p) s" "lk \<noteq> LkProc p"
    and sl: "sleep ch lk s = Swtch s1 k"
  shows "reaches env (sleep_stmts ch lk p) s t \<longleftrightarrow> t = s1"
proof -
  let ?a = "acq (LkProc p) s"
  let ?r = "?a\<lparr>locks := (locks ?a)(lk := (locks s lk)\<lparr>lk_cpu := None, lk_locked := False\<rparr>), cpu := cpu s\<rparr>"
  have ok: "cpu_ok s" using s by (simp add: cpu_ok_def)
  have off: "\<not> intr_get ?a" "\<not> intr_get ?r" "\<not> intr_get (upd_proc p f ?r)" for f
    using s(3) by (auto simp: acq_def intr_get_def upd_proc_def)
  have rel: "release lk ?a = Ok () ?r"
    using s p(3) by (subst release_nested) (auto simp: acq_def holding_def cpuid_def intr_get_def)
  note sw = sleep_to_swtch [OF s p, of ch]
  from sw(1) sl have s1: "s1 = upd_proc p (\<lambda>q. q\<lparr>p_chan := Some ch, p_state := SLEEPING\<rparr>) ?r" by simp
  have "\<exists>k. sched s1 = Swtch s1 k"
    using sched_Swtch [OF sw(2)] unfolding s1 by (auto simp: upd_proc_def)
  then obtain k' where k': "sched s1 = Swtch s1 k'" by blast
  have off1: "\<not> intr_get s1" by (simp add: s1 off)
  show ?thesis
    by (simp add: sleep_stmts_def reaches_off [where f = "acquire _", OF s(3) acquire_acq [OF ok p(2)]]
        reaches_off [where f = "release _", OF off(1) rel] reaches_off [OF off(2)] reaches_off [OF off(3)]
        upd_proc_upd_proc reaches_switch_off [where f = sched, OF off1 k'] flip: s1)
qed

lemma wakeup_asleep:
  assumes "cpu_ok t" and "\<forall>q < NPROC. free_lk (LkProc q) t" and "p < NPROC" and "c_proc (cpu t) \<noteq> Some p"
    and "p_state (procs t p) = SLEEPING" "p_chan (procs t p) = Some ch"
  shows "\<exists>u. wakeup ch t = Ok () u \<and> p_state (procs u p) = RUNNABLE
    \<and> (\<forall>q. p_state (procs t q) = SLEEPING \<and> p_chan (procs t q) = Some ch \<or> procs u q = procs t q)"
  using wakeup_eq [OF assms(1,2)] assms(3-) by (auto simp: woken_def)

section \<open>Sleep locks\<close>

text \<open>A process that finds the lock taken goes to sleep; given the CPU again it takes the lock if it is free
  by then, and otherwise goes back to sleep.\<close>

lemma acquiresleep_waits:
  assumes s: "cpu_ok s" "c_noff (cpu s) = 0" "c_proc (cpu s) = Some p"
    and l: "free_lk (LkSleep l) s" "free_lk (LkProc p) s" "sl_locked (slocks s l)"
  shows "\<exists>s1 k. acquiresleep l s = Swtch s1 k \<and> asleep p (ChSleep l) s1 \<and> free_lk (LkSleep l) s1 \<and> slocks s1 = slocks s
    \<and> (\<forall>t. resumed p t \<longrightarrow> free_lk (LkSleep l) t \<longrightarrow> \<not> sl_locked (slocks t l) \<longrightarrow>
         (\<exists>u. k t = Ok () u \<and> owns p l u \<and> cpu_ok u \<and> p_chan (procs u p) = None))"
proof -
  let ?t = "acq (LkSleep l) s"
  have t: "holding (LkSleep l) ?t" "c_noff (cpu ?t) = 1" "\<not> intr_get ?t" "c_proc (cpu ?t) = Some p"
      "free_lk (LkProc p) ?t"
    using assms by (auto simp: acq_def holding_def cpuid_def intr_get_def free_lk_def)
  obtain s1 k where sw: "sleep (ChSleep l) (LkSleep l) ?t = Swtch s1 k" "asleep p (ChSleep l) s1" "free_lk (LkSleep l) s1"
      "slocks s1 = slocks s" and k: "\<And>t. resumed p t \<Longrightarrow> free_lk (LkSleep l) t \<Longrightarrow> k t = Ok () (acq (LkSleep l) (awake p (c_intena (cpu ?t)) t))"
    using sleep_spec [OF t, of "ChSleep l"] by auto
  let ?fin = "with_proc (\<lambda>p s. release (LkSleep l)
         (s\<lparr>slocks := (slocks s)(l := (slocks s l)\<lparr>sl_locked := True, sl_pid := p_pid (procs s p)\<rparr>)\<rparr>))"
  let ?k = "\<lambda>x. andthen (wloop (\<lambda>_. 0) (acquiresleep_wait l) (andthen (k x) (\<lambda>_ s. Ok (Inl ()) s))) (\<lambda>_. ?fin)"
  have a: "acquiresleep l s = Swtch s1 ?k"
    using assms sw(1) by (simp add: acquiresleep_def acquire_acq acquiresleep_loop acquiresleep_wait_def)
  have "\<exists>u. ?k x = Ok () u \<and> owns p l u \<and> cpu_ok u \<and> p_chan (procs u p) = None"
    if x: "resumed p x" "free_lk (LkSleep l) x" "\<not> sl_locked (slocks x l)" for x
  proof -
    let ?v = "awake p (c_intena (cpu ?t)) x"
    have cp: "c_proc (cpu ?v) = Some p" using x(1) by (simp add: resumed_def)
    have f: "free_lk (LkSleep l) ?v" using x(2) by simp
    have "?k x = ?fin (acq (LkSleep l) ?v)"
      using k [OF x(1,2)] x(3) by (simp add: acquiresleep_loop acquiresleep_wait_def)
    also have "\<dots> = Ok () (?v\<lparr>slocks := (slocks ?v)(l := (slocks ?v l)\<lparr>sl_locked := True, sl_pid := p_pid (procs ?v p)\<rparr>)\<rparr>)"
      using cp f by (simp add: with_proc_eq)
    finally show ?thesis by (simp add: owns_def)
  qed
  with a sw show ?thesis by blast
qed

section \<open>The guarantees\<close>

definition demo_idle :: kstate where
  "demo_idle = upd_proc 3 (\<lambda>q. q\<lparr>p_state := RUNNABLE, p_pid := 7\<rparr>) (bss (\<lambda>_. 0) (\<lambda>_ _. 0))"

text \<open>Process 0 runs and another process holds sleep lock \<open>SlBuf 0\<close>.\<close>

definition demo_contended :: kstate where
  "demo_contended = (upd_proc 0 (\<lambda>q. q\<lparr>p_state := RUNNING, p_pid := 1\<rparr>) (bss (\<lambda>_. 0) (\<lambda>_ _. 0)))\<lparr>
     cpu := \<lparr>c_proc = Some 0, c_noff = 0, c_intena = False\<rparr>,
     slocks := (\<lambda>_. \<lparr>sl_locked = True, sl_name = [], sl_pid = 9\<rparr>)\<rparr>"

lemmas demo_defs = demo_idle_def demo_contended_def bss_def upd_proc_def zero_proc_def

text \<open>C14. Interrupt disabling nests: after any sequence of \<open>push_off\<close> and \<open>pop_off\<close> that starts with nothing disabled and never
  pops more than it has pushed, the calls have returned, \<open>noff\<close> counts the pushes not yet popped, and
  interrupts are on again exactly when nothing is pushed and they were on at the start.\<close>

theorem push_pop_off_nest:
  assumes "nested 0 bs = Some d" and "c_noff (cpu s) = 0"
  shows "\<exists>t. run_offs bs s = Ok () t \<and> c_noff (cpu t) = int d \<and> intr_get t = (d = 0 \<and> intr_get s)"
  using run_offs_nested [of 0 bs d s "intr_get s"] assms by simp

theorem push_pop_off_nest_witness:
  "\<exists>t. run_offs [True, True, False, False] (intr_on (bss (\<lambda>_. 0) (\<lambda>_ _. 0))) = Ok () t \<and> c_noff (cpu t) = 0 \<and> intr_get t"
  using push_pop_off_nest [of "[True, True, False, False]" 0 "intr_on (bss (\<lambda>_. 0) (\<lambda>_ _. 0))"]
  by (simp add: bss_def intr_on_def intr_get_def)

text \<open>C15. The scheduler serves every process that waits for the CPU: with threads that keep the protocol of
  \<open>sched\<close>, a round of \<open>scheduler\<close> returns to an idle CPU, and a process that is \<open>RUNNABLE\<close> when the round starts is handed
  the CPU once during the round, in state \<open>RUNNING\<close> and holding its own lock, and resumes next time
  where it then left off.\<close>

theorem scheduler_serves:
  assumes "idle s" and "\<forall>q < NPROC. polite q (th q)" and "p < NPROC" and "p_state (procs s p) = RUNNABLE"
  shows "\<exists>u t k s' th'. ready p (dispatch p u) \<and> th p (dispatch p u) = Swtch t k \<and> parked p t
    \<and> scheduler_round (s, th) = Ok None (s', th') \<and> idle s' \<and> (\<forall>q < NPROC. polite q (th' q)) \<and> th' p = k"
  using scheduler_round_reaches [OF assms] ready_dispatch [OF _ assms(3)] by blast

theorem scheduler_serves_witness:
  "\<exists>u t k s' th'. ready 3 (dispatch 3 u) \<and> spinner 3 (dispatch 3 u) = Swtch t k \<and> parked 3 t
    \<and> scheduler_round (demo_idle, spinner) = Ok None (s', th') \<and> idle s' \<and> th' 3 = k"
proof -
  have "idle demo_idle" "p_state (procs demo_idle 3) = RUNNABLE" by (simp_all add: idle_def demo_defs free_lk_def)
  then show ?thesis
    using scheduler_serves [of demo_idle spinner 3] polite_spinner by (auto simp: NPROC_def)
qed

text \<open>C16. No wakeup is lost: \<open>sleep\<close> gives the CPU back with the process asleep on its channel and the condition's
  lock free. Nothing can come between: whatever other code interrupts would run between any two
  statements of \<open>sleep\<close> while they are enabled (a \<open>wakeup\<close> before the process is asleep, say), the
  state the CPU is given up in is the same. Whoever calls \<open>wakeup\<close> on the channel afterwards makes the process
  \<open>RUNNABLE\<close>, and when it gets the CPU again, \<open>sleep\<close> returns holding the condition's lock.\<close>

theorem sleep_wakeup:
  fixes ch :: chan
  assumes "holding lk s" "c_noff (cpu s) = 1" "\<not> intr_get s"
    and "c_proc (cpu s) = Some p" "free_lk (LkProc p) s" "lk \<noteq> LkProc p" "p < NPROC"
  shows "\<exists>s1 k. sleep ch lk s = Swtch s1 k \<and> asleep p ch s1 \<and> free_lk lk s1
    \<and> (\<forall>env t. reaches env (sleep_stmts ch lk p) s t \<longleftrightarrow> t = s1)
    \<and> (\<forall>t. cpu_ok t \<and> (\<forall>q < NPROC. free_lk (LkProc q) t) \<and> c_proc (cpu t) \<noteq> Some p \<and> procs t p = procs s1 p \<longrightarrow>
         (\<exists>u. wakeup ch t = Ok () u \<and> p_state (procs u p) = RUNNABLE))
    \<and> (\<forall>t. resumed p t \<and> free_lk lk t \<longrightarrow>
         (\<exists>u. k t = Ok () u \<and> holding lk u \<and> free_lk (LkProc p) u \<and> c_noff (cpu u) = 1 \<and> p_chan (procs u p) = None))"
proof -
  obtain s1 k where k: "sleep ch lk s = Swtch s1 k" "asleep p ch s1" "free_lk lk s1"
      "\<And>t. resumed p t \<Longrightarrow> free_lk lk t \<Longrightarrow> k t = Ok () (acq lk (awake p (c_intena (cpu s)) t))"
    using sleep_spec [OF assms(1-6), of ch] by blast
  have "\<exists>u. wakeup ch t = Ok () u \<and> p_state (procs u p) = RUNNABLE"
    if "cpu_ok t \<and> (\<forall>q < NPROC. free_lk (LkProc q) t) \<and> c_proc (cpu t) \<noteq> Some p \<and> procs t p = procs s1 p" for t
    using wakeup_asleep [of t p ch] that assms(7) k(2) by (auto simp: asleep_def)
  moreover have "\<exists>u. k t = Ok () u \<and> holding lk u \<and> free_lk (LkProc p) u \<and> c_noff (cpu u) = 1 \<and> p_chan (procs u p) = None"
    if "resumed p t \<and> free_lk lk t" for t
    using k(4) that assms(6) free_lk_acq [of "LkProc p" lk] by (simp add: acq_def [where lk = lk] holding_def cpuid_def free_lk_def awake_def)
  moreover have "\<forall>env t. reaches env (sleep_stmts ch lk p) s t \<longleftrightarrow> t = s1"
    using sleep_uninterrupted [OF assms(1-6) k(1)] by blast
  ultimately show ?thesis using k(1-3) by blast
qed

theorem sleep_wakeup_witness:
  "\<exists>s1 k. sleep (ChSleep (SlBuf 0)) (LkSleep (SlBuf 0)) (acq (LkSleep (SlBuf 0)) demo_contended) = Swtch s1 k
    \<and> asleep 0 (ChSleep (SlBuf 0)) s1 \<and> free_lk (LkSleep (SlBuf 0)) s1"
  using sleep_wakeup [of "LkSleep (SlBuf 0)" "acq (LkSleep (SlBuf 0)) demo_contended" 0 "ChSleep (SlBuf 0)"]
  by (auto simp: demo_defs acq_def holding_def cpuid_def intr_get_def free_lk_def NPROC_def)

text \<open>C17. A sleep lock is handed over: a process that finds it taken goes to sleep without changing it; the
  holder's \<open>releasesleep\<close> frees it and makes the sleeper \<open>RUNNABLE\<close>; and if it is still free when the sleeper gets the
  CPU, \<open>acquiresleep\<close> returns with the sleeper as the owner.\<close>

theorem sleeplock_handover:
  assumes "cpu_ok s" "c_noff (cpu s) = 0" "c_proc (cpu s) = Some p" "p < NPROC"
    and "free_lk (LkSleep l) s" "free_lk (LkProc p) s" "sl_locked (slocks s l)"
  shows "\<exists>s1 k. acquiresleep l s = Swtch s1 k \<and> asleep p (ChSleep l) s1 \<and> slocks s1 = slocks s
    \<and> (\<forall>t. cpu_ok t \<and> free_lk (LkSleep l) t \<and> (\<forall>q < NPROC. free_lk (LkProc q) t) \<and> c_proc (cpu t) \<noteq> Some p
         \<and> procs t p = procs s1 p \<longrightarrow>
         (\<exists>u. releasesleep l t = Ok () u \<and> \<not> sl_locked (slocks u l) \<and> p_state (procs u p) = RUNNABLE))
    \<and> (\<forall>t. resumed p t \<and> free_lk (LkSleep l) t \<and> \<not> sl_locked (slocks t l) \<longrightarrow>
         (\<exists>u. k t = Ok () u \<and> owns p l u))"
proof -
  obtain s1 k where k: "acquiresleep l s = Swtch s1 k" "asleep p (ChSleep l) s1" "slocks s1 = slocks s"
      "\<forall>t. resumed p t \<longrightarrow> free_lk (LkSleep l) t \<longrightarrow> \<not> sl_locked (slocks t l) \<longrightarrow>
         (\<exists>u. k t = Ok () u \<and> owns p l u \<and> cpu_ok u \<and> p_chan (procs u p) = None)"
    using acquiresleep_waits [OF assms(1-3,5-7)] by blast
  have "\<exists>u. releasesleep l t = Ok () u \<and> \<not> sl_locked (slocks u l) \<and> p_state (procs u p) = RUNNABLE"
    if t: "cpu_ok t \<and> free_lk (LkSleep l) t \<and> (\<forall>q < NPROC. free_lk (LkProc q) t) \<and> c_proc (cpu t) \<noteq> Some p
         \<and> procs t p = procs s1 p" for t
    using releasesleep_eq [of t l] t k(2) assms(4) by (auto simp: woken_def asleep_def)
  with k show ?thesis by blast
qed

theorem sleeplock_handover_witness:
  "\<exists>s1 k. acquiresleep (SlBuf 0) demo_contended = Swtch s1 k \<and> asleep 0 (ChSleep (SlBuf 0)) s1"
  using sleeplock_handover [of demo_contended 0 "SlBuf 0"]
  by (auto simp: demo_defs cpu_ok_def intr_get_def free_lk_def NPROC_def)

text \<open>C18. \<open>kill\<close> marks the first process table slot with the given pid and no other, makes it \<open>RUNNABLE\<close> if it sleeps, and
  returns 0; it returns -1 with nothing changed if no slot has the pid. The slot need not be in
  use: a free slot has pid 0.\<close>

theorem kill_marks:
  assumes "cpu_ok s" and "\<forall>p < NPROC. free_lk (LkProc p) s"
  shows "kill pid s = (case find (\<lambda>p. p_pid (procs s p) = pid) [0..<NPROC] of
     None \<Rightarrow> Ok (-1) s | Some p \<Rightarrow> Ok 0 (upd_proc p killing s))"
  using assms by (rule kill_eq)

theorem kill_marks_witness:
  "kill 7 demo_idle = Ok 0 (upd_proc 3 killing demo_idle) \<and> kill 8 demo_idle = Ok (-1) demo_idle
   \<and> kill 0 demo_idle = Ok 0 (upd_proc 0 killing demo_idle) \<and> p_state (procs demo_idle 0) = UNUSED"
proof -
  have "cpu_ok demo_idle" "\<forall>p < NPROC. free_lk (LkProc p) demo_idle"
    by (simp_all add: demo_defs cpu_ok_def intr_get_def free_lk_def)
  note k = kill_marks [OF this]
  have "find (\<lambda>p. p_pid (procs demo_idle p) = 7) [0..<NPROC] = Some 3"
    "find (\<lambda>p. p_pid (procs demo_idle p) = 8) [0..<NPROC] = None" "find (\<lambda>p. p_pid (procs demo_idle p) = 0) [0..<NPROC] = Some 0"
    by (auto simp: demo_defs NPROC_def find_None_iff upt_rec)
  then show ?thesis by (simp add: k) (simp add: demo_defs)
qed

end
