(* ===== verification/Pipeio.thy ===== *)
theory Pipeio
  imports Pipe Memory Concurrency
begin

text \<open>
  Pipes (\<open>kernel/pipe.c\<close>) as queues of bytes between user buffers: what \<open>pipewrite\<close> and \<open>piperead\<close> do to the list of bytes a
  pipe holds, on every path that does not have to wait, and when they wait.
\<close>

interpretation pipe_buf: ring_buffer PIPESIZE
  by unfold_locales (simp_all add: PIPESIZE_def)

definition pipe_ring :: "pipe \<Rightarrow> ring" where
  "pipe_ring x = (pi_data x, pi_nread x, pi_nwrite x)"

definition pipe_list :: "pipe \<Rightarrow> byte list" where
  "pipe_list x = ring_list PIPESIZE (pipe_ring x)"

definition pput :: "byte \<Rightarrow> pipe \<Rightarrow> pipe" where
  "pput c x = x\<lparr>pi_data := (pi_data x)(unat (pi_nwrite x) mod PIPESIZE := c), pi_nwrite := pi_nwrite x + 1\<rparr>"

definition pget :: "pipe \<Rightarrow> pipe" where
  "pget x = x\<lparr>pi_nread := pi_nread x + 1\<rparr>"

lemma pipe_list_pput: "length (pipe_list x) < PIPESIZE \<Longrightarrow> pipe_list (pput c x) = pipe_list x @ [c]"
  using pipe_buf.ring_list_put [of "pipe_ring x" c] by (simp add: pipe_list_def pipe_ring_def pput_def)

lemma pipe_list_pget:
  "pipe_list x = c # cs \<Longrightarrow> pi_data x (unat (pi_nread x) mod PIPESIZE) = c \<and> pipe_list (pget x) = cs"
  using pipe_buf.ring_list_get [of "pipe_ring x" c cs] by (simp add: pipe_list_def pipe_ring_def pget_def)

lemma pipe_list_length: "length (pipe_list x) = unat (pi_nwrite x - pi_nread x)"
  by (simp add: pipe_list_def pipe_ring_def)

lemma pipe_empty_iff: "pi_nread x = pi_nwrite x \<longleftrightarrow> pipe_list x = []"
proof -
  have "pipe_list x = [] \<longleftrightarrow> unat (pi_nwrite x - pi_nread x) = 0" by (simp flip: pipe_list_length)
  then show ?thesis by (auto simp: unat_eq_zero)
qed

lemma pipe_full_iff: "pi_nwrite x = pi_nread x + of_nat PIPESIZE \<longleftrightarrow> length (pipe_list x) = PIPESIZE"
proof
  assume "length (pipe_list x) = PIPESIZE"
  then have "unat (pi_nwrite x - pi_nread x) = unat (of_nat PIPESIZE :: uint32)"
    by (simp add: pipe_list_length PIPESIZE_def)
  then have "pi_nwrite x - pi_nread x = of_nat PIPESIZE" by (simp only: word_unat_eq_iff)
  then show "pi_nwrite x = pi_nread x + of_nat PIPESIZE" by (simp add: algebra_simps)
qed (simp add: pipe_list_length PIPESIZE_def)

lemma pput_simps [simp]:
  "pi_readopen (pput c x) = pi_readopen x" "pi_writeopen (pput c x) = pi_writeopen x"
  "pi_readopen (pget x) = pi_readopen x" "pi_writeopen (pget x) = pi_writeopen x"
  by (simp_all add: pput_def pget_def)

lemma fold_pput:
  "length (pipe_list x) + length cs \<le> PIPESIZE \<Longrightarrow>
   pipe_list (fold pput cs x) = pipe_list x @ cs \<and> pi_readopen (fold pput cs x) = pi_readopen x
     \<and> pi_writeopen (fold pput cs x) = pi_writeopen x"
  by (induction cs arbitrary: x) (auto simp: pipe_list_pput)

text \<open>A process that runs with no lock held.\<close>

definition calm :: "nat \<Rightarrow> kstate \<Rightarrow> bool" where
  "calm p s \<longleftrightarrow> cpu_ok s \<and> c_proc (cpu s) = Some p \<and> (\<forall>lk. free_lk lk s)"

section \<open>pipewrite\<close>

lemma copyin_byte:
  assumes "pt_ok (mem s) pt" and "upage (mem s) pt va \<noteq> 0"
  shows "\<exists>d. copyin pt dst va 1 s = Ok (0, d) s \<and> d 0 = uread (mem s) pt va"
  using copyin_eq [OF assms(1), of dst va 1] assms(2) by (auto simp: uaccess_def blit_def)

lemma copyin_byte_fails:
  assumes "pt_ok (mem s) pt" and "upage (mem s) pt va = 0"
  shows "\<exists>d. copyin pt dst va 1 s = Ok (-1, d) s"
  using copyin_eq [OF assms(1), of dst va 1] assms(2) by (auto simp: uaccess_def)

lemma pipewrite_one:
  fixes i :: nat
  assumes s: "cpu_ok s" "free_lk (LkProc pr) s" and x: "pi_readopen (pipes s pi)" "\<not> p_killed (procs s pr)"
    and room: "length (pipe_list (pipes s pi)) < PIPESIZE" and i: "int i < n"
    and pt: "pt_ok (mem s) (p_pagetable (procs s pr))" "upage (mem s) (p_pagetable (procs s pr)) (addr + of_nat i) \<noteq> 0"
  shows "pipewrite_body pi pr addr n (int i) s =
    Ok (Inl (int i + 1)) (s\<lparr>pipes := (pipes s)(pi := pput (uread (mem s) (p_pagetable (procs s pr)) (addr + of_nat i)) (pipes s pi))\<rparr>)"
proof -
  obtain d where "copyin (p_pagetable (procs s pr)) (\<lambda>_. 0) (addr + of_nat i) 1 s = Ok (0, d) s"
      "d 0 = uread (mem s) (p_pagetable (procs s pr)) (addr + of_nat i)"
    using copyin_byte [OF pt] by blast
  moreover have "pi_nwrite (pipes s pi) \<noteq> pi_nread (pipes s pi) + of_nat PIPESIZE"
    using room pipe_full_iff [of "pipes s pi"] by simp
  ultimately show ?thesis
    using x i killed_eq [OF s] by (simp add: pipewrite_body_def upd_pipe_def pput_def)
qed

text \<open>The bytes of a user buffer.\<close>

definition ubytes :: "(uint32 \<Rightarrow> byte) \<Rightarrow> uint32 \<Rightarrow> uint32 \<Rightarrow> nat \<Rightarrow> byte list" where
  "ubytes m pt va n = map (\<lambda>i. uread m pt (va + of_nat i)) [0..<n]"

lemma ubytes_Suc: "ubytes m pt va (Suc n) = ubytes m pt va n @ [uread m pt (va + of_nat n)]"
  by (simp add: ubytes_def)

lemma length_ubytes [simp]: "length (ubytes m pt va n) = n"
  by (simp add: ubytes_def)

lemma calm_acq:
  assumes "calm pr s"
  shows "acquire lk s = Ok () (acq lk s)" "with_proc f s = f pr s" "cpu_ok (acq lk s)"
    "lk' \<noteq> lk \<Longrightarrow> free_lk lk' (acq lk s)"
  using assms by (auto simp: calm_def acquire_acq with_proc_eq free_lk_acq)

text \<open>What holds while the lock is held, whatever the code has changed apart from the locks.\<close>

definition held :: "lockid \<Rightarrow> nat \<Rightarrow> kstate \<Rightarrow> kstate \<Rightarrow> bool" where
  "held lk p s t \<longleftrightarrow> calm p s \<and> (\<forall>q. lk \<noteq> LkProc q) \<and> csr t = csr (acq lk s) \<and> cpu t = cpu (acq lk s) \<and> locks t = locks (acq lk s)"

lemma held_acq: "calm p s \<Longrightarrow> (\<And>q. lk \<noteq> LkProc q) \<Longrightarrow> held lk p s (acq lk s)"
  by (simp add: held_def)

lemma held_wakeup:
  assumes "held lk p s t"
  shows "wakeup ch t = Ok () (t\<lparr>procs := woken ch (Some p) {..<NPROC} (procs t)\<rparr>)"
proof -
  have c: "calm p s" and lk: "\<And>q. LkProc q \<noteq> lk" and t: "csr t = csr (acq lk s)" "cpu t = cpu (acq lk s)" "locks t = locks (acq lk s)"
    using assms by (auto simp: held_def)
  have ok: "cpu_ok s" "c_proc (cpu s) = Some p" using c by (auto simp: calm_def)
  have "cpu_ok t" using cpu_ok_acq [OF ok(1), of lk] t by (auto simp: cpu_ok_def intr_get_def split: if_splits)
  moreover have "\<forall>q < NPROC. free_lk (LkProc q) t"
    using calm_acq(4) [OF c lk] t(3) by (simp add: free_lk_def)
  moreover have "c_proc (cpu t) = Some p" using t(2) ok(2) by simp
  ultimately show ?thesis by (simp add: wakeup_eq)
qed

lemma held_release:
  assumes "held lk p s t"
  shows "release lk t = Ok () (t\<lparr>csr := csr s, cpu := cpu s, locks := locks s\<rparr>)"
  using assms by (intro release_acq) (auto simp: held_def calm_def)

text \<open>Going to sleep on a condition, and coming back: \<open>scheduled p t\<close> is a state in which the scheduler has just given
  the process the CPU again.\<close>

definition scheduled :: "nat \<Rightarrow> kstate \<Rightarrow> bool" where
  "scheduled p t \<longleftrightarrow> resumed p t \<and> (\<forall>lk. lk \<noteq> LkProc p \<longrightarrow> free_lk lk t)"

lemma calm_awake: "scheduled p t \<Longrightarrow> calm p (awake p i t)"
  unfolding calm_def
proof (intro conjI allI)
  fix lk
  assume t: "scheduled p t"
  show "free_lk lk (awake p i t)" using t by (cases "lk = LkProc p") (auto simp: scheduled_def)
qed (simp_all add: scheduled_def resumed_def)

lemma sleep_held:
  assumes t: "held lk p s t" and n: "c_noff (cpu s) = 0"
  shows "\<exists>s1 k. sleep ch lk t = Swtch s1 k \<and> asleep p ch s1 \<and> free_lk lk s1 \<and> (\<forall>q. q \<noteq> p \<longrightarrow> procs s1 q = procs t q)
    \<and> pipes s1 = pipes t \<and> uart s1 = uart t \<and> vdisk s1 = vdisk t \<and> mmio_out s1 = mmio_out t \<and> k_sym s1 = k_sym t
    \<and> (\<forall>u. scheduled p u \<longrightarrow> k u = Ok () (acq lk (awake p (c_intena (cpu s)) u)))"
proof -
  have lk: "lk \<noteq> LkProc p" "LkProc p \<noteq> lk" using t by (auto simp: held_def)
  have h: "holding lk t" "c_noff (cpu t) = 1" "\<not> intr_get t" and p: "c_proc (cpu t) = Some p" "free_lk (LkProc p) t"
    using t n lk by (auto simp: held_def acq_def holding_def cpuid_def intr_get_def calm_def free_lk_def)
  note sw = sleep_to_swtch [OF h p lk(1), of ch]
  have i: "c_intena (cpu t) = c_intena (cpu s)" using t by (simp add: held_def acq_def)
  have "\<forall>u. scheduled p u \<longrightarrow> andthen (release (LkProc p) (upd_proc p (\<lambda>q. q\<lparr>p_chan := None\<rparr>)
        (u\<lparr>cpu := (cpu u)\<lparr>c_intena := c_intena (cpu t)\<rparr>\<rparr>))) (\<lambda>_ u. acquire lk u) = Ok () (acq lk (awake p (c_intena (cpu s)) u))"
    unfolding i using lk by (auto simp: scheduled_def intro!: sleep_wakes)
  then show ?thesis
    unfolding sw(1) using sw(2) lk by (auto simp: asleep_def upd_proc_def acq_def free_lk_def)
qed

text \<open>The end of both operations: wake the other side and let go of the lock.\<close>

lemma wakeup_release:
  assumes c: "calm pr s" and lk: "\<And>p. lk \<noteq> LkProc p"
    and t: "csr t = csr (acq lk s)" "cpu t = cpu (acq lk s)" "locks t = locks (acq lk s)"
  shows "andthen (wakeup ch t) (\<lambda>_ t. andthen (release lk t) (\<lambda>_ t. Ok r t)) =
    Ok r (t\<lparr>procs := woken ch (Some pr) {..<NPROC} (procs t), csr := csr s, cpu := cpu s, locks := locks s\<rparr>)"
proof -
  have u: "held lk pr s t" using assms by (simp add: held_def)
  then have "held lk pr s (t\<lparr>procs := x\<rparr>)" for x by (simp add: held_def)
  from held_release [OF this] held_wakeup [OF u] show ?thesis by simp
qed

lemma pipewrite_ok:
  fixes n :: nat
  assumes c: "calm pr s" and x: "pi_readopen (pipes s pi)" "\<not> p_killed (procs s pr)"
    and room: "length (pipe_list (pipes s pi)) + n \<le> PIPESIZE"
  defines "pt \<equiv> p_pagetable (procs s pr)"
  assumes pt: "pt_ok (mem s) pt" "uaccess (mem s) pt addr n"
  shows "pipewrite pi addr (int n) s = Ok (int n) (s\<lparr>
     pipes := (pipes s)(pi := fold pput (ubytes (mem s) pt addr n) (pipes s pi)),
     procs := woken (ChPipeRead pi) (Some pr) {..<NPROC} (procs s)\<rparr>)"
proof -
  let ?s = "acq (LkPipe pi) s" and ?x = "\<lambda>k. fold pput (ubytes (mem s) pt addr k) (pipes s pi)"
  let ?u = "\<lambda>k. ?s\<lparr>pipes := (pipes s)(pi := ?x k)\<rparr>"
  note ca = calm_acq [OF c]
  have xl: "pipe_list (?x k) = pipe_list (pipes s pi) @ ubytes (mem s) pt addr k" "pi_readopen (?x k)" if "k \<le> n" for k
    using fold_pput [of "pipes s pi" "ubytes (mem s) pt addr k"] room that x(1) by simp_all
  have step: "pipewrite_body pi pr addr (int n) (int k) (?u k) = Ok (Inl (int (Suc k))) (?u (Suc k))" if "k < n" for k
  proof -
    have "length (pipe_list (?x k)) < PIPESIZE" using xl(1) [of k] that room by simp
    moreover have "upage (mem s) pt (addr + of_nat k) \<noteq> 0" using pt(2) that by (simp add: uaccess_def)
    ultimately show ?thesis
      using pipewrite_one [of "?u k" pr pi k "int n" addr] ca(3,4) xl(2) [of k] that x(2) pt(1)
      by (simp add: pt_def [symmetric] ubytes_Suc)
  qed
  have "returns (wloop (\<lambda>i. nat (int n - i)) (pipewrite_body pi pr addr (int n)) (Ok (Inl 0) (?u 0)))
    (\<lambda>r t. r = Some (int n) \<and> t = ?u n)"
  proof (rule wloop_rule [where I = "\<lambda>i t. \<exists>k \<le> n. i = int k \<and> t = ?u k"])
    show "\<exists>k \<le> n. 0 = int k \<and> ?u 0 = ?u k" by (intro exI [of _ 0]) simp
  next
    fix i t
    assume "\<exists>k \<le> n. i = int k \<and> t = ?u k"
    then obtain k where k: "k \<le> n" "i = int k" "t = ?u k" by blast
    show "returns (pipewrite_body pi pr addr (int n) i t) (\<lambda>v t. case v of
        Inl i' \<Rightarrow> (\<exists>k \<le> n. i' = int k \<and> t = ?u k) \<and> nat (int n - i') < nat (int n - i)
      | Inr r \<Rightarrow> r = Some (int n) \<and> t = ?u n)"
    proof (cases "k < n")
      case True
      have "\<exists>j \<le> n. int (Suc k) = int j \<and> ?u (Suc k) = ?u j" using True by (intro exI [of _ "Suc k"]) simp
      then show ?thesis unfolding k(2,3) step [OF True] using True by simp
    next
      case False
      with k have "k = n" by simp
      with k show ?thesis by (simp add: pipewrite_body_def)
    qed
  qed
  moreover have "?u 0 = ?s" by (simp add: ubytes_def)
  ultimately have l: "wloop (\<lambda>i. nat (int n - i)) (pipewrite_body pi pr addr (int n)) (Ok (Inl 0) ?s) = Ok (Some (int n)) (?u n)"
    by (simp add: returns_iff)
  have "pipewrite pi addr (int n) s = andthen (wakeup (ChPipeRead pi) (?u n)) (\<lambda>_ s.
         andthen (release (LkPipe pi) s) (\<lambda>_ s. Ok (int n) s))"
    by (simp add: pipewrite_def ca(1,2) l)
  also have "\<dots> = Ok (int n) ((?u n)\<lparr>procs := woken (ChPipeRead pi) (Some pr) {..<NPROC} (procs s),
      csr := csr s, cpu := cpu s, locks := locks s\<rparr>)"
    by (subst wakeup_release [OF c]) simp_all
  finally show ?thesis by (simp add: acq_def)
qed

section \<open>piperead\<close>

lemma uwritten_append:
  assumes w: "uwritten pt m va k f m'" and w': "uwritten pt m' (va + of_nat k) 1 g m''"
    and wr: "uwritable m pt va n" and k: "k < n" "n \<le> 2 ^ 32" and pt: "pt_ok m pt" and f: "f k = g 0"
  shows "uwritten pt m va (Suc k) f m''"
proof -
  have ph: "phys m' pt = phys m pt" using uwritten_pt(5) [OF w wr _ pt] k by simp
  have ne: "phys m pt (va + of_nat i) \<noteq> phys m pt (va + of_nat k)" if "i < k" for i
    using phys_inj [OF wr k(2), of i k] that k(1) by auto
  show ?thesis
    using w w' ne f unfolding uwritten_def ph by (auto simp: less_Suc_eq)
qed

lemma uwritable_byte:
  assumes "uwritable m pt va n" and "i < n"
  shows "uwritable m pt (va + of_nat i) 1"
proof -
  have "upage m pt (va + of_nat i) \<notin> tables m pt" using assms unfolding uwritable_def by blast
  then show ?thesis by (simp add: uwritable_def)
qed

text \<open>The copy of one byte on the memory a part of the copy has left.\<close>

lemma copyout_byte:
  assumes w: "uwritten pt m va k f (mem s)" and wr: "uwritable m pt va n" and k: "k < n" "n \<le> 2 ^ 32" and pt: "pt_ok m pt"
    and a: "upage m pt (va + of_nat k) \<noteq> 0"
  shows "\<exists>m'. copyout pt (va + of_nat k) (\<lambda>_. f k) 1 s = Ok 0 (s\<lparr>mem := m'\<rparr>) \<and> uwritten pt m va (Suc k) f m'"
proof -
  note ag = uwritten_pt [OF w wr less_imp_le [OF k(1)] pt]
  have wb: "uwritable (mem s) pt (va + of_nat k) (unat (1 :: uint32))"
    using uwritable_byte [OF wr k(1)] ag by (simp add: uwritable_def)
  have ac: "uaccess (mem s) pt (va + of_nat k) (unat (1 :: uint32))"
    using a by (simp add: ag uaccess_def)
  from copyout_eq [OF ag(1) wb, of "\<lambda>_. f k"] ac
  obtain m' where m': "copyout pt (va + of_nat k) (\<lambda>_. f k) 1 s = Ok 0 (s\<lparr>mem := m'\<rparr>)"
    "uwritten pt (mem s) (va + of_nat k) 1 (\<lambda>_. f k) m'"
    by (auto simp: returns_iff)
  with uwritten_append [OF w m'(2) wr k pt] show ?thesis by blast
qed

lemma pipe_list_pget_n:
  "k \<le> length (pipe_list x) \<Longrightarrow> pipe_list ((pget ^^ k) x) = drop k (pipe_list x)"
proof (induction k)
  case (Suc k)
  then have "pipe_list ((pget ^^ k) x) = pipe_list x ! k # drop (Suc k) (pipe_list x)"
    by (simp add: Cons_nth_drop_Suc)
  then show ?case using pipe_list_pget by simp
qed simp

lemma piperead_ok:
  fixes n :: nat
  assumes c: "calm pr s" and ne: "pipe_list (pipes s pi) \<noteq> [] \<or> \<not> pi_writeopen (pipes s pi)"
  defines "pt \<equiv> p_pagetable (procs s pr)" and "l \<equiv> pipe_list (pipes s pi)"
  defines "r \<equiv> min n (length l)"
  assumes pt: "pt_ok (mem s) pt" "uaccess (mem s) pt addr r" "uwritable (mem s) pt addr r"
  shows "\<exists>m. piperead pi addr (int n) s = Ok (int r) (s\<lparr>mem := m,
     pipes := (pipes s)(pi := (pget ^^ r) (pipes s pi)),
     procs := woken (ChPipeWrite pi) (Some pr) {..<NPROC} (procs s)\<rparr>)
     \<and> uwritten pt (mem s) addr r (\<lambda>i. l ! i) m"
proof -
  let ?s = "acq (LkPipe pi) s" and ?x = "\<lambda>k. (pget ^^ k) (pipes s pi)"
  let ?u = "\<lambda>k m. ?s\<lparr>mem := m, pipes := (pipes s)(pi := ?x k)\<rparr>"
  note ca = calm_acq [OF c]
  have r32: "r \<le> 2 ^ 32" unfolding r_def l_def pipe_list_length
    using unsigned_less [of "pi_nwrite (pipes s pi) - pi_nread (pipes s pi)", where ?'a = nat] by simp
  have xl: "pipe_list (?x k) = drop k l" if "k \<le> r" for k
    using that pipe_list_pget_n [of k "pipes s pi"] by (simp add: r_def l_def)
  have step: "\<exists>m'. piperead_one pi pr addr k (?u k m) = Ok None (?u (Suc k) m') \<and> uwritten pt (mem s) addr (Suc k) (\<lambda>i. l ! i) m'"
    if k: "k < r" and w: "uwritten pt (mem s) addr k (\<lambda>i. l ! i) m" for k m
  proof -
    have "pipe_list (?x k) = l ! k # drop (Suc k) l" using xl [of k] k by (simp add: Cons_nth_drop_Suc r_def)
    note g = pipe_list_pget [OF this]
    have ne: "pi_nread (?x k) \<noteq> pi_nwrite (?x k)" using \<open>pipe_list (?x k) = _\<close> pipe_empty_iff by simp
    have "upage (mem s) pt (addr + of_nat k) \<noteq> 0" using pt(2) k by (simp add: uaccess_def)
    from copyout_byte [of pt "mem s" addr k "\<lambda>i. l ! i" "?u (Suc k) m", OF _ pt(3) k r32 pt(1) this] w
    obtain m' where m': "copyout pt (addr + of_nat k) (\<lambda>_. l ! k) 1 (?u (Suc k) m) = Ok 0 ((?u (Suc k) m)\<lparr>mem := m'\<rparr>)"
      "uwritten pt (mem s) addr (Suc k) (\<lambda>i. l ! i) m'" by auto
    then show ?thesis
      using g ne by (intro exI [of _ m']) (simp add: piperead_one_def Let_def upd_pipe_def pt_def [symmetric] pget_def)
  qed
  have u0: "?u 0 (mem s) = ?s" by (intro kstate.equality) simp_all
  have "returns (for_each [0..<r] (piperead_one pi pr addr) (?u 0 (mem s)))
    (\<lambda>v t. v = None \<and> (\<exists>m. t = ?u r m \<and> uwritten pt (mem s) addr r (\<lambda>i. l ! i) m))"
  proof (rule for_each_upt [where I = "\<lambda>k t. \<exists>m. t = ?u k m \<and> uwritten pt (mem s) addr k (\<lambda>i. l ! i) m"])
    show "\<exists>m. ?u 0 (mem s) = ?u 0 m \<and> uwritten pt (mem s) addr 0 (\<lambda>i. l ! i) m"
      by (intro exI [of _ "mem s"]) (simp add: uwritten_def)
  next
    fix k t
    assume k: "k < r" and "\<exists>m. t = ?u k m \<and> uwritten pt (mem s) addr k (\<lambda>i. l ! i) m"
    then obtain m where m: "t = ?u k m" "uwritten pt (mem s) addr k (\<lambda>i. l ! i) m" by blast
    obtain m' where "piperead_one pi pr addr k t = Ok None (?u (Suc k) m')" "uwritten pt (mem s) addr (Suc k) (\<lambda>i. l ! i) m'"
      using step [OF k m(2)] m(1) by blast
    then show "returns (piperead_one pi pr addr k t)
      (\<lambda>v t. v = None \<and> (\<exists>m. t = ?u (Suc k) m \<and> uwritten pt (mem s) addr (Suc k) (\<lambda>i. l ! i) m))" by auto
  qed
  then obtain m where f: "for_each [0..<r] (piperead_one pi pr addr) ?s = Ok None (?u r m)"
    and w: "uwritten pt (mem s) addr r (\<lambda>i. l ! i) m"
    unfolding u0 by (auto simp: returns_iff)
  have fn: "\<exists>v. for_each [0..<n] (piperead_one pi pr addr) ?s = Ok v (?u r m) \<and> (case v of Some i \<Rightarrow> i | None \<Rightarrow> int (nat (int n))) = int r"
  proof (cases "r = n")
    case True
    then show ?thesis using f by auto
  next
    case False
    then have lt: "r < n" "r = length l" by (auto simp: r_def)
    then have up: "[0..<n] = [0..<r] @ r # [Suc r..<n]"
      using upt_add_eq_append [of 0 r "n - r"] by (simp add: upt_conv_Cons)
    have "pi_nread (?x r) = pi_nwrite (?x r)" using xl [of r] lt(2) by (simp add: pipe_empty_iff)
    then have "piperead_one pi pr addr r (?u r m) = Ok (Some (int r)) (?u r m)" by (simp add: piperead_one_def)
    then show ?thesis unfolding up using f by (simp add: for_each_append)
  qed
  then obtain v where v: "for_each [0..<n] (piperead_one pi pr addr) ?s = Ok v (?u r m)"
    "(case v of Some i \<Rightarrow> i | None \<Rightarrow> int (nat (int n))) = int r" by blast
  have "piperead_wait pi pr () ?s = Ok (Inr True) ?s" using ne by (auto simp: piperead_wait_def pipe_empty_iff)
  then have "piperead pi addr (int n) s = andthen (wakeup (ChPipeWrite pi) (?u r m)) (\<lambda>_ s.
         andthen (release (LkPipe pi) s) (\<lambda>_ s. Ok (int r) s))"
    using v by (simp add: piperead_def ca(1,2) wloop_Inl)
  also have "\<dots> = Ok (int r) ((?u r m)\<lparr>procs := woken (ChPipeWrite pi) (Some pr) {..<NPROC} (procs s),
      csr := csr s, cpu := cpu s, locks := locks s\<rparr>)"
    by (subst wakeup_release [OF c]) simp_all
  finally show ?thesis using w by (intro exI [of _ m]) (simp add: acq_def)
qed

section \<open>Waiting, and the ends of a pipe\<close>

lemma pipewrite_closed:
  assumes c: "calm pr s" and n: "0 < n" and x: "\<not> pi_readopen (pipes s pi) \<or> p_killed (procs s pr)"
  shows "pipewrite pi addr n s = Ok (-1) s"
proof -
  note ca = calm_acq [OF c]
  have ok: "cpu_ok s" "free_lk (LkPipe pi) s" using c by (auto simp: calm_def)
  have k: "killed pr (acq (LkPipe pi) s) = Ok (p_killed (procs s pr)) (acq (LkPipe pi) s)"
    using ca(3,4) by (simp add: killed_eq)
  show ?thesis
    using x n k ok by (auto simp: pipewrite_def ca(1,2) wloop_Inl pipewrite_body_def)
qed

lemma pipewrite_full:
  assumes c: "calm pr s" "c_noff (cpu s) = 0" "pr < NPROC" and x: "pi_readopen (pipes s pi)" "\<not> p_killed (procs s pr)"
    and n: "0 < n" and full: "length (pipe_list (pipes s pi)) = PIPESIZE"
  shows "\<exists>s1 k. pipewrite pi addr n s = Swtch s1 k \<and> asleep pr (ChPipeWrite pi) s1 \<and> free_lk (LkPipe pi) s1
    \<and> (\<forall>q < NPROC. q \<noteq> pr \<longrightarrow> p_state (procs s q) = SLEEPING \<longrightarrow> p_chan (procs s q) = Some (ChPipeRead pi) \<longrightarrow>
         p_state (procs s1 q) = RUNNABLE)"
proof -
  note ca = calm_acq [OF c(1)]
  let ?s = "acq (LkPipe pi) s"
  let ?w = "?s\<lparr>procs := woken (ChPipeRead pi) (Some pr) {..<NPROC} (procs s)\<rparr>"
  have k: "killed pr ?s = Ok False ?s" using ca(3,4) x(2) by (simp add: killed_eq)
  have w: "wakeup (ChPipeRead pi) ?s = Ok () ?w" using ca(3,4) c(1) by (simp add: wakeup_eq calm_def)
  have "held (LkPipe pi) pr s ?w" using c(1) by (simp add: held_def)
  from sleep_held [OF this c(2), of "ChPipeWrite pi"]
  obtain s1 k where s1: "sleep (ChPipeWrite pi) (LkPipe pi) ?w = Swtch s1 k" "asleep pr (ChPipeWrite pi) s1" "free_lk (LkPipe pi) s1"
      "\<forall>q. q \<noteq> pr \<longrightarrow> procs s1 q = procs ?w q" by blast
  have "pi_nwrite (pipes s pi) = pi_nread (pipes s pi) + of_nat PIPESIZE" using full pipe_full_iff by blast
  then have b: "pipewrite_body pi pr addr n 0 ?s = Swtch s1 (\<lambda>x. andthen (k x) (\<lambda>_ s. Ok (Inl 0) s))"
    using n x(1) k w s1(1) by (simp add: pipewrite_body_def)
  have "\<exists>k. pipewrite pi addr n s = Swtch s1 k" by (simp add: pipewrite_def ca(1,2) wloop_Inl b)
  moreover have "p_state (procs s1 q) = RUNNABLE"
    if "q < NPROC" "q \<noteq> pr" "p_state (procs s q) = SLEEPING" "p_chan (procs s q) = Some (ChPipeRead pi)" for q
    using s1(4) that by (simp add: woken_def)
  ultimately show ?thesis using s1(2,3) by blast
qed

lemma piperead_empty:
  assumes c: "calm pr s" "c_noff (cpu s) = 0" and x: "pi_writeopen (pipes s pi)" "\<not> p_killed (procs s pr)"
    and empty: "pipe_list (pipes s pi) = []"
  shows "\<exists>s1 k. piperead pi addr n s = Swtch s1 k \<and> asleep pr (ChPipeRead pi) s1 \<and> free_lk (LkPipe pi) s1"
proof -
  note ca = calm_acq [OF c(1)]
  let ?s = "acq (LkPipe pi) s"
  have k: "killed pr ?s = Ok False ?s" using ca(3,4) x(2) by (simp add: killed_eq)
  from sleep_held [OF held_acq [OF c(1)] c(2), of "LkPipe pi" "ChPipeRead pi"]
  obtain s1 k where s1: "sleep (ChPipeRead pi) (LkPipe pi) ?s = Swtch s1 k" "asleep pr (ChPipeRead pi) s1" "free_lk (LkPipe pi) s1"
    by blast
  have "pi_nread (pipes s pi) = pi_nwrite (pipes s pi)" using empty pipe_empty_iff by blast
  then have b: "piperead_wait pi pr () ?s = Swtch s1 (\<lambda>x. andthen (k x) (\<lambda>_ s. Ok (Inl ()) s))"
    using x(1) k s1(1) by (simp add: piperead_wait_def)
  have "\<exists>k. piperead pi addr n s = Swtch s1 k" by (simp add: piperead_def ca(1,2) wloop_Inl b)
  then show ?thesis using s1(2,3) by blast
qed

lemma piperead_eof:
  assumes c: "calm pr s" and e: "pipe_list (pipes s pi) = []" "\<not> pi_writeopen (pipes s pi)"
    and pt: "pt_ok (mem s) (p_pagetable (procs s pr))"
  shows "\<exists>u. piperead pi addr (int n) s = Ok 0 u \<and> mem u = mem s \<and> pipes u = pipes s"
proof -
  have "uaccess (mem s) (p_pagetable (procs s pr)) addr 0" "uwritable (mem s) (p_pagetable (procs s pr)) addr 0"
    by (simp_all add: uaccess_def uwritable_def)
  then obtain m where m: "uwritten (p_pagetable (procs s pr)) (mem s) addr 0 (\<lambda>i. [] ! i) m"
      "piperead pi addr (int n) s = Ok 0 (s\<lparr>mem := m, pipes := (pipes s)(pi := pipes s pi),
         procs := woken (ChPipeWrite pi) (Some pr) {..<NPROC} (procs s)\<rparr>)"
    using piperead_ok [OF c, of pi addr n] e pt unfolding e(1) by auto
  moreover from m(1) have "m = mem s" by (auto simp: uwritten_def)
  ultimately show ?thesis by simp
qed

section \<open>What a pipe promises\<close>

definition demo_pipe :: kstate where
  "demo_pipe = demo_space\<lparr>procs := (procs demo_space)(0 := (procs demo_space 0)\<lparr>p_state := RUNNING, p_pagetable := 0x80040000\<rparr>),
     cpu := (cpu demo_space)\<lparr>c_proc := Some 0\<rparr>,
     pipes := (\<lambda>_. \<lparr>pi_data = (\<lambda>_. 0), pi_nread = 0xfffffff0, pi_nwrite = 0xfffffff0, pi_readopen = True, pi_writeopen = True\<rparr>)\<rparr>"

lemma demo_pipe_calm: "calm 0 demo_pipe" "c_noff (cpu demo_pipe) = 0"
  by (simp_all add: demo_pipe_def demo_space_def bss_def calm_def cpu_ok_def intr_get_def free_lk_def)

lemma demo_pipe_simps [simp]:
  "mem demo_pipe = demo_mem" "p_pagetable (procs demo_pipe 0) = 0x80040000" "\<not> p_killed (procs demo_pipe 0)"
  "pipe_list (pipes demo_pipe pi) = []" "pi_readopen (pipes demo_pipe pi)" "pi_writeopen (pipes demo_pipe pi)"
  by (simp_all add: demo_pipe_def demo_space_def bss_def zero_proc_def flip: pipe_empty_iff)

lemma demo_page0:
  assumes "x < 0x1000"
  shows "upage demo_mem 0x80040000 x = 0x80045000" "PGROUNDDOWN x = 0"
proof -
  have "unat x < PGBYTES" using assms unat_mono [of x "0x1000"] by (simp add: PGBYTES_def)
  then show "PGROUNDDOWN x = 0" using PGROUNDDOWN_add [OF aligned_0, of x] by simp
  then show "upage demo_mem 0x80040000 x = 0x80045000"
    using demo_upage upage_page [of x 0 demo_mem] by (simp add: PGROUNDDOWN_def PGSIZE_def)
qed

text \<open>C19. A pipe is a first-in first-out queue between two address spaces: a write that fits puts the bytes of
  the writer's buffer behind the bytes the pipe holds, and whoever reads next, from whatever state
  the kernel is then in, gets the first bytes of that sequence into their own buffer, as many as
  asked for or as there are, and leaves the rest.\<close>

theorem pipe_fifo:
  fixes n :: nat
  assumes "calm w s" and "pi_readopen (pipes s pi)" and "\<not> p_killed (procs s w)"
    and "pt_ok (mem s) (p_pagetable (procs s w))" and "uaccess (mem s) (p_pagetable (procs s w)) addr n"
    and "length (pipe_list (pipes s pi)) + n \<le> PIPESIZE"
    and "l = pipe_list (pipes s pi) @ ubytes (mem s) (p_pagetable (procs s w)) addr n" and "l \<noteq> []"
  shows "\<exists>u. pipewrite pi addr (int n) s = Ok (int n) u \<and>
    (\<forall>t r va k pt. calm r t \<and> pipes t pi = pipes u pi \<and> pt = p_pagetable (procs t r) \<and> pt_ok (mem t) pt
       \<and> uaccess (mem t) pt va (min k (length l)) \<and> uwritable (mem t) pt va (min k (length l)) \<longrightarrow>
      (\<exists>v. piperead pi va (int k) t = Ok (int (min k (length l))) v \<and>
        ubytes (mem v) pt va (min k (length l)) = take k l \<and> pipe_list (pipes v pi) = drop k l))"
proof -
  obtain u where u: "pipewrite pi addr (int n) s = Ok (int n) u"
      and p: "pipes u pi = fold pput (ubytes (mem s) (p_pagetable (procs s w)) addr n) (pipes s pi)"
    using pipewrite_ok [OF assms(1-3,6,4,5)] by simp
  have l: "pipe_list (pipes u pi) = l"
    using fold_pput [of "pipes s pi" "ubytes (mem s) (p_pagetable (procs s w)) addr n"] assms(6) by (simp add: p assms(7))
  show ?thesis
  proof (rule exI [of _ u], intro conjI u allI impI, elim conjE)
    fix t r va k pt
    assume t: "calm r t" "pipes t pi = pipes u pi" "pt = p_pagetable (procs t r)" "pt_ok (mem t) pt"
      "uaccess (mem t) pt va (min k (length l))" "uwritable (mem t) pt va (min k (length l))"
    have lt: "pipe_list (pipes t pi) = l" using t(2) l by simp
    have "pipe_list (pipes t pi) \<noteq> [] \<or> \<not> pi_writeopen (pipes t pi)" using lt assms(8) by simp
    from piperead_ok [OF t(1) this, of va k] t(4-6) obtain m where
      r: "piperead pi va (int k) t = Ok (int (min k (length l))) (t\<lparr>mem := m, pipes := (pipes t)(pi := (pget ^^ min k (length l)) (pipes t pi)),
        procs := woken (ChPipeWrite pi) (Some r) {..<NPROC} (procs t)\<rparr>)"
      and m: "uwritten pt (mem t) va (min k (length l)) (\<lambda>i. l ! i) m"
      unfolding lt t(3) by blast
    have "ubytes m pt va (min k (length l)) = take k l"
      by (rule nth_equalityI) (simp_all add: ubytes_def uwritten_uread [OF m t(6,4)])
    moreover have "pipe_list ((pget ^^ min k (length l)) (pipes t pi)) = drop k l"
      using pipe_list_pget_n [of "min k (length l)" "pipes t pi"] by (simp add: lt min_def)
    ultimately show "\<exists>v. piperead pi va (int k) t = Ok (int (min k (length l))) v \<and>
        ubytes (mem v) pt va (min k (length l)) = take k l \<and> pipe_list (pipes v pi) = drop k l"
      using r by simp
  qed
qed

theorem pipe_fifo_witness:
  "\<exists>u v. pipewrite 0x80042000 0x10 3 demo_pipe = Ok 3 u \<and> piperead 0x80042000 0x100 2 u = Ok 2 v
     \<and> ubytes (mem v) 0x80040000 0x100 2 = take 2 (ubytes demo_mem 0x80040000 0x10 3) \<and> length (pipe_list (pipes v 0x80042000)) = 1"
proof -
  have pt: "pt_ok demo_mem 0x80040000" using as_okD(2) [OF demo_as_ok(1)] by simp
  have off: "0x10 + of_nat i < (0x1000 :: uint32)" "0x100 + of_nat i < (0x1000 :: uint32)" if "i < 3" for i
    using that by (auto simp: less_Suc_eq numeral_3_eq_3)
  have a: "uaccess demo_mem 0x80040000 0x10 3" "uaccess demo_mem 0x80040000 0x100 2"
    "uwritable demo_mem 0x80040000 0x100 2"
    using off by (simp_all add: uaccess_def uwritable_def demo_page0 demo_tables)
  let ?l = "ubytes demo_mem 0x80040000 0x10 3"
  have l: "length ?l = 3" "?l \<noteq> []" by (simp_all add: ubytes_def)
  from pipe_fifo [OF demo_pipe_calm(1), of "0x80042000" "0x10" 3 ?l] pt a(1) l(2) obtain u where
    u: "pipewrite 0x80042000 0x10 3 demo_pipe = Ok 3 u" and
    f: "\<forall>t r va k pt. calm r t \<and> pipes t 0x80042000 = pipes u 0x80042000 \<and> pt = p_pagetable (procs t r) \<and> pt_ok (mem t) pt
       \<and> uaccess (mem t) pt va (min k 3) \<and> uwritable (mem t) pt va (min k 3) \<longrightarrow>
      (\<exists>v. piperead 0x80042000 va (int k) t = Ok (int (min k 3)) v \<and>
        ubytes (mem v) pt va (min k 3) = take k ?l \<and> pipe_list (pipes v 0x80042000) = drop k ?l)"
    unfolding l(1) by (auto simp: PIPESIZE_def)
  obtain x where "u = demo_pipe\<lparr>pipes := x, procs := woken (ChPipeRead 0x80042000) (Some 0) {..<NPROC} (procs demo_pipe)\<rparr>"
    using u pipewrite_ok [OF demo_pipe_calm(1), of "0x80042000" 3 "0x10"] pt a(1) by (simp add: PIPESIZE_def)
  then have "calm 0 u" "p_pagetable (procs u 0) = 0x80040000" "mem u = demo_mem"
    using demo_pipe_calm(1) by (auto simp: calm_def woken_def cpu_ok_def intr_get_def free_lk_def)
  then obtain v where v: "piperead 0x80042000 0x100 2 u = Ok 2 v" "ubytes (mem v) 0x80040000 0x100 2 = take 2 ?l"
      "pipe_list (pipes v 0x80042000) = drop 2 ?l"
    using f [rule_format, of 0 u "0x80040000" "0x100" 2] pt a by auto
  then have "length (pipe_list (pipes v 0x80042000)) = 1" using l(1) by simp
  then show ?thesis using u v by blast
qed

text \<open>C20. The ends of a pipe: a write to a pipe nobody will read again returns -1 and changes nothing; a write to
  a full pipe wakes every waiting reader and puts the writer to sleep with the lock free; a read
  from an empty pipe that can still be written puts the reader to sleep, and once the last writer
  has closed it, returns 0.\<close>

theorem pipe_ends:
  assumes "calm pr s" "c_noff (cpu s) = 0" "pr < NPROC" "\<not> p_killed (procs s pr)" "0 < n"
    and "pt_ok (mem s) (p_pagetable (procs s pr))"
  shows "(\<not> pi_readopen (pipes s pi) \<longrightarrow> pipewrite pi addr n s = Ok (-1) s) \<and>
    (pi_readopen (pipes s pi) \<and> length (pipe_list (pipes s pi)) = PIPESIZE \<longrightarrow>
      (\<exists>s1 k. pipewrite pi addr n s = Swtch s1 k \<and> asleep pr (ChPipeWrite pi) s1 \<and> free_lk (LkPipe pi) s1
        \<and> (\<forall>q < NPROC. q \<noteq> pr \<longrightarrow> p_state (procs s q) = SLEEPING \<longrightarrow> p_chan (procs s q) = Some (ChPipeRead pi) \<longrightarrow>
             p_state (procs s1 q) = RUNNABLE))) \<and>
    (pipe_list (pipes s pi) = [] \<longrightarrow> (if pi_writeopen (pipes s pi)
      then \<exists>s1 k. piperead pi addr n s = Swtch s1 k \<and> asleep pr (ChPipeRead pi) s1 \<and> free_lk (LkPipe pi) s1
      else \<exists>u. piperead pi addr n s = Ok 0 u \<and> mem u = mem s \<and> pipes u = pipes s))"
proof -
  have eof: "\<exists>u. piperead pi addr n s = Ok 0 u \<and> mem u = mem s \<and> pipes u = pipes s"
    if "pipe_list (pipes s pi) = []" "\<not> pi_writeopen (pipes s pi)"
    using piperead_eof [OF assms(1) that assms(6), of addr "nat n"] assms(5) by simp
  show ?thesis
    using pipewrite_closed [OF assms(1,5)] pipewrite_full [OF assms(1-3) _ assms(4,5)]
      piperead_empty [OF assms(1,2) _ assms(4)] eof
    by (cases "pi_writeopen (pipes s pi)") (intro conjI impI; simp)+
qed

theorem pipe_ends_witness:
  "\<exists>s1 k. piperead 0x80042000 0x100 2 demo_pipe = Swtch s1 k \<and> asleep 0 (ChPipeRead 0x80042000) s1 \<and> free_lk (LkPipe 0x80042000) s1"
  using pipe_ends [OF demo_pipe_calm, of 2 "0x80042000" "0x100"] as_okD(2) [OF demo_as_ok(1)] by (simp add: NPROC_def)

end
