(* ===== verification/Qemu.thy ===== *)
theory Qemu
  imports Boot Pipeio
begin

text \<open>
  \<open>platform/qemu/platform.c\<close>: the other implementation of \<open>platform/common/platform.h\<close>, with a 16550 UART and
  a virtio block device. It is linked in place of the NEMU platform, so its names carry a suffix here.
  The transmitter takes \<open>uart_idle\<close> more bytes before its holding register is busy, and \<open>uart_rx\<close> is what
  it has received. The device's half of the disk (writing the status byte and the used ring) is not
  part of the program: \<open>vd_used_dev\<close>, \<open>vd_used_ring\<close> and \<open>vd_status\<close> are what the driver finds there.
  \<open>mmio_in\<close> gives what the other device registers read as.
\<close>

section \<open>UART\<close>

definition QEMU_UART0 :: uint32 where [const_defs]: "QEMU_UART0 = 0x10000000"
definition UART_IER :: uint32 where [const_defs]: "UART_IER = 1"
definition UART_IER_RX_ENABLE :: uint32 where [const_defs]: "UART_IER_RX_ENABLE = 1"
definition UART_IER_TX_ENABLE :: uint32 where [const_defs]: "UART_IER_TX_ENABLE = 2"
definition UART_FCR :: uint32 where [const_defs]: "UART_FCR = 2"
definition UART_LCR :: uint32 where [const_defs]: "UART_LCR = 3"
definition UART_LSR :: uint32 where [const_defs]: "UART_LSR = 5"
definition UART_LSR_RX_READY :: uint32 where [const_defs]: "UART_LSR_RX_READY = 1"
definition UART_LSR_TX_IDLE :: uint32 where [const_defs]: "UART_LSR_TX_IDLE = 0x20"

text \<open>The line status register, and the two sides of the data register.\<close>

definition uart_lsr :: "uart \<Rightarrow> uint32" where
  "uart_lsr u = (if uart_rx u \<noteq> [] then UART_LSR_RX_READY else 0) OR (if uart_idle u \<noteq> 0 then UART_LSR_TX_IDLE else 0)"

definition uart_thr :: "byte \<Rightarrow> uart \<Rightarrow> uart" where
  "uart_thr c u = u\<lparr>uart_sent := uart_sent u @ [c], uart_idle := uart_idle u - 1\<rparr>"

definition upd_uart :: "(uart \<Rightarrow> uart) \<Rightarrow> kstate \<Rightarrow> kstate" where
  "upd_uart f s = s\<lparr>uart := f (uart s)\<rparr>"

text \<open>The loop variable is the number of bytes waiting. When none is left the driver reads the interrupt status register to lower
  the interrupt line, which is not part of the state, and drops the value.\<close>

definition uart_start_body :: "nat \<Rightarrow> kstate \<Rightarrow> (nat + unit) kres" where
  "uart_start_body n s =
     (if tx_w (uart s) = tx_r (uart s) then Ok (Inr ()) s
      else if uart_lsr (uart s) AND UART_LSR_TX_IDLE = 0 then Ok (Inr ()) s
      else
        let c = tx_buf (uart s) (unat (tx_r (uart s)) mod UART_TX_BUF_SIZE) in
        andthen (wakeup ChUart (upd_uart (\<lambda>u. u\<lparr>tx_r := tx_r u + 1\<rparr>) s)) (\<lambda>_ s.
        let s = upd_uart (uart_thr c) s
        in Ok (Inl (unat (tx_w (uart s) - tx_r (uart s)))) s))"

definition platform_qemu_uart_start :: "kstate \<Rightarrow> unit kres" where
  "platform_qemu_uart_start s =
     wloop (\<lambda>n. n) uart_start_body (Ok (Inl (unat (tx_w (uart s) - tx_r (uart s)))) s)"

definition platform_uart_init_qemu :: "kstate \<Rightarrow> kstate" where
  "platform_uart_init_qemu s =
     (let w = (\<lambda>r v s. mmio_write (QEMU_UART0 + r) v s);
          s = w UART_IER 0 s;
          s = w UART_LCR 0x80 s;
          s = w 0 (32000000 div 115200 AND 0xff) s;
          s = w 1 (drop_bit 8 (32000000 div 115200)) s;
          s = w UART_LCR 0 s;
          s = w UART_FCR 7 s;
          s = w UART_IER (UART_IER_TX_ENABLE OR UART_IER_RX_ENABLE) s
      in initlock LkUart ''platform_uart'' s)"

definition platform_uart_getc_qemu :: "kstate \<Rightarrow> int \<times> kstate" where
  "platform_uart_getc_qemu s =
     (if uart_lsr (uart s) AND UART_LSR_RX_READY \<noteq> 0
      then (uint (hd (uart_rx (uart s))), upd_uart (\<lambda>u. u\<lparr>uart_rx := tl (uart_rx u)\<rparr>) s)
      else (-1, s))"

definition uart_wait :: "unit \<Rightarrow> kstate \<Rightarrow> (unit + unit) kres" where
  "uart_wait l s =
     (if tx_w (uart s) = tx_r (uart s) + of_nat UART_TX_BUF_SIZE
      then andthen (sleep ChUart LkUart s) (\<lambda>_ s. Ok (Inl ()) s)
      else Ok (Inr ()) s)"

definition platform_uart_putc_qemu :: "int \<Rightarrow> kstate \<Rightarrow> unit kres" where
  "platform_uart_putc_qemu c s =
     andthen (acquire LkUart s) (\<lambda>_ s.
     if panicked s then Spin
     else
       andthen (wloop (\<lambda>_. 0) uart_wait (Ok (Inl ()) s)) (\<lambda>_ s.
       let s = upd_uart (\<lambda>u. u\<lparr>tx_buf := (tx_buf u)(unat (tx_w u) mod UART_TX_BUF_SIZE := word_of_int c),
                               tx_w := tx_w u + 1\<rparr>) s
       in andthen (platform_qemu_uart_start s) (\<lambda>_ s. release LkUart s)))"

text \<open>The busy wait of \<open>platform_uart_putc_sync\<close> ends when the transmitter has emptied its holding
  register.\<close>

definition platform_uart_putc_sync_qemu :: "int \<Rightarrow> kstate \<Rightarrow> unit kres" where
  "platform_uart_putc_sync_qemu c s =
     (let s = push_off s in
      if panicked s then Spin
      else
       let s = upd_uart (\<lambda>u. if uart_lsr u AND UART_LSR_TX_IDLE = 0 then u\<lparr>uart_idle := 1\<rparr> else u) s;
           s = upd_uart (uart_thr (word_of_int c)) s
       in pop_off s)"

text \<open>\<open>intr\<close> is the kernel's \<open>consoleintr\<close>, linked with this platform; the loop variable counts the received
  bytes left.\<close>

definition uart_intr_body :: "(int \<Rightarrow> kstate \<Rightarrow> unit kres) \<Rightarrow> nat \<Rightarrow> kstate \<Rightarrow> (nat + unit) kres" where
  "uart_intr_body intr n s =
     (let (c, s) = platform_uart_getc_qemu s in
      if c = -1 then Ok (Inr ()) s
      else andthen (intr c s) (\<lambda>_ s. Ok (Inl (length (uart_rx (uart s)))) s))"

definition platform_qemu_uart_intr :: "(int \<Rightarrow> kstate \<Rightarrow> unit kres) \<Rightarrow> kstate \<Rightarrow> unit kres" where
  "platform_qemu_uart_intr intr s =
     andthen (wloop (\<lambda>n. n) (uart_intr_body intr) (Ok (Inl (length (uart_rx (uart s)))) s)) (\<lambda>_ s.
     andthen (acquire LkUart s) (\<lambda>_ s.
     andthen (platform_qemu_uart_start s) (\<lambda>_ s.
     release LkUart s)))"

section \<open>Disk\<close>

definition NUM :: nat where [const_defs]: "NUM = 8"
definition VRING_DESC_F_NEXT :: uint16 where [const_defs]: "VRING_DESC_F_NEXT = 1"
definition VRING_DESC_F_WRITE :: uint16 where [const_defs]: "VRING_DESC_F_WRITE = 2"
definition VIRTIO_BLK_T_IN :: uint32 where [const_defs]: "VIRTIO_BLK_T_IN = 0"
definition VIRTIO_BLK_T_OUT :: uint32 where [const_defs]: "VIRTIO_BLK_T_OUT = 1"

definition QEMU_VIRTIO0 :: uint32 where [const_defs]: "QEMU_VIRTIO0 = 0x10001000"
text \<open>The registers, status bits and feature bits of \<open>virtio.h\<close>, by what follows \<open>VIRTIO_MMIO_\<close>, \<open>VIRTIO_CONFIG_S_\<close> and \<open>VIRTIO_\<close>
  in their names.\<close>

definition virtio_mmio :: "string \<Rightarrow> uint32" where
  "virtio_mmio r = the (map_of
     [(''MAGIC_VALUE'', 0), (''VERSION'', 4), (''DEVICE_ID'', 8), (''VENDOR_ID'', 0xc),
      (''DEVICE_FEATURES'', 0x10), (''DRIVER_FEATURES'', 0x20), (''QUEUE_SEL'', 0x30),
      (''QUEUE_NUM_MAX'', 0x34), (''QUEUE_NUM'', 0x38), (''QUEUE_READY'', 0x44),
      (''QUEUE_NOTIFY'', 0x50), (''INTERRUPT_STATUS'', 0x60), (''INTERRUPT_ACK'', 0x64),
      (''STATUS'', 0x70), (''QUEUE_DESC_LOW'', 0x80), (''QUEUE_DESC_HIGH'', 0x84),
      (''DRIVER_DESC_LOW'', 0x90), (''DRIVER_DESC_HIGH'', 0x94), (''DEVICE_DESC_LOW'', 0xa0),
      (''DEVICE_DESC_HIGH'', 0xa4)] r)"

definition virtio_config_s :: "string \<Rightarrow> uint32" where
  "virtio_config_s b = the (map_of [(''ACKNOWLEDGE'', 1), (''DRIVER'', 2), (''DRIVER_OK'', 4), (''FEATURES_OK'', 8)] b)"

definition virtio_f :: "string \<Rightarrow> nat" where
  "virtio_f b = the (map_of
     [(''BLK_F_RO'', 5), (''BLK_F_SCSI'', 7), (''BLK_F_CONFIG_WCE'', 11), (''BLK_F_MQ'', 12),
      (''F_ANY_LAYOUT'', 27), (''RING_F_INDIRECT_DESC'', 28), (''RING_F_EVENT_IDX'', 29)] b)"

definition virtio_read :: "uint32 \<Rightarrow> kstate \<Rightarrow> uint32" where
  "virtio_read r s = mmio_in s (QEMU_VIRTIO0 + r)"

definition virtio_write :: "uint32 \<Rightarrow> uint32 \<Rightarrow> kstate \<Rightarrow> kstate" where
  "virtio_write r v s = mmio_write (QEMU_VIRTIO0 + r) v s"

definition upd_vdisk :: "(qemu_disk \<Rightarrow> qemu_disk) \<Rightarrow> kstate \<Rightarrow> kstate" where
  "upd_vdisk f s = s\<lparr>vdisk := f (vdisk s)\<rparr>"

definition upd_desc :: "nat \<Rightarrow> (virtq_desc \<Rightarrow> virtq_desc) \<Rightarrow> kstate \<Rightarrow> kstate" where
  "upd_desc i f = upd_vdisk (\<lambda>d. d\<lparr>vd_desc := (vd_desc d)(i := f (vd_desc d i))\<rparr>)"

definition platform_qemu_alloc_desc :: "kstate \<Rightarrow> int \<times> kstate" where
  "platform_qemu_alloc_desc s =
     (case find (vd_free (vdisk s)) [0..<NUM] of
        Some i \<Rightarrow> (int i, upd_vdisk (\<lambda>d. d\<lparr>vd_free := (vd_free d)(i := False)\<rparr>) s)
      | None \<Rightarrow> (-1, s))"

definition platform_qemu_free_desc :: "nat \<Rightarrow> kstate \<Rightarrow> unit kres" where
  "platform_qemu_free_desc i s =
     (if i \<ge> NUM then Panic ''platform_qemu_free_desc 1''
      else if vd_free (vdisk s) i then Panic ''platform_qemu_free_desc 2''
      else
        let s = upd_desc i (\<lambda>_. \<lparr>vq_addr = 0, vq_len = 0, vq_flags = 0, vq_next = 0\<rparr>) s;
            s = upd_vdisk (\<lambda>d. d\<lparr>vd_free := (vd_free d)(i := True)\<rparr>) s
        in wakeup ChDiskFree s)"

text \<open>A chain longer than the table runs into a descriptor that is free already, so \<open>NUM\<close> rounds bound the
  loop.\<close>

definition free_chain_body :: "nat \<times> nat \<Rightarrow> kstate \<Rightarrow> (nat \<times> nat + unit) kres" where
  "free_chain_body l s =
     (let (i, n) = l;
          flags = vq_flags (vd_desc (vdisk s) i);
          next = vq_next (vd_desc (vdisk s) i)
      in andthen (platform_qemu_free_desc i s) (\<lambda>_ s.
         if flags AND VRING_DESC_F_NEXT \<noteq> 0 then Ok (Inl (unat next, n - 1)) s else Ok (Inr ()) s))"

definition platform_qemu_free_chain :: "nat \<Rightarrow> kstate \<Rightarrow> unit kres" where
  "platform_qemu_free_chain i s = wloop snd free_chain_body (Ok (Inl (i, NUM)) s)"

text \<open>\<open>n\<close> descriptors are still to get; the array \<open>idx\<close> is the list of those got so far.\<close>

primrec alloc_descs :: "nat \<Rightarrow> nat list \<Rightarrow> kstate \<Rightarrow> nat list option kres" where
  "alloc_descs 0 idx s = Ok (Some idx) s"
| "alloc_descs (Suc n) idx s =
     (let (r, s) = platform_qemu_alloc_desc s in
      if r < 0 then
        andthen (for_each idx (\<lambda>j s. andthen (platform_qemu_free_desc j s) (\<lambda>_ s. Ok (None :: unit option) s)) s) (\<lambda>_ s.
        Ok None s)
      else alloc_descs n (idx @ [nat r]) s)"

definition platform_qemu_alloc3_desc :: "kstate \<Rightarrow> nat list option kres" where
  "platform_qemu_alloc3_desc = alloc_descs 3 []"

definition alloc3_wait :: "unit \<Rightarrow> kstate \<Rightarrow> (unit + nat list) kres" where
  "alloc3_wait l s =
     andthen (platform_qemu_alloc3_desc s) (\<lambda>r s.
     case r of
       Some idx \<Rightarrow> Ok (Inr idx) s
     | None \<Rightarrow> andthen (sleep ChDiskFree LkDisk s) (\<lambda>_ s. Ok (Inl ()) s))"

text \<open>The three descriptors of a request: its header, the data and the status byte. \<open>ops\<close> and \<open>info\<close> are arrays of
  16-byte and 8-byte structures of \<open>qemu_disk\<close>.\<close>

definition disk_request :: "nat list \<Rightarrow> uint32 \<Rightarrow> uint32 \<Rightarrow> bool \<Rightarrow> kstate \<Rightarrow> kstate" where
  "disk_request idx sector buf write s =
     (let i0 = idx ! 0; i1 = idx ! 1; i2 = idx ! 2;
          s = upd_vdisk (\<lambda>d. d\<lparr>vd_ops := (vd_ops d)(i0 :=
                \<lparr>rq_type = (if write then VIRTIO_BLK_T_OUT else VIRTIO_BLK_T_IN), rq_reserved = 0, rq_sector = ucast sector\<rparr>)\<rparr>) s;
          s = upd_desc i0 (\<lambda>_. \<lparr>vq_addr = ucast (k_sym s ''qemu_disk.ops'' + of_nat i0 * 16), vq_len = 16,
                vq_flags = VRING_DESC_F_NEXT, vq_next = of_nat i1\<rparr>) s;
          s = upd_desc i1 (\<lambda>_. \<lparr>vq_addr = ucast buf, vq_len = of_nat BSIZE,
                vq_flags = (if write then 0 else VRING_DESC_F_WRITE) OR VRING_DESC_F_NEXT, vq_next = of_nat i2\<rparr>) s;
          s = upd_vdisk (\<lambda>d. d\<lparr>vd_status := (vd_status d)(i0 := 0xff), vd_done := (vd_done d)(i0 := False)\<rparr>) s;
          s = upd_desc i2 (\<lambda>_. \<lparr>vq_addr = ucast (k_sym s ''qemu_disk.info'' + of_nat i0 * 8), vq_len = 1,
                vq_flags = VRING_DESC_F_WRITE, vq_next = 0\<rparr>) s;
          s = upd_vdisk (\<lambda>d. d\<lparr>vd_avail_ring := (vd_avail_ring d)(unat (vd_avail_idx d) mod NUM := of_nat i0)\<rparr>) s;
          s = upd_vdisk (\<lambda>d. d\<lparr>vd_avail_idx := vd_avail_idx d + 1\<rparr>) s
      in virtio_write (virtio_mmio ''QUEUE_NOTIFY'') 0 s)"

definition disk_wait :: "nat \<Rightarrow> unit \<Rightarrow> kstate \<Rightarrow> (unit + unit) kres" where
  "disk_wait i l s =
     (if \<not> vd_done (vdisk s) i then andthen (sleep (ChDiskInfo i) LkDisk s) (\<lambda>_ s. Ok (Inl ()) s)
      else Ok (Inr ()) s)"

definition platform_qemu_disk_rw :: "uint32 \<Rightarrow> uint32 \<Rightarrow> bool \<Rightarrow> kstate \<Rightarrow> unit kres" where
  "platform_qemu_disk_rw blockno buf write s =
     (let sector = blockno * of_nat (BSIZE div 512) in
      andthen (acquire LkDisk s) (\<lambda>_ s.
      andthen (wloop (\<lambda>_. 0) alloc3_wait (Ok (Inl ()) s)) (\<lambda>idx s.
      andthen (wloop (\<lambda>_. 0) (disk_wait (idx ! 0)) (Ok (Inl ()) (disk_request idx sector buf write s))) (\<lambda>_ s.
      andthen (platform_qemu_free_chain (idx ! 0) s) (\<lambda>_ s.
      andthen (release LkDisk s) (\<lambda>_ s.
      if vd_status (vdisk s) (idx ! 0) \<noteq> 0 then Panic ''platform_qemu_disk_rw status'' else Ok () s))))))"

definition platform_disk_read_qemu :: "uint32 \<Rightarrow> uint32 \<Rightarrow> kstate \<Rightarrow> unit kres" where
  "platform_disk_read_qemu blockno buf = platform_qemu_disk_rw blockno buf False"

definition platform_disk_write_qemu :: "uint32 \<Rightarrow> uint32 \<Rightarrow> kstate \<Rightarrow> unit kres" where
  "platform_disk_write_qemu blockno buf = platform_qemu_disk_rw blockno buf True"

text \<open>The feature negotiation and the queue setup of \<open>platform_disk_init\<close>.\<close>

definition disk_features :: "uint32 \<Rightarrow> uint32" where
  "disk_features f = fold (\<lambda>b f. f AND NOT (push_bit b 1))
     [virtio_f ''BLK_F_RO'', virtio_f ''BLK_F_SCSI'', virtio_f ''BLK_F_CONFIG_WCE'', virtio_f ''BLK_F_MQ'', virtio_f ''F_ANY_LAYOUT'',
      virtio_f ''RING_F_EVENT_IDX'', virtio_f ''RING_F_INDIRECT_DESC''] f"

definition disk_queue_init :: "uint32 \<Rightarrow> kstate \<Rightarrow> unit kres" where
  "disk_queue_init status s =
     andthen (kalloc s) (\<lambda>desc s.
     andthen (kalloc s) (\<lambda>avail s.
     andthen (kalloc s) (\<lambda>used s.
     if desc = 0 \<or> avail = 0 \<or> used = 0 then Panic ''platform_disk_init: kalloc''
     else
       let s = upd_vdisk (\<lambda>d. d\<lparr>vd_desc_pa := desc, vd_avail_pa := avail, vd_used_pa := used,
                 vd_desc := (\<lambda>_. \<lparr>vq_addr = 0, vq_len = 0, vq_flags = 0, vq_next = 0\<rparr>), vd_avail_idx := 0,
                 vd_avail_ring := (\<lambda>_. 0), vd_used_dev := 0, vd_used_ring := (\<lambda>_. 0)\<rparr>) s;
           s = virtio_write (virtio_mmio ''QUEUE_NUM'') (of_nat NUM) s;
           s = virtio_write (virtio_mmio ''QUEUE_DESC_LOW'') desc s;
           s = virtio_write (virtio_mmio ''QUEUE_DESC_HIGH'') 0 s;
           s = virtio_write (virtio_mmio ''DRIVER_DESC_LOW'') avail s;
           s = virtio_write (virtio_mmio ''DRIVER_DESC_HIGH'') 0 s;
           s = virtio_write (virtio_mmio ''DEVICE_DESC_LOW'') used s;
           s = virtio_write (virtio_mmio ''DEVICE_DESC_HIGH'') 0 s;
           s = virtio_write (virtio_mmio ''QUEUE_READY'') 1 s;
           s = upd_vdisk (\<lambda>d. d\<lparr>vd_free := (\<lambda>i. if i < NUM then True else vd_free d i)\<rparr>) s
       in Ok () (virtio_write (virtio_mmio ''STATUS'') (status OR virtio_config_s ''DRIVER_OK'') s))))"

definition platform_disk_init_qemu :: "kstate \<Rightarrow> unit kres" where
  "platform_disk_init_qemu s =
     (let s = initlock LkDisk ''platform_disk'' s in
      if virtio_read (virtio_mmio ''MAGIC_VALUE'') s \<noteq> 0x74726976 \<or> virtio_read (virtio_mmio ''VERSION'') s \<noteq> 2
         \<or> virtio_read (virtio_mmio ''DEVICE_ID'') s \<noteq> 2 \<or> virtio_read (virtio_mmio ''VENDOR_ID'') s \<noteq> 0x554d4551
      then Panic ''platform_disk_init: no virtio disk''
      else
        let s = virtio_write (virtio_mmio ''STATUS'') 0 s;
            status = virtio_config_s ''ACKNOWLEDGE'';
            s = virtio_write (virtio_mmio ''STATUS'') status s;
            status = status OR virtio_config_s ''DRIVER'';
            s = virtio_write (virtio_mmio ''STATUS'') status s;
            s = virtio_write (virtio_mmio ''DRIVER_FEATURES'') (disk_features (virtio_read (virtio_mmio ''DEVICE_FEATURES'') s)) s;
            status = status OR virtio_config_s ''FEATURES_OK'';
            s = virtio_write (virtio_mmio ''STATUS'') status s;
            status = virtio_read (virtio_mmio ''STATUS'') s
        in if status AND virtio_config_s ''FEATURES_OK'' = 0 then Panic ''platform_disk_init: FEATURES_OK unset''
           else
             let s = virtio_write (virtio_mmio ''QUEUE_SEL'') 0 s in
             if virtio_read (virtio_mmio ''QUEUE_READY'') s \<noteq> 0 then Panic ''platform_disk_init: queue already ready''
             else
               let mx = virtio_read (virtio_mmio ''QUEUE_NUM_MAX'') s in
               if mx = 0 then Panic ''platform_disk_init: no queue 0''
               else if mx < of_nat NUM then Panic ''platform_disk_init: short queue''
               else disk_queue_init status s)"

definition disk_intr_body :: "uint16 \<Rightarrow> kstate \<Rightarrow> (uint16 + unit) kres" where
  "disk_intr_body l s =
     (if vd_used_idx (vdisk s) = vd_used_dev (vdisk s) then Ok (Inr ()) s
      else
        let i = unat (vd_used_ring (vdisk s) (unat (vd_used_idx (vdisk s)) mod NUM)) in
        if vd_status (vdisk s) i \<noteq> 0 then Panic ''platform_qemu_disk_intr: bad status''
        else
          andthen (wakeup (ChDiskInfo i) (upd_vdisk (\<lambda>d. d\<lparr>vd_done := (vd_done d)(i := True)\<rparr>) s)) (\<lambda>_ s.
          let s = upd_vdisk (\<lambda>d. d\<lparr>vd_used_idx := vd_used_idx d + 1\<rparr>) s
          in Ok (Inl (vd_used_dev (vdisk s) - vd_used_idx (vdisk s))) s))"

definition platform_qemu_disk_intr :: "kstate \<Rightarrow> unit kres" where
  "platform_qemu_disk_intr s =
     andthen (acquire LkDisk s) (\<lambda>_ s.
     let s = virtio_write (virtio_mmio ''INTERRUPT_ACK'') (virtio_read (virtio_mmio ''INTERRUPT_STATUS'') s AND 3) s in
     andthen (wloop unat disk_intr_body (Ok (Inl (vd_used_dev (vdisk s) - vd_used_idx (vdisk s))) s)) (\<lambda>_ s.
     release LkDisk s))"

section \<open>Interrupts, timer, page table\<close>

definition QEMU_UART0_IRQ :: nat where [const_defs]: "QEMU_UART0_IRQ = 10"
definition QEMU_VIRTIO0_IRQ :: nat where [const_defs]: "QEMU_VIRTIO0_IRQ = 1"
definition QEMU_PLIC :: uint32 where [const_defs]: "QEMU_PLIC = 0x0c000000"
definition QEMU_CLINT :: uint32 where [const_defs]: "QEMU_CLINT = 0x02000000"
definition QEMU_TIMER_INTERVAL :: uint32 where [const_defs]: "QEMU_TIMER_INTERVAL = 3200000"

definition QEMU_CLINT_MTIMECMP :: "uint32 \<Rightarrow> uint32" where
  "QEMU_CLINT_MTIMECMP hartid = QEMU_CLINT + 0x4000 + 8 * hartid"

definition QEMU_PLIC_SENABLE :: "nat \<Rightarrow> uint32" where
  "QEMU_PLIC_SENABLE hart = QEMU_PLIC + 0x2080 + of_nat hart * 0x100"

definition QEMU_PLIC_SPRIORITY :: "nat \<Rightarrow> uint32" where
  "QEMU_PLIC_SPRIORITY hart = QEMU_PLIC + 0x201000 + of_nat hart * 0x2000"

definition QEMU_PLIC_SCLAIM :: "nat \<Rightarrow> uint32" where
  "QEMU_PLIC_SCLAIM hart = QEMU_PLIC + 0x201004 + of_nat hart * 0x2000"

definition platform_irq_init_qemu :: "kstate \<Rightarrow> kstate" where
  "platform_irq_init_qemu s =
     mmio_write (QEMU_PLIC + of_nat QEMU_VIRTIO0_IRQ * 4) 1 (mmio_write (QEMU_PLIC + of_nat QEMU_UART0_IRQ * 4) 1 s)"

definition platform_irq_init_hart_qemu :: "kstate \<Rightarrow> kstate" where
  "platform_irq_init_hart_qemu s =
     mmio_write (QEMU_PLIC_SPRIORITY (cpuid s)) 0
       (mmio_write (QEMU_PLIC_SENABLE (cpuid s)) (push_bit QEMU_UART0_IRQ 1 OR push_bit QEMU_VIRTIO0_IRQ 1) s)"

definition platform_irq_claim_qemu :: "kstate \<Rightarrow> uint32 \<times> kstate" where
  "platform_irq_claim_qemu s =
     (case irq_pending s of [] \<Rightarrow> (0, s) | i # is \<Rightarrow> (i, s\<lparr>irq_pending := is\<rparr>))"

definition platform_irq_complete_qemu :: "uint32 \<Rightarrow> kstate \<Rightarrow> kstate" where
  "platform_irq_complete_qemu irq s = mmio_write (QEMU_PLIC_SCLAIM (cpuid s)) irq s"

text \<open>The result is the machine registers and the value written to the 64-bit compare register at the given
  address; \<open>mtime\<close> is what the timer reads as.\<close>

definition platform_timer_init_qemu ::
  "(string \<Rightarrow> uint32) \<Rightarrow> 64 word \<Rightarrow> mregs \<Rightarrow> mregs \<times> uint32 \<times> 64 word" where
  "platform_timer_init_qemu addr_of mtime m =
     (let cmp = (QEMU_CLINT_MTIMECMP (mr_mhartid m), mtime + ucast QEMU_TIMER_INTERVAL);
          m = m\<lparr>mr_scratch := (mr_scratch m)(4 := QEMU_CLINT_MTIMECMP (mr_mhartid m), 5 := QEMU_TIMER_INTERVAL)\<rparr>;
          m = m\<lparr>mr_mscratch := addr_of ''timer_scratch'' + mr_mhartid m * 24\<rparr>;
          m = m\<lparr>mr_mtvec := addr_of ''timervec''\<rparr>;
          m = m\<lparr>mr_mstatus := mr_mstatus m OR MSTATUS_MIE\<rparr>;
          m = m\<lparr>mr_mie := mr_mie m OR MIE_MTIE\<rparr>
      in (m, cmp))"

definition platform_timer_ack_qemu :: "kstate \<Rightarrow> kstate" where
  "platform_timer_ack_qemu s = s\<lparr>csr := (csr s)\<lparr>csr_sip := csr_sip (csr s) AND NOT 2\<rparr>\<rparr>"

definition platform_kvmmap_qemu :: "uint32 \<Rightarrow> kstate \<Rightarrow> unit kres" where
  "platform_kvmmap_qemu kpgtbl s =
     andthen (kvmmap kpgtbl QEMU_UART0 QEMU_UART0 PGSIZE (PTE_R OR PTE_W) s) (\<lambda>_ s.
     andthen (kvmmap kpgtbl QEMU_VIRTIO0 QEMU_VIRTIO0 PGSIZE (PTE_R OR PTE_W) s) (\<lambda>_ s.
     kvmmap kpgtbl QEMU_PLIC QEMU_PLIC 0x400000 (PTE_R OR PTE_W) s))"

definition platform_handle_irq_qemu :: "(int \<Rightarrow> kstate \<Rightarrow> unit kres) \<Rightarrow> kstate \<Rightarrow> nat kres" where
  "platform_handle_irq_qemu intr s =
     (let scause = csr_scause (csr s) in
      if scause AND 0x80000000 \<noteq> 0 \<and> scause AND 0xff = 9 then
        (let (irq, s) = platform_irq_claim_qemu s in
         andthen
           (if irq = of_nat QEMU_UART0_IRQ then platform_qemu_uart_intr intr s
            else if irq = of_nat QEMU_VIRTIO0_IRQ then platform_qemu_disk_intr s
            else if irq \<noteq> 0 then printf ''unexpected interrupt irq=%d\<newline>'' [ArgW irq] s
            else Ok () s) (\<lambda>_ s.
         Ok PLATFORM_INTR_DEV (if irq \<noteq> 0 then platform_irq_complete_qemu irq s else s)))
      else if scause = 0x80000001 then Ok PLATFORM_INTR_TIMER (platform_timer_ack_qemu s)
      else Ok PLATFORM_INTR_NONE s)"

section \<open>The transmit queue\<close>

interpretation uart_ring: ring_buffer UART_TX_BUF_SIZE
  by unfold_locales (simp_all add: UART_TX_BUF_SIZE_def)

definition uart_queue :: "uart \<Rightarrow> byte list" where
  "uart_queue u = ring_list UART_TX_BUF_SIZE (tx_buf u, tx_r u, tx_w u)"

lemma uart_queue_length: "length (uart_queue u) = unat (tx_w u - tx_r u)"
  by (simp add: uart_queue_def)

lemma uart_queue_empty: "tx_w u = tx_r u \<longleftrightarrow> uart_queue u = []"
proof -
  have "uart_queue u = [] \<longleftrightarrow> unat (tx_w u - tx_r u) = 0" by (simp flip: uart_queue_length)
  then show ?thesis by (auto simp: unat_eq_zero)
qed

lemma uart_queue_full: "tx_w u = tx_r u + of_nat UART_TX_BUF_SIZE \<longleftrightarrow> length (uart_queue u) = UART_TX_BUF_SIZE"
proof
  assume "length (uart_queue u) = UART_TX_BUF_SIZE"
  then have "unat (tx_w u - tx_r u) = unat (of_nat UART_TX_BUF_SIZE :: uint32)"
    by (simp add: uart_queue_length UART_TX_BUF_SIZE_def)
  then have "tx_w u - tx_r u = of_nat UART_TX_BUF_SIZE" by (simp only: word_unat_eq_iff)
  then show "tx_w u = tx_r u + of_nat UART_TX_BUF_SIZE" by (simp add: algebra_simps)
qed (simp add: uart_queue_length UART_TX_BUF_SIZE_def)

lemma uart_tx_idle: "uart_lsr u AND UART_LSR_TX_IDLE = 0 \<longleftrightarrow> uart_idle u = 0"
  by (simp add: uart_lsr_def const_defs bit.conj_disj_distrib2)

lemma uart_queue_get:
  assumes "uart_queue u = c # cs"
  shows "tx_buf u (unat (tx_r u) mod UART_TX_BUF_SIZE) = c"
    and "uart_queue (uart_thr c (u\<lparr>tx_r := tx_r u + 1\<rparr>)) = cs"
  using uart_ring.ring_list_get [of "(tx_buf u, tx_r u, tx_w u)" c cs] assms
  by (simp_all add: uart_queue_def uart_thr_def)

lemma uart_queue_put:
  assumes "length (uart_queue u) < UART_TX_BUF_SIZE"
  shows "uart_queue (u\<lparr>tx_buf := (tx_buf u)(unat (tx_w u) mod UART_TX_BUF_SIZE := c), tx_w := tx_w u + 1\<rparr>) = uart_queue u @ [c]"
  using uart_ring.ring_list_put [of "(tx_buf u, tx_r u, tx_w u)" c] assms by (simp add: uart_queue_def)

text \<open>What \<open>platform_qemu_uart_start\<close> does: it moves bytes from the queue to the line, in order, until the queue is
  empty or the transmitter busy.\<close>

definition uart_drained :: "uart \<Rightarrow> uart \<Rightarrow> bool" where
  "uart_drained u v \<longleftrightarrow> uart_sent v @ uart_queue v = uart_sent u @ uart_queue u \<and> length (uart_queue v) \<le> length (uart_queue u)
     \<and> uart_rx v = uart_rx u"

lemma uart_start_ok:
  assumes "held lk p s t"
  shows "returns (platform_qemu_uart_start t) (\<lambda>_ v. held lk p s v \<and> uart_drained (uart t) (uart v)
    \<and> (uart_queue (uart v) = [] \<or> uart_idle (uart v) = 0) \<and> (\<exists>U P. v = t\<lparr>procs := P, uart := U\<rparr>))"
  unfolding platform_qemu_uart_start_def
proof (rule wloop_rule [where I = "\<lambda>n v. n = length (uart_queue (uart v)) \<and> held lk p s v \<and> uart_drained (uart t) (uart v)
    \<and> (\<exists>U P. v = t\<lparr>procs := P, uart := U\<rparr>)"])
  show "unat (tx_w (uart t) - tx_r (uart t)) = length (uart_queue (uart t)) \<and> held lk p s t \<and> uart_drained (uart t) (uart t)
      \<and> (\<exists>U P. t = t\<lparr>procs := P, uart := U\<rparr>)"
    using assms by (auto simp: uart_queue_length uart_drained_def intro!: exI [of _ "uart t"] exI [of _ "procs t"])
next
  fix n v
  assume v: "n = length (uart_queue (uart v)) \<and> held lk p s v \<and> uart_drained (uart t) (uart v) \<and> (\<exists>U P. v = t\<lparr>procs := P, uart := U\<rparr>)"
  then obtain U P where U: "v = t\<lparr>procs := P, uart := U\<rparr>" and d: "uart_drained (uart t) U" by auto
  show "returns (uart_start_body n v) (\<lambda>r v'. case r of
      Inl l' \<Rightarrow> (l' = length (uart_queue (uart v')) \<and> held lk p s v' \<and> uart_drained (uart t) (uart v')
        \<and> (\<exists>U P. v' = t\<lparr>procs := P, uart := U\<rparr>)) \<and> l' < n
    | Inr a \<Rightarrow> held lk p s v' \<and> uart_drained (uart t) (uart v') \<and> (uart_queue (uart v') = [] \<or> uart_idle (uart v') = 0)
        \<and> (\<exists>U P. v' = t\<lparr>procs := P, uart := U\<rparr>))" (is "returns _ ?Q")
  proof (cases "uart_queue U = [] \<or> uart_idle U = 0")
    case True
    then have "uart_start_body n v = Ok (Inr ()) v"
      by (auto simp: uart_start_body_def U uart_queue_empty uart_tx_idle)
    then show ?thesis using v True U by auto
  next
    case False
    then obtain c cs where q: "uart_queue U = c # cs" by (cases "uart_queue U") auto
    let ?U = "uart_thr c (U\<lparr>tx_r := tx_r U + 1\<rparr>)" and ?P = "woken ChUart (Some p) {..<NPROC} P"
    have "held lk p s (v\<lparr>uart := X\<rparr>)" for X using v by (simp add: held_def)
    note w = held_wakeup [OF this]
    have "uart_start_body n v = Ok (Inl (length (uart_queue ?U))) (t\<lparr>procs := ?P, uart := ?U\<rparr>)"
      using False uart_queue_get(1) [OF q] w [of ChUart "U\<lparr>tx_r := tx_r U + 1\<rparr>"]
      by (simp add: uart_start_body_def uart_queue_empty uart_tx_idle upd_uart_def uart_queue_length U Let_def)
    moreover have "uart_drained (uart t) ?U" "length (uart_queue ?U) < n"
      using d q v uart_queue_get(2) [OF q] by (simp_all add: uart_drained_def uart_thr_def U)
    moreover have "held lk p s (t\<lparr>procs := ?P, uart := ?U\<rparr>)" using v by (simp add: held_def U)
    ultimately show ?thesis by auto
  qed
qed

lemma calm_held:
  assumes "held lk p s t"
  shows "calm p (t\<lparr>csr := csr s, cpu := cpu s, locks := locks s\<rparr>)"
  using assms by (auto simp: held_def calm_def cpu_ok_def intr_get_def free_lk_def)

lemma uart_putc_ok:
  assumes c: "calm p s" and n: "\<not> panicked s" and room: "length (uart_queue (uart s)) < UART_TX_BUF_SIZE"
  shows "returns (platform_uart_putc_qemu c s) (\<lambda>_ u. calm p u
    \<and> uart_sent (uart u) @ uart_queue (uart u) = uart_sent (uart s) @ uart_queue (uart s) @ [word_of_int c]
    \<and> length (uart_queue (uart u)) \<le> UART_TX_BUF_SIZE \<and> (uart_queue (uart u) = [] \<or> uart_idle (uart u) = 0))"
proof -
  let ?s = "acq LkUart s"
  let ?U = "(uart s)\<lparr>tx_buf := (tx_buf (uart s))(unat (tx_w (uart s)) mod UART_TX_BUF_SIZE := word_of_int c), tx_w := tx_w (uart s) + 1\<rparr>"
  have w: "uart_wait () ?s = Ok (Inr ()) ?s"
    using room uart_queue_full [of "uart s"] by (simp add: uart_wait_def)
  have un: "held LkUart p s (?s\<lparr>uart := ?U\<rparr>)" using c by (simp add: held_def)
  have "returns (platform_qemu_uart_start (?s\<lparr>uart := ?U\<rparr>)) (\<lambda>_ v. held LkUart p s v \<and> uart_drained ?U (uart v)
    \<and> (uart_queue (uart v) = [] \<or> uart_idle (uart v) = 0))"
    using uart_start_ok [OF un] by (rule returns_mono) simp
  then obtain v where v: "platform_qemu_uart_start (?s\<lparr>uart := ?U\<rparr>) = Ok () v" "held LkUart p s v" "uart_drained ?U (uart v)"
      "uart_queue (uart v) = [] \<or> uart_idle (uart v) = 0"
    by (auto simp: returns_iff)
  have "platform_uart_putc_qemu c s = Ok () (v\<lparr>csr := csr s, cpu := cpu s, locks := locks s\<rparr>)"
    using n w v(1) held_release [OF v(2)] by (simp add: platform_uart_putc_qemu_def calm_acq [OF c] wloop_Inl upd_uart_def)
  then show ?thesis
    using v(3,4) calm_held [OF v(2)] room by (auto simp: uart_drained_def uart_queue_put)
qed

lemma uart_putc_full:
  assumes c: "calm p s" "c_noff (cpu s) = 0" and n: "\<not> panicked s" and full: "length (uart_queue (uart s)) = UART_TX_BUF_SIZE"
  shows "\<exists>s1 k. platform_uart_putc_qemu c s = Swtch s1 k \<and> asleep p ChUart s1 \<and> free_lk LkUart s1 \<and> uart s1 = uart s"
proof -
  let ?s = "acq LkUart s"
  from sleep_held [OF held_acq [OF c(1)] c(2), of LkUart ChUart]
  obtain s1 k where s1: "sleep ChUart LkUart ?s = Swtch s1 k" "asleep p ChUart s1" "free_lk LkUart s1" "uart s1 = uart s" by auto
  have "uart_wait () ?s = Swtch s1 (\<lambda>x. andthen (k x) (\<lambda>_ s. Ok (Inl ()) s))"
    using full uart_queue_full [of "uart s"] s1(1) by (simp add: uart_wait_def)
  then have "\<exists>k. platform_uart_putc_qemu c s = Swtch s1 k"
    using n by (simp add: platform_uart_putc_qemu_def calm_acq [OF c(1)] wloop_Inl)
  then show ?thesis using s1 by blast
qed

section \<open>Descriptors\<close>

definition zero_desc :: virtq_desc where
  "zero_desc = \<lparr>vq_addr = 0, vq_len = 0, vq_flags = 0, vq_next = 0\<rparr>"

definition free_descs :: "kstate \<Rightarrow> nat set" where
  "free_descs s = {i. i < NUM \<and> vd_free (vdisk s) i}"

text \<open>The state with the descriptors \<open>I\<close> taken, and with the descriptors \<open>I\<close> cleared and given back.\<close>

definition taken :: "nat set \<Rightarrow> kstate \<Rightarrow> kstate" where
  "taken I = upd_vdisk (\<lambda>d. d\<lparr>vd_free := (\<lambda>i. vd_free d i \<and> i \<notin> I)\<rparr>)"

definition given_back :: "nat set \<Rightarrow> nat option \<Rightarrow> kstate \<Rightarrow> kstate" where
  "given_back I me s = s\<lparr>procs := (if I = {} then procs s else woken ChDiskFree me {..<NPROC} (procs s)),
     vdisk := (vdisk s)\<lparr>vd_desc := (\<lambda>i. if i \<in> I then zero_desc else vd_desc (vdisk s) i),
       vd_free := (\<lambda>i. vd_free (vdisk s) i \<or> i \<in> I)\<rparr>\<rparr>"

lemma woken_twice: "woken ch me P (woken ch me P ps) = woken ch me P ps"
  by (auto simp: woken_def fun_eq_iff)

lemma free_desc_ok:
  assumes "held lk p s t" and "i < NUM" and "\<not> vd_free (vdisk t) i"
  shows "platform_qemu_free_desc i t = Ok () (given_back {i} (Some p) t)"
proof -
  let ?V = "(vdisk t)\<lparr>vd_desc := (vd_desc (vdisk t))(i := zero_desc), vd_free := (vd_free (vdisk t))(i := True)\<rparr>"
  have V: "?V = (vdisk t)\<lparr>vd_desc := (\<lambda>j. if j \<in> {i} then zero_desc else vd_desc (vdisk t) j),
       vd_free := (\<lambda>j. vd_free (vdisk t) j \<or> j \<in> {i})\<rparr>"
    by (rule qemu_disk.equality) (auto simp: fun_eq_iff)
  have "held lk p s (t\<lparr>vdisk := ?V\<rparr>)" using assms(1) by (simp add: held_def)
  then have "platform_qemu_free_desc i t = Ok () (t\<lparr>vdisk := ?V, procs := woken ChDiskFree (Some p) {..<NPROC} (procs t)\<rparr>)"
    using assms(2,3) by (simp add: platform_qemu_free_desc_def upd_desc_def upd_vdisk_def held_wakeup flip: zero_desc_def)
  also have "t\<lparr>vdisk := ?V, procs := woken ChDiskFree (Some p) {..<NPROC} (procs t)\<rparr> = given_back {i} (Some p) t"
    unfolding given_back_def V by (rule kstate.equality) simp_all
  finally show ?thesis .
qed

lemma free_desc_bad:
  "i < NUM \<Longrightarrow> vd_free (vdisk s) i \<Longrightarrow> platform_qemu_free_desc i s = Panic ''platform_qemu_free_desc 2''"
  by (simp add: platform_qemu_free_desc_def)

lemma held_given_back: "held lk p s t \<Longrightarrow> held lk p s (given_back I me t)"
  by (simp add: held_def given_back_def)

lemma given_back_twice: "given_back I me (given_back J me s) = given_back (I \<union> J) me s"
proof -
  have "vdisk (given_back I me (given_back J me s)) = vdisk (given_back (I \<union> J) me s)"
    unfolding given_back_def by (rule qemu_disk.equality) (auto simp: fun_eq_iff)
  then show ?thesis by (intro kstate.equality) (simp_all add: given_back_def woken_twice)
qed

lemma free_descs_ok:
  assumes "held lk p s t" and "distinct is" and "\<And>i. i \<in> set is \<Longrightarrow> i < NUM \<and> \<not> vd_free (vdisk t) i"
  shows "for_each is (\<lambda>j s. andthen (platform_qemu_free_desc j s) (\<lambda>_ s. Ok (None :: unit option) s)) t
    = Ok None (given_back (set is) (Some p) t)"
  using assms
proof (induction "is" arbitrary: t)
  case Nil
  have "given_back {} (Some p) t = t" by (rule kstate.equality) (simp_all add: given_back_def)
  then show ?case by simp
next
  case (Cons i js)
  have "platform_qemu_free_desc i t = Ok () (given_back {i} (Some p) t)"
    using Cons.prems by (intro free_desc_ok) auto
  moreover have "for_each js (\<lambda>j s. andthen (platform_qemu_free_desc j s) (\<lambda>_ s. Ok (None :: unit option) s)) (given_back {i} (Some p) t)
      = Ok None (given_back (set js) (Some p) (given_back {i} (Some p) t))"
    using Cons.prems by (intro Cons.IH held_given_back) (auto simp: given_back_def)
  ultimately show ?case by (simp add: given_back_twice)
qed

lemma finite_free_descs [simp]: "finite (free_descs s)"
  by (simp add: free_descs_def)

lemma alloc_desc_taken:
  "platform_qemu_alloc_desc (taken I s) = (case find (\<lambda>i. vd_free (vdisk s) i \<and> i \<notin> I) [0..<NUM] of
     Some i \<Rightarrow> (int i, taken (insert i I) s) | None \<Rightarrow> (-1, taken I s))"
proof -
  have "upd_vdisk (\<lambda>d. d\<lparr>vd_free := (vd_free d)(i := False)\<rparr>) (taken I s) = taken (insert i I) s" for i
    unfolding taken_def upd_vdisk_def
    by (intro kstate.equality qemu_disk.equality) (auto simp: fun_eq_iff intro!: qemu_disk.equality)
  then show ?thesis
    by (auto simp: platform_qemu_alloc_desc_def split: option.split) (auto simp: taken_def upd_vdisk_def)
qed

lemma held_taken: "held lk p s t \<Longrightarrow> held lk p s (taken I t)"
  by (simp add: held_def taken_def upd_vdisk_def)

lemma alloc_descs_spec:
  assumes u: "held lk p s t" and "distinct idx" and "set idx \<subseteq> free_descs t"
  shows "returns (alloc_descs n idx (taken (set idx) t)) (\<lambda>r v. case r of
      Some is \<Rightarrow> length is = length idx + n \<and> distinct is \<and> set is \<subseteq> free_descs t \<and> v = taken (set is) t
    | None \<Rightarrow> card (free_descs t) < length idx + n \<and> free_descs v = free_descs t \<and> held lk p s v)"
  using assms(2,3)
proof (induction n arbitrary: idx)
  case (Suc n)
  show ?case
  proof (cases "find (\<lambda>i. vd_free (vdisk t) i \<and> i \<notin> set idx) [0..<NUM]")
    case None
    then have sub: "free_descs t \<subseteq> set idx" by (auto simp: find_None_iff free_descs_def)
    with Suc.prems have "card (free_descs t) \<le> length idx" using card_mono [OF _ sub] card_length [of idx] by auto
    moreover have "for_each idx (\<lambda>j s. andthen (platform_qemu_free_desc j s) (\<lambda>_ s. Ok (None :: unit option) s)) (taken (set idx) t)
        = Ok None (given_back (set idx) (Some p) (taken (set idx) t))"
      using Suc.prems by (intro free_descs_ok [OF held_taken [OF u]]) (auto simp: taken_def upd_vdisk_def free_descs_def)
    moreover have "free_descs (given_back (set idx) (Some p) (taken (set idx) t)) = free_descs t"
      using Suc.prems by (auto simp: free_descs_def given_back_def taken_def upd_vdisk_def)
    ultimately show ?thesis
      using u by (simp add: alloc_desc_taken None held_given_back held_taken)
  next
    case (Some i)
    then have i: "i < NUM" "vd_free (vdisk t) i" "i \<notin> set idx" by (auto simp: find_Some_iff)
    have "returns (alloc_descs n (idx @ [i]) (taken (set (idx @ [i])) t)) (\<lambda>r v. case r of
        Some is \<Rightarrow> length is = length (idx @ [i]) + n \<and> distinct is \<and> set is \<subseteq> free_descs t \<and> v = taken (set is) t
      | None \<Rightarrow> card (free_descs t) < length (idx @ [i]) + n \<and> free_descs v = free_descs t \<and> held lk p s v)"
      using i Suc.prems by (intro Suc.IH) (auto simp: free_descs_def)
    then show ?thesis by (simp add: alloc_desc_taken Some cong: option.case_cong)
  qed
qed (use u in auto)

lemma taken_none: "taken {} s = s"
  unfolding taken_def upd_vdisk_def by (intro kstate.equality) simp_all

lemma alloc3_spec:
  assumes "held lk p s t"
  shows "returns (platform_qemu_alloc3_desc t) (\<lambda>r v. case r of
      Some is \<Rightarrow> length is = 3 \<and> distinct is \<and> set is \<subseteq> free_descs t \<and> v = taken (set is) t
    | None \<Rightarrow> card (free_descs t) < 3 \<and> free_descs v = free_descs t \<and> held lk p s v)"
  using alloc_descs_spec [OF assms, of "[]" 3]
  by (simp add: platform_qemu_alloc3_desc_def taken_none cong: option.case_cong)

text \<open>Giving a chain back.\<close>

lemma burst_more: "0 < n \<Longrightarrow> burst n f l s = (case f l s of
     Ok v s' \<Rightarrow> (case v of Inl l' \<Rightarrow> burst (n - 1) f l' s' | Inr a \<Rightarrow> Ok (Inr a) s')
   | Panic msg \<Rightarrow> Panic msg | Spin \<Rightarrow> Spin | Swtch s' k \<Rightarrow> Swtch s' k)"
  by (cases n) (auto split: res.split sum.split)

definition chained :: "nat list \<Rightarrow> qemu_disk \<Rightarrow> bool" where
  "chained idx d \<longleftrightarrow> length idx = 3 \<and> distinct idx \<and> (\<forall>i \<in> set idx. i < NUM \<and> \<not> vd_free d i)
     \<and> vq_flags (vd_desc d (idx ! 0)) AND VRING_DESC_F_NEXT \<noteq> 0 \<and> vq_next (vd_desc d (idx ! 0)) = of_nat (idx ! 1)
     \<and> vq_flags (vd_desc d (idx ! 1)) AND VRING_DESC_F_NEXT \<noteq> 0 \<and> vq_next (vd_desc d (idx ! 1)) = of_nat (idx ! 2)
     \<and> vq_flags (vd_desc d (idx ! 2)) AND VRING_DESC_F_NEXT = 0"

lemma free_chain_ok:
  assumes u: "held lk p s t" and c: "chained idx (vdisk t)"
  shows "platform_qemu_free_chain (idx ! 0) t = Ok () (given_back (set idx) (Some p) t)"
proof -
  obtain i j k where idx: "idx = [i, j, k]" using c by (auto simp: chained_def length_Suc_conv numeral_3_eq_3)
  have d: "i < NUM" "j < NUM" "k < NUM" "i \<noteq> j" "j \<noteq> k" "i \<noteq> k" "\<not> vd_free (vdisk t) i" "\<not> vd_free (vdisk t) j" "\<not> vd_free (vdisk t) k"
    using c by (auto simp: chained_def idx)
  then have un: "unat (of_nat j :: uint16) = j" "unat (of_nat k :: uint16) = k"
    by (simp_all add: NUM_def unsigned_of_nat take_bit_nat_eq_self)
  let ?u = "given_back {i} (Some p) t" let ?v = "given_back {j} (Some p) ?u" let ?w = "given_back {k} (Some p) ?v"
  have b: "free_chain_body (i, NUM) t = Ok (Inl (j, NUM - 1)) ?u"
    "free_chain_body (j, NUM - 1) ?u = Ok (Inl (k, NUM - 2)) ?v" "free_chain_body (k, NUM - 2) ?v = Ok (Inr ()) ?w"
    using c d un free_desc_ok [OF u d(1,7)] free_desc_ok [OF held_given_back [OF u] d(2), of "{i}" "Some p"]
      free_desc_ok [OF held_given_back [OF held_given_back [OF u]] d(3), of "{j}" "Some p" "{i}" "Some p"]
    by (simp_all add: free_chain_body_def idx chained_def) (simp_all add: given_back_def)
  have "platform_qemu_free_chain i t = Ok () ?w"
    unfolding platform_qemu_free_chain_def wloop_Inl using b by (simp add: NUM_def burst_more)
  then show ?thesis by (simp add: idx given_back_twice insert_commute Un_commute)
qed

section \<open>A disk request\<close>

lemma disk_request_vdisk:
  "vdisk (disk_request idx sector buf write s) = (vdisk s)\<lparr>
     vd_ops := (vd_ops (vdisk s))(idx ! 0 :=
       \<lparr>rq_type = (if write then VIRTIO_BLK_T_OUT else VIRTIO_BLK_T_IN), rq_reserved = 0, rq_sector = ucast sector\<rparr>),
     vd_desc := (vd_desc (vdisk s))(
       idx ! 0 := \<lparr>vq_addr = ucast (k_sym s ''qemu_disk.ops'' + of_nat (idx ! 0) * 16), vq_len = 16,
         vq_flags = VRING_DESC_F_NEXT, vq_next = of_nat (idx ! 1)\<rparr>,
       idx ! 1 := \<lparr>vq_addr = ucast buf, vq_len = of_nat BSIZE,
         vq_flags = (if write then 0 else VRING_DESC_F_WRITE) OR VRING_DESC_F_NEXT, vq_next = of_nat (idx ! 2)\<rparr>,
       idx ! 2 := \<lparr>vq_addr = ucast (k_sym s ''qemu_disk.info'' + of_nat (idx ! 0) * 8), vq_len = 1,
         vq_flags = VRING_DESC_F_WRITE, vq_next = 0\<rparr>),
     vd_status := (vd_status (vdisk s))(idx ! 0 := 0xff), vd_done := (vd_done (vdisk s))(idx ! 0 := False),
     vd_avail_ring := (vd_avail_ring (vdisk s))(unat (vd_avail_idx (vdisk s)) mod NUM := of_nat (idx ! 0)),
     vd_avail_idx := vd_avail_idx (vdisk s) + 1\<rparr>"
  by (simp add: disk_request_def Let_def upd_vdisk_def upd_desc_def virtio_write_def mmio_write_def)

lemma held_disk_request: "held lk p s t \<Longrightarrow> held lk p s (disk_request idx sector buf write t)"
  by (simp add: held_def disk_request_def Let_def upd_vdisk_def upd_desc_def virtio_write_def mmio_write_def)

lemma acq_disk [simp]: "vdisk (acq lk s) = vdisk s" "k_sym (acq lk s) = k_sym s" "free_descs (acq lk s) = free_descs s"
  by (simp_all add: acq_def free_descs_def)

lemma held_back:
  "(given_back I me (acq lk s))\<lparr>csr := csr s, cpu := cpu s, locks := locks s\<rparr> = given_back I me s"
  by (rule kstate.equality) (simp_all add: given_back_def acq_def cong: if_cong)

text \<open>The rest of a request once the device is done with it.\<close>

lemma disk_rw_finish:
  assumes c: "calm p s" and d: "chained idx (vdisk s)" "vd_done (vdisk s) (idx ! 0)" "vd_status (vdisk s) (idx ! 0) = 0"
  shows "andthen (wloop (\<lambda>_. 0) (disk_wait (idx ! 0)) (Ok (Inl ()) (acq LkDisk s))) (\<lambda>_ s.
      andthen (platform_qemu_free_chain (idx ! 0) s) (\<lambda>_ s.
      andthen (release LkDisk s) (\<lambda>_ s.
      if vd_status (vdisk s) (idx ! 0) \<noteq> 0 then Panic ''platform_qemu_disk_rw status'' else Ok () s)))
    = Ok () (given_back (set idx) (Some p) s)"
proof -
  have h: "held LkDisk p s (acq LkDisk s)" using c by (simp add: held_def)
  have d': "chained idx (vdisk (acq LkDisk s))" using d by simp
  have r: "release LkDisk (given_back (set idx) (Some p) (acq LkDisk s)) = Ok () (given_back (set idx) (Some p) s)"
    using held_release [OF held_given_back [OF h], of "set idx" "Some p"] by (simp add: held_back)
  have "vd_status (vdisk (given_back (set idx) (Some p) s)) (idx ! 0) = 0" using d(3) by (simp add: given_back_def)
  then show ?thesis
    using d free_chain_ok [OF h d'] r by (simp add: wloop_Inl disk_wait_def)
qed

lemma disk_rw_request:
  assumes c: "calm p s" "c_noff (cpu s) = 0" and n: "3 \<le> card (free_descs s)"
  shows "\<exists>idx s1 k. platform_qemu_disk_rw blockno buf write s = Swtch s1 k \<and> asleep p (ChDiskInfo (idx ! 0)) s1 \<and> free_lk LkDisk s1
    \<and> length idx = 3 \<and> distinct idx \<and> set idx \<subseteq> free_descs s
    \<and> vdisk s1 = vdisk (disk_request idx blockno buf write (taken (set idx) s)) \<and> (\<exists>w. mmio_out s1 = (QEMU_VIRTIO0 + virtio_mmio ''QUEUE_NOTIFY'', 0) # w)
    \<and> (\<forall>t. scheduled p t \<and> chained idx (vdisk t) \<and> vd_done (vdisk t) (idx ! 0) \<and> vd_status (vdisk t) (idx ! 0) = 0 \<longrightarrow>
        k t = Ok () (given_back (set idx) (Some p) (awake p (c_intena (cpu s)) t)))"
proof -
  let ?s = "acq LkDisk s"
  have h: "held LkDisk p s ?s" using c by (simp add: held_def)
  from alloc3_spec [OF h] n obtain idx where i: "platform_qemu_alloc3_desc ?s = Ok (Some idx) (taken (set idx) ?s)"
    "length idx = 3" "distinct idx" "set idx \<subseteq> free_descs s"
    by (auto simp: returns_iff split: option.splits)
  let ?r = "disk_request idx blockno buf write (taken (set idx) ?s)"
  have hr: "held LkDisk p s ?r" by (intro held_disk_request held_taken h)
  from sleep_held [OF this c(2), of "ChDiskInfo (idx ! 0)"] obtain s1 k where
    s1: "sleep (ChDiskInfo (idx ! 0)) LkDisk ?r = Swtch s1 k" "asleep p (ChDiskInfo (idx ! 0)) s1" "free_lk LkDisk s1"
      "vdisk s1 = vdisk ?r" "mmio_out s1 = mmio_out ?r"
    and k: "\<And>u. scheduled p u \<Longrightarrow> k u = Ok () (acq LkDisk (awake p (c_intena (cpu s)) u))" by blast
  have vr: "vdisk ?r = vdisk (disk_request idx blockno buf write (taken (set idx) s))"
    by (simp add: disk_request_vdisk taken_def upd_vdisk_def acq_def)
  have "\<not> vd_done (vdisk ?r) (idx ! 0)" by (simp add: disk_request_vdisk)
  then have dw: "disk_wait (idx ! 0) () ?r = Swtch s1 (\<lambda>x. andthen (k x) (\<lambda>_ s. Ok (Inl ()) s))"
    using s1(1) by (simp add: disk_wait_def)
  have w: "alloc3_wait () ?s = Ok (Inr idx) (taken (set idx) ?s)" using i by (simp add: alloc3_wait_def)
  let ?F = "\<lambda>r. andthen r (\<lambda>_ s. andthen (platform_qemu_free_chain (idx ! 0) s) (\<lambda>_ s.
      andthen (release LkDisk s) (\<lambda>_ s.
      if vd_status (vdisk s) (idx ! 0) \<noteq> 0 then Panic ''platform_qemu_disk_rw status'' else Ok () s)))"
  have rw: "platform_qemu_disk_rw blockno buf write s =
      Swtch s1 (\<lambda>x. ?F (wloop (\<lambda>_. 0) (disk_wait (idx ! 0)) (andthen (k x) (\<lambda>_ s. Ok (Inl ()) s))))"
    using w dw by (simp add: platform_qemu_disk_rw_def calm_acq [OF c(1)] wloop_Inl BSIZE_def)
  have "?F (wloop (\<lambda>_. 0) (disk_wait (idx ! 0)) (andthen (k t) (\<lambda>_ s. Ok (Inl ()) s)))
      = Ok () (given_back (set idx) (Some p) (awake p (c_intena (cpu s)) t))"
    if t: "scheduled p t" "chained idx (vdisk t)" "vd_done (vdisk t) (idx ! 0)" "vd_status (vdisk t) (idx ! 0) = 0" for t
  proof -
    have "vdisk (awake p i t) = vdisk t" for i by (simp add: awake_def)
    then show ?thesis
      using disk_rw_finish [OF calm_awake [OF t(1)], of idx] t by (simp add: k)
  qed
  moreover have "\<exists>w. mmio_out s1 = (QEMU_VIRTIO0 + virtio_mmio ''QUEUE_NOTIFY'', 0) # w"
    unfolding s1(5) by (simp add: disk_request_def Let_def virtio_write_def mmio_write_def)
  ultimately show ?thesis
    using rw s1(2-4) i(2-4) vr by (intro exI [of _ idx] exI [of _ s1] exI) auto
qed

section \<open>The disk interrupt\<close>

text \<open>The completions the device has put on the used ring and the driver has not seen, oldest first.\<close>

definition completed :: "kstate \<Rightarrow> nat list" where
  "completed s = map (\<lambda>i. unat (vd_used_ring (vdisk s) (unat (vd_used_idx (vdisk s) + of_nat i) mod NUM)))
     [0..<unat (vd_used_dev (vdisk s) - vd_used_idx (vdisk s))]"

text \<open>The state after the interrupt has marked the requests \<open>is\<close> done.\<close>

primrec finished :: "nat list \<Rightarrow> nat option \<Rightarrow> kstate \<Rightarrow> kstate" where
  "finished [] me s = s"
| "finished (i # is) me s = finished is me
     (s\<lparr>procs := woken (ChDiskInfo i) me {..<NPROC} (procs s),
        vdisk := (vdisk s)\<lparr>vd_done := (vd_done (vdisk s))(i := True), vd_used_idx := vd_used_idx (vdisk s) + 1\<rparr>\<rparr>)"

lemma completed_step:
  assumes "completed s = i # is"
  shows "vd_used_idx (vdisk s) \<noteq> vd_used_dev (vdisk s)"
    and "unat (vd_used_ring (vdisk s) (unat (vd_used_idx (vdisk s)) mod NUM)) = i"
    and "completed (s\<lparr>procs := P, vdisk := (vdisk s)\<lparr>vd_done := D, vd_used_idx := vd_used_idx (vdisk s) + 1\<rparr>\<rparr>) = is"
proof -
  let ?d = "vdisk s"
  have n: "unat (vd_used_dev ?d - vd_used_idx ?d) = Suc (length is)"
    using arg_cong [OF assms, of length] by (simp add: completed_def)
  then show "vd_used_idx ?d \<noteq> vd_used_dev ?d" by auto
  have "unat (vd_used_dev ?d - (vd_used_idx ?d + 1)) = length is"
    using n unat_minus_one [of "vd_used_dev ?d - vd_used_idx ?d"] by (metis add_diff_cancel_left' diff_diff_add nat.distinct(1) plus_1_eq_Suc unsigned_0)
  then show "unat (vd_used_ring ?d (unat (vd_used_idx ?d) mod NUM)) = i"
    "completed (s\<lparr>procs := P, vdisk := ?d\<lparr>vd_done := D, vd_used_idx := vd_used_idx ?d + 1\<rparr>\<rparr>) = is"
    using assms unfolding completed_def n map_upt_Suc by (auto simp: algebra_simps)
qed

lemma completed_nil: "completed s = [] \<longleftrightarrow> vd_used_idx (vdisk s) = vd_used_dev (vdisk s)"
  by (auto simp: completed_def unat_eq_zero)

text \<open>Inside a lock taken in \<open>s\<close>, with or without a current process.\<close>

definition inside :: "lockid \<Rightarrow> kstate \<Rightarrow> kstate \<Rightarrow> bool" where
  "inside lk s t \<longleftrightarrow> cpu_ok s \<and> (\<forall>l. free_lk l s) \<and> (\<forall>q. lk \<noteq> LkProc q)
     \<and> csr t = csr (acq lk s) \<and> cpu t = cpu (acq lk s) \<and> locks t = locks (acq lk s)"

lemma inside_wakeup:
  assumes "inside lk s t"
  shows "wakeup ch t = Ok () (t\<lparr>procs := woken ch (c_proc (cpu s)) {..<NPROC} (procs t)\<rparr>)"
proof -
  have ok: "cpu_ok s" and f: "\<And>l. free_lk l s" and lk: "\<And>q. LkProc q \<noteq> lk"
    and t: "csr t = csr (acq lk s)" "cpu t = cpu (acq lk s)" "locks t = locks (acq lk s)"
    using assms by (auto simp: inside_def)
  have "cpu_ok t" using cpu_ok_acq [OF ok, of lk] t by (auto simp: cpu_ok_def intr_get_def split: if_splits)
  moreover have "\<forall>q < NPROC. free_lk (LkProc q) t"
    using f lk t(3) free_lk_acq [of "LkProc q" lk s for q] by (auto simp: free_lk_def)
  moreover have "c_proc (cpu t) = c_proc (cpu s)" using t(2) by simp
  ultimately show ?thesis by (simp add: wakeup_eq)
qed

lemma inside_release:
  assumes "inside lk s t"
  shows "release lk t = Ok () (t\<lparr>csr := csr s, cpu := cpu s, locks := locks s\<rparr>)"
  using assms by (intro release_acq) (auto simp: inside_def)

lemma disk_intr_ok:
  assumes "inside LkDisk s t" and "\<forall>i \<in> set (completed t). vd_status (vdisk t) i = 0" and "completed t = is"
    and "length is < n"
  shows "burst n disk_intr_body (vd_used_dev (vdisk t) - vd_used_idx (vdisk t)) t = Ok (Inr ()) (finished is (c_proc (cpu s)) t)"
  using assms
proof (induction "is" arbitrary: t n)
  case Nil
  then show ?case by (simp add: burst_more disk_intr_body_def completed_nil)
next
  case (Cons i js)
  let ?t = "t\<lparr>procs := woken (ChDiskInfo i) (c_proc (cpu s)) {..<NPROC} (procs t),
        vdisk := (vdisk t)\<lparr>vd_done := (vd_done (vdisk t))(i := True), vd_used_idx := vd_used_idx (vdisk t) + 1\<rparr>\<rparr>"
  note st = completed_step [OF Cons.prems(3)]
  have "inside LkDisk s (t\<lparr>vdisk := X\<rparr>)" for X using Cons.prems(1) by (simp add: inside_def)
  note w = inside_wakeup [OF this]
  have "disk_intr_body (vd_used_dev (vdisk t) - vd_used_idx (vdisk t)) t =
      Ok (Inl (vd_used_dev (vdisk ?t) - vd_used_idx (vdisk ?t))) ?t"
    using Cons.prems(2,3) st(1,2) w [of "ChDiskInfo i"] by (simp add: disk_intr_body_def upd_vdisk_def)
  moreover have "inside LkDisk s ?t" using Cons.prems(1) by (simp add: inside_def)
  with Cons.IH [of ?t "n - 1"] Cons.prems st(3)
  have "burst (n - 1) disk_intr_body (vd_used_dev (vdisk ?t) - vd_used_idx (vdisk ?t)) ?t = Ok (Inr ()) (finished js (c_proc (cpu s)) ?t)"
    by simp
  ultimately show ?case using Cons.prems(4) by (simp add: burst_more)
qed

lemma finished_done: "vd_done (vdisk (finished is me s)) i \<longleftrightarrow> i \<in> set is \<or> vd_done (vdisk s) i"
  by (induction "is" arbitrary: s) auto

lemma finished_runnable: "p_state (procs s q) = RUNNABLE \<Longrightarrow> p_state (procs (finished is me s) q) = RUNNABLE"
  by (induction "is" arbitrary: s) (auto simp: woken_def)

lemma finished_awake:
  assumes "q < NPROC" "Some q \<noteq> me" "p_state (procs s q) = SLEEPING" "p_chan (procs s q) = Some (ChDiskInfo i)" "i \<in> set is"
  shows "p_state (procs (finished is me s) q) = RUNNABLE"
  using assms
proof (induction "is" arbitrary: s)
  case (Cons j js)
  let ?s = "s\<lparr>procs := woken (ChDiskInfo j) me {..<NPROC} (procs s),
        vdisk := (vdisk s)\<lparr>vd_done := (vd_done (vdisk s))(j := True), vd_used_idx := vd_used_idx (vdisk s) + 1\<rparr>\<rparr>"
  show ?case
  proof (cases "i = j")
    case True
    then have "p_state (procs ?s q) = RUNNABLE" using Cons.prems by (simp add: woken_def)
    then show ?thesis using finished_runnable [of ?s q js me] by simp
  next
    case False
    then have "procs ?s q = procs s q" using Cons.prems by (simp add: woken_def)
    then show ?thesis using Cons.IH [of ?s] Cons.prems False by simp
  qed
qed simp

lemma finished_upd:
  "(finished is me s)\<lparr>csr := a, cpu := b, locks := d\<rparr> = finished is me (s\<lparr>csr := a, cpu := b, locks := d\<rparr>)"
proof (induction "is" arbitrary: s)
  case (Cons i js)
  show ?case
    unfolding finished.simps Cons.IH
    by (rule arg_cong [where f = "finished js me"], rule kstate.equality) simp_all
qed simp

lemma inside_finished: "inside lk s t \<Longrightarrow> inside lk s (finished is me t)"
  by (induction "is" arbitrary: t) (simp_all add: inside_def)

lemma disk_intr_eq:
  assumes c: "cpu_ok s" "\<forall>l. free_lk l s" and st: "\<forall>i \<in> set (completed s). vd_status (vdisk s) i = 0"
  shows "\<exists>out. platform_qemu_disk_intr s = Ok () (finished (completed s) (c_proc (cpu s)) (s\<lparr>mmio_out := out\<rparr>))"
proof -
  let ?t = "virtio_write (virtio_mmio ''INTERRUPT_ACK'') (virtio_read (virtio_mmio ''INTERRUPT_STATUS'') (acq LkDisk s) AND 3) (acq LkDisk s)"
  let ?out = "mmio_out ?t" and ?me = "c_proc (cpu s)"
  have h: "inside LkDisk s ?t" using c by (simp add: inside_def virtio_write_def mmio_write_def)
  have a: "acquire LkDisk s = Ok () (acq LkDisk s)" using c by (simp add: acquire_acq)
  have v: "vdisk ?t = vdisk s" by (simp add: virtio_write_def mmio_write_def)
  then have ct: "completed ?t = completed s" by (simp add: completed_def)
  have len: "length (completed s) < Suc (unat (vd_used_dev (vdisk ?t) - vd_used_idx (vdisk ?t)))" by (simp add: completed_def v)
  have "burst (Suc (unat (vd_used_dev (vdisk ?t) - vd_used_idx (vdisk ?t)))) disk_intr_body (vd_used_dev (vdisk ?t) - vd_used_idx (vdisk ?t)) ?t
      = Ok (Inr ()) (finished (completed s) ?me ?t)"
    using disk_intr_ok [OF h _ ct len] st ct v by simp
  then have "platform_qemu_disk_intr s = Ok () ((finished (completed s) ?me ?t)\<lparr>csr := csr s, cpu := cpu s, locks := locks s\<rparr>)"
    using inside_release [OF inside_finished [OF h]] by (simp add: platform_qemu_disk_intr_def a wloop_Inl Let_def)
  moreover have "?t\<lparr>csr := csr s, cpu := cpu s, locks := locks s\<rparr> = s\<lparr>mmio_out := ?out\<rparr>"
    by (rule kstate.equality) (simp_all add: virtio_write_def mmio_write_def acq_def)
  ultimately show ?thesis unfolding finished_upd by auto
qed

lemma finished_cpu [simp]:
  "cpu (finished is me s) = cpu s" "locks (finished is me s) = locks s" "csr (finished is me s) = csr s"
  by (induction "is" arbitrary: s) simp_all

lemma settle_fields [simp]:
  "locks (settle s) = locks s" "csr (settle s) = csr s" "vdisk (settle s) = vdisk s" "procs (settle s) = procs s"
  "c_proc (cpu (settle s)) = c_proc (cpu s)" "c_noff (cpu (settle s)) = c_noff (cpu s)"
  by (simp_all add: settle_def)

lemma finished_used: "completed s = is \<Longrightarrow> completed (finished is me s) = []"
  by (induction "is" arbitrary: s) (simp_all add: completed_step(3))

lemma disk_request_chained:
  assumes "length idx = 3" "distinct idx" "set idx \<subseteq> free_descs s"
  shows "chained idx (vdisk (disk_request idx sector buf write (taken (set idx) s)))"
proof -
  obtain i j k where idx: "idx = [i, j, k]" using assms(1) by (auto simp: length_Suc_conv numeral_3_eq_3)
  show ?thesis
    using assms by (auto simp: chained_def disk_request_vdisk idx taken_def upd_vdisk_def free_descs_def const_defs)
qed

section \<open>What the platform promises\<close>

definition demo_board :: kstate where
  "demo_board = upd_vdisk (\<lambda>d. d\<lparr>vd_free := (\<lambda>_. True)\<rparr>) (upd_uart (\<lambda>u. u\<lparr>uart_idle := 2\<rparr>) demo_pipe)"

lemma demo_board_calm: "calm 0 demo_board" "c_noff (cpu demo_board) = 0" "\<not> panicked demo_board" "uart_queue (uart demo_board) = []"
    "card (free_descs demo_board) = 8"
  using demo_pipe_calm
  by (auto simp: demo_board_def upd_vdisk_def upd_uart_def calm_def cpu_ok_def intr_get_def free_lk_def free_descs_def NUM_def
      demo_pipe_def demo_space_def bss_def simp flip: uart_queue_empty)

text \<open>C23. The console output of the QEMU platform is a bounded first-in first-out queue in front of the line:
  what has been sent followed by what waits is always what was put in, in order; a character that
  fits is queued, and then as much as the transmitter takes is sent, so that something waits only
  when the transmitter is busy; with 32 characters waiting, the caller sleeps.\<close>

theorem uart_putc_queue:
  assumes "calm p s" and "\<not> panicked s"
  shows "(length (uart_queue (uart s)) < UART_TX_BUF_SIZE \<longrightarrow>
     returns (platform_uart_putc_qemu c s) (\<lambda>_ u. calm p u
       \<and> uart_sent (uart u) @ uart_queue (uart u) = uart_sent (uart s) @ uart_queue (uart s) @ [word_of_int c]
       \<and> length (uart_queue (uart u)) \<le> UART_TX_BUF_SIZE \<and> (uart_queue (uart u) = [] \<or> uart_idle (uart u) = 0))) \<and>
    (length (uart_queue (uart s)) = UART_TX_BUF_SIZE \<and> c_noff (cpu s) = 0 \<longrightarrow>
     (\<exists>s1 k. platform_uart_putc_qemu c s = Swtch s1 k \<and> asleep p ChUart s1 \<and> free_lk LkUart s1 \<and> uart s1 = uart s))"
  using uart_putc_ok [OF assms] uart_putc_full [OF assms(1) _ assms(2)] by blast

theorem uart_putc_queue_witness:
  "returns (platform_uart_putc_qemu 65 demo_board) (\<lambda>_ u. uart_sent (uart u) @ uart_queue (uart u) = [65])"
proof -
  have "uart_sent (uart demo_board) = []"
    by (simp add: demo_board_def upd_vdisk_def upd_uart_def demo_pipe_def demo_space_def bss_def)
  then show ?thesis
    using uart_putc_queue [OF demo_board_calm(1,3), of 65] demo_board_calm(4)
    by (auto simp: UART_TX_BUF_SIZE_def elim: returns_mono)
qed

text \<open>C21. A disk request through virtio, with three descriptors free: it takes three and leaves the rest alone. The first points to
  the 16 bytes of the request's header, which hold the direction and the sector; the second to the 512 bytes of the buffer, for the
  device to write when it is a read; the third to the status byte of the request, for the device to write, set to 255 before;
  each but the last names the next one. The chain's head goes on the available ring and the device is notified; the caller
  sleeps with the lock free. When it runs again after the device has reported success, it gives exactly those
  three descriptors back and returns.\<close>

theorem virtio_request:
  assumes "calm p s" and "c_noff (cpu s) = 0" and "3 \<le> card (free_descs s)"
  shows "\<exists>i0 i1 i2 s1 k. platform_qemu_disk_rw blockno buf write s = Swtch s1 k \<and> asleep p (ChDiskInfo i0) s1 \<and> free_lk LkDisk s1
    \<and> distinct [i0, i1, i2] \<and> {i0, i1, i2} \<subseteq> free_descs s \<and> free_descs s1 = free_descs s - {i0, i1, i2}
    \<and> chained [i0, i1, i2] (vdisk s1)
    \<and> vd_ops (vdisk s1) i0 = \<lparr>rq_type = (if write then 1 else 0), rq_reserved = 0, rq_sector = ucast blockno\<rparr>
    \<and> vd_desc (vdisk s1) i0 = \<lparr>vq_addr = ucast (k_sym s ''qemu_disk.ops'' + 16 * of_nat i0), vq_len = 16, vq_flags = 1, vq_next = of_nat i1\<rparr>
    \<and> vd_desc (vdisk s1) i1 = \<lparr>vq_addr = ucast buf, vq_len = 512, vq_flags = (if write then 1 else 3), vq_next = of_nat i2\<rparr>
    \<and> vd_desc (vdisk s1) i2 = \<lparr>vq_addr = ucast (k_sym s ''qemu_disk.info'' + 8 * of_nat i0), vq_len = 1, vq_flags = 2, vq_next = 0\<rparr>
    \<and> vd_status (vdisk s1) i0 = 0xff \<and> \<not> vd_done (vdisk s1) i0
    \<and> (\<forall>i. i \<noteq> i0 \<longrightarrow> vd_status (vdisk s1) i = vd_status (vdisk s) i \<and> vd_done (vdisk s1) i = vd_done (vdisk s) i \<and> vd_ops (vdisk s1) i = vd_ops (vdisk s) i)
    \<and> (\<forall>i. i \<notin> {i0, i1, i2} \<longrightarrow> vd_desc (vdisk s1) i = vd_desc (vdisk s) i)
    \<and> vd_avail_idx (vdisk s1) = vd_avail_idx (vdisk s) + 1
    \<and> vd_avail_ring (vdisk s1) (unat (vd_avail_idx (vdisk s)) mod NUM) = of_nat i0
    \<and> (\<exists>w. mmio_out s1 = (QEMU_VIRTIO0 + virtio_mmio ''QUEUE_NOTIFY'', 0) # w)
    \<and> (\<forall>t. scheduled p t \<and> chained [i0, i1, i2] (vdisk t) \<and> vd_done (vdisk t) i0 \<and> vd_status (vdisk t) i0 = 0 \<longrightarrow>
        (\<exists>u. k t = Ok () u \<and> free_descs u = free_descs t \<union> {i0, i1, i2}))"
proof -
  obtain idx s1 k where rw: "platform_qemu_disk_rw blockno buf write s = Swtch s1 k" "asleep p (ChDiskInfo (idx ! 0)) s1" "free_lk LkDisk s1"
      "length idx = 3" "distinct idx" "set idx \<subseteq> free_descs s"
      "vdisk s1 = vdisk (disk_request idx blockno buf write (taken (set idx) s))" "\<exists>w. mmio_out s1 = (QEMU_VIRTIO0 + virtio_mmio ''QUEUE_NOTIFY'', 0) # w"
    and k: "\<forall>t. scheduled p t \<and> chained idx (vdisk t) \<and> vd_done (vdisk t) (idx ! 0) \<and> vd_status (vdisk t) (idx ! 0) = 0 \<longrightarrow>
        k t = Ok () (given_back (set idx) (Some p) (awake p (c_intena (cpu s)) t))"
    using disk_rw_request [OF assms, of blockno buf "write"] by blast
  obtain i0 i1 i2 where idx: "idx = [i0, i1, i2]" using rw(4) by (auto simp: length_Suc_conv numeral_3_eq_3)
  have "free_descs (given_back (set idx) (Some p) (awake p b t)) = free_descs t \<union> set idx" for b t
    using rw(6) by (auto simp: free_descs_def given_back_def awake_def)
  then have resume: "\<exists>u. k t = Ok () u \<and> free_descs u = free_descs t \<union> {i0, i1, i2}"
    if "scheduled p t" "chained [i0, i1, i2] (vdisk t)" "vd_done (vdisk t) i0" "vd_status (vdisk t) i0 = 0" for t
    using k that by (simp add: idx)
  have dist: "i0 \<noteq> i1" "i0 \<noteq> i2" "i1 \<noteq> i2" using rw(5) by (auto simp: idx)
  note v = rw(7) [unfolded disk_request_vdisk idx taken_def upd_vdisk_def]
  have "chained [i0, i1, i2] (vdisk s1)" using disk_request_chained [OF rw(4-6)] rw(7) idx by simp
  moreover have "free_descs s1 = free_descs s - {i0, i1, i2}" by (auto simp: free_descs_def v)
  moreover have "vd_ops (vdisk s1) i0 = \<lparr>rq_type = (if write then 1 else 0), rq_reserved = 0, rq_sector = ucast blockno\<rparr>"
    "vd_desc (vdisk s1) i0 = \<lparr>vq_addr = ucast (k_sym s ''qemu_disk.ops'' + 16 * of_nat i0), vq_len = 16, vq_flags = 1, vq_next = of_nat i1\<rparr>"
    "vd_desc (vdisk s1) i1 = \<lparr>vq_addr = ucast buf, vq_len = 512, vq_flags = (if write then 1 else 3), vq_next = of_nat i2\<rparr>"
    "vd_desc (vdisk s1) i2 = \<lparr>vq_addr = ucast (k_sym s ''qemu_disk.info'' + 8 * of_nat i0), vq_len = 1, vq_flags = 2, vq_next = 0\<rparr>"
    using dist by (simp_all add: v const_defs mult.commute)
  moreover have "vd_status (vdisk s1) i0 = 0xff" "\<not> vd_done (vdisk s1) i0"
    "\<forall>i. i \<noteq> i0 \<longrightarrow> vd_status (vdisk s1) i = vd_status (vdisk s) i \<and> vd_done (vdisk s1) i = vd_done (vdisk s) i \<and> vd_ops (vdisk s1) i = vd_ops (vdisk s) i"
    "\<forall>i. i \<notin> {i0, i1, i2} \<longrightarrow> vd_desc (vdisk s1) i = vd_desc (vdisk s) i"
    "vd_avail_idx (vdisk s1) = vd_avail_idx (vdisk s) + 1"
    "vd_avail_ring (vdisk s1) (unat (vd_avail_idx (vdisk s)) mod NUM) = of_nat i0"
    using dist by (simp_all add: v)
  moreover have "distinct [i0, i1, i2]" "{i0, i1, i2} \<subseteq> free_descs s" "asleep p (ChDiskInfo i0) s1"
    using rw(2,5,6) by (simp_all add: idx)
  ultimately show ?thesis using rw(1,3,8) resume by blast
qed

theorem virtio_request_witness:
  "\<exists>i0 s1 k. platform_qemu_disk_rw 7 0x80020000 True demo_board = Swtch s1 k \<and> asleep 0 (ChDiskInfo i0) s1
     \<and> vd_ops (vdisk s1) i0 = \<lparr>rq_type = (if True then 1 else 0), rq_reserved = 0, rq_sector = ucast (7 :: uint32)\<rparr>"
proof -
  have "3 \<le> card (free_descs demo_board)" using demo_board_calm(5) by simp
  from virtio_request [OF demo_board_calm(1,2) this, of 7 "0x80020000" True] show ?thesis
    by (elim exE conjE) (intro exI conjI, assumption+)
qed

text \<open>C22. The disk interrupt serves every completion the device has put on the used ring, however its 16-bit index
  has wrapped around: all of them are marked done, the ring is consumed, and every process that
  sleeps on one of them is made \<open>RUNNABLE\<close>. This holds in the trap handlers and on an idle CPU as well: there may be no current
  process, and \<open>intena\<close> may be anything. The locks, the nesting and the interrupt enable bit end as they were.\<close>

theorem virtio_interrupt:
  assumes "0 \<le> c_noff (cpu s)" and "c_noff (cpu s) \<noteq> 0 \<longrightarrow> \<not> intr_get s" and "\<forall>l. free_lk l s"
    and "\<forall>i \<in> set (completed s). vd_status (vdisk s) i = 0"
  shows "\<exists>u. platform_qemu_disk_intr s = Ok () u \<and> completed u = []
    \<and> (\<forall>i. vd_done (vdisk u) i \<longleftrightarrow> i \<in> set (completed s) \<or> vd_done (vdisk s) i)
    \<and> (\<forall>q < NPROC. \<forall>i \<in> set (completed s). c_proc (cpu s) \<noteq> Some q \<and> p_state (procs s q) = SLEEPING \<and> p_chan (procs s q) = Some (ChDiskInfo i) \<longrightarrow>
         p_state (procs u q) = RUNNABLE)
    \<and> locks u = locks s \<and> c_noff (cpu u) = c_noff (cpu s) \<and> intr_get u = intr_get s"
proof -
  have c: "cpu_ok (settle s)" "\<forall>l. free_lk l (settle s)" "completed (settle s) = completed s"
    using assms(1-3) by (auto simp: cpu_ok_settle free_lk_def completed_def)
  have st: "\<forall>i \<in> set (completed (settle s)). vd_status (vdisk (settle s)) i = 0" using assms(4) c(3) by simp
  have "platform_qemu_disk_intr (settle s) = platform_qemu_disk_intr s"
    by (simp add: platform_qemu_disk_intr_def acquire_settle)
  then obtain out where u: "platform_qemu_disk_intr s = Ok () (finished (completed s) (c_proc (cpu s)) ((settle s)\<lparr>mmio_out := out\<rparr>))"
    using disk_intr_eq [OF c(1,2) st] c(3) by auto
  let ?s = "(settle s)\<lparr>mmio_out := out\<rparr>"
  have "completed ?s = completed s" by (simp add: completed_def)
  then show ?thesis
    using u finished_used [of ?s "completed s" "c_proc (cpu s)"] finished_awake [of _ "c_proc (cpu s)" ?s _ "completed s"]
    by (auto simp: finished_done intr_get_def)
qed

definition demo_idle_board :: kstate where
  "demo_idle_board = (upd_vdisk (\<lambda>d. d\<lparr>vd_used_idx := 0xffff, vd_used_dev := 1, vd_used_ring := (\<lambda>i. if i = 7 then 5 else 3)\<rparr>)
     (upd_proc 2 (\<lambda>q. q\<lparr>p_state := SLEEPING, p_chan := Some (ChDiskInfo 5)\<rparr>) demo_board))
     \<lparr>cpu := \<lparr>c_proc = None, c_noff = 0, c_intena = True\<rparr>, csr := (csr demo_board)\<lparr>csr_sie := False\<rparr>\<rparr>"

theorem virtio_interrupt_witness:
  "\<exists>u. platform_qemu_disk_intr demo_idle_board = Ok () u \<and> vd_done (vdisk u) 5 \<and> vd_done (vdisk u) 3 \<and> p_state (procs u 2) = RUNNABLE"
proof -
  let ?s = demo_idle_board
  have "\<forall>l. free_lk l ?s" using demo_board_calm(1) by (auto simp: demo_idle_board_def upd_vdisk_def upd_proc_def calm_def free_lk_def)
  moreover have "set (completed ?s) = {5, 3}" by (simp add: completed_def demo_idle_board_def upd_vdisk_def upd_proc_def NUM_def upt_rec)
  moreover have "\<forall>i. vd_status (vdisk ?s) i = 0"
    by (simp add: demo_idle_board_def demo_board_def upd_vdisk_def upd_proc_def upd_uart_def demo_pipe_def demo_space_def bss_def)
  moreover have "c_noff (cpu ?s) = 0" "c_proc (cpu ?s) = None" "p_state (procs ?s 2) = SLEEPING" "p_chan (procs ?s 2) = Some (ChDiskInfo 5)"
    by (simp_all add: demo_idle_board_def upd_vdisk_def upd_proc_def)
  ultimately show ?thesis using virtio_interrupt [of ?s] by (auto simp: NPROC_def)
qed

end
