(* ===== verification/Umalloc.thy ===== *)
theory Umalloc
  imports Kstring
begin

text \<open>
  The user-level allocator, \<open>user/umalloc.c\<close>. The heap is the process's memory; a \<open>Header\<close> is two words, the
  address of the next free block and the size in units of 8 bytes, header included. \<open>h_base\<close> is the address
  of the static header \<open>base\<close>, \<open>h_sbrk\<close> what \<open>sbrk\<close> depends on in the kernel: the size of the process, and whether
  there will be pages for the calls that ask for some. The loops walk a list in memory that may not be well formed, so they need not end.
\<close>

record brk =
  brk_sz :: uint32
  brk_pages :: "bool list"

record heap =
  h_mem :: "uint32 \<Rightarrow> byte"
  h_base :: uint32
  h_freep :: uint32
  h_sbrk :: brk

definition hptr :: "heap \<Rightarrow> uint32 \<Rightarrow> uint32" where
  "hptr h p = get32 (h_mem h) p"

definition hsize :: "heap \<Rightarrow> uint32 \<Rightarrow> uint32" where
  "hsize h p = get32 (h_mem h) (p + 4)"

definition set_ptr :: "uint32 \<Rightarrow> uint32 \<Rightarrow> heap \<Rightarrow> heap" where
  "set_ptr p v h = h\<lparr>h_mem := put32 (h_mem h) p v\<rparr>"

definition set_size :: "uint32 \<Rightarrow> uint32 \<Rightarrow> heap \<Rightarrow> heap" where
  "set_size p v h = h\<lparr>h_mem := put32 (h_mem h) (p + 4) v\<rparr>"

partial_function (option) free_find :: "heap \<Rightarrow> uint32 \<Rightarrow> uint32 \<Rightarrow> uint32 option" where
  [code]: "free_find h bp p =
     (if bp > p \<and> bp < hptr h p then Some p
      else if p \<ge> hptr h p \<and> (bp > p \<or> bp < hptr h p) then Some p
      else free_find h bp (hptr h p))"

definition free_link :: "uint32 \<Rightarrow> uint32 \<Rightarrow> heap \<Rightarrow> heap" where
  "free_link bp p h =
     (let h = (if bp + 8 * hsize h bp = hptr h p
               then set_ptr bp (hptr h (hptr h p)) (set_size bp (hsize h bp + hsize h (hptr h p)) h)
               else set_ptr bp (hptr h p) h);
          h = (if p + 8 * hsize h p = bp
               then set_ptr p (hptr h bp) (set_size p (hsize h p + hsize h bp) h)
               else set_ptr p bp h)
      in h\<lparr>h_freep := p\<rparr>)"

definition free :: "uint32 \<Rightarrow> heap \<Rightarrow> heap option" where
  "free ap h =
     (let bp = ap - 8 in
      case free_find h bp (h_freep h) of None \<Rightarrow> None | Some p \<Rightarrow> Some (free_link bp p h))"

text \<open>\<open>sys_sbrk\<close> and \<open>growproc\<close>, as the process sees them: the amount is an \<open>int\<close>. \<open>uvmalloc\<close> to a smaller size and
  \<open>uvmdealloc\<close> to a larger one do nothing, and the call succeeds; otherwise the size changes, unless pages are asked for and there are none.
  What the new memory holds is left open.\<close>

definition sbrk :: "uint32 \<Rightarrow> heap \<Rightarrow> uint32 \<times> heap" where
  "sbrk n h =
     (let k = h_sbrk h; addr = brk_sz k in
      if 0 < sint n then
        if addr + n < addr then (addr, h)
        else (case brk_pages k of
                True # ps \<Rightarrow> (addr, h\<lparr>h_sbrk := \<lparr>brk_sz = addr + n, brk_pages = ps\<rparr>\<rparr>)
              | False # ps \<Rightarrow> (-1, h\<lparr>h_sbrk := \<lparr>brk_sz = addr, brk_pages = ps\<rparr>\<rparr>)
              | [] \<Rightarrow> (-1, h))
      else if sint n < 0 then
        if addr + n \<ge> addr then (addr, h) else (addr, h\<lparr>h_sbrk := k\<lparr>brk_sz := addr + n\<rparr>\<rparr>)
      else (addr, h))"

text \<open>The null pointer is 0.\<close>

definition morecore :: "uint32 \<Rightarrow> heap \<Rightarrow> (uint32 \<times> heap) option" where
  "morecore nu h =
     (let nu = (if nu < 4096 then 4096 else nu);
          (p, h) = sbrk (nu * 8) h
      in if p = -1 then Some (0, h)
         else
           let h = set_size p nu h
           in case free (p + 8) h of None \<Rightarrow> None | Some h \<Rightarrow> Some (h_freep h, h))"

definition malloc_take :: "uint32 \<Rightarrow> uint32 \<Rightarrow> uint32 \<Rightarrow> heap \<Rightarrow> uint32 \<times> heap" where
  "malloc_take nunits prevp p h =
     (if hsize h p = nunits then (p + 8, (set_ptr prevp (hptr h p) h)\<lparr>h_freep := prevp\<rparr>)
      else
        let h = set_size p (hsize h p - nunits) h;
            p = p + 8 * hsize h p;
            h = set_size p nunits h
        in (p + 8, h\<lparr>h_freep := prevp\<rparr>))"

partial_function (option) malloc_loop :: "uint32 \<Rightarrow> uint32 \<Rightarrow> uint32 \<Rightarrow> heap \<Rightarrow> (uint32 \<times> heap) option" where
  [code]: "malloc_loop nunits prevp p h =
     (if hsize h p \<ge> nunits then Some (malloc_take nunits prevp p h)
      else if p = h_freep h then
        (case morecore nunits h of
           None \<Rightarrow> None
         | Some (p, h) \<Rightarrow> if p = 0 then Some (0, h) else malloc_loop nunits p (hptr h p) h)
      else malloc_loop nunits p (hptr h p) h)"

definition malloc :: "uint32 \<Rightarrow> heap \<Rightarrow> (uint32 \<times> heap) option" where
  "malloc nbytes h =
     (let nunits = (nbytes + 8 - 1) div 8 + 1;
          h = (if h_freep h = 0
               then set_size (h_base h) 0 (set_ptr (h_base h) (h_base h) (h\<lparr>h_freep := h_base h\<rparr>))
               else h);
          prevp = h_freep h
      in malloc_loop nunits prevp (hptr h prevp) h)"

section \<open>Headers in memory\<close>

definition al :: "uint32 \<Rightarrow> bool" where
  "al p \<longleftrightarrow> 8 dvd unat p"

lemma unat_lt32: "unat (p :: uint32) < 4294967296"
  using unsigned_less [of p, where ?'a = nat] by simp

lemma unat_add_small: "unat p + i < 4294967296 \<Longrightarrow> unat (p + of_nat i :: uint32) = unat p + i"
  by (simp add: unat_word_ariths unsigned_of_nat take_bit_nat_eq_self)

lemma quad_byte:
  assumes "4 dvd unat p" "i < 4"
  shows "unat (p + of_nat i :: uint32) div 4 = unat p div 4" "unat (p + of_nat i) mod 4 = i"
proof -
  obtain k where k: "unat p = 4 * k" using assms(1) by blast
  then have "k < 1073741824" using unat_lt32 [of p] by simp
  then have "unat p + i < 4294967296" using k assms(2) by simp
  then have "unat (p + of_nat i) = 4 * k + i" by (simp add: unat_add_small k)
  then show "unat (p + of_nat i) div 4 = unat p div 4" "unat (p + of_nat i) mod 4 = i" using assms(2) k by simp_all
qed

lemma get32_put32_quad:
  fixes p q :: uint32
  assumes "4 dvd unat p" "4 dvd unat q"
  shows "get32 (put32 m p v) q = (if p = q then v else get32 m q)"
proof (cases "p = q")
  case False
  have "p + of_nat i \<noteq> q + of_nat j" if "i < 4" "j < 4" for i j
  proof
    assume "p + of_nat i = q + of_nat j"
    then have "unat p div 4 = unat q div 4" using quad_byte(1) assms that by metis
    then have "unat p = unat q" using assms by (metis dvd_mult_div_cancel)
    then show False using False by (simp add: word_unat_eq_iff)
  qed
  note n = this
  have "put32 m p v (q + of_nat j) = m (q + of_nat j)" if "j < 4" for j
    using n [of 0 j] n [of 1 j] n [of 2 j] n [of 3 j] that by (auto simp: put32_def)
  note this [of 0] this [of 1] this [of 2] this [of 3]
  then show ?thesis using False by (simp add: get32_def)
qed (simp add: mem_simps)

lemma al_quads: "al p \<Longrightarrow> 4 dvd unat p" "al p \<Longrightarrow> 4 dvd unat (p + 4)" "al p \<Longrightarrow> unat (p + 4) = unat p + 4"
proof -
  assume "al p"
  then obtain k where k: "unat p = 8 * k" by (auto simp: al_def)
  then have "k < 536870912" using unat_lt32 [of p] by simp
  then have "unat p + 4 < 4294967296" using k by simp
  then show u: "unat (p + 4) = unat p + 4" using unat_add_small [of p 4] by simp
  show "4 dvd unat p" using k by simp
  show "4 dvd unat (p + 4)" using k u by presburger
qed

lemma al_neq4: "al p \<Longrightarrow> al q \<Longrightarrow> p \<noteq> q + 4"
proof
  assume a: "al p" "al q" "p = q + 4"
  then have "unat p = unat q + 4" using al_quads(3) by simp
  then show False using a(1,2) by (auto simp: al_def) presburger
qed

lemma header_simps:
  assumes "al p" "al q"
  shows "hptr (set_ptr p v h) q = (if p = q then v else hptr h q)" "hsize (set_ptr p v h) q = hsize h q"
    "hptr (set_size p v h) q = hptr h q" "hsize (set_size p v h) q = (if p = q then v else hsize h q)"
  using assms al_neq4 [OF assms] al_neq4 [OF assms(2,1)]
  by (auto simp: hptr_def hsize_def set_ptr_def set_size_def get32_put32_quad al_quads)

lemma header_fields [simp]:
  "h_base (set_ptr p v h) = h_base h" "h_freep (set_ptr p v h) = h_freep h" "h_sbrk (set_ptr p v h) = h_sbrk h"
  "h_base (set_size p v h) = h_base h" "h_freep (set_size p v h) = h_freep h" "h_sbrk (set_size p v h) = h_sbrk h"
  "hptr (h\<lparr>h_freep := f\<rparr>) q = hptr h q" "hsize (h\<lparr>h_freep := f\<rparr>) q = hsize h q"
  "hptr (h\<lparr>h_sbrk := b\<rparr>) q = hptr h q" "hsize (h\<lparr>h_sbrk := b\<rparr>) q = hsize h q"
  by (simp_all add: set_ptr_def set_size_def hptr_def hsize_def)

lemma header_outside:
  assumes "al p" "unat x < unat p \<or> unat p + 8 \<le> unat x"
  shows "h_mem (set_ptr p v h) x = h_mem h x" "h_mem (set_size p v h) x = h_mem h x"
proof -
  obtain k where k: "unat p = 8 * k" using assms(1) by (auto simp: al_def)
  then have "k < 536870912" using unat_lt32 [of p] by simp
  then have "unat p + i < 4294967296" if "i < 8" for i using k that by simp
  note u = unat_add_small [OF this]
  have ne: "x \<noteq> p + of_nat i" if "i < 8" for i using u [OF that] assms(2) that by auto
  show "h_mem (set_ptr p v h) x = h_mem h x"
    using ne [of 0] ne [of 1] ne [of 2] ne [of 3] by (simp add: set_ptr_def put32_def)
  show "h_mem (set_size p v h) x = h_mem h x"
    using ne [of 4] ne [of 5] ne [of 6] ne [of 7] by (simp add: set_size_def put32_def add.assoc)
qed

section \<open>The free list\<close>

text \<open>The blocks reached from the header at \<open>a\<close>, up to the header at \<open>e\<close>.\<close>

primrec chain :: "heap \<Rightarrow> uint32 \<Rightarrow> (uint32 \<times> uint32) list \<Rightarrow> uint32 \<Rightarrow> bool" where
  "chain h a [] e = (hptr h a = e)"
| "chain h a (x # fl) e = (hptr h a = fst x \<and> hsize h (fst x) = snd x \<and> chain h (fst x) fl e)"

definition lasta :: "uint32 \<Rightarrow> (uint32 \<times> uint32) list \<Rightarrow> uint32" where
  "lasta a xs = last (a # map fst xs)"

definition nexta :: "(uint32 \<times> uint32) list \<Rightarrow> uint32 \<Rightarrow> uint32" where
  "nexta ys e = hd (map fst ys @ [e])"

lemma lasta_simps [simp]: "lasta a [] = a" "lasta a (x # xs) = lasta (fst x) xs" "lasta a (xs @ [x]) = fst x"
  by (simp_all add: lasta_def)

lemma nexta_simps [simp]: "nexta [] e = e" "nexta (x # xs) e = fst x"
  by (simp_all add: nexta_def)

lemma chain_next: "chain h a xs e \<Longrightarrow> hptr h a = nexta xs e"
  by (cases xs) auto

lemma hchain_append: "chain h a (xs @ ys) e \<longleftrightarrow> chain h a xs (nexta ys e) \<and> chain h (lasta a xs) ys e"
  by (induction xs arbitrary: a) (auto simp: chain_next)

lemma chain_last: "chain h a xs e \<Longrightarrow> hptr h (lasta a xs) = e"
  by (induction xs arbitrary: a) auto

lemma chain_append_Cons:
  "chain h a (xs @ y # ys) e \<longleftrightarrow> chain h a xs (fst y) \<and> hsize h (fst y) = snd y \<and> chain h (fst y) ys e"
  by (auto simp: hchain_append chain_last)

lemma chain_cong:
  assumes "\<And>x. x \<in> insert a (fst ` set xs) \<Longrightarrow> hptr h' x = hptr h x" "\<And>x. x \<in> fst ` set xs \<Longrightarrow> hsize h' x = hsize h x"
  shows "chain h' a xs e = chain h a xs e"
  using assms by (induction xs arbitrary: a) auto

lemma chain_fields [simp]: "chain (h\<lparr>h_freep := f\<rparr>) a xs e = chain h a xs e" "chain (h\<lparr>h_sbrk := b\<rparr>) a xs e = chain h a xs e"
  by (induction xs arbitrary: a) simp_all

text \<open>Blocks in address order, with something between any two of them: adjacent free blocks are merged.\<close>

primrec ordered :: "nat \<Rightarrow> (uint32 \<times> uint32) list \<Rightarrow> bool" where
  "ordered e [] = True"
| "ordered e (x # fl) = (e < unat (fst x) \<and> al (fst x) \<and> 0 < unat (snd x) \<and> unat (fst x) + 8 * unat (snd x) \<le> 2 ^ 32 - 8
     \<and> ordered (unat (fst x) + 8 * unat (snd x)) fl)"

definition bytes_at :: "uint32 \<times> uint32 \<Rightarrow> nat set" where
  "bytes_at x = {unat (fst x)..<unat (fst x) + 8 * unat (snd x)}"

definition area :: "(uint32 \<times> uint32) list \<Rightarrow> nat set" where
  "area fl = (\<Union>x \<in> set fl. bytes_at x)"

definition heap_ok :: "heap \<Rightarrow> (uint32 \<times> uint32) list \<Rightarrow> bool" where
  "heap_ok h fl \<longleftrightarrow> al (h_base h) \<and> h_base h \<noteq> 0 \<and> ordered (unat (h_base h)) fl \<and> chain h (h_base h) fl (h_base h)
     \<and> hsize h (h_base h) = 0 \<and> h_freep h \<in> insert (h_base h) (fst ` set fl)"

lemma area_simps [simp]: "area [] = {}" "area (x # fl) = bytes_at x \<union> area fl" "area (xs @ ys) = area xs \<union> area ys"
  by (auto simp: area_def)

lemma ordered_append:
  "ordered e (xs @ ys) \<longleftrightarrow> ordered e xs \<and> ordered (if xs = [] then e else unat (fst (last xs)) + 8 * unat (snd (last xs))) ys"
  by (induction xs arbitrary: e) auto

lemma ordered_mono: "ordered e fl \<Longrightarrow> e' \<le> e \<Longrightarrow> ordered e' fl"
  by (cases fl) auto

lemma ordered_all: "ordered e fl \<Longrightarrow> x \<in> set fl \<Longrightarrow> e < unat (fst x) \<and> al (fst x) \<and> 0 < unat (snd x) \<and> unat (fst x) + 8 * unat (snd x) \<le> 2 ^ 32 - 8"
proof (induction fl arbitrary: e)
  case (Cons y fl)
  show ?case
  proof (cases "x = y")
    case False
    then show ?thesis using Cons.prems Cons.IH [of "unat (fst y) + 8 * unat (snd y)"] by auto
  qed (use Cons.prems in auto)
qed simp

lemma ordered_distinct: "ordered e fl \<Longrightarrow> distinct (map fst fl)"
proof (induction fl arbitrary: e)
  case (Cons y fl)
  then have "\<forall>x \<in> set fl. unat (fst y) < unat (fst x)" by (auto dest: ordered_all)
  then have "fst y \<notin> fst ` set fl" by auto
  with Cons show ?case by auto
qed simp

section \<open>Finding the place of a block\<close>

lemma free_find_fwd:
  assumes "chain h a (xs @ ys) e" "ordered (unat a) (xs @ ys)" "e \<le> a"
    and "\<forall>x \<in> insert a (fst ` set xs). x < b" "\<forall>y \<in> set ys. b < fst y"
  shows "free_find h b a = Some (lasta a xs)"
  using assms
proof (induction xs arbitrary: a)
  case Nil
  show ?case
  proof (cases ys)
    case Nil
    then show ?thesis using Nil.prems by (subst free_find.simps) auto
  next
    case (Cons y ys')
    then show ?thesis using Nil.prems by (subst free_find.simps) auto
  qed
next
  case (Cons x xs)
  have lt: "a < fst x" "fst x < b" "hptr h a = fst x" using Cons.prems by (auto simp: word_less_nat_alt)
  have "ordered (unat (fst x)) (xs @ ys)" using Cons.prems(2) by (auto elim: ordered_mono)
  moreover have "e \<le> fst x" using Cons.prems(3) lt(1) by simp
  ultimately have "free_find h b (fst x) = Some (lasta (fst x) xs)"
    using Cons.prems by (intro Cons.IH) auto
  then show ?case using lt by (subst free_find.simps) auto
qed

lemma free_find_wrap:
  assumes "chain h a ys e" "ordered (unat a) ys" "b < a" "e < b"
  shows "free_find h b a = free_find h b e"
  using assms
proof (induction ys arbitrary: a)
  case Nil
  then have "hptr h a = e" by simp
  then show ?case using Nil.prems by (subst free_find.simps) auto
next
  case (Cons y ys)
  have lt: "a < fst y" "hptr h a = fst y" using Cons.prems by (auto simp: word_less_nat_alt)
  have "ordered (unat (fst y)) ys" using Cons.prems(2) by (auto elim: ordered_mono)
  then have "free_find h b (fst y) = free_find h b e" using Cons.prems lt by (intro Cons.IH) auto
  then show ?case using lt Cons.prems(3) by (subst free_find.simps) auto
qed

lemma free_find_ok:
  assumes h: "heap_ok h (xs @ ys)" and b: "h_base h < b" "\<forall>x \<in> set xs. fst x < b" "\<forall>y \<in> set ys. b < fst y"
  shows "free_find h b (h_freep h) = Some (lasta (h_base h) xs)"
proof -
  let ?base = "h_base h"
  have c: "chain h ?base (xs @ ys) ?base" and o: "ordered (unat ?base) (xs @ ys)"
    and f: "h_freep h \<in> insert ?base (fst ` set (xs @ ys))"
    using h by (auto simp: heap_ok_def)
  have main: "free_find h b ?base = Some (lasta ?base xs)"
    using c o b by (intro free_find_fwd [of h ?base xs ys ?base]) auto
  consider "h_freep h = ?base" | x where "x \<in> set xs" "fst x = h_freep h" | y where "y \<in> set ys" "fst y = h_freep h"
    using f by auto
  then show ?thesis
  proof cases
    case 1
    then show ?thesis using main by simp
  next
    case (2 x)
    then obtain x1 x2 where xs: "xs = x1 @ x # x2" by (auto dest: split_list)
    have "ordered (unat (fst x) + 8 * unat (snd x)) (x2 @ ys)" using o by (simp add: xs ordered_append)
    then have "ordered (unat (fst x)) (x2 @ ys)" by (rule ordered_mono) simp
    moreover have "chain h (fst x) (x2 @ ys) ?base" using c by (simp add: xs hchain_append)
    moreover have "unat ?base < unat (fst x)" using ordered_all [OF o, of x] 2(1) by simp
    then have "?base \<le> fst x" by (simp add: word_le_nat_alt)
    ultimately have "free_find h b (fst x) = Some (lasta (fst x) x2)"
      using b 2(1) by (intro free_find_fwd [of h "fst x" x2 ys ?base]) (auto simp: xs)
    then show ?thesis using 2(2) by (simp add: xs lasta_def)
  next
    case (3 y)
    then obtain y1 y2 where ys: "ys = y1 @ y # y2" by (auto dest: split_list)
    have "ordered (unat (fst y) + 8 * unat (snd y)) y2" using o by (simp add: ys ordered_append)
    then have "ordered (unat (fst y)) y2" by (rule ordered_mono) simp
    moreover have "chain h (fst y) y2 ?base" using c by (simp add: ys hchain_append)
    ultimately have "free_find h b (fst y) = free_find h b ?base"
      using b 3(1) by (intro free_find_wrap) auto
    then show ?thesis using 3(2) main by simp
  qed
qed

text \<open>A block disjoint from the free ones has its place among them.\<close>

lemma area_split:
  assumes "ordered e fl" "bytes_at (b, n) \<inter> area fl = {}" "0 < unat n"
  shows "\<exists>xs ys. fl = xs @ ys \<and> (\<forall>x \<in> set xs. unat (fst x) + 8 * unat (snd x) \<le> unat b) \<and> (\<forall>y \<in> set ys. unat b + 8 * unat n \<le> unat (fst y))"
  using assms(1,2)
proof (induction fl arbitrary: e)
  case (Cons x fl)
  have dis: "bytes_at (b, n) \<inter> bytes_at x = {}" using Cons.prems(2) by auto
  have o: "ordered (unat (fst x) + 8 * unat (snd x)) fl" "0 < unat (snd x)" using Cons.prems(1) by auto
  show ?case
  proof (cases "unat b < unat (fst x)")
    case True
    have "unat b + 8 * unat n \<le> unat (fst x)"
    proof (rule ccontr)
      assume "\<not> ?thesis"
      then have "unat (fst x) \<in> bytes_at (b, n) \<inter> bytes_at x" using True o(2) by (auto simp: bytes_at_def)
      then show False using dis by blast
    qed
    moreover have "\<forall>y \<in> set fl. unat (fst x) \<le> unat (fst y)" using o(1) by (auto dest!: ordered_all)
    ultimately show ?thesis by (intro exI [of _ "[]"] exI [of _ "x # fl"]) fastforce
  next
    case False
    have "unat (fst x) + 8 * unat (snd x) \<le> unat b"
    proof (rule ccontr)
      assume "\<not> ?thesis"
      then have "unat b \<in> bytes_at (b, n) \<inter> bytes_at x" using False assms(3) by (auto simp: bytes_at_def)
      then show False using dis by blast
    qed
    moreover obtain xs ys where "fl = xs @ ys" "\<forall>x \<in> set xs. unat (fst x) + 8 * unat (snd x) \<le> unat b"
        "\<forall>y \<in> set ys. unat b + 8 * unat n \<le> unat (fst y)"
      using Cons.IH [OF o(1)] Cons.prems(2) by auto
    ultimately show ?thesis by (intro exI [of _ "x # xs"] exI [of _ ys]) auto
  qed
qed (auto intro!: exI [of _ "[]"])

section \<open>Linking a block in\<close>

lemma unat_end: "unat b + 8 * unat n < 4294967296 \<Longrightarrow> unat (b + 8 * n :: uint32) = unat b + 8 * unat n"
  by (simp add: unat_word_ariths)

lemma unat_plus: "unat a + unat b < 4294967296 \<Longrightarrow> unat (a + b :: uint32) = unat a + unat b"
  by (simp add: unat_word_ariths)

text \<open>What two heaps share when only the header at \<open>b\<close> may differ.\<close>

definition same_but :: "uint32 \<Rightarrow> heap \<Rightarrow> heap \<Rightarrow> bool" where
  "same_but b h h' \<longleftrightarrow> h_base h' = h_base h \<and> h_freep h' = h_freep h \<and> h_sbrk h' = h_sbrk h
     \<and> (\<forall>x. al x \<longrightarrow> x \<noteq> b \<longrightarrow> hptr h' x = hptr h x \<and> hsize h' x = hsize h x)
     \<and> (\<forall>x. unat x < unat b \<or> unat b + 8 \<le> unat x \<longrightarrow> h_mem h' x = h_mem h x)"

lemma same_but_set:
  "al b \<Longrightarrow> same_but b h (set_ptr b v h)" "al b \<Longrightarrow> same_but b h (set_size b v h)"
  "same_but b h h1 \<Longrightarrow> same_but b h1 h2 \<Longrightarrow> same_but b h h2"
  by (auto simp: same_but_def header_simps header_outside)

lemma same_but_chain:
  assumes "same_but b h h'" "b \<noteq> a" "al a" "\<forall>x \<in> set xs. fst x \<noteq> b \<and> al (fst x)"
  shows "chain h' a xs e = chain h a xs e"
  using assms by (intro chain_cong) (auto simp: same_but_def)

lemma free_right:
  assumes c: "chain h q ys base" and ys: "ordered e ys" "\<forall>y \<in> set ys. unat b + 8 * unat n \<le> unat (fst y)"
    and b: "al b" "0 < unat n" "unat b + 8 * unat n \<le> 2 ^ 32 - 8" "hsize h b = n" and base: "base < b"
  defines "h1 \<equiv> (if b + 8 * hsize h b = hptr h q
               then set_ptr b (hptr h (hptr h q)) (set_size b (hsize h b + hsize h (hptr h q)) h)
               else set_ptr b (hptr h q) h)"
  shows "same_but b h h1 \<and> (\<exists>n' ys'. chain h1 b ys' base \<and> hsize h1 b = n' \<and> unat n \<le> unat n' \<and> unat b + 8 * unat n' \<le> 2 ^ 32 - 8
    \<and> ordered (unat b + 8 * unat n') ys' \<and> bytes_at (b, n') \<union> area ys' = bytes_at (b, n) \<union> area ys)"
proof -
  have ub: "unat (b + 8 * n) = unat b + 8 * unat n" using b(3) by (intro unat_end) simp
  show ?thesis
  proof (cases ys)
    case Nil
    then have "hptr h q = base" using c by simp
    moreover have "b + 8 * n \<noteq> base" using ub base by (auto simp: word_less_nat_alt)
    ultimately have h1: "h1 = set_ptr b base h" by (simp add: h1_def b(4))
    then have "chain h1 b [] base" "hsize h1 b = n" using b(1,4) by (simp_all add: header_simps)
    with h1 b Nil show ?thesis by (intro conjI exI [of _ n] exI [of _ "[]"]) (auto intro: same_but_set)
  next
    case (Cons y ys')
    have y: "hptr h q = fst y" "hsize h (fst y) = snd y" "chain h (fst y) ys' base" "al (fst y)"
      "unat (fst y) + 8 * unat (snd y) \<le> 2 ^ 32 - 8" "ordered (unat (fst y) + 8 * unat (snd y)) ys'" "fst y \<noteq> b"
      using c ys b(2) by (auto simp: Cons)
    have ne: "\<forall>x \<in> set ys'. fst x \<noteq> b \<and> al (fst x)"
    proof
      fix x assume "x \<in> set ys'"
      then have "unat b + 8 * unat n \<le> unat (fst x)" "al (fst x)" using ys(2) ordered_all [OF y(6)] by (auto simp: Cons)
      then show "fst x \<noteq> b \<and> al (fst x)" using b(2) by auto
    qed
    show ?thesis
    proof (cases "b + 8 * n = fst y")
      case True
      then have h1: "h1 = set_ptr b (hptr h (fst y)) (set_size b (n + snd y) h)" by (simp add: h1_def b(4) y)
      have s: "same_but b h h1" unfolding h1 using b(1) by (blast intro: same_but_set)
      have eq: "unat (fst y) = unat b + 8 * unat n" using True ub by simp
      have un: "unat (n + snd y) = unat n + unat (snd y)" using y(5) eq by (intro unat_plus) simp
      have "hptr h1 b = hptr h (fst y)" using b(1) by (simp add: h1 header_simps)
      moreover have "chain h1 x xs e = chain h x xs e" if "x \<noteq> b" "al x" "\<forall>z \<in> set xs. fst z \<noteq> b \<and> al (fst z)" for x xs e
        using same_but_chain [OF s, of x xs e] that by auto
      ultimately have "chain h1 b ys' base"
        using y(3,7) ne by (cases ys') (auto simp: h1 header_simps b(1) y)
      moreover have "hsize h1 b = n + snd y" using b(1) by (simp add: h1 header_simps)
      moreover have "bytes_at (b, n + snd y) = bytes_at (b, n) \<union> bytes_at y" using eq un by (auto simp: bytes_at_def)
      ultimately show ?thesis
        using s y(5,6) un eq by (intro conjI exI [of _ "n + snd y"] exI [of _ ys']) (auto simp: Cons algebra_simps)
    next
      case False
      then have h1: "h1 = set_ptr b (fst y) h" by (simp add: h1_def b(4) y)
      have s: "same_but b h h1" unfolding h1 using b(1) by (blast intro: same_but_set)
      have "unat b + 8 * unat n < unat (fst y)"
        using False ub ys(2) by (auto simp: Cons word_unat_eq_iff intro: le_neq_implies_less)
      then have "ordered (unat b + 8 * unat n) ys" using ys(1) by (simp add: Cons)
      moreover have "chain h1 b ys base"
        using y same_but_chain [OF s, of "fst y" ys' base] ne b(1) by (simp add: Cons h1 header_simps)
      moreover have "hsize h1 b = n" using b(1,4) by (simp add: h1 header_simps)
      ultimately show ?thesis using s b(3) by (intro conjI exI [of _ n] exI [of _ ys]) auto
    qed
  qed
qed

text \<open>The other half, with the free blocks below.\<close>

lemma free_left:
  assumes c: "chain h1 base xs e0" "ordered (unat base) xs" "hsize h1 base = 0" "al base" "base < b"
    and xs: "\<forall>x \<in> set xs. unat (fst x) + 8 * unat (snd x) \<le> unat b"
    and b: "al b" "chain h1 b ys base" "hsize h1 b = n" "0 < unat n" "unat b + 8 * unat n \<le> 2 ^ 32 - 8" "ordered (unat b + 8 * unat n) ys"
  defines "p \<equiv> lasta base xs"
  defines "h2 \<equiv> (if p + 8 * hsize h1 p = b then set_ptr p (hptr h1 b) (set_size p (hsize h1 p + hsize h1 b) h1) else set_ptr p b h1)"
  shows "same_but p h1 h2 \<and> (\<exists>fl. chain h2 base fl base \<and> ordered (unat base) fl \<and> hsize h2 base = 0 \<and> p \<in> insert base (fst ` set fl)
    \<and> area fl = area xs \<union> bytes_at (b, n) \<union> area ys \<and> (\<exists>z \<in> set fl. unat n \<le> unat (snd z)))"
proof -
  have ys: "\<forall>y \<in> set ys. unat b < unat (fst y) \<and> al (fst y)" using b(4) ordered_all [OF b(6)] by fastforce
  show ?thesis
  proof (cases xs rule: rev_cases)
    case Nil
    then have h2: "h2 = set_ptr base b h1" using c(3,5) by (auto simp: h2_def p_def)
    have s: "same_but base h1 h2" unfolding h2 using c(4) by (rule same_but_set)
    have "\<forall>x \<in> set ys. fst x \<noteq> base \<and> al (fst x)" using ys c(5) by (auto simp: word_less_nat_alt)
    then have "chain h2 b ys base" using same_but_chain [OF s, of b ys base] b(1,2) c(5) by auto
    then have "chain h2 base ((b, n) # ys) base" using b(1,3) c(4,5) by (auto simp: h2 header_simps)
    moreover have "ordered (unat base) ((b, n) # ys)" using b c(5) by (simp add: word_less_nat_alt)
    moreover have "hsize h2 base = 0" using c(3,4) by (simp add: h2 header_simps)
    ultimately show ?thesis using s by (intro conjI exI [of _ "(b, n) # ys"]) (auto simp: Nil p_def)
  next
    case (snoc zs x)
    obtain k where x: "x = (p, k)" using snoc by (cases x) (simp add: p_def)
    have ch: "chain h1 base zs p" "hsize h1 p = k" and o: "ordered (unat base) zs" "al p" "0 < unat k" "unat base < unat p"
      using c(1,2) ordered_all [OF c(2), of x] by (auto simp: snoc x hchain_append ordered_append)
    have zo: "ordered (if zs = [] then unat base else unat (fst (last zs)) + 8 * unat (snd (last zs))) [(p, k)]"
      using c(2) by (simp add: snoc x ordered_append)
    have zp: "unat (fst z) + 8 * unat (snd z) < unat p" if "z \<in> set zs" for z
    proof -
      obtain us vs where "zs = us @ z # vs" using split_list [OF \<open>z \<in> set zs\<close>] by blast
      then have "ordered (unat (fst z) + 8 * unat (snd z)) (vs @ [(p, k)])" using c(2) by (simp add: snoc x ordered_append)
      then show ?thesis using ordered_all [of _ "vs @ [(p, k)]" "(p, k)"] by simp
    qed
    have zs: "\<forall>z \<in> set zs. fst z \<noteq> p \<and> al (fst z)" using zp ordered_all [OF o(1)] by fastforce
    have pk: "unat p + 8 * unat k \<le> unat b" using xs by (simp add: snoc x)
    then have pb: "unat p < unat b" using o(3) by simp
    have ysp: "\<forall>y \<in> set ys. fst y \<noteq> p \<and> al (fst y)" using ys pb by auto
    have s: "same_but p h1 h2" unfolding h2_def using o(2) by (auto intro: same_but_set)
    have zc: "chain h2 base zs p" using same_but_chain [OF s, of base zs p] ch(1) zs c(4) o(4) by auto
    have base0: "hsize h2 base = 0" using s c(3,4) o(4) by (auto simp: same_but_def)
    have upk: "unat (p + 8 * k) = unat p + 8 * unat k" using pk unat_lt32 [of b] by (intro unat_end) simp
    show ?thesis
    proof (cases "p + 8 * k = b")
      case True
      then have h2: "h2 = set_ptr p (hptr h1 b) (set_size p (k + n) h1)" by (simp add: h2_def ch b(3))
      have eq: "unat b = unat p + 8 * unat k" using True upk by simp
      have un: "unat (k + n) = unat k + unat n" using b(5) eq by (intro unat_plus) simp
      have "chain h2 p ys base"
        using b(2) ysp same_but_chain [OF s] by (cases ys) (auto simp: h2 header_simps o(2) same_but_chain [OF s, unfolded h2])
      then have "chain h2 base (zs @ (p, k + n) # ys) base" using zc o(2) by (simp add: chain_append_Cons h2 header_simps)
      moreover have "ordered (unat base) (zs @ (p, k + n) # ys)"
        using zo o b(5,6) eq un by (auto simp: ordered_append algebra_simps)
      moreover have "bytes_at (p, k + n) = bytes_at (p, k) \<union> bytes_at (b, n)" using eq un by (auto simp: bytes_at_def)
      ultimately show ?thesis
        using s base0 un by (intro conjI exI [of _ "zs @ (p, k + n) # ys"]) (auto simp: snoc x)
    next
      case False
      then have h2: "h2 = set_ptr p b h1" by (simp add: h2_def ch)
      have lt: "unat p + 8 * unat k < unat b" using False upk pk by (auto simp: word_unat_eq_iff)
      have "chain h2 b ys base" using same_but_chain [OF s, of b ys base] ysp b(1,2) pb by auto
      then have "chain h2 base (zs @ (p, k) # (b, n) # ys) base"
        using zc o(2) b(1,3) ch(2) by (simp add: chain_append_Cons h2 header_simps)
      moreover have "ordered (unat base) (zs @ (p, k) # (b, n) # ys)"
        using zo o b lt by (auto simp: ordered_append)
      ultimately show ?thesis
        using s base0 by (intro conjI exI [of _ "zs @ (p, k) # (b, n) # ys"]) (auto simp: snoc x)
    qed
  qed
qed

lemma header_in_area: "ordered e fl \<Longrightarrow> a \<in> fst ` set fl \<Longrightarrow> {unat a..<unat a + 8} \<subseteq> area fl"
proof
  fix i
  assume o: "ordered e fl" and "a \<in> fst ` set fl" and i: "i \<in> {unat a..<unat a + 8}"
  then obtain x where x: "x \<in> set fl" "fst x = a" by auto
  then have "0 < unat (snd x)" using ordered_all [OF o x(1)] by simp
  then have "i \<in> bytes_at x" using i x(2) by (auto simp: bytes_at_def)
  then show "i \<in> area fl" using x(1) by (auto simp: area_def)
qed

lemma lasta_al: "al a \<Longrightarrow> ordered e xs \<Longrightarrow> al (lasta a xs)"
  by (cases xs rule: rev_cases) (auto simp: ordered_append)

text \<open>Freeing a block keeps the list well formed, adds the block to it and writes only the headers of free
  blocks.\<close>

lemma free_ok:
  assumes h: "heap_ok h fl" and b: "al b" "h_base h < b" "0 < unat n" "hsize h b = n" "unat b + 8 * unat n \<le> 2 ^ 32 - 8"
    and dis: "bytes_at (b, n) \<inter> area fl = {}"
  shows "\<exists>h' fl'. free (b + 8) h = Some h' \<and> heap_ok h' fl' \<and> area fl' = area fl \<union> bytes_at (b, n) \<and> (\<exists>z \<in> set fl'. unat n \<le> unat (snd z))
    \<and> h_base h' = h_base h \<and> h_sbrk h' = h_sbrk h
    \<and> (\<forall>x. unat x \<notin> area fl' \<union> {unat (h_base h)..<unat (h_base h) + 8} \<longrightarrow> h_mem h' x = h_mem h x)"
proof -
  let ?base = "h_base h"
  have base: "al ?base" "?base \<noteq> 0" "hsize h ?base = 0" and o: "ordered (unat ?base) fl" using h by (auto simp: heap_ok_def)
  obtain xs ys where fl: "fl = xs @ ys" and xs: "\<forall>x \<in> set xs. unat (fst x) + 8 * unat (snd x) \<le> unat b"
    and ys: "\<forall>y \<in> set ys. unat b + 8 * unat n \<le> unat (fst y)"
    using area_split [OF o dis b(3)] by blast
  let ?p = "lasta ?base xs"
  have oxs: "ordered (unat ?base) xs" using o by (simp add: fl ordered_append)
  obtain e where oys: "ordered e ys" using o unfolding fl ordered_append by blast
  have xb: "unat (fst x) < unat b" if "x \<in> set xs" for x using xs ordered_all [OF oxs that] that by fastforce
  have c: "chain h ?base xs (nexta ys ?base)" "chain h ?p ys ?base" using h by (auto simp: heap_ok_def fl hchain_append)
  have yb: "b < fst y" if "y \<in> set ys" for y
  proof -
    have "unat b + 8 * unat n \<le> unat (fst y)" using ys that by blast
    then show ?thesis using b(3) by (simp add: word_less_nat_alt)
  qed
  have find: "free_find h b (h_freep h) = Some ?p"
    using free_find_ok [OF h [unfolded fl] b(2)] xb yb by (simp add: word_less_nat_alt)
  define h1 where "h1 = (if b + 8 * hsize h b = hptr h ?p
               then set_ptr b (hptr h (hptr h ?p)) (set_size b (hsize h b + hsize h (hptr h ?p)) h)
               else set_ptr b (hptr h ?p) h)"
  note fr = free_right [OF c(2) oys ys b(1,3,5,4,2), folded h1_def]
  have s1: "same_but b h h1" using fr by (rule conjunct1)
  obtain n' ys' where r': "chain h1 b ys' ?base \<and> hsize h1 b = n' \<and> unat n \<le> unat n' \<and> unat b + 8 * unat n' \<le> 2 ^ 32 - 8
      \<and> ordered (unat b + 8 * unat n') ys' \<and> bytes_at (b, n') \<union> area ys' = bytes_at (b, n) \<union> area ys"
    using conjunct2 [OF fr] by (elim exE) (rule that)
  then have r: "chain h1 b ys' ?base" "hsize h1 b = n'" "unat n \<le> unat n'" "unat b + 8 * unat n' \<le> 2 ^ 32 - 8"
      "ordered (unat b + 8 * unat n') ys'" "bytes_at (b, n') \<union> area ys' = bytes_at (b, n) \<union> area ys"
    by simp_all
  have "\<forall>x \<in> set xs. fst x \<noteq> b \<and> al (fst x)" using xb ordered_all [OF oxs] by fastforce
  then have c1: "chain h1 ?base xs (nexta ys ?base)" using same_but_chain [OF s1, of ?base xs] c(1) base(1) b(2) by auto
  have base1: "hsize h1 ?base = 0" using s1 base b(2) by (auto simp: same_but_def)
  have n0: "0 < unat n'" using r(3) b(3) by simp
  define h2 where "h2 = (if ?p + 8 * hsize h1 ?p = b then set_ptr ?p (hptr h1 b) (set_size ?p (hsize h1 ?p + hsize h1 b) h1) else set_ptr ?p b h1)"
  note fll = free_left [OF c1 oxs base1 base(1) b(2) xs b(1) r(1,2) n0 r(4,5), folded h2_def]
  have s2: "same_but ?p h1 h2" using fll by (rule conjunct1)
  obtain fl' where "chain h2 ?base fl' ?base \<and> ordered (unat ?base) fl' \<and> hsize h2 ?base = 0 \<and> ?p \<in> insert ?base (fst ` set fl')
      \<and> area fl' = area xs \<union> bytes_at (b, n') \<union> area ys' \<and> (\<exists>z \<in> set fl'. unat n' \<le> unat (snd z))"
    using conjunct2 [OF fll] by (elim exE) (rule that)
  then have f: "chain h2 ?base fl' ?base" "ordered (unat ?base) fl'" "hsize h2 ?base = 0" "?p \<in> insert ?base (fst ` set fl')"
      "area fl' = area xs \<union> bytes_at (b, n') \<union> area ys'" "\<exists>z \<in> set fl'. unat n' \<le> unat (snd z)"
    by simp_all
  have link: "free_link b ?p h = h2\<lparr>h_freep := ?p\<rparr>" unfolding free_link_def h2_def h1_def by (simp add: Let_def)
  have ar: "area fl' = area fl \<union> bytes_at (b, n)" using f(5) r(6) by (auto simp: fl)
  have hb: "h_base h2 = ?base" "h_sbrk h2 = h_sbrk h" using s1 s2 by (auto simp: same_but_def)
  have ok: "heap_ok (h2\<lparr>h_freep := ?p\<rparr>) fl'"
    using f(1-4) base(1,2) hb unfolding heap_ok_def by simp
  have same: "h_mem h2 x = h_mem h x" if x: "unat x \<notin> area fl' \<union> {unat ?base..<unat ?base + 8}" for x
  proof -
    have "unat x \<notin> bytes_at (b, n)" using x ar by simp
    then have xb: "unat x < unat b \<or> unat b + 8 \<le> unat x" using b(3) by (auto simp: bytes_at_def)
    have "unat x \<notin> {unat ?p..<unat ?p + 8}"
    proof (cases "?p = ?base")
      case False
      then have "?p \<in> fst ` set fl'" using f(4) by simp
      from header_in_area [OF f(2) this] x show ?thesis by blast
    qed (use x in simp)
    then have xp: "unat x < unat ?p \<or> unat ?p + 8 \<le> unat x" by auto
    then have "h_mem h1 x = h_mem h x" "h_mem h2 x = h_mem h1 x" using s1 s2 xb xp unfolding same_but_def by blast+
    then show ?thesis by simp
  qed
  obtain z where "z \<in> set fl'" "unat n' \<le> unat (snd z)" using f(6) by blast
  then have z: "\<exists>z \<in> set fl'. unat n \<le> unat (snd z)" using r(3) by (intro bexI [of _ z]) simp_all
  have fb: "free (b + 8) h = Some (h2\<lparr>h_freep := ?p\<rparr>)" by (simp add: free_def Let_def find link)
  show ?thesis
    by (intro exI [of _ "h2\<lparr>h_freep := ?p\<rparr>"] exI [of _ fl'] conjI fb ok ar z allI impI) (simp_all add: hb same)
qed

section \<open>Taking a block\<close>

lemma lasta_in: "lasta a xs \<in> insert a (fst ` set xs)"
  by (cases xs rule: rev_cases) auto

lemma chain_retarget:
  assumes "chain h a xs e" "distinct (a # map fst xs)" "al a" "\<forall>x \<in> set xs. al (fst x)"
  shows "chain (set_ptr (lasta a xs) v h) a xs v"
  using assms
proof (induction xs arbitrary: a)
  case (Cons x xs)
  have "lasta (fst x) xs \<noteq> a" "al (lasta (fst x) xs)"
    using Cons.prems(2-4) lasta_in [of "fst x" xs] by auto
  then show ?case using Cons by (auto simp: header_simps)
qed (simp add: header_simps)

lemma ordered_around:
  assumes "ordered e (xs @ z # ys)"
  shows "\<forall>x \<in> set xs. unat (fst x) + 8 * unat (snd x) < unat (fst z)" "\<forall>y \<in> set ys. unat (fst z) + 8 * unat (snd z) < unat (fst y)"
    "bytes_at z \<inter> area (xs @ ys) = {}" "ordered e (xs @ ys)"
proof -
  show x: "\<forall>x \<in> set xs. unat (fst x) + 8 * unat (snd x) < unat (fst z)"
  proof
    fix x assume "x \<in> set xs"
    then obtain us vs where "xs = us @ x # vs" by (auto dest: split_list)
    then have "ordered (unat (fst x) + 8 * unat (snd x)) (vs @ z # ys)" using assms by (simp add: ordered_append)
    then show "unat (fst x) + 8 * unat (snd x) < unat (fst z)" using ordered_all [of _ "vs @ z # ys" z] by simp
  qed
  have oy: "ordered (unat (fst z) + 8 * unat (snd z)) ys" using assms by (simp add: ordered_append)
  then show y: "\<forall>y \<in> set ys. unat (fst z) + 8 * unat (snd z) < unat (fst y)" by (auto dest: ordered_all)
  show "bytes_at z \<inter> area (xs @ ys) = {}"
  proof (intro equals0I)
    fix i assume "i \<in> bytes_at z \<inter> area (xs @ ys)"
    then obtain w where w: "w \<in> set xs \<or> w \<in> set ys" "i \<in> bytes_at w" "i \<in> bytes_at z" by (auto simp: area_def)
    then show False using x y by (fastforce simp: bytes_at_def)
  qed
  have "(if xs = [] then e else unat (fst (last xs)) + 8 * unat (snd (last xs))) \<le> unat (fst z) + 8 * unat (snd z)"
    using x assms by (fastforce simp: ordered_append)
  then show "ordered e (xs @ ys)" using assms ordered_mono [OF oy] by (simp add: ordered_append)
qed

text \<open>What \<open>malloc\<close> promises of the block it hands out.\<close>

definition carved :: "uint32 \<Rightarrow> heap \<Rightarrow> nat set \<Rightarrow> uint32 \<Rightarrow> heap \<Rightarrow> (uint32 \<times> uint32) list \<Rightarrow> bool" where
  "carved n h A b h' fl \<longleftrightarrow> heap_ok h' fl \<and> al b \<and> h_base h < b \<and> hsize h' b = n \<and> unat b + 8 * unat n \<le> 2 ^ 32 - 8
     \<and> bytes_at (b, n) \<inter> area fl = {} \<and> bytes_at (b, n) \<union> area fl = A
     \<and> h_base h' = h_base h \<and> h_sbrk h' = h_sbrk h
     \<and> (\<forall>x. unat x \<notin> A \<union> {unat (h_base h)..<unat (h_base h) + 8} \<longrightarrow> h_mem h' x = h_mem h x)"

lemma heap_okD:
  assumes "heap_ok h (xs @ (p, k) # ys)"
  shows "al (h_base h)" "h_base h \<noteq> 0" "hsize h (h_base h) = 0" "ordered (unat (h_base h)) (xs @ (p, k) # ys)"
    "chain h (h_base h) xs p" "hsize h p = k" "chain h p ys (h_base h)"
    "al p" "unat (h_base h) < unat p" "0 < unat k" "unat p + 8 * unat k \<le> 2 ^ 32 - 8"
proof -
  show o: "ordered (unat (h_base h)) (xs @ (p, k) # ys)" using assms by (simp add: heap_ok_def)
  show "al (h_base h)" "h_base h \<noteq> 0" "hsize h (h_base h) = 0" "chain h (h_base h) xs p" "hsize h p = k" "chain h p ys (h_base h)"
    using assms by (simp_all add: heap_ok_def chain_append_Cons)
  show "al p" "unat (h_base h) < unat p" "0 < unat k" "unat p + 8 * unat k \<le> 2 ^ 32 - 8"
    using ordered_all [OF o, of "(p, k)"] by simp_all
qed

lemma take_exact:
  assumes h: "heap_ok h (xs @ (p, n) # ys)"
  defines "q \<equiv> lasta (h_base h) xs"
  shows "carved n h (area (xs @ (p, n) # ys)) p ((set_ptr q (hptr h p) h)\<lparr>h_freep := q\<rparr>) (xs @ ys)"
proof -
  let ?base = "h_base h"
  note d = heap_okD [OF h] and ar = ordered_around [OF heap_okD(4) [OF h]]
  have oxs: "ordered (unat ?base) xs" using d(4) by (simp add: ordered_append)
  have alx: "\<forall>x \<in> set xs. al (fst x)" using ordered_all [OF oxs] by blast
  have q: "al q" using lasta_al [OF d(1) oxs] by (simp add: q_def)
  have dist: "distinct (?base # map fst xs)" using ordered_distinct [OF oxs] ordered_all [OF oxs] by force
  have qp: "unat q < unat p" using ar(1) d(9) by (cases xs rule: rev_cases) (auto simp: q_def)
  let ?h = "set_ptr q (hptr h p) h"
  have s: "same_but q h ?h" using q by (rule same_but_set)
  have nx: "hptr h p = nexta ys ?base" using d(7) by (rule chain_next)
  have c1: "chain ?h ?base xs (nexta ys ?base)" using chain_retarget [OF d(5) dist d(1) alx, of "hptr h p"] nx by (simp add: q_def)
  have ysq: "\<forall>y \<in> set ys. fst y \<noteq> q \<and> al (fst y)"
    using ar(2) qp ordered_all [OF d(4)] by fastforce
  have "chain ?h q ys ?base"
  proof (cases ys)
    case (Cons y ys')
    have "chain ?h (fst y) ys' ?base" using same_but_chain [OF s, of "fst y" ys' ?base] ysq d(7) by (auto simp: Cons)
    then show ?thesis using d(7) ysq q by (simp add: Cons header_simps)
  qed (use nx q in \<open>simp add: header_simps\<close>)
  then have ch: "chain ?h ?base (xs @ ys) ?base" using c1 by (simp add: hchain_append q_def)
  have qin: "q \<in> insert ?base (fst ` set (xs @ ys))" by (cases xs rule: rev_cases) (auto simp: q_def)
  have "heap_ok (?h\<lparr>h_freep := q\<rparr>) (xs @ ys)"
    using d(1-3) ar(4) ch qin q by (simp add: heap_ok_def header_simps)
  moreover have "h_mem ?h x = h_mem h x" if x: "unat x \<notin> area (xs @ (p, n) # ys) \<union> {unat ?base..<unat ?base + 8}" for x
  proof -
    have "unat x \<notin> {unat q..<unat q + 8}"
    proof (cases "q = ?base")
      case False
      then have "q \<in> fst ` set (xs @ (p, n) # ys)" using qin by auto
      from header_in_area [OF d(4) this] x show ?thesis by blast
    qed (use x in simp)
    then show ?thesis using header_outside(1) [OF q, of x] by auto
  qed
  ultimately show ?thesis
    using d ar(3) q unfolding carved_def by (auto simp: word_less_nat_alt header_simps)
qed

lemma take_split:
  assumes h: "heap_ok h (xs @ (p, k) # ys)" and n: "0 < unat n" "n < k"
  defines "q \<equiv> lasta (h_base h) xs" and "b \<equiv> p + 8 * (k - n)"
  shows "carved n h (area (xs @ (p, k) # ys)) b ((set_size b n (set_size p (k - n) h))\<lparr>h_freep := q\<rparr>) (xs @ (p, k - n) # ys)"
proof -
  let ?base = "h_base h" and ?m = "k - n"
  note d = heap_okD [OF h] and ar = ordered_around [OF heap_okD(4) [OF h]]
  have um: "unat ?m = unat k - unat n" "unat n < unat k"
    using n(2) unat_sub [OF less_imp_le [OF n(2)]] by (simp_all add: word_less_nat_alt)
  have ub: "unat b = unat p + 8 * unat ?m" unfolding b_def using d(11) um by (intro unat_end) simp
  have b: "al b" using d(8) ub by (simp add: al_def)
  let ?h1 = "set_size p ?m h"
  let ?h2 = "set_size b n ?h1"
  have s1: "same_but p h ?h1" and s2: "same_but b ?h1 ?h2" using d(8) b by (auto intro: same_but_set)
  have xa: "\<forall>x \<in> set xs. fst x \<noteq> p \<and> fst x \<noteq> b \<and> al (fst x)"
    using ar(1) ub ordered_all [OF d(4)] by fastforce
  have ya: "\<forall>y \<in> set ys. fst y \<noteq> p \<and> fst y \<noteq> b \<and> al (fst y)"
    using ar(2) ub um ordered_all [OF d(4)] by fastforce
  have bp: "b \<noteq> p" "?base \<noteq> b" "?base \<noteq> p" using ub um d(9) by auto
  have "chain ?h2 ?base xs p"
    using same_but_chain [OF s1, of ?base xs p] same_but_chain [OF s2, of ?base xs p] xa bp d(1,5) by auto
  moreover have "chain ?h2 p ys ?base"
    using d(7) ya d(8) b bp by (subst chain_cong [of _ _ _ h]) (auto simp: header_simps)
  ultimately have "chain ?h2 ?base (xs @ (p, ?m) # ys) ?base"
    using d(8) b bp by (simp add: chain_append_Cons header_simps)
  moreover have "ordered (unat ?base) (xs @ (p, ?m) # ys)"
    using d(4) um by (auto simp: ordered_append elim: ordered_mono)
  moreover have "q \<in> insert ?base (fst ` set (xs @ (p, ?m) # ys))" by (cases xs rule: rev_cases) (auto simp: q_def)
  ultimately have ok: "heap_ok (?h2\<lparr>h_freep := q\<rparr>) (xs @ (p, ?m) # ys)"
    using d(1-3,8) b bp by (simp add: heap_ok_def header_simps)
  have parts: "bytes_at (p, k) = bytes_at (p, ?m) \<union> bytes_at (b, n)" "bytes_at (p, ?m) \<inter> bytes_at (b, n) = {}"
    using ub um by (auto simp: bytes_at_def)
  have out: "h_mem ?h2 x = h_mem h x" if x: "unat x \<notin> area (xs @ (p, k) # ys) \<union> {unat ?base..<unat ?base + 8}" for x
  proof -
    have "unat x \<notin> bytes_at (p, ?m)" "unat x \<notin> bytes_at (b, n)" using x parts(1) by auto
    then have "unat x < unat p \<or> unat p + 8 \<le> unat x" "unat x < unat b \<or> unat b + 8 \<le> unat x"
      using um n(1) by (auto simp: bytes_at_def)
    then show ?thesis using header_outside(2) d(8) b by simp
  qed
  have "bytes_at (b, n) \<inter> area (xs @ ys) = {}" using ar(3) parts(1) by auto
  then have dis: "bytes_at (b, n) \<inter> area (xs @ (p, ?m) # ys) = {}" using parts(2) by auto
  have all: "bytes_at (b, n) \<union> area (xs @ (p, ?m) # ys) = area (xs @ (p, k) # ys)" using parts(1) by auto
  have "hsize (?h2\<lparr>h_freep := q\<rparr>) b = n" using b by (simp add: header_simps)
  moreover have "?base < b" "unat b + 8 * unat n \<le> 2 ^ 32 - 8" using ub um d(9,11) by (simp_all add: word_less_nat_alt)
  ultimately show ?thesis unfolding carved_def using ok dis all b out by simp
qed

lemma take_block:
  assumes "heap_ok h (xs @ (p, k) # ys)" and "0 < unat n" "n \<le> k"
  shows "\<exists>b h' fl. malloc_take n (lasta (h_base h) xs) p h = (b + 8, h') \<and> carved n h (area (xs @ (p, k) # ys)) b h' fl"
proof (cases "k = n")
  case True
  then show ?thesis using take_exact [of h xs p n ys] assms(1) heap_okD(6) [OF assms(1)] by (auto simp: malloc_take_def)
next
  case False
  then have "n < k" using assms(3) by simp
  from take_split [OF assms(1,2) this] heap_okD(6,8) [OF assms(1)] False show ?thesis
    by (auto simp: malloc_take_def Let_def header_simps)
qed

section \<open>The search\<close>

lemma malloc_walk:
  assumes "chain h a (xs @ ys) e" "\<forall>x \<in> set xs. snd x < n \<and> fst x \<noteq> h_freep h"
  shows "malloc_loop n a (hptr h a) h = malloc_loop n (lasta a xs) (nexta ys e) h"
  using assms
proof (induction xs arbitrary: a)
  case Nil
  then show ?case by (simp add: chain_next)
next
  case (Cons x xs)
  have x: "hptr h a = fst x" "hsize h (fst x) = snd x" "snd x < n" "fst x \<noteq> h_freep h" using Cons.prems by auto
  have "malloc_loop n a (fst x) h = malloc_loop n (fst x) (hptr h (fst x)) h"
    using x x(3) [unfolded not_le [symmetric]] by (subst malloc_loop.simps) simp
  moreover have "malloc_loop n (fst x) (hptr h (fst x)) h = malloc_loop n (lasta (fst x) xs) (nexta ys e) h"
    using Cons.prems by (intro Cons.IH) auto
  ultimately show ?case using x by simp
qed

lemma malloc_hit: "hsize h p = k \<Longrightarrow> n \<le> k \<Longrightarrow> malloc_loop n a p h = Some (malloc_take n a p h)"
  by (subst malloc_loop.simps) simp

lemma first_fit:
  fixes n :: uint32
  shows "(\<forall>x \<in> set vs. snd x < n) \<or> (\<exists>v1 b k v2. vs = v1 @ (b, k) # v2 \<and> n \<le> k \<and> (\<forall>x \<in> set v1. snd x < n))"
proof (induction vs)
  case (Cons v vs)
  show ?case
  proof (cases "snd v < n")
    case True
    from Cons show ?thesis
    proof
      assume "\<exists>v1 b k v2. vs = v1 @ (b, k) # v2 \<and> n \<le> k \<and> (\<forall>x \<in> set v1. snd x < n)"
      then obtain v1 b k v2 where "vs = v1 @ (b, k) # v2" "n \<le> k" "\<forall>x \<in> set v1. snd x < n" by blast
      then show ?thesis using True by (intro disjI2 exI [of _ "v # v1"] exI [of _ b] exI [of _ k] exI [of _ v2]) simp
    qed (use True in simp)
  next
    case False
    then show ?thesis by (intro disjI2 exI [of _ "[]"] exI [of _ "fst v"] exI [of _ "snd v"] exI [of _ vs]) auto
  qed
qed simp

text \<open>One round of the search, from \<open>freep\<close> back to \<open>freep\<close>: it finds a block that is large enough, or there is none and it asks for
  more.\<close>

lemma malloc_round:
  assumes h: "heap_ok h fl" and n: "0 < unat n"
  shows "(\<exists>xs p k ys. fl = xs @ (p, k) # ys \<and> n \<le> k \<and> malloc_loop n (h_freep h) (hptr h (h_freep h)) h = Some (malloc_take n (lasta (h_base h) xs) p h))
    \<or> (\<forall>x \<in> set fl. snd x < n) \<and> malloc_loop n (h_freep h) (hptr h (h_freep h)) h =
        (case morecore n h of None \<Rightarrow> None | Some (p, h) \<Rightarrow> if p = 0 then Some (0, h) else malloc_loop n p (hptr h p) h)"
  (is "?hit \<or> ?miss")
proof -
  let ?base = "h_base h" and ?f = "h_freep h"
  have c: "chain h ?base fl ?base" and o: "ordered (unat ?base) fl" and b0: "hsize h ?base = 0" and f: "?f \<in> insert ?base (fst ` set fl)"
    using h by (auto simp: heap_ok_def)
  have nb: "\<not> n \<le> hsize h ?base" using n b0 by (simp add: word_le_nat_alt)
  have dist: "distinct (?base # map fst fl)" using ordered_distinct [OF o] ordered_all [OF o] by force
  obtain us vs where fl: "fl = us @ vs" and fu: "?f = lasta ?base us"
  proof (cases "?f = ?base")
    case True
    then show ?thesis using that [of "[]" fl] by simp
  next
    case False
    then obtain x where x: "x \<in> set fl" "fst x = ?f" using f by auto
    then obtain u v where "fl = u @ x # v" by (auto dest: split_list)
    then show ?thesis using that [of "u @ [x]" v] x by simp
  qed
  have cu: "chain h ?base us (nexta vs ?base)" and cv: "chain h ?f vs ?base" using c by (auto simp: fl fu hchain_append)
  have vf: "fst x \<noteq> ?f" if "x \<in> set vs" for x
  proof -
    have "?base \<notin> fst ` set vs" "fst ` set us \<inter> fst ` set vs = {}" using dist by (simp_all add: fl)
    then show ?thesis using imageI [OF that, of fst] lasta_in [of ?base us] by (metis disjoint_iff fu insert_iff)
  qed
  have goon: "malloc_loop n a ?f h = (case morecore n h of None \<Rightarrow> None | Some (p, h) \<Rightarrow> if p = 0 then Some (0, h) else malloc_loop n p (hptr h p) h)"
    if "hsize h ?f < n" for a using that [unfolded not_le [symmetric]] by (subst malloc_loop.simps) simp
  from first_fit [of vs n] show ?thesis
  proof
    assume "\<exists>v1 b k v2. vs = v1 @ (b, k) # v2 \<and> n \<le> k \<and> (\<forall>x \<in> set v1. snd x < n)"
    then obtain v1 b k v2 where v: "vs = v1 @ (b, k) # v2" "n \<le> k" "\<forall>x \<in> set v1. snd x < n" by blast
    have "malloc_loop n ?f (hptr h ?f) h = malloc_loop n (lasta ?f v1) b h"
      using malloc_walk [of h ?f v1 "(b, k) # v2" ?base n] cv v vf by simp
    moreover have "hsize h b = k" using cv by (simp add: v chain_append_Cons)
    moreover have "lasta ?f v1 = lasta ?base (us @ v1)" by (simp add: fu lasta_def)
    ultimately have ?hit using v by (intro exI [of _ "us @ v1"] exI [of _ b] exI [of _ k] exI [of _ v2]) (simp add: fl malloc_hit)
    then show ?thesis ..
  next
    assume vs: "\<forall>x \<in> set vs. snd x < n"
    have w: "malloc_loop n ?f (hptr h ?f) h = malloc_loop n (lasta ?f vs) ?base h"
      using malloc_walk [of h ?f vs "[]" ?base n] cv vs vf by simp
    show ?thesis
    proof (cases us rule: rev_cases)
      case Nil
      then have ?miss using w goon [of "lasta ?f vs"] vs nb by (simp add: fl fu not_le)
      then show ?thesis ..
    next
      case (snoc u x)
      then have fx: "?f = fst x" by (simp add: fu)
      have "?base \<noteq> ?f" using dist by (auto simp: fl fu snoc)
      then have w': "malloc_loop n ?f (hptr h ?f) h = malloc_loop n ?base (hptr h ?base) h"
        using w nb by (subst (asm) (2) malloc_loop.simps) simp
      have cb: "chain h ?base u (fst x)" "hsize h (fst x) = snd x" using cu by (simp_all add: snoc chain_append_Cons)
      have uf: "fst y \<noteq> ?f" if "y \<in> set u" for y
      proof -
        have "fst x \<notin> fst ` set u" using dist by (simp add: fl snoc)
        then show ?thesis using imageI [OF that, of fst] fx by metis
      qed
      from first_fit [of u n] show ?thesis
      proof
        assume "\<exists>v1 b k v2. u = v1 @ (b, k) # v2 \<and> n \<le> k \<and> (\<forall>x \<in> set v1. snd x < n)"
        then obtain v1 b k v2 where v: "u = v1 @ (b, k) # v2" "n \<le> k" "\<forall>x \<in> set v1. snd x < n" by blast
        have "malloc_loop n ?base (hptr h ?base) h = malloc_loop n (lasta ?base v1) b h"
          using malloc_walk [of h ?base v1 "(b, k) # v2" "fst x" n] cb v uf by simp
        moreover have "hsize h b = k" using cb by (simp add: v chain_append_Cons)
        ultimately have ?hit
          using v w' by (intro exI [of _ v1] exI [of _ b] exI [of _ k] exI [of _ "v2 @ x # vs"]) (simp add: fl snoc malloc_hit)
        then show ?thesis ..
      next
        assume u: "\<forall>x \<in> set u. snd x < n"
        have "malloc_loop n ?base (hptr h ?base) h = malloc_loop n (lasta ?base u) (fst x) h"
          using malloc_walk [of h ?base u "[]" "fst x" n] cb u uf by simp
        note w'' = trans [OF w' this]
        show ?thesis
        proof (cases "n \<le> snd x")
          case True
          then have ?hit using w'' cb(2)
            by (intro exI [of _ u] exI [of _ "fst x"] exI [of _ "snd x"] exI [of _ vs]) (simp add: fl snoc malloc_hit)
          then show ?thesis ..
        next
          case False
          then have ?miss using w'' goon [of "lasta ?base u"] cb(2) u vs by (auto simp: fl snoc fx not_le)
          then show ?thesis ..
        qed
      qed
    qed
  qed
qed

section \<open>Asking for more\<close>

definition core_size :: "uint32 \<Rightarrow> uint32" where
  "core_size n = (if n < 4096 then 4096 else n)"

text \<open>What \<open>morecore\<close> relies on: the size of the process is a multiple of 8, and \<open>base\<close> and the free memory are below it.
  Unless a free block is large enough already, the number of bytes to ask for is a positive \<open>int\<close> and stays clear of the end of the
  address space.\<close>

definition core_ok :: "uint32 \<Rightarrow> heap \<Rightarrow> (uint32 \<times> uint32) list \<Rightarrow> bool" where
  "core_ok n h fl \<longleftrightarrow> (let sz = brk_sz (h_sbrk h); m = max 4096 (unat n) in
     al sz \<and> h_base h < sz \<and> area fl \<subseteq> {..<unat sz}
     \<and> ((\<exists>x \<in> set fl. n \<le> snd x) \<or> 8 * m < 2 ^ 31 \<and> unat sz + 8 * m \<le> 2 ^ 32 - 8))"

definition have_pages :: "heap \<Rightarrow> bool" where
  "have_pages h \<longleftrightarrow> (case brk_pages (h_sbrk h) of [] \<Rightarrow> False | b # _ \<Rightarrow> b)"

lemma sint_pos: "unat (w :: uint32) < 2 ^ 31 \<Longrightarrow> sint w = int (unat w)"
proof -
  assume "unat w < 2 ^ 31"
  then have "uint w < 2 ^ 31" by (simp add: nat_less_iff flip: nat_uint_eq)
  moreover have "- (2 ^ 31) \<le> uint w" by (rule order_trans [of _ 0]) simp_all
  ultimately have "signed_take_bit 31 (uint w) = uint w" by (intro signed_take_bit_int_eq_self) auto
  then show ?thesis by (simp add: sint_uint)
qed

lemma sint_neg: "2 ^ 31 \<le> unat (w :: uint32) \<Longrightarrow> sint w < 0"
proof -
  assume "2 ^ 31 \<le> unat w"
  then have "2 ^ 31 \<le> uint w" by (simp add: le_nat_iff flip: nat_uint_eq)
  moreover have "uint w < 2 ^ 32" using uint_lt2p [of w] by simp
  ultimately have "uint w div 2 ^ 31 = 1" by (simp add: div_pos_geq)
  then have "bit (uint w) 31" by (simp add: bit_iff_odd)
  then show ?thesis by (simp add: sint_uint signed_take_bit_negative_iff)
qed
text \<open>\<open>sbrk\<close> for the amount \<open>morecore\<close> asks for.\<close>

lemma unat_core_size: "unat (core_size n) = max 4096 (unat n)"
  by (auto simp: core_size_def word_less_nat_alt max_def)

lemma sbrk_core:
  assumes "8 * max 4096 (unat n) < 2 ^ 31" "unat (brk_sz (h_sbrk h)) + 8 * max 4096 (unat n) \<le> 2 ^ 32 - 8"
  defines "sz \<equiv> brk_sz (h_sbrk h)"
  shows "have_pages h \<Longrightarrow> sbrk (core_size n * 8) h =
      (sz, h\<lparr>h_sbrk := \<lparr>brk_sz = sz + 8 * core_size n, brk_pages = tl (brk_pages (h_sbrk h))\<rparr>\<rparr>)"
    and "\<not> have_pages h \<Longrightarrow> \<exists>k. sbrk (core_size n * 8) h = (-1, h\<lparr>h_sbrk := k\<rparr>) \<and> brk_sz k = sz"
    and "unat (sz + 8 * core_size n) = unat sz + 8 * max 4096 (unat n)"
proof -
  let ?b = "core_size n * 8"
  have u: "unat ?b = 8 * max 4096 (unat n)"
    using assms(1) by (simp add: unat_word_ariths unat_core_size)
  then have s: "0 < sint ?b"
    using assms(1) sint_pos [of ?b] by (simp add: max_def split: if_splits)
  show e: "unat (sz + 8 * core_size n) = unat sz + 8 * max 4096 (unat n)"
    using assms(2) unat_end [of sz "core_size n"] by (simp add: unat_core_size sz_def)
  then have "\<not> sz + ?b < sz" by (simp add: word_less_nat_alt mult.commute)
  with s have ask: "sbrk ?b h = (case brk_pages (h_sbrk h) of
      True # ps \<Rightarrow> (sz, h\<lparr>h_sbrk := \<lparr>brk_sz = sz + ?b, brk_pages = ps\<rparr>\<rparr>)
    | False # ps \<Rightarrow> (-1, h\<lparr>h_sbrk := \<lparr>brk_sz = sz, brk_pages = ps\<rparr>\<rparr>) | [] \<Rightarrow> (-1, h))"
    unfolding sbrk_def Let_def sz_def by simp
  show "sbrk ?b h = (sz, h\<lparr>h_sbrk := \<lparr>brk_sz = sz + 8 * core_size n, brk_pages = tl (brk_pages (h_sbrk h))\<rparr>\<rparr>)" if "have_pages h"
    using that by (cases "brk_pages (h_sbrk h)") (simp_all add: ask have_pages_def mult.commute)
  show "\<exists>k. sbrk ?b h = (-1, h\<lparr>h_sbrk := k\<rparr>) \<and> brk_sz k = sz" if "\<not> have_pages h"
  proof (cases "brk_pages (h_sbrk h)")
    case Nil
    then show ?thesis by (intro exI [of _ "h_sbrk h"]) (simp add: ask sz_def)
  next
    case (Cons x ps)
    then show ?thesis using that by (intro exI [of _ "\<lparr>brk_sz = sz, brk_pages = ps\<rparr>"]) (simp add: ask have_pages_def)
  qed
qed

lemma heap_ok_sbrk [simp]: "heap_ok (h\<lparr>h_sbrk := as\<rparr>) fl = heap_ok h fl"
  by (simp add: heap_ok_def)

lemma heap_ok_freep: "heap_ok h fl \<Longrightarrow> h_freep h \<noteq> 0"
  using ordered_all [of "unat (h_base h)" fl] by (fastforce simp: heap_ok_def)

lemma heap_ok_same_but:
  assumes "heap_ok h fl" "same_but b h h'" "b \<noteq> h_base h" "\<forall>x \<in> set fl. fst x \<noteq> b"
  shows "heap_ok h' fl"
proof -
  have "chain h' (h_base h) fl (h_base h)"
    using assms same_but_chain [OF assms(2), of "h_base h" fl] ordered_all [of "unat (h_base h)" fl] by (auto simp: heap_ok_def)
  then show ?thesis using assms by (auto simp: heap_ok_def same_but_def)
qed

lemma morecore_ok:
  assumes h: "heap_ok h fl" and ok: "core_ok n h fl" "\<forall>x \<in> set fl. snd x < n" and pages: "have_pages h"
  defines "a \<equiv> brk_sz (h_sbrk h)" and "as \<equiv> \<lparr>brk_sz = brk_sz (h_sbrk h) + 8 * core_size n, brk_pages = tl (brk_pages (h_sbrk h))\<rparr>"
  shows "\<exists>h' fl'. morecore n h = Some (h_freep h', h') \<and> heap_ok h' fl' \<and> area fl' = area fl \<union> bytes_at (a, core_size n)
    \<and> (\<exists>z \<in> set fl'. n \<le> snd z) \<and> h_base h' = h_base h \<and> h_sbrk h' = as
    \<and> (\<forall>x. unat x \<notin> area fl' \<union> {unat (h_base h)..<unat (h_base h) + 8} \<longrightarrow> h_mem h' x = h_mem h x)"
proof -
  let ?m = "core_size n" and ?g = "h\<lparr>h_sbrk := as\<rparr>"
  have m: "0 < unat ?m" "n \<le> ?m" by (auto simp: core_size_def word_le_nat_alt word_less_nat_alt)
  have lim: "8 * max 4096 (unat n) < 2 ^ 31" "unat a + 8 * max 4096 (unat n) \<le> 2 ^ 32 - 8"
    using ok by (auto simp: core_ok_def Let_def a_def not_le [symmetric])
  have c: "al a" "h_base h < a" "unat a + 8 * unat ?m \<le> 2 ^ 32 - 8" "bytes_at (a, ?m) \<inter> area fl = {}"
    using ok(1) lim by (auto simp: core_ok_def Let_def a_def unat_core_size bytes_at_def)
  have a1: "a \<noteq> -1" using c(1) by (auto simp: al_def unsigned_minus_1_eq_mask mask_eq_exp_minus_1)
  have sb: "sbrk (core_size n * 8) h = (a, ?g)"
    using sbrk_core(1) [OF lim(1) lim(2) [unfolded a_def] pages] by (simp add: a_def as_def)
  let ?h = "set_size a ?m ?g"
  have s: "same_but a ?g ?h" using c(1) by (rule same_but_set)
  have "fst x \<noteq> a" if "x \<in> set fl" for x
  proof
    assume "fst x = a"
    then have "unat a \<in> bytes_at (a, ?m) \<inter> area fl"
      using that m(1) ordered_all [of "unat (h_base h)" fl x] h by (auto simp: area_def bytes_at_def heap_ok_def)
    then show False using c(4) by simp
  qed
  then have k: "heap_ok ?h fl" using heap_ok_same_but [OF _ s] h c(2) by auto
  have b: "h_base ?h = h_base h" "h_sbrk ?h = as" "hsize ?h a = ?m" using c(1) by (simp_all add: header_simps)
  have a': "h_base ?h < a" using c(2) b(1) by simp
  obtain h' fl' where "free (a + 8) ?h = Some h' \<and> heap_ok h' fl' \<and> area fl' = area fl \<union> bytes_at (a, ?m) \<and> (\<exists>z \<in> set fl'. unat ?m \<le> unat (snd z))
      \<and> h_base h' = h_base h \<and> h_sbrk h' = as
      \<and> (\<forall>x. unat x \<notin> area fl' \<union> {unat (h_base h)..<unat (h_base h) + 8} \<longrightarrow> h_mem h' x = h_mem ?h x)"
    using free_ok [OF k c(1) a' m(1) b(3) c(3,4)] unfolding b by (elim exE) (rule that)
  then have f: "free (a + 8) ?h = Some h'" "heap_ok h' fl'" "area fl' = area fl \<union> bytes_at (a, ?m)" "h_base h' = h_base h" "h_sbrk h' = as"
    and z: "\<exists>z \<in> set fl'. unat ?m \<le> unat (snd z)"
    and out: "\<forall>x. unat x \<notin> area fl' \<union> {unat (h_base h)..<unat (h_base h) + 8} \<longrightarrow> h_mem h' x = h_mem ?h x"
    by blast+
  have n: "\<exists>z \<in> set fl'. n \<le> snd z" using z m(2) order_trans [of n ?m] by (fastforce simp only: word_le_nat_alt [symmetric])
  have same: "h_mem h' x = h_mem h x" if "unat x \<notin> area fl' \<union> {unat (h_base h)..<unat (h_base h) + 8}" for x
  proof -
    have "unat x \<notin> bytes_at (a, ?m)" using that f(3) by simp
    then have "unat x < unat a \<or> unat a + 8 \<le> unat x" using m(1) by (auto simp: bytes_at_def)
    from header_outside(2) [OF c(1) this] that out show ?thesis by simp
  qed
  have "morecore n h = Some (h_freep h', h')"
    unfolding morecore_def Let_def core_size_def [symmetric] using f(1) a1 by (simp add: sb)
  then show ?thesis by (intro exI [of _ h'] exI [of _ fl'] conjI f n allI impI same)
qed

text \<open>The process grew by \<open>n\<close> units, but at least 4096.\<close>

definition grown :: "uint32 \<Rightarrow> heap \<Rightarrow> heap \<Rightarrow> bool" where
  "grown n h h' \<longleftrightarrow> brk_pages (h_sbrk h) = True # brk_pages (h_sbrk h')
     \<and> unat (brk_sz (h_sbrk h')) = unat (brk_sz (h_sbrk h)) + 8 * max 4096 (unat n)"

lemma grownI:
  assumes "core_ok n h fl" "\<forall>x \<in> set fl. snd x < n" "have_pages h"
    and "h_sbrk h' = \<lparr>brk_sz = brk_sz (h_sbrk h) + 8 * core_size n, brk_pages = tl (brk_pages (h_sbrk h))\<rparr>"
  shows "grown n h h'" "bytes_at (brk_sz (h_sbrk h), core_size n) = {unat (brk_sz (h_sbrk h))..<unat (brk_sz (h_sbrk h'))}"
proof -
  have lim: "8 * max 4096 (unat n) < 2 ^ 31" "unat (brk_sz (h_sbrk h)) + 8 * max 4096 (unat n) \<le> 2 ^ 32 - 8"
    using assms(1,2) by (auto simp: core_ok_def Let_def not_le [symmetric])
  note e = sbrk_core(3) [OF lim]
  show "grown n h h'" using e assms(3,4) by (auto simp: grown_def have_pages_def split: list.splits)
  show "bytes_at (brk_sz (h_sbrk h), core_size n) = {unat (brk_sz (h_sbrk h))..<unat (brk_sz (h_sbrk h'))}"
    using e assms(4) by (simp add: bytes_at_def unat_core_size)
qed

section \<open>\<open>malloc\<close> and \<open>free\<close>\<close>

definition heap_inv :: "heap \<Rightarrow> (uint32 \<times> uint32) list \<Rightarrow> bool" where
  "heap_inv h fl \<longleftrightarrow> heap_ok h fl \<or> h_freep h = 0 \<and> al (h_base h) \<and> h_base h \<noteq> 0 \<and> fl = []"

definition units_for :: "uint32 \<Rightarrow> uint32" where
  "units_for nbytes = (nbytes + 8 - 1) div 8 + 1"

lemma units_for_bytes:
  assumes "unat nbytes \<le> 2 ^ 32 - 8"
  shows "unat nbytes + 8 \<le> 8 * unat (units_for nbytes)" "0 < unat (units_for nbytes)"
proof -
  have "unat (nbytes + 7) = unat nbytes + 7" using assms unat_add_small [of nbytes 7] by simp
  then have "unat ((nbytes + 7) div 8) = (unat nbytes + 7) div 8" by (simp add: unat_div)
  moreover have "unat ((nbytes + 7) div 8 + 1) = unat ((nbytes + 7) div 8) + 1"
    using calculation assms unat_add_small [of "(nbytes + 7) div 8" 1] by simp
  ultimately have "unat (units_for nbytes) = (unat nbytes + 7) div 8 + 1" by (simp add: units_for_def add.commute [of 7])
  then show "unat nbytes + 8 \<le> 8 * unat (units_for nbytes)" "0 < unat (units_for nbytes)" by presburger+
qed

lemma malloc_first:
  assumes "heap_inv h fl"
  shows "\<exists>h'. malloc nbytes h = malloc_loop (units_for nbytes) (h_freep h') (hptr h' (h_freep h')) h' \<and> heap_ok h' fl
    \<and> h_base h' = h_base h \<and> h_sbrk h' = h_sbrk h
    \<and> (\<forall>x. unat x \<notin> {unat (h_base h)..<unat (h_base h) + 8} \<longrightarrow> h_mem h' x = h_mem h x)"
proof (cases "h_freep h = 0")
  case False
  then show ?thesis using assms by (intro exI [of _ h]) (simp add: malloc_def Let_def units_for_def heap_inv_def)
next
  case True
  let ?h = "set_size (h_base h) 0 (set_ptr (h_base h) (h_base h) (h\<lparr>h_freep := h_base h\<rparr>))"
  have b: "al (h_base h)" "h_base h \<noteq> 0" "fl = []" using assms True heap_ok_freep [of h fl] by (auto simp: heap_inv_def)
  have "heap_ok ?h []" using b by (simp add: heap_ok_def header_simps)
  moreover have "h_mem ?h x = h_mem h x" if "unat x \<notin> {unat (h_base h)..<unat (h_base h) + 8}" for x
    using that b(1) header_outside by fastforce
  ultimately show ?thesis using True b by (intro exI [of _ ?h]) (simp add: malloc_def Let_def units_for_def)
qed

lemma carved_trans:
  assumes "carved n h' A b h'' fl" "h_base h' = h_base h"
    "\<forall>x. unat x \<notin> A \<union> {unat (h_base h)..<unat (h_base h) + 8} \<longrightarrow> h_mem h' x = h_mem h x"
  shows "carved n (h\<lparr>h_sbrk := h_sbrk h'\<rparr>) A b h'' fl"
  using assms unfolding carved_def by simp

lemma malloc_cases:
  assumes h: "heap_inv h fl" and n: "unat nbytes \<le> 2 ^ 32 - 8" and core: "core_ok (units_for nbytes) h fl"
  shows "(\<exists>b h' fl' A. malloc nbytes h = Some (b + 8, h') \<and> carved (units_for nbytes) (h\<lparr>h_sbrk := h_sbrk h'\<rparr>) A b h' fl'
        \<and> (A = area fl \<and> h_sbrk h' = h_sbrk h \<or> grown (units_for nbytes) h h' \<and> A = area fl \<union> {unat (brk_sz (h_sbrk h))..<unat (brk_sz (h_sbrk h'))}))
    \<or> (\<exists>h'. malloc nbytes h = Some (0, h') \<and> heap_ok h' fl \<and> (\<forall>x \<in> set fl. snd x < units_for nbytes) \<and> \<not> have_pages h \<and> brk_sz (h_sbrk h') = brk_sz (h_sbrk h))"
  (is "?block \<or> ?fail")
proof -
  let ?n = "units_for nbytes"
  have n0: "0 < unat ?n" using units_for_bytes [OF n] by simp
  obtain h0 where h0: "malloc nbytes h = malloc_loop ?n (h_freep h0) (hptr h0 (h_freep h0)) h0" "heap_ok h0 fl"
      "h_base h0 = h_base h" "h_sbrk h0 = h_sbrk h" "\<forall>x. unat x \<notin> {unat (h_base h)..<unat (h_base h) + 8} \<longrightarrow> h_mem h0 x = h_mem h x"
    using malloc_first [OF h, of nbytes] by blast
  from malloc_round [OF h0(2) n0] show ?thesis
  proof
    assume "\<exists>xs p k ys. fl = xs @ (p, k) # ys \<and> ?n \<le> k
      \<and> malloc_loop ?n (h_freep h0) (hptr h0 (h_freep h0)) h0 = Some (malloc_take ?n (lasta (h_base h0) xs) p h0)"
    then obtain xs p k ys where w: "fl = xs @ (p, k) # ys" "?n \<le> k" "malloc nbytes h = Some (malloc_take ?n (lasta (h_base h0) xs) p h0)"
      using h0(1) by auto
    obtain b h' fl' where t: "malloc_take ?n (lasta (h_base h0) xs) p h0 = (b + 8, h')" and c: "carved ?n h0 (area fl) b h' fl'"
      using take_block [OF h0(2) [unfolded w(1)] n0 w(2)] by (auto simp only: w(1))
    have s: "h_sbrk h' = h_sbrk h0" using c by (simp add: carved_def)
    have "carved ?n (h\<lparr>h_sbrk := h_sbrk h'\<rparr>) (area fl) b h' fl'" unfolding s using h0(5) by (intro carved_trans [OF c h0(3)]) simp
    then have ?block using w(3) t s h0(4) by (intro exI [of _ b] exI [of _ h'] exI [of _ fl'] exI [of _ "area fl"]) simp
    then show ?thesis ..
  next
    assume "(\<forall>x \<in> set fl. snd x < ?n) \<and> malloc_loop ?n (h_freep h0) (hptr h0 (h_freep h0)) h0 =
        (case morecore ?n h0 of None \<Rightarrow> None | Some (p, h) \<Rightarrow> if p = 0 then Some (0, h) else malloc_loop ?n p (hptr h p) h)"
    then have small: "\<forall>x \<in> set fl. snd x < ?n" and more: "malloc nbytes h =
        (case morecore ?n h0 of None \<Rightarrow> None | Some (p, h) \<Rightarrow> if p = 0 then Some (0, h) else malloc_loop ?n p (hptr h p) h)"
      using h0(1) by simp_all
    show ?thesis
    proof (cases "have_pages h")
      case False
      have lim: "8 * max 4096 (unat ?n) < 2 ^ 31" "unat (brk_sz (h_sbrk h0)) + 8 * max 4096 (unat ?n) \<le> 2 ^ 32 - 8"
        using core small by (auto simp: core_ok_def Let_def h0(4) not_le [symmetric])
      have "\<not> have_pages h0" using False by (simp add: have_pages_def h0(4))
      from sbrk_core(2) [OF lim this] obtain k where k: "sbrk (core_size ?n * 8) h0 = (-1, h0\<lparr>h_sbrk := k\<rparr>)" "brk_sz k = brk_sz (h_sbrk h0)" by blast
      then have "morecore ?n h0 = Some (0, h0\<lparr>h_sbrk := k\<rparr>)" by (simp add: morecore_def Let_def core_size_def [symmetric])
      then have ?fail using more small h0(2,4) k(2) False by simp
      then show ?thesis ..
    next
      case True
      let ?a = "brk_sz (h_sbrk h0)" and ?as = "\<lparr>brk_sz = brk_sz (h_sbrk h0) + 8 * core_size ?n, brk_pages = tl (brk_pages (h_sbrk h0))\<rparr>"
      have core0: "core_ok ?n h0 fl" using core unfolding core_ok_def h0(3,4) .
      have pages: "have_pages h0" using True by (simp add: have_pages_def h0(4))
      obtain h1 fl1 where m: "morecore ?n h0 = Some (h_freep h1, h1)" "heap_ok h1 fl1" "area fl1 = area fl \<union> bytes_at (?a, core_size ?n)"
          "\<exists>z \<in> set fl1. ?n \<le> snd z" "h_base h1 = h_base h0" "h_sbrk h1 = ?as"
          "\<forall>x. unat x \<notin> area fl1 \<union> {unat (h_base h0)..<unat (h_base h0) + 8} \<longrightarrow> h_mem h1 x = h_mem h0 x"
        using morecore_ok [OF h0(2) core0 small pages] by blast
      have l: "malloc nbytes h = malloc_loop ?n (h_freep h1) (hptr h1 (h_freep h1)) h1" using more m(1) heap_ok_freep [OF m(2)] by simp
      obtain xs p k ys where w: "fl1 = xs @ (p, k) # ys" "?n \<le> k" "malloc nbytes h = Some (malloc_take ?n (lasta (h_base h1) xs) p h1)"
        using malloc_round [OF m(2) n0] l m(4) by (auto simp: not_le [symmetric])
      obtain b h' fl' where t: "malloc_take ?n (lasta (h_base h1) xs) p h1 = (b + 8, h')" and c: "carved ?n h1 (area fl1) b h' fl'"
        using take_block [OF m(2) [unfolded w(1)] n0 w(2)] by (auto simp only: w(1))
      have s: "h_sbrk h' = h_sbrk h1" using c by (simp add: carved_def)
      have "carved ?n (h\<lparr>h_sbrk := h_sbrk h'\<rparr>) (area fl1) b h' fl'"
        unfolding s using h0(3,5) m(5,7) by (intro carved_trans [OF c]) simp_all
      moreover have "grown ?n h h'" "bytes_at (?a, core_size ?n) = {unat (brk_sz (h_sbrk h))..<unat (brk_sz (h_sbrk h'))}"
        using grownI [OF core0 small pages, of h'] m(6) s h0(4) by (simp_all add: grown_def)
      ultimately have ?block using w(3) t m(3)
        by (intro exI [of _ b] exI [of _ h'] exI [of _ fl'] exI [of _ "area fl1"]) simp
      then show ?thesis ..
    qed
  qed
qed

lemma header_kept:
  assumes "al q" "\<forall>i < 8. m (q + of_nat i) = h_mem h (q + of_nat i)"
  shows "hptr (h\<lparr>h_mem := m\<rparr>) q = hptr h q" "hsize (h\<lparr>h_mem := m\<rparr>) q = hsize h q"
  using assms(2) [rule_format, of 0] assms(2) [rule_format, of 1] assms(2) [rule_format, of 2] assms(2) [rule_format, of 3]
    assms(2) [rule_format, of 4] assms(2) [rule_format, of 5] assms(2) [rule_format, of 6] assms(2) [rule_format, of 7]
  by (simp_all add: hptr_def hsize_def get32_def add.assoc)

text \<open>What the program writes to its block, its header apart, does not disturb the allocator.\<close>

lemma heap_ok_payload:
  assumes c: "carved n g A b h fl" and m: "\<forall>x. unat x \<notin> {unat b + 8..<unat b + 8 * unat n} \<longrightarrow> m x = h_mem h x" and n: "0 < unat n"
  shows "heap_ok (h\<lparr>h_mem := m\<rparr>) fl" "hsize (h\<lparr>h_mem := m\<rparr>) b = n"
proof -
  let ?base = "h_base h"
  have ok: "heap_ok h fl" and b: "al b" "?base < b" "hsize h b = n" "unat b + 8 * unat n \<le> 2 ^ 32 - 8" and dis: "bytes_at (b, n) \<inter> area fl = {}"
    using c by (simp_all add: carved_def)
  have o: "ordered (unat ?base) fl" and base: "al ?base" using ok by (simp_all add: heap_ok_def)
  have key: "hptr (h\<lparr>h_mem := m\<rparr>) q = hptr h q" "hsize (h\<lparr>h_mem := m\<rparr>) q = hsize h q"
    if q: "al q" "unat q + 8 \<le> 2 ^ 32" "unat q \<le> unat b \<or> unat b + 8 * unat n \<le> unat q" for q
  proof -
    have "m (q + of_nat i) = h_mem h (q + of_nat i)" if "i < 8" for i
    proof -
      have "unat (q + of_nat i) = unat q + i" using q(2) that by (intro unat_add_small) simp
      then show ?thesis using m q that by auto
    qed
    then show "hptr (h\<lparr>h_mem := m\<rparr>) q = hptr h q" "hsize (h\<lparr>h_mem := m\<rparr>) q = hsize h q" using header_kept [OF q(1)] by blast+
  qed
  show "hsize (h\<lparr>h_mem := m\<rparr>) b = n" using key(2) [of b] b n by simp
  have hb: "hptr (h\<lparr>h_mem := m\<rparr>) ?base = hptr h ?base" "hsize (h\<lparr>h_mem := m\<rparr>) ?base = hsize h ?base"
    using key [of ?base] base b(2,4) n by (simp_all add: word_less_nat_alt)
  have blk: "hptr (h\<lparr>h_mem := m\<rparr>) (fst x) = hptr h (fst x)" "hsize (h\<lparr>h_mem := m\<rparr>) (fst x) = hsize h (fst x)" if "x \<in> set fl" for x
  proof -
    have x: "al (fst x)" "0 < unat (snd x)" "unat (fst x) + 8 * unat (snd x) \<le> 2 ^ 32 - 8" using ordered_all [OF o that] by simp_all
    have "unat (fst x) \<in> area fl" using that x(2) by (auto simp: area_def bytes_at_def)
    then have "unat (fst x) \<notin> bytes_at (b, n)" using dis by blast
    then have "unat (fst x) \<le> unat b \<or> unat b + 8 * unat n \<le> unat (fst x)" by (auto simp: bytes_at_def)
    then show "hptr (h\<lparr>h_mem := m\<rparr>) (fst x) = hptr h (fst x)" "hsize (h\<lparr>h_mem := m\<rparr>) (fst x) = hsize h (fst x)"
      using key [of "fst x"] x by simp_all
  qed
  have "chain (h\<lparr>h_mem := m\<rparr>) ?base fl ?base = chain h ?base fl ?base" using hb blk by (intro chain_cong) auto
  then show "heap_ok (h\<lparr>h_mem := m\<rparr>) fl" using ok hb by (simp add: heap_ok_def)
qed

lemma free_carved:
  assumes c: "carved n g A b h fl" and m: "\<forall>x. unat x \<notin> {unat b + 8..<unat b + 8 * unat n} \<longrightarrow> m x = h_mem h x" and n: "0 < unat n"
  shows "\<exists>h' fl'. free (b + 8) (h\<lparr>h_mem := m\<rparr>) = Some h' \<and> heap_ok h' fl' \<and> area fl' = A \<and> h_sbrk h' = h_sbrk h
    \<and> (\<forall>x. unat x \<notin> A \<union> {unat (h_base h)..<unat (h_base h) + 8} \<longrightarrow> h_mem h' x = h_mem h x)"
proof -
  let ?h = "h\<lparr>h_mem := m\<rparr>"
  have b: "al b" "h_base ?h < b" "unat b + 8 * unat n \<le> 2 ^ 32 - 8" "bytes_at (b, n) \<inter> area fl = {}" "bytes_at (b, n) \<union> area fl = A"
    using c by (simp_all add: carved_def)
  note ok = heap_ok_payload [OF c m n]
  obtain h' fl' where f: "free (b + 8) ?h = Some h'" "heap_ok h' fl'" "area fl' = area fl \<union> bytes_at (b, n)" "h_sbrk h' = h_sbrk ?h"
      "\<forall>x. unat x \<notin> area fl' \<union> {unat (h_base ?h)..<unat (h_base ?h) + 8} \<longrightarrow> h_mem h' x = h_mem ?h x"
    using free_ok [OF ok(1) b(1,2) n ok(2) b(3,4)] by blast
  have A: "area fl' = A" using f(3) b(5) by auto
  have "h_mem h' x = h_mem h x" if x: "unat x \<notin> A \<union> {unat (h_base h)..<unat (h_base h) + 8}" for x
  proof -
    have "unat x \<notin> bytes_at (b, n)" using x b(5) by auto
    then have "unat x \<notin> {unat b + 8..<unat b + 8 * unat n}" by (auto simp: bytes_at_def)
    then show ?thesis using f(5) m x A by simp
  qed
  then show ?thesis using f A by (intro exI [of _ h'] exI [of _ fl']) simp
qed

definition demo_heap :: heap where
  "demo_heap = \<lparr>h_mem = \<lambda>_. 0, h_base = 0x1000, h_freep = 0, h_sbrk = \<lparr>brk_sz = 0x4000, brk_pages = [True]\<rparr>\<rparr>"

lemma demo_heap_inv: "heap_inv demo_heap []" "core_ok (units_for 100) demo_heap []" "have_pages demo_heap"
  by (simp_all add: heap_inv_def demo_heap_def al_def core_ok_def have_pages_def units_for_def word_less_nat_alt)

section \<open>The allocator's contract\<close>

text \<open>C28. \<open>malloc\<close> returns, on a heap never used or one whose free list is well formed, whether the kernel has pages or not, if a free block
  is large enough or the amount it has to ask for, the units needed but at least 4096, is a positive \<open>int\<close>. It hands out a block that holds \<open>nbytes\<close>
  bytes behind its header, is 8-byte aligned, was free before or comes from the memory by which the process grew, and is off the list now;
  it changes no byte outside the free memory and \<open>base\<close>; and the memory it asked for is on the list. Or it returns 0, exactly when no free
  block is large enough and there are no pages, with the free blocks as they were.\<close>

theorem malloc_returns:
  assumes "heap_inv h fl" "unat nbytes \<le> 2 ^ 32 - 8" "core_ok (units_for nbytes) h fl"
  shows "(\<exists>b h' fl' A. malloc nbytes h = Some (b + 8, h') \<and> unat (b + 8) + unat nbytes \<le> unat b + 8 * unat (units_for nbytes)
        \<and> carved (units_for nbytes) (h\<lparr>h_sbrk := h_sbrk h'\<rparr>) A b h' fl'
        \<and> (A = area fl \<and> h_sbrk h' = h_sbrk h \<or> grown (units_for nbytes) h h' \<and> A = area fl \<union> {unat (brk_sz (h_sbrk h))..<unat (brk_sz (h_sbrk h'))}))
    \<or> (\<exists>h'. malloc nbytes h = Some (0, h') \<and> heap_ok h' fl \<and> (\<forall>x \<in> set fl. snd x < units_for nbytes) \<and> \<not> have_pages h \<and> brk_sz (h_sbrk h') = brk_sz (h_sbrk h))"
proof -
  have "unat (b + 8) + unat nbytes \<le> unat b + 8 * unat (units_for nbytes)" if "carved (units_for nbytes) g A b h' fl'" for g A b h' fl'
    using that units_for_bytes [OF assms(2)] unat_add_small [of b 8] by (simp add: carved_def)
  then show ?thesis using malloc_cases [OF assms] by blast
qed

theorem malloc_returns_witness:
  "\<exists>b h' fl'. malloc 100 demo_heap = Some (b + 8, h') \<and> brk_sz (h_sbrk h') = 49152
    \<and> carved 14 (demo_heap\<lparr>h_sbrk := h_sbrk h'\<rparr>) {16384..<49152} b h' fl'"
proof -
  have u: "units_for 100 = 14" by (simp add: units_for_def)
  have "unat x = 49152 \<Longrightarrow> x = 49152" for x :: uint32 by (simp add: word_unat_eq_iff)
  then have g: "brk_sz (h_sbrk h') = 49152" "unat (brk_sz (h_sbrk demo_heap)) = 16384" if "grown 14 demo_heap h'" for h'
    using that by (auto simp: grown_def demo_heap_def)
  have "\<not> carved 14 g {} b h' fl'" for g b h' fl' by (auto simp: carved_def bytes_at_def)
  then show ?thesis
    using malloc_returns [OF demo_heap_inv(1) _ demo_heap_inv(2)] demo_heap_inv(3) unfolding u
    by (auto simp: g)
qed

text \<open>C29. A block goes back where it came from: whatever the program writes to the \<open>nbytes\<close> bytes that
  \<open>malloc\<close> gave it, \<open>free\<close> returns, leaves a well-formed free list again, and the free memory is what it was before the
  \<open>malloc\<close>, with the memory by which the process grew in between.\<close>

theorem malloc_free:
  assumes "heap_inv h fl" "unat nbytes \<le> 2 ^ 32 - 8" "core_ok (units_for nbytes) h fl"
    and p: "malloc nbytes h = Some (p, h')" "p \<noteq> 0"
    and m: "\<forall>x. unat x \<notin> {unat p..<unat p + unat nbytes} \<longrightarrow> m x = h_mem h' x"
  shows "\<exists>h'' fl''. free p (h'\<lparr>h_mem := m\<rparr>) = Some h'' \<and> heap_ok h'' fl''
    \<and> area fl'' = area fl \<union> {unat (brk_sz (h_sbrk h))..<unat (brk_sz (h_sbrk h'))} \<and> h_sbrk h'' = h_sbrk h'
    \<and> (\<forall>x. unat x \<notin> area fl'' \<union> {unat (h_base h)..<unat (h_base h) + 8} \<longrightarrow> h_mem h'' x = h_mem h x)"
proof -
  obtain b fl' A where b: "p = b + 8" and c: "carved (units_for nbytes) (h\<lparr>h_sbrk := h_sbrk h'\<rparr>) A b h' fl'"
    and A: "A = area fl \<and> h_sbrk h' = h_sbrk h \<or> grown (units_for nbytes) h h' \<and> A = area fl \<union> {unat (brk_sz (h_sbrk h))..<unat (brk_sz (h_sbrk h'))}"
    using malloc_cases [OF assms(1-3)] p by auto
  note u = units_for_bytes [OF assms(2)]
  have "unat p = unat b + 8" using c u(2) unat_add_small [of b 8] b by (simp add: carved_def)
  then have "\<forall>x. unat x \<notin> {unat b + 8..<unat b + 8 * unat (units_for nbytes)} \<longrightarrow> m x = h_mem h' x" using m u(1) by auto
  from free_carved [OF c this u(2)] obtain h'' fl'' where f: "free p (h'\<lparr>h_mem := m\<rparr>) = Some h''" "heap_ok h'' fl''" "area fl'' = A"
      "h_sbrk h'' = h_sbrk h'" "\<forall>x. unat x \<notin> A \<union> {unat (h_base h')..<unat (h_base h') + 8} \<longrightarrow> h_mem h'' x = h_mem h' x"
    unfolding b by blast
  have "area fl'' = area fl \<union> {unat (brk_sz (h_sbrk h))..<unat (brk_sz (h_sbrk h'))}"
    using A unfolding f(3) by (elim disjE) simp_all
  moreover have "h_mem h'' x = h_mem h x" if "unat x \<notin> area fl'' \<union> {unat (h_base h)..<unat (h_base h) + 8}" for x
    using that f(3,5) c by (simp add: carved_def)
  ultimately show ?thesis using f(1,2,4) by blast
qed

theorem malloc_free_witness:
  "\<exists>p h' h'' fl''. malloc 100 demo_heap = Some (p, h') \<and> p \<noteq> 0 \<and> free p h' = Some h'' \<and> heap_ok h'' fl''"
proof -
  obtain b h' g A fl' where b: "malloc 100 demo_heap = Some (b + 8, h')" "carved (units_for 100) g A b h' fl'"
    using malloc_cases [OF demo_heap_inv(1) _ demo_heap_inv(2)] demo_heap_inv(3) by auto
  have "unat (b + 8) = unat b + 8" using b(2) unat_add_small [of b 8] units_for_bytes(2) [of 100] by (simp add: carved_def)
  then have "b + 8 \<noteq> 0" by (intro notI) simp
  then show ?thesis using malloc_free [OF demo_heap_inv(1) _ demo_heap_inv(2) b(1), of "h_mem h'"] b(1) by auto
qed

section \<open>Requests \<open>sbrk\<close> cannot express\<close>

text \<open>From 2^31 bytes on, the amount \<open>morecore\<close> passes is a negative \<open>int\<close>: instead of growing, the process shrinks, or stays as it is when it is
  smaller than the amount; \<open>sbrk\<close> reports success, and \<open>morecore\<close> goes on to write a header at the end of the process.\<close>

lemma sbrk_negative:
  assumes "2 ^ 31 \<le> 8 * unat nu" "8 * unat nu < 2 ^ 32"
  shows "fst (sbrk (nu * 8) h) = brk_sz (h_sbrk h)" "brk_sz (h_sbrk (snd (sbrk (nu * 8) h))) \<le> brk_sz (h_sbrk h)"
proof -
  have "unat (nu * 8) = 8 * unat nu" using assms(2) by (simp add: unat_word_ariths)
  then have "sint (nu * 8) < 0"
    using assms sint_neg [of "nu * 8"] by simp
  then show "fst (sbrk (nu * 8) h) = brk_sz (h_sbrk h)" "brk_sz (h_sbrk (snd (sbrk (nu * 8) h))) \<le> brk_sz (h_sbrk h)"
    by (auto simp: sbrk_def Let_def not_le)
qed

end
