(* ===== verification/Usys.thy ===== *)
theory Usys
  imports Kstring Printf
begin

text \<open>
  User programs as seen from the system-call interface. A program is an outcome over \<open>ustate\<close>: where kernel code
  gives up the CPU (\<open>Swtch\<close>), a user program traps into the kernel, with the call in \<open>u_call\<close>; it goes on
  when the kernel has put the result in \<open>u_ret\<close> and, for a call that fills a buffer, the bytes it stored
  in \<open>u_in\<close>. After \<open>fork\<close> both processes go on with the same continuation and different results.
  \<open>exit\<close> does not come back.

  A trace of a program is the calls it makes and the answers it gets, up to its return or exit; the
  theorems about programs quantify over all traces, that is, over everything a kernel might answer.
  Strings are lists of bytes without their NUL.
\<close>

datatype ucall =
    SysFork | SysExit int | SysWait | SysPipe | SysRead int int | SysKill int
  | SysExec "byte list" "byte list list" | SysFstat int | SysChdir "byte list" | SysDup int | SysGetpid
  | SysSbrk int | SysSleep int | SysUptime | SysOpen "byte list" uint32 | SysWrite int "byte list"
  | SysMknod "byte list" uint16 uint16 | SysUnlink "byte list" | SysLink "byte list" "byte list"
  | SysMkdir "byte list" | SysClose int

record ustate =
  u_call :: ucall
  u_ret :: int
  u_in :: "byte list"

type_synonym 'a ures = "(ustate, 'a) res"

definition usys :: "ucall \<Rightarrow> ustate \<Rightarrow> int ures" where
  "usys c s = Swtch (s\<lparr>u_call := c\<rparr>) (\<lambda>s. Ok (u_ret s) s)"

definition uexit :: "int \<Rightarrow> ustate \<Rightarrow> 'a ures" where
  "uexit n s = Swtch (s\<lparr>u_call := SysExit n\<rparr>) (\<lambda>_. Spin)"

text \<open>A call whose result is ignored.\<close>

definition udo :: "ucall \<Rightarrow> ustate \<Rightarrow> unit ures" where
  "udo c s = andthen (usys c s) (\<lambda>_ s. Ok () s)"

section \<open>Traces\<close>

datatype 'a uend = Returned 'a | Exited int

type_synonym uevent = "ucall \<times> int \<times> byte list"

inductive utrace :: "'a ures \<Rightarrow> uevent list \<Rightarrow> 'a uend \<Rightarrow> bool" where
  ut_Ok: "utrace (Ok a s) [] (Returned a)"
| ut_exit: "u_call s = SysExit n \<Longrightarrow> utrace (Swtch s k) [] (Exited n)"
| ut_call: "(\<And>n. u_call s \<noteq> SysExit n) \<Longrightarrow> utrace (k (s\<lparr>u_ret := r, u_in := d\<rparr>)) es e \<Longrightarrow>
    utrace (Swtch s k) ((u_call s, r, d) # es) e"

inductive_simps utrace_Ok [simp]: "utrace (Ok a s) es e"
inductive_simps utrace_Panic [simp]: "utrace (Panic m) es e"
inductive_simps utrace_Spin [simp]: "utrace Spin es e"
inductive_simps utrace_Swtch: "utrace (Swtch s k) es e"

lemma utrace_uexit [simp]: "utrace (uexit n s) es e \<longleftrightarrow> es = [] \<and> e = Exited n"
  by (auto simp: uexit_def utrace_Swtch)

lemma utrace_andthen_usys:
  assumes "\<And>n. c \<noteq> SysExit n"
  shows "utrace (andthen (usys c s) f) es e \<longleftrightarrow>
    (\<exists>r d es'. es = (c, r, d) # es' \<and> utrace (f r (s\<lparr>u_call := c, u_ret := r, u_in := d\<rparr>)) es' e)"
  using assms by (auto simp: usys_def utrace_Swtch)

text \<open>A sequence of two programs: the first returns and the second goes on, or the first exits.\<close>

lemma utrace_andthen:
  "utrace r es e \<Longrightarrow> r = andthen p f \<Longrightarrow>
   (\<exists>es1 es2 a s. es = es1 @ es2 \<and> utrace p es1 (Returned a) \<and> utrace (f a s) es2 e) \<or> (\<exists>n. e = Exited n \<and> utrace p es (Exited n))"
proof (induction arbitrary: p rule: utrace.induct)
  case (ut_Ok a s)
  then obtain b u where p: "p = Ok b u" "f b u = Ok a s" by (cases p) auto
  then have "utrace p [] (Returned b)" "utrace (f b u) [] (Returned a)" by simp_all
  then show ?case by (metis append_Nil)
next
  case (ut_exit s n k)
  show ?case
  proof (cases p)
    case (Ok a x)
    then have "utrace p [] (Returned a)" "utrace (f a x) [] (Exited n)"
      using ut_exit utrace.ut_exit [OF ut_exit.hyps, of k] by simp_all
    then show ?thesis by (metis append_Nil)
  next
    case (Swtch s' k')
    then have "utrace p [] (Exited n)" using ut_exit by (auto intro: utrace.ut_exit)
    then show ?thesis by simp
  qed (use ut_exit in auto)
next
  case (ut_call s k d r es e)
  show ?case
  proof (cases p)
    case (Ok a x)
    then have "utrace p [] (Returned a)" "utrace (f a x) ((u_call s, r, d) # es) e"
      using ut_call.prems utrace.ut_call [where k = k and s = s, OF ut_call.hyps] by simp_all
    then show ?thesis by (metis append_Nil)
  next
    case (Swtch s' k')
    let ?s = "s\<lparr>u_ret := r, u_in := d\<rparr>"
    have s: "s' = s" and k: "k = (\<lambda>x. andthen (k' x) f)" using ut_call.prems Swtch by auto
    have c: "utrace p ((u_call s, r, d) # es1) x" if "utrace (k' ?s) es1 x" for es1 x
      unfolding Swtch s using ut_call.hyps(1) that by (rule utrace.ut_call)
    from ut_call.IH [of "k' ?s"] k show ?thesis using c by (metis append_Cons)
  qed (use ut_call.prems in auto)
qed

text \<open>A loop whose body does not go round without a system call: its traces are those of its rounds, one after the
  other.\<close>

inductive uloop :: "('l \<Rightarrow> ustate \<Rightarrow> ('l + 'a) ures) \<Rightarrow> 'l \<Rightarrow> uevent list \<Rightarrow> 'a uend \<Rightarrow> bool" where
  ul_done: "utrace (f l s) es (Returned (Inr a)) \<Longrightarrow> uloop f l es (Returned a)"
| ul_exit: "utrace (f l s) es (Exited n) \<Longrightarrow> uloop f l es (Exited n)"
| ul_step: "utrace (f l s) es (Returned (Inl l')) \<Longrightarrow> uloop f l' es' e \<Longrightarrow> uloop f l (es @ es') e"

primrec uloop_from :: "('l \<Rightarrow> ustate \<Rightarrow> ('l + 'a) ures) \<Rightarrow> 'l + 'a \<Rightarrow> uevent list \<Rightarrow> 'a uend \<Rightarrow> bool" where
  "uloop_from f (Inl l) es e = uloop f l es e"
| "uloop_from f (Inr a) es e = (es = [] \<and> e = Returned a)"

lemma uloop_body:
  "(\<exists>es1 es2 v. es = es1 @ es2 \<and> utrace (f l s) es1 (Returned v) \<and> uloop_from f v es2 e) \<or> (\<exists>n. e = Exited n \<and> utrace (f l s) es (Exited n)) \<Longrightarrow>
   uloop f l es e"
proof (elim disjE exE conjE)
  fix es1 es2 v
  assume "es = es1 @ es2" "utrace (f l s) es1 (Returned v)" "uloop_from f v es2 e"
  then show "uloop f l es e" by (cases v) (auto intro: ul_done ul_step)
qed (auto intro: ul_exit)

lemma utrace_wloop:
  assumes first: "\<And>l s l' s'. f l s \<noteq> Ok (Inl l') s'"
  shows "utrace x es e \<Longrightarrow> x = wloop m f r \<Longrightarrow>
    (\<exists>es1 es2 v. es = es1 @ es2 \<and> utrace r es1 (Returned v) \<and> uloop_from f v es2 e) \<or> (\<exists>n. e = Exited n \<and> utrace r es (Exited n))"
    (is "_ \<Longrightarrow> _ \<Longrightarrow> ?Q r es e")
proof (induction arbitrary: r rule: utrace.induct)
  note unroll = wloop_unroll [where m = m and f = f, OF FalseE, OF notE, OF first]
  have up: "?Q r es e" if A: "\<And>r'. x = wloop m f r' \<Longrightarrow> (\<And>l s. r' \<noteq> Ok (Inl l) s) \<Longrightarrow> ?Q r' es e" and x: "x = wloop m f r" for x es e r
  proof (cases "\<exists>l s. r = Ok (Inl l) s")
    case True
    then obtain l s where r: "r = Ok (Inl l) s" by blast
    have "?Q (f l s) es e" using A [of "f l s"] x first unroll by (simp add: r)
    then have "uloop f l es e" by (rule uloop_body)
    then show ?thesis by (intro disjI1 exI [of _ "[]"] exI [of _ es] exI [of _ "Inl l"]) (simp add: r)
  qed (use A x in blast)
  {
    case (ut_Ok a s)
    show ?case
    proof (rule up [OF _ ut_Ok])
      fix r' assume r': "Ok a s = wloop m f r'" "\<And>l s. r' \<noteq> Ok (Inl l) s"
      then obtain b u where "r' = Ok (Inr b) u" "a = b" by (cases r' rule: res.exhaust) (auto, metis sum.exhaust wloop_simps(1) res.inject(1))
      then show "?Q r' [] (Returned a)" by simp
    qed
  next
    case (ut_exit s n k)
    show ?case
    proof (rule up [OF _ ut_exit.prems])
      fix r' assume r': "Swtch s k = wloop m f r'" "\<And>l s. r' \<noteq> Ok (Inl l) s"
      then obtain k' where "r' = Swtch s k'" by (cases r' rule: res.exhaust) (auto, metis sum.exhaust wloop_simps(1) res.distinct(5))
      then show "?Q r' [] (Exited n)" using ut_exit.hyps by (auto intro: utrace.ut_exit)
    qed
  next
    case (ut_call s k d r es e q)
    show ?case
    proof (rule up [OF _ ut_call.prems])
      fix r' assume r': "Swtch s k = wloop m f r'" "\<And>l s. r' \<noteq> Ok (Inl l) s"
      then obtain k' where k: "r' = Swtch s k'" "k = (\<lambda>x. wloop m f (k' x))"
        by (cases r' rule: res.exhaust) (auto, metis sum.exhaust wloop_simps(1) res.distinct(5))
      let ?s = "s\<lparr>u_ret := r, u_in := d\<rparr>"
      have c: "utrace r' ((u_call s, r, d) # es1) x" if "utrace (k' ?s) es1 x" for es1 x
        unfolding k using ut_call.hyps(1) that by (rule utrace.ut_call)
      from ut_call.IH [of "k' ?s"] k(2) show "?Q r' ((u_call s, r, d) # es) e" using c by (metis append_Cons)
    qed
  }
qed

lemma utrace_loop:
  assumes "\<And>l s l' s'. f l s \<noteq> Ok (Inl l') s'" "utrace (wloop m f (Ok (Inl l) s)) es e"
  shows "uloop f l es e"
  using utrace_wloop [OF assms(1,2) refl] by auto

end
