(* ===== verification/Ulib.thy ===== *)
theory Ulib
  imports Usys
begin

text \<open>
  The user library: \<open>user/ulib.c\<close> and \<open>user/printf.c\<close>. As in the kernel's \<open>string.c\<close>, a pointer that is only read
  through is the byte sequence that starts at it; a loop that ends only at a NUL need not end, and is
  \<open>None\<close> then. \<open>memmove\<close> works on addresses. Output goes to a file descriptor one \<open>write\<close> of one byte at a
  time.
\<close>

section \<open>Strings and memory\<close>

partial_function (option) strcpy_from :: "bytes \<Rightarrow> bytes \<Rightarrow> nat \<Rightarrow> bytes option" where
  [code]: "strcpy_from s t i = (let s = s(i := t i) in if t i \<noteq> 0 then strcpy_from s t (Suc i) else Some s)"

definition strcpy :: "bytes \<Rightarrow> bytes \<Rightarrow> bytes option" where
  "strcpy s t = strcpy_from s t 0"

partial_function (option) strcmp_from :: "bytes \<Rightarrow> bytes \<Rightarrow> nat \<Rightarrow> int option" where
  [code]: "strcmp_from p q i = (if p i \<noteq> 0 \<and> p i = q i then strcmp_from p q (Suc i) else Some (uint (p i) - uint (q i)))"

definition strcmp :: "bytes \<Rightarrow> bytes \<Rightarrow> int option" where
  "strcmp p q = strcmp_from p q 0"

partial_function (option) strlen_u_from :: "bytes \<Rightarrow> nat \<Rightarrow> nat option" where
  [code]: "strlen_u_from s n = (if s n \<noteq> 0 then strlen_u_from s (Suc n) else Some n)"

definition strlen_u :: "bytes \<Rightarrow> nat option" where
  "strlen_u s = strlen_u_from s 0"

definition memset_u :: "bytes \<Rightarrow> int \<Rightarrow> nat \<Rightarrow> bytes" where
  "memset_u cdst c n = fold (\<lambda>i d. d(i := word_of_int c)) [0..<n] cdst"

text \<open>The position of the character, or \<open>Some None\<close> for the null pointer.\<close>

partial_function (option) strchr_from :: "bytes \<Rightarrow> byte \<Rightarrow> nat \<Rightarrow> nat option option" where
  [code]: "strchr_from s c i =
     (if s i = 0 then Some None else if s i = c then Some (Some i) else strchr_from s c (Suc i))"

definition strchr :: "bytes \<Rightarrow> byte \<Rightarrow> nat option option" where
  "strchr s c = strchr_from s c 0"

text \<open>The result is the 32 bits of the \<open>int\<close>; the sum wraps as the machine's does.\<close>

partial_function (option) atoi_from :: "bytes \<Rightarrow> nat \<Rightarrow> uint32 \<Rightarrow> uint32 option" where
  [code]: "atoi_from s i n = (if 0x30 \<le> s i \<and> s i \<le> 0x39 then atoi_from s (Suc i) (n * 10 + ucast (s i) - 0x30) else Some n)"

definition atoi :: "bytes \<Rightarrow> uint32 option" where
  "atoi s = atoi_from s 0 0"

definition memmove_u :: "(uint32 \<Rightarrow> byte) \<Rightarrow> uint32 \<Rightarrow> uint32 \<Rightarrow> int \<Rightarrow> uint32 \<Rightarrow> byte" where
  "memmove_u m dst src n =
     (if src > dst then move_up (nat n) dst src m
      else move_down (nat n) (dst + word_of_int n) (src + word_of_int n) m)"

primrec memcmp_u :: "bytes \<Rightarrow> bytes \<Rightarrow> nat \<Rightarrow> int" where
  "memcmp_u s1 s2 0 = 0"
| "memcmp_u s1 s2 (Suc n) =
     (if s1 0 \<noteq> s2 0 then uint (s1 0) - uint (s2 0)
      else memcmp_u (\<lambda>i. s1 (Suc i)) (\<lambda>i. s2 (Suc i)) n)"

definition memcpy_u :: "(uint32 \<Rightarrow> byte) \<Rightarrow> uint32 \<Rightarrow> uint32 \<Rightarrow> uint32 \<Rightarrow> uint32 \<Rightarrow> byte" where
  "memcpy_u m dst src n = memmove_u m dst src (sint n)"

text \<open>The loop variable of \<open>gets\<close> is what has been read so far.\<close>

definition gets_body :: "int \<Rightarrow> byte list \<Rightarrow> ustate \<Rightarrow> (byte list + byte list) ures" where
  "gets_body mx buf s =
     (if int (length buf) + 1 < mx then
        andthen (usys (SysRead 0 1) s) (\<lambda>cc s.
        if cc < 1 then Ok (Inr buf) s
        else
          let c = hd (u_in s); buf = buf @ [c]
          in if c = 10 \<or> c = 13 then Ok (Inr buf) s else Ok (Inl buf) s)
      else Ok (Inr buf) s)"

definition gets :: "int \<Rightarrow> ustate \<Rightarrow> byte list ures" where
  "gets mx s = wloop (\<lambda>_. 0) (gets_body mx) (Ok (Inl []) s)"

definition ustat :: "byte list \<Rightarrow> ustate \<Rightarrow> (int \<times> byte list) ures" where
  "ustat n s =
     andthen (usys (SysOpen n O_RDONLY) s) (\<lambda>fd s.
     if fd < 0 then Ok (-1, []) s
     else
       andthen (usys (SysFstat fd) s) (\<lambda>r s.
       let st = u_in s in
       andthen (usys (SysClose fd) s) (\<lambda>_ s. Ok (r, st) s)))"

section \<open>printf\<close>

definition uputc :: "int \<Rightarrow> byte \<Rightarrow> ustate \<Rightarrow> unit ures" where
  "uputc fd c s = andthen (usys (SysWrite fd [c]) s) (\<lambda>_ s. Ok () s)"

definition udigit :: "nat \<Rightarrow> byte" where
  "udigit d = of_char (''0123456789ABCDEF'' ! d)"

text \<open>The digits, least significant first; the count is fuel for the loop, which divides a 32-bit number down to zero
  in at most 32 rounds.\<close>

primrec printint_u_digits :: "nat \<Rightarrow> nat \<Rightarrow> nat \<Rightarrow> byte list" where
  "printint_u_digits 0 base x = []"
| "printint_u_digits (Suc n) base x =
     udigit (x mod base) # (if x div base \<noteq> 0 then printint_u_digits n base (x div base) else [])"

definition printint_u :: "uint32 \<Rightarrow> nat \<Rightarrow> bool \<Rightarrow> byte list" where
  "printint_u xx base sg =
     (let neg = (sg \<and> sint xx < 0);
          x = (if neg then - xx else xx)
      in (if neg then [0x2d] else []) @ rev (printint_u_digits 32 base (unat x)))"

definition printptr_u :: "uint32 \<Rightarrow> byte list" where
  "printptr_u x = bstr ''0x'' @ map (\<lambda>i. udigit (unat (drop_bit 28 (push_bit (4 * i) x)))) [0..<8]"

text \<open>What \<open>vprintf\<close> writes; the flag is the variable \<open>state\<close>.\<close>

primrec vprintf_chars :: "byte list \<Rightarrow> bool \<Rightarrow> parg list \<Rightarrow> byte list" where
  "vprintf_chars [] percent ap = []"
| "vprintf_chars (c # cs) percent ap =
     (if \<not> percent then
        (if c = 0x25 then vprintf_chars cs True ap else c # vprintf_chars cs False ap)
      else if c = 0x64 then printint_u (arg_word ap) 10 True @ vprintf_chars cs False (tl ap)
      else if c = 0x6c then printint_u (arg_word ap) 10 False @ vprintf_chars cs False (tl ap)
      else if c = 0x78 then printint_u (arg_word ap) 16 False @ vprintf_chars cs False (tl ap)
      else if c = 0x70 then printptr_u (arg_word ap) @ vprintf_chars cs False (tl ap)
      else if c = 0x73 then (case arg_str ap of None \<Rightarrow> bstr ''(null)'' | Some x \<Rightarrow> x) @ vprintf_chars cs False (tl ap)
      else if c = 0x63 then ucast (arg_word ap) # vprintf_chars cs False (tl ap)
      else if c = 0x25 then c # vprintf_chars cs False ap
      else 0x25 # c # vprintf_chars cs False ap)"

definition fprintf :: "int \<Rightarrow> string \<Rightarrow> parg list \<Rightarrow> ustate \<Rightarrow> unit ures" where
  "fprintf fd fmt ap s =
     andthen (for_each (vprintf_chars (bstr fmt) False ap) (\<lambda>c s. andthen (uputc fd c s) (\<lambda>_ s. Ok (None :: unit option) s)) s) (\<lambda>_ s.
     Ok () s)"

definition uprintf :: "string \<Rightarrow> parg list \<Rightarrow> ustate \<Rightarrow> unit ures" where
  "uprintf fmt ap = fprintf 1 fmt ap"

section \<open>What the string routines compute\<close>

text \<open>A list as a NUL-terminated string in memory.\<close>

definition bstream :: "byte list \<Rightarrow> bytes" where
  "bstream xs i = (if i < length xs then xs ! i else 0)"

lemma strcpy_from_eq:
  assumes "t k = 0" and "\<And>i. i < k \<Longrightarrow> t i \<noteq> 0" and "i \<le> k"
  shows "strcpy_from s t i = Some (\<lambda>j. if i \<le> j \<and> j \<le> k then t j else s j)"
  using assms(3)
proof (induction "k - i" arbitrary: i s)
  case 0
  then show ?case using assms(1) by (subst strcpy_from.simps) (auto simp: fun_eq_iff)
next
  case (Suc n)
  then have i: "t i \<noteq> 0" "Suc i \<le> k" "n = k - Suc i" using assms(2) by auto
  have "strcpy_from (s(i := t i)) t (Suc i) = Some (\<lambda>j. if Suc i \<le> j \<and> j \<le> k then t j else (s(i := t i)) j)"
    using Suc.hyps(1) [OF i(3,2)] .
  also have "\<dots> = Some (\<lambda>j. if i \<le> j \<and> j \<le> k then t j else s j)" using Suc.prems by (auto simp: fun_eq_iff)
  finally show ?case using i by (subst strcpy_from.simps) (simp add: Let_def)
qed

lemma strcpy_eq:
  "t k = 0 \<Longrightarrow> (\<And>i. i < k \<Longrightarrow> t i \<noteq> 0) \<Longrightarrow> strcpy s t = Some (\<lambda>j. if j \<le> k then t j else s j)"
  using strcpy_from_eq [of t k 0 s] by (simp add: strcpy_def)

lemma strlen_u_eq: "s k = 0 \<Longrightarrow> (\<And>i. i < k \<Longrightarrow> s i \<noteq> 0) \<Longrightarrow> strlen_u s = Some k"
proof -
  assume k: "s k = 0" "\<And>i. i < k \<Longrightarrow> s i \<noteq> 0"
  have "strlen_u_from s i = Some k" if "i \<le> k" for i
    using that
  proof (induction "k - i" arbitrary: i)
    case (Suc n)
    then have "strlen_u_from s (Suc i) = Some k" by (intro Suc.hyps(1)) auto
    then show ?case using Suc k by (subst strlen_u_from.simps) simp
  qed (use k in \<open>subst strlen_u_from.simps, simp\<close>)
  then show ?thesis by (simp add: strlen_u_def)
qed

text \<open>\<open>strchr\<close> finds the first occurrence, if there is one before the NUL.\<close>

lemma strchr_from_eq:
  assumes "s k = 0" "\<And>i. i < k \<Longrightarrow> s i \<noteq> 0" "i \<le> k" "c \<noteq> 0"
  shows "strchr_from s c i = Some (find (\<lambda>j. s j = c) [i..<k])"
  using assms(3)
proof (induction "k - i" arbitrary: i)
  case (Suc n)
  then have "strchr_from s c (Suc i) = Some (find (\<lambda>j. s j = c) [Suc i..<k])" by (intro Suc.hyps(1)) auto
  moreover have "[i..<k] = i # [Suc i..<k]" "s i \<noteq> 0" using Suc assms(2) by (auto simp: upt_conv_Cons)
  ultimately show ?case by (subst strchr_from.simps) simp
qed (use assms in \<open>subst strchr_from.simps, simp\<close>)

text \<open>\<open>strcmp\<close> returns zero exactly for equal strings.\<close>

lemma strcmp_from_eq:
  assumes "p k = 0" "i \<le> k"
  shows "\<exists>r. strcmp_from p q i = Some r \<and> (r = 0 \<longleftrightarrow> (\<forall>j. i \<le> j \<and> j \<le> k \<and> (\<forall>l. i \<le> l \<and> l < j \<longrightarrow> p l \<noteq> 0) \<longrightarrow> p j = q j))"
  using assms(2)
proof (induction "k - i" arbitrary: i)
  case 0
  then have "i = k" by simp
  then show ?case using assms by (subst strcmp_from.simps) (auto simp: word_uint_eq_iff)
next
  case (Suc n)
  show ?case
  proof (cases "p i \<noteq> 0 \<and> p i = q i")
    case True
    have i: "n = k - Suc i" "Suc i \<le> k" using Suc.hyps(2) by auto
    obtain r where r: "strcmp_from p q (Suc i) = Some r"
      "r = 0 \<longleftrightarrow> (\<forall>j. Suc i \<le> j \<and> j \<le> k \<and> (\<forall>l. Suc i \<le> l \<and> l < j \<longrightarrow> p l \<noteq> 0) \<longrightarrow> p j = q j)"
      using Suc.hyps(1) [OF i] by blast
    have "(\<forall>j. Suc i \<le> j \<and> j \<le> k \<and> (\<forall>l. Suc i \<le> l \<and> l < j \<longrightarrow> p l \<noteq> 0) \<longrightarrow> p j = q j)
        \<longleftrightarrow> (\<forall>j. i \<le> j \<and> j \<le> k \<and> (\<forall>l. i \<le> l \<and> l < j \<longrightarrow> p l \<noteq> 0) \<longrightarrow> p j = q j)"
      (is "?L \<longleftrightarrow> ?R")
    proof
      show ?R if ?L
      proof (intro allI impI)
        fix j assume j: "i \<le> j \<and> j \<le> k \<and> (\<forall>l. i \<le> l \<and> l < j \<longrightarrow> p l \<noteq> 0)"
        show "p j = q j" using that j True by (cases "i = j") auto
      qed
      show ?L if ?R
      proof (intro allI impI)
        fix j assume j: "Suc i \<le> j \<and> j \<le> k \<and> (\<forall>l. Suc i \<le> l \<and> l < j \<longrightarrow> p l \<noteq> 0)"
        then have "p l \<noteq> 0" if "i \<le> l" "l < j" for l using that True by (cases "l = i") auto
        then show "p j = q j" using that j by auto
      qed
    qed
    moreover have "strcmp_from p q i = strcmp_from p q (Suc i)" using True by (subst strcmp_from.simps) auto
    ultimately show ?thesis using r by simp
  next
    case False
    then have "strcmp_from p q i = Some (uint (p i) - uint (q i))" by (subst strcmp_from.simps) auto
    moreover have "uint (p i) - uint (q i) = 0 \<longleftrightarrow> p i = q i" by (simp add: word_uint_eq_iff)
    moreover have "(\<forall>j. i \<le> j \<and> j \<le> k \<and> (\<forall>l. i \<le> l \<and> l < j \<longrightarrow> p l \<noteq> 0) \<longrightarrow> p j = q j) \<longleftrightarrow> p i = q i" (is "?R \<longleftrightarrow> _")
    proof
      have none: "\<forall>l. i \<le> l \<and> l < i \<longrightarrow> p l \<noteq> 0" by auto
      show "p i = q i" if ?R using that none Suc.prems by blast
      show ?R if "p i = q i"
      proof (intro allI impI)
        fix j assume j: "i \<le> j \<and> j \<le> k \<and> (\<forall>l. i \<le> l \<and> l < j \<longrightarrow> p l \<noteq> 0)"
        have "p i = 0" using that False by blast
        then have "j = i" using j by (metis le_neq_implies_less order_refl)
        then show "p j = q j" using that by simp
      qed
    qed
    ultimately show ?thesis by simp
  qed
qed

section \<open>Numbers out and in\<close>

definition is_digit :: "byte \<Rightarrow> bool" where
  "is_digit c \<longleftrightarrow> 0x30 \<le> c \<and> c \<le> 0x39"

definition dec_val :: "uint32 \<Rightarrow> byte list \<Rightarrow> uint32" where
  "dec_val n cs = foldl (\<lambda>n c. n * 10 + ucast c - 0x30) n cs"

lemma atoi_from_eq:
  assumes "i \<le> length cs" "\<forall>c \<in> set cs. is_digit c" "\<not> is_digit (s (length cs))" "\<And>j. j < length cs \<Longrightarrow> s j = cs ! j"
  shows "atoi_from s i n = Some (dec_val n (drop i cs))"
  using assms(1)
proof (induction "length cs - i" arbitrary: i n)
  case 0
  then have "i = length cs" by simp
  then show ?case using assms(3) by (subst atoi_from.simps) (auto simp: is_digit_def dec_val_def)
next
  case (Suc k)
  then have i: "i < length cs" by simp
  have "s i = cs ! i" "is_digit (s i)" using assms(2,4) i by auto
  moreover have "atoi_from s (Suc i) m = Some (dec_val m (drop (Suc i) cs))" for m using Suc.hyps(1) [of "Suc i" m] Suc.hyps(2) i by simp
  moreover have "drop i cs = cs ! i # drop (Suc i) cs" using i by (simp add: Cons_nth_drop_Suc)
  ultimately show ?case by (subst atoi_from.simps) (simp add: is_digit_def dec_val_def)
qed

lemma udigit_dec: "d < 10 \<Longrightarrow> is_digit (udigit d) \<and> ucast (udigit d) = (of_nat d + 0x30 :: uint32)"
proof -
  have "\<forall>d \<in> set [0..<10]. is_digit (udigit d) \<and> ucast (udigit d) = (of_nat d + 0x30 :: uint32)" by code_simp
  then show "d < 10 \<Longrightarrow> ?thesis" by simp
qed

lemma printint_u_digits_dec:
  "x < 10 ^ n \<Longrightarrow> (\<forall>c \<in> set (printint_u_digits n 10 x). is_digit c) \<and> dec_val 0 (rev (printint_u_digits n 10 x)) = of_nat x"
proof (induction n arbitrary: x)
  case (Suc n)
  have "x div 10 < 10 ^ n" using Suc.prems by (simp add: less_mult_imp_div_less)
  note IH = Suc.IH [OF this]
  have d: "is_digit (udigit (x mod 10))" "ucast (udigit (x mod 10)) = (of_nat (x mod 10) + 0x30 :: uint32)" using udigit_dec [of "x mod 10"] by simp_all
  have "(of_nat x :: uint32) = of_nat (x div 10) * 10 + of_nat (x mod 10)" by (metis div_mult_mod_eq of_nat_add of_nat_mult of_nat_numeral)
  then show ?case using IH d by (auto simp: dec_val_def)
qed (simp add: dec_val_def)

section \<open>Output\<close>

text \<open>The bytes a trace writes to a descriptor.\<close>

definition written :: "int \<Rightarrow> uevent list \<Rightarrow> byte list" where
  "written fd es = concat (map (\<lambda>(c, r, d). case c of SysWrite fd' bs \<Rightarrow> if fd' = fd then bs else [] | _ \<Rightarrow> []) es)"

lemma written_simps [simp]:
  "written fd [] = []" "written fd (es @ es') = written fd es @ written fd es'"
  "written fd ((c, r, d) # es) = (case c of SysWrite fd' bs \<Rightarrow> if fd' = fd then bs else [] | _ \<Rightarrow> []) @ written fd es"
  by (simp_all add: written_def)

definition uputs_calls :: "int \<Rightarrow> byte list \<Rightarrow> ucall list" where
  "uputs_calls fd cs = map (\<lambda>c. SysWrite fd [c]) cs"

lemma utrace_uputs:
  assumes "utrace (andthen (for_each cs (\<lambda>c s. andthen (uputc fd c s) (\<lambda>_ s. Ok (None :: unit option) s)) s) f) es e"
  shows "\<exists>es1 es2 s'. es = es1 @ es2 \<and> map fst es1 = uputs_calls fd cs \<and> utrace (f None s') es2 e"
  using assms
proof (induction cs arbitrary: s es)
  case Nil
  then have "utrace (f None s) es e" by simp
  then show ?case by (intro exI [of _ "[]"] exI [of _ es] exI [of _ s]) (simp add: uputs_calls_def)
next
  case (Cons c cs)
  obtain r d es' s1 where es: "es = (SysWrite fd [c], r, d) # es'" and
    "utrace (andthen (for_each cs (\<lambda>c s. andthen (uputc fd c s) (\<lambda>_ s. Ok (None :: unit option) s)) s1) f) es' e"
    using Cons.prems by (auto simp: uputc_def andthen_assoc utrace_andthen_usys)
  from Cons.IH [OF this(2)] obtain es1 es2 s' where
    "es' = es1 @ es2" "map fst es1 = uputs_calls fd cs" "utrace (f None s') es2 e" by blast
  with es show ?case
    by (intro exI [of _ "(SysWrite fd [c], r, d) # es1"] exI [of _ es2] exI [of _ s']) (simp add: uputs_calls_def)
qed

lemma written_uputs:
  "map fst es = uputs_calls fd cs \<Longrightarrow> written fd' es = (if fd' = fd then cs else [])"
proof (induction cs arbitrary: es)
  case (Cons c cs)
  then obtain x es' where "es = x # es'" "fst x = SysWrite fd [c]" "map fst es' = uputs_calls fd cs"
    by (auto simp: uputs_calls_def)
  with Cons.IH [of es'] show ?case by (cases x) auto
qed (simp add: uputs_calls_def)

lemma utrace_fprintf:
  assumes "utrace (andthen (fprintf fd fmt ap s) f) es e"
  shows "\<exists>es1 es2 s'. es = es1 @ es2 \<and> map fst es1 = uputs_calls fd (vprintf_chars (bstr fmt) False ap) \<and> utrace (f () s') es2 e"
  using utrace_uputs [of "vprintf_chars (bstr fmt) False ap" fd s "\<lambda>_ s. f () s"] assms by (simp add: fprintf_def andthen_assoc)

section \<open>Input\<close>

text \<open>The bytes a trace reads from a descriptor.\<close>

definition read_bytes :: "int \<Rightarrow> uevent list \<Rightarrow> byte list" where
  "read_bytes fd es = concat (map (\<lambda>(c, r, d). case c of SysRead fd' n \<Rightarrow> if fd' = fd \<and> r > 0 then d else [] | _ \<Rightarrow> []) es)"

lemma read_bytes_simps [simp]:
  "read_bytes fd [] = []" "read_bytes fd (es @ es') = read_bytes fd es @ read_bytes fd es'"
  "read_bytes fd ((c, r, d) # es) = (case c of SysRead fd' n \<Rightarrow> if fd' = fd \<and> r > 0 then d else [] | _ \<Rightarrow> []) @ read_bytes fd es"
  by (simp_all add: read_bytes_def)

lemma read_bytes_writes: "\<forall>x \<in> set es. \<exists>bs. fst x = SysWrite fd' bs \<Longrightarrow> read_bytes fd es = []"
  by (induction es) auto

section \<open>Printing and reading numbers\<close>

text \<open>C30. \<open>atoi\<close> reads back what \<open>printint\<close> prints in decimal: for every unsigned 32-bit number, and for every signed one
  that is not negative. The digits fit the buffer of 16.\<close>

theorem atoi_printint:
  assumes "sg \<Longrightarrow> 0 \<le> sint x"
  shows "atoi (bstream (printint_u x 10 sg)) = Some x"
proof -
  let ?cs = "rev (printint_u_digits 32 10 (unat x))"
  have "unat x < 10 ^ 32" using unsigned_less [of x, where ?'a = nat] by simp
  from printint_u_digits_dec [OF this] have d: "\<forall>c \<in> set ?cs. is_digit c" "dec_val 0 ?cs = x" by simp_all
  have "printint_u x 10 sg = ?cs" using assms by (cases sg) (auto simp: printint_u_def Let_def)
  moreover have "atoi_from (bstream ?cs) 0 0 = Some (dec_val 0 (drop 0 ?cs))"
    using d(1) by (intro atoi_from_eq) (auto simp: bstream_def is_digit_def)
  ultimately show ?thesis using d(2) by (simp add: atoi_def)
qed

theorem atoi_printint_witness: "atoi (bstream (printint_u 1024 10 True)) = Some 1024"
  by (rule atoi_printint) simp

end
