(* ===== verification/Grep.thy ===== *)
theory Grep
  imports Ulib
begin

text \<open>
  \<open>user/grep.c\<close>: the regular expression matcher and the loop that cuts the input into lines. A string is the list of
  its bytes before the NUL, so \<open>re[1]\<close> of a pattern of one character is the end of the list. \<open>buf\<close> is the list of the \<open>m\<close> bytes
  in use.
\<close>

section \<open>The matcher\<close>

function (sequential) matchhere :: "byte list \<Rightarrow> byte list \<Rightarrow> bool"
  and matchstar :: "byte \<Rightarrow> byte list \<Rightarrow> byte list \<Rightarrow> bool" where
  "matchhere [] str = True"
| "matchhere (c # re) str =
     (if re \<noteq> [] \<and> hd re = 0x2a then matchstar c (tl re) str
      else if c = 0x24 \<and> re = [] then str = []
      else if str \<noteq> [] \<and> (c = 0x2e \<or> c = hd str) then matchhere re (tl str)
      else False)"
| "matchstar c re str =
     (if matchhere re str then True
      else if str \<noteq> [] \<and> (hd str = c \<or> c = 0x2e) then matchstar c re (tl str)
      else False)"
  by pat_completeness auto
termination
  by (relation "measure (\<lambda>x. case x of Inl (re, str) \<Rightarrow> 2 * length re + 2 * length str | Inr (c, re, str) \<Rightarrow> 2 * length re + 2 * length str + 1)")
    (auto simp: neq_Nil_conv)

fun match_from :: "byte list \<Rightarrow> byte list \<Rightarrow> bool" where
  "match_from re str = (if matchhere re str then True else case str of [] \<Rightarrow> False | _ # str \<Rightarrow> match_from re str)"

definition match :: "byte list \<Rightarrow> byte list \<Rightarrow> bool" where
  "match re str = (if re \<noteq> [] \<and> hd re = 0x5e then matchhere (tl re) str else match_from re str)"

section \<open>The program\<close>

text \<open>The inner loop on the bytes from \<open>p\<close> on: it writes the lines that match and ends with what is left.\<close>

definition line_end :: "byte list \<Rightarrow> nat option" where
  "line_end p = (let l = takeWhile (\<lambda>c. c \<noteq> 0 \<and> c \<noteq> 10) p in if length l < length p \<and> p ! length l = 10 then Some (length l) else None)"

function grep_lines :: "byte list \<Rightarrow> byte list \<Rightarrow> ustate \<Rightarrow> byte list ures" where
  "grep_lines pattern p s =
     (case line_end p of
        None \<Rightarrow> Ok p s
      | Some q \<Rightarrow>
          if match pattern (take q p)
          then andthen (usys (SysWrite 1 (take (Suc q) p)) s) (\<lambda>_ s. grep_lines pattern (drop (Suc q) p) s)
          else grep_lines pattern (drop (Suc q) p) s)"
  by pat_completeness auto
termination
  by (relation "measure (\<lambda>(pattern, p, s). length p)") (auto simp: line_end_def Let_def split: if_splits)

definition grep_body :: "byte list \<Rightarrow> int \<Rightarrow> byte list \<Rightarrow> ustate \<Rightarrow> (byte list + unit) ures" where
  "grep_body pattern fd buf s =
     andthen (usys (SysRead fd (1024 - int (length buf) - 1)) s) (\<lambda>n s.
     if n > 0 then andthen (grep_lines pattern (buf @ u_in s) s) (\<lambda>buf s. Ok (Inl buf) s)
     else Ok (Inr ()) s)"

definition grep :: "byte list \<Rightarrow> int \<Rightarrow> ustate \<Rightarrow> unit ures" where
  "grep pattern fd s = wloop (\<lambda>_. 0) (grep_body pattern fd) (Ok (Inl []) s)"

definition grep_main :: "byte list list \<Rightarrow> ustate \<Rightarrow> unit ures" where
  "grep_main argv s =
     (if length argv \<le> 1 then andthen (fprintf 2 ''usage: grep pattern [file ...]\<newline>'' [] s) (\<lambda>_ s. uexit 1 s)
      else
        let pattern = argv ! 1 in
        if length argv \<le> 2 then andthen (grep pattern 0 s) (\<lambda>_ s. uexit 0 s)
        else
          andthen (for_each (drop 2 argv) (\<lambda>name s.
            andthen (usys (SysOpen name O_RDONLY) s) (\<lambda>fd s.
            if fd < 0 then andthen (uprintf ''grep: cannot open %s\<newline>'' [ArgS (Some name)] s) (\<lambda>_ s. uexit 1 s)
            else
              andthen (grep pattern fd s) (\<lambda>_ s.
              andthen (usys (SysClose fd) s) (\<lambda>_ s. Ok (None :: unit option) s)))) s) (\<lambda>_ s.
          uexit 0 s))"

declare matchstar.simps [simp del] match_from.simps [simp del] grep_lines.simps [simp del]

section \<open>What a pattern means\<close>

text \<open>A pattern is a sequence of atoms, one character or any number of them, with \<open>.\<close> for any character, and possibly an
  anchor at the end.\<close>

datatype atom = One byte | Many byte

definition admits :: "byte \<Rightarrow> byte \<Rightarrow> bool" where
  "admits c x \<longleftrightarrow> c = 0x2e \<or> c = x"

fun atoms :: "byte list \<Rightarrow> atom list \<times> bool" where
  "atoms [] = ([], False)"
| "atoms [c] = (if c = 0x24 then ([], True) else ([One c], False))"
| "atoms (c # d # re) = (if d = 0x2a then apfst (Cons (Many c)) (atoms re) else apfst (Cons (One c)) (atoms (d # re)))"

primrec atom_lang :: "atom \<Rightarrow> byte list set" where
  "atom_lang (One c) = {[x] |x. admits c x}"
| "atom_lang (Many c) = {u. \<forall>x \<in> set u. admits c x}"

primrec lang :: "atom list \<Rightarrow> byte list set" where
  "lang [] = {[]}"
| "lang (a # as) = {u @ v |u v. u \<in> atom_lang a \<and> v \<in> lang as}"

definition prefix_match :: "atom list \<times> bool \<Rightarrow> byte list \<Rightarrow> bool" where
  "prefix_match p str \<longleftrightarrow> (\<exists>u v. str = u @ v \<and> u \<in> lang (fst p) \<and> (snd p \<longrightarrow> v = []))"

lemma prefix_match_Nil: "prefix_match ([], a) str \<longleftrightarrow> (a \<longrightarrow> str = [])"
  by (auto simp: prefix_match_def)

lemma prefix_match_Cons: "prefix_match (apfst (Cons a) p) str \<longleftrightarrow> (\<exists>u v. str = u @ v \<and> u \<in> atom_lang a \<and> prefix_match p v)"
proof
  assume "prefix_match (apfst (Cons a) p) str"
  then obtain u w v where "str = u @ w @ v" "u \<in> atom_lang a" "w \<in> lang (fst p)" "snd p \<longrightarrow> v = []"
    unfolding prefix_match_def by (simp add: apfst_def map_prod_def split: prod.splits) (metis append.assoc)
  then show "\<exists>u v. str = u @ v \<and> u \<in> atom_lang a \<and> prefix_match p v"
    unfolding prefix_match_def by (intro exI [of _ u] exI [of _ "w @ v"] conjI exI [of _ w] exI [of _ v]) simp_all
next
  assume "\<exists>u v. str = u @ v \<and> u \<in> atom_lang a \<and> prefix_match p v"
  then obtain u w v where "str = u @ w @ v" "u \<in> atom_lang a" "w \<in> lang (fst p)" "snd p \<longrightarrow> v = []"
    unfolding prefix_match_def by blast
  then show "prefix_match (apfst (Cons a) p) str"
    unfolding prefix_match_def by (intro exI [of _ "u @ w"] exI [of _ v]) auto
qed

lemma prefix_match_One: "prefix_match (apfst (Cons (One c)) p) str \<longleftrightarrow> str \<noteq> [] \<and> admits c (hd str) \<and> prefix_match p (tl str)"
proof
  assume "str \<noteq> [] \<and> admits c (hd str) \<and> prefix_match p (tl str)"
  then show "prefix_match (apfst (Cons (One c)) p) str"
    unfolding prefix_match_Cons by (intro exI [of _ "[hd str]"] exI [of _ "tl str"]) simp
next
  assume "prefix_match (apfst (Cons (One c)) p) str"
  then obtain x v where "str = [x] @ v" "admits c x" "prefix_match p v" unfolding prefix_match_Cons by auto
  then show "str \<noteq> [] \<and> admits c (hd str) \<and> prefix_match p (tl str)" by simp
qed

lemma many_step:
  "(\<exists>u v. str = u @ v \<and> (\<forall>x \<in> set u. admits c x) \<and> P v) \<longleftrightarrow>
   P str \<or> (str \<noteq> [] \<and> admits c (hd str) \<and> (\<exists>u v. tl str = u @ v \<and> (\<forall>x \<in> set u. admits c x) \<and> P v))"
proof
  assume "\<exists>u v. str = u @ v \<and> (\<forall>x \<in> set u. admits c x) \<and> P v"
  then obtain u v where u: "str = u @ v" "\<forall>x \<in> set u. admits c x" "P v" by blast
  then show "P str \<or> (str \<noteq> [] \<and> admits c (hd str) \<and> (\<exists>u v. tl str = u @ v \<and> (\<forall>x \<in> set u. admits c x) \<and> P v))"
    by (cases u) auto
next
  assume "P str \<or> (str \<noteq> [] \<and> admits c (hd str) \<and> (\<exists>u v. tl str = u @ v \<and> (\<forall>x \<in> set u. admits c x) \<and> P v))"
  then show "\<exists>u v. str = u @ v \<and> (\<forall>x \<in> set u. admits c x) \<and> P v"
  proof
    assume "P str"
    then show ?thesis by (intro exI [of _ "[]"] exI [of _ str]) simp
  next
    assume a: "str \<noteq> [] \<and> admits c (hd str) \<and> (\<exists>u v. tl str = u @ v \<and> (\<forall>x \<in> set u. admits c x) \<and> P v)"
    then obtain u v where "tl str = u @ v" "\<forall>x \<in> set u. admits c x" "P v" by blast
    then show ?thesis using a by (intro exI [of _ "hd str # u"] exI [of _ v]) (cases str, auto)
  qed
qed

lemma matchhere_matchstar_eq:
  shows "matchhere re str \<longleftrightarrow> prefix_match (atoms re) str"
    and "matchstar c re str \<longleftrightarrow> prefix_match (apfst (Cons (Many c)) (atoms re)) str"
proof (induction re str and c re str rule: matchhere_matchstar.induct)
  case (1 str)
  then show ?case by (simp add: prefix_match_Nil)
next
  case (2 c re str)
  show ?case
  proof (cases re)
    case Nil
    have "prefix_match ([One c], False) str \<longleftrightarrow> str \<noteq> [] \<and> admits c (hd str)"
      using prefix_match_One [of c "([], False)" str] by (simp add: prefix_match_Nil)
    then show ?thesis using Nil by (auto simp: prefix_match_Nil admits_def)
  next
    case (Cons d ds)
    show ?thesis
    proof (cases "d = 0x2a")
      case True
      then show ?thesis using 2(1) Cons by simp
    next
      case False
      then show ?thesis using 2(2) Cons by (auto simp: prefix_match_One admits_def)
    qed
  qed
next
  case (3 c re str)
  have "prefix_match (apfst (Cons (Many c)) (atoms re)) str \<longleftrightarrow> prefix_match (atoms re) str
      \<or> (str \<noteq> [] \<and> admits c (hd str) \<and> prefix_match (apfst (Cons (Many c)) (atoms re)) (tl str))"
    unfolding prefix_match_Cons atom_lang.simps mem_Collect_eq by (rule many_step)
  then show ?case using 3 by (subst matchstar.simps) (auto simp: admits_def)
qed

lemma match_from_eq: "match_from re str \<longleftrightarrow> (\<exists>w v. str = w @ v \<and> prefix_match (atoms re) v)"
proof (induction str)
  case Nil
  then show ?case by (subst match_from.simps) (auto simp: matchhere_matchstar_eq)
next
  case (Cons x str)
  then show ?case by (subst match_from.simps) (auto simp: matchhere_matchstar_eq Cons_eq_append_conv)
qed

section \<open>Cutting the input into lines\<close>

text \<open>The complete lines of the input that match, each with its newline.\<close>

fun split_lines :: "byte list \<Rightarrow> byte list \<Rightarrow> byte list list \<times> byte list" where
  "split_lines acc [] = ([], acc)"
| "split_lines acc (c # cs) = (if c = 10 then apfst (Cons acc) (split_lines [] cs) else split_lines (acc @ [c]) cs)"

definition matching :: "byte list \<Rightarrow> byte list list \<Rightarrow> byte list" where
  "matching pattern ls = concat (map (\<lambda>l. l @ [10]) (filter (match pattern) ls))"

lemma split_lines_append:
  "split_lines acc (xs @ ys) = (let (ls, r) = split_lines acc xs; (ls', r') = split_lines r ys in (ls @ ls', r'))"
  by (induction acc xs rule: split_lines.induct) (auto simp: Let_def split: prod.splits)

lemma split_lines_none: "10 \<notin> set xs \<Longrightarrow> split_lines acc (xs @ ys) = split_lines (acc @ xs) ys"
  by (induction xs arbitrary: acc) auto

lemma split_lines_left: "10 \<notin> set acc \<Longrightarrow> 10 \<notin> set (snd (split_lines acc xs))"
  by (induction acc xs rule: split_lines.induct) auto

lemma line_end_Some:
  assumes "line_end p = Some q"
  shows "\<exists>l r. p = l @ 10 # r \<and> length l = q \<and> 10 \<notin> set l"
proof -
  let ?l = "takeWhile (\<lambda>c. c \<noteq> 0 \<and> c \<noteq> 10) p"
  have q: "q = length ?l" "length ?l < length p" "p ! length ?l = 10" using assms by (simp_all add: line_end_def Let_def split: if_splits)
  have tk: "take (length ?l) p = ?l" by (rule takeWhile_eq_take [symmetric])
  have "p = ?l @ 10 # drop (Suc (length ?l)) p" using id_take_nth_drop [OF q(2)] unfolding tk q(3) .
  moreover have "10 \<notin> set ?l" by (auto dest: set_takeWhileD)
  ultimately show ?thesis using q(1) by blast
qed

lemma line_end_None:
  assumes "line_end p = None" "0 \<notin> set p"
  shows "10 \<notin> set p"
proof
  let ?P = "\<lambda>c. c \<noteq> 0 \<and> c \<noteq> 10"
  assume "10 \<in> set p"
  then have n: "length (takeWhile ?P p) < length p" 
  proof (cases "length p \<le> length (takeWhile ?P p)")
    case True
    then have "takeWhile ?P p = p" by (subst takeWhile_eq_take) simp
    then show ?thesis using \<open>10 \<in> set p\<close> by (auto simp: takeWhile_eq_all_conv)
  qed simp
  have "\<not> ?P (p ! length (takeWhile ?P p))" using n by (rule nth_length_takeWhile)
  moreover have "p ! length (takeWhile ?P p) \<in> set p" using n by (rule nth_mem)
  ultimately have "p ! length (takeWhile ?P p) = 10" using assms(2) by auto
  then show False using assms(1) n by (simp add: line_end_def Let_def)
qed

lemma grep_lines_trace:
  assumes "utrace (andthen (grep_lines pattern p s) f) es e" "0 \<notin> set p"
  shows "\<exists>es1 es2 s'. es = es1 @ es2 \<and> written 1 es1 = matching pattern (fst (split_lines [] p)) \<and> (\<forall>x \<in> set es1. \<exists>bs. fst x = SysWrite 1 bs)
    \<and> utrace (f (snd (split_lines [] p)) s') es2 e"
  using assms
proof (induction pattern p s arbitrary: es rule: grep_lines.induct)
  case (1 pattern p s)
  show ?case
  proof (cases "line_end p")
    case None
    have "split_lines [] p = ([], p)" using split_lines_none [OF line_end_None [OF None 1(4)], of "[]" "[]"] by simp
    moreover have "grep_lines pattern p s = Ok p s" using None by (subst grep_lines.simps) simp
    ultimately show ?thesis using 1(3) by (intro exI [of _ "[]"] exI [of _ es] exI [of _ s]) (simp add: matching_def)
  next
    case (Some q)
    then obtain l r where p: "p = l @ 10 # r" "length l = q" "10 \<notin> set l" using line_end_Some by blast
    have sp: "split_lines [] p = apfst (Cons l) (split_lines [] r)" using split_lines_none [OF p(3), of "[]" "10 # r"] p(1) by simp
    have tk: "take q p = l" "drop (Suc q) p = r" "take (Suc q) p = l @ [10]" using p by auto
    have r0: "0 \<notin> set r" using 1(4) p(1) by auto
    show ?thesis
    proof (cases "match pattern l")
      case True
      then have "grep_lines pattern p s = andthen (usys (SysWrite 1 (l @ [10])) s) (\<lambda>_ s. grep_lines pattern r s)"
        using Some by (subst grep_lines.simps) (simp add: tk)
      then obtain n d es' u where es: "es = (SysWrite 1 (l @ [10]), n, d) # es'" and t: "utrace (andthen (grep_lines pattern r u) f) es' e"
        using 1(3) by (auto simp: andthen_assoc utrace_andthen_usys)
      from 1(1) [OF Some, unfolded tk, OF True t r0] obtain es1 es2 s' where
        "es' = es1 @ es2" "written 1 es1 = matching pattern (fst (split_lines [] r))" "\<forall>x \<in> set es1. \<exists>bs. fst x = SysWrite 1 bs"
        "utrace (f (snd (split_lines [] r)) s') es2 e" by blast
      then show ?thesis using es True
        by (intro exI [of _ "(SysWrite 1 (l @ [10]), n, d) # es1"] exI [of _ es2] exI [of _ s']) (simp add: sp matching_def)
    next
      case False
      then have "grep_lines pattern p s = grep_lines pattern r s" using Some by (subst grep_lines.simps) (simp add: tk)
      then have t: "utrace (andthen (grep_lines pattern r s) f) es e" using 1(3) by simp
      from 1(2) [OF Some, unfolded tk, OF False t r0] show ?thesis using False by (simp add: sp matching_def)
    qed
  qed
qed

text \<open>What it means that the kernel answers reads as documented, on a file of text: the count is the number of bytes stored, no more than
  asked for, and none of them is NUL.\<close>

definition text_reads :: "uevent list \<Rightarrow> bool" where
  "text_reads es = list_all (\<lambda>(c, r, d). case c of SysRead fd n \<Rightarrow> r > 0 \<longrightarrow> r = int (length d) \<and> r \<le> n \<and> 0 \<notin> set d | _ \<Rightarrow> True) es"

lemma text_reads_simps [simp]:
  "text_reads []" "text_reads (es @ es') \<longleftrightarrow> text_reads es \<and> text_reads es'"
  "text_reads ((c, r, d) # es) \<longleftrightarrow> (case c of SysRead fd n \<Rightarrow> r > 0 \<longrightarrow> r = int (length d) \<and> r \<le> n \<and> 0 \<notin> set d | _ \<Rightarrow> True) \<and> text_reads es"
  by (simp_all add: text_reads_def)

lemma split_lines_bounds:
  "length (snd (split_lines acc xs)) \<le> length acc + length xs" "set (snd (split_lines acc xs)) \<subseteq> set acc \<union> set xs"
  by (induction acc xs rule: split_lines.induct) auto

definition buf_ok :: "byte list \<Rightarrow> bool" where
  "buf_ok buf \<longleftrightarrow> 0 \<notin> set buf \<and> 10 \<notin> set buf \<and> length buf < 1024"

lemma grep_body_trace:
  assumes "utrace (grep_body pattern fd buf s) es e" "text_reads es" and buf: "buf_ok buf"
  shows "e = Returned (Inl (snd (split_lines buf (read_bytes fd es)))) \<and> buf_ok (snd (split_lines buf (read_bytes fd es)))
      \<and> written 1 es = matching pattern (fst (split_lines buf (read_bytes fd es)))
    \<or> e = Returned (Inr ()) \<and> read_bytes fd es = [] \<and> written 1 es = []"
proof -
  obtain r d es' s' where es: "es = (SysRead fd (1024 - int (length buf) - 1), r, d) # es'"
    and "utrace (if r > 0 then andthen (grep_lines pattern (buf @ u_in s') s') (\<lambda>buf s. Ok (Inl buf) s) else Ok (Inr ()) s') es' e" "u_in s' = d"
    using assms(1) by (auto simp: grep_body_def utrace_andthen_usys)
  then have t: "utrace (if r > 0 then andthen (grep_lines pattern (buf @ d) s') (\<lambda>buf s. Ok (Inl buf) s) else Ok (Inr ()) s') es' e" by (simp only:)
  show ?thesis
  proof (cases "r > 0")
    case False
    then show ?thesis using t es by simp
  next
    case True
    then have d: "r = int (length d)" "r \<le> 1023 - int (length buf)" "0 \<notin> set d" using assms(2) es by simp_all
    have b: "split_lines [] (buf @ d) = split_lines buf d" using split_lines_none [of buf "[]" d] buf by (simp add: buf_ok_def)
    have "0 \<notin> set (buf @ d)" using d(3) buf by (simp add: buf_ok_def)
    moreover have "utrace (andthen (grep_lines pattern (buf @ d) s') (\<lambda>buf s. Ok (Inl buf) s)) es' e" using t True by simp
    ultimately obtain es1 es2 u where w: "es' = es1 @ es2" "written 1 es1 = matching pattern (fst (split_lines buf d))"
      "\<forall>x \<in> set es1. \<exists>bs. fst x = SysWrite 1 bs" "utrace (Ok (Inl (snd (split_lines buf d))) u :: (byte list + unit) ures) es2 e"
      using grep_lines_trace [of pattern "buf @ d" s' "\<lambda>buf s. Ok (Inl buf) s" es' e] unfolding b by blast
    have e: "es2 = []" "e = Returned (Inl (snd (split_lines buf d)))" using w(4) by simp_all
    have rd: "read_bytes fd es = d" using True read_bytes_writes [OF w(3)] by (simp add: es w(1) e(1))
    have "buf_ok (snd (split_lines buf d))"
      using split_lines_bounds [of buf d] split_lines_left [of buf d] buf d by (auto simp: buf_ok_def)
    then show ?thesis unfolding rd using e(2) w(2) by (simp add: es w(1) e(1))
  qed
qed

lemma grep_loop_trace:
  assumes "uloop (grep_body pattern fd) buf es e" "text_reads es" "buf_ok buf"
  shows "e = Returned () \<and> written 1 es = matching pattern (fst (split_lines buf (read_bytes fd es)))"
  using assms
proof (induction "grep_body pattern fd" buf es e rule: uloop.induct)
  case (ul_done buf s es a)
  from grep_body_trace [OF ul_done.hyps ul_done.prems] show ?case by (auto simp: matching_def)
next
  case (ul_exit buf s es n)
  from grep_body_trace [OF ul_exit.hyps ul_exit.prems] show ?case by simp
next
  case (ul_step buf s es buf' es' e)
  have t: "text_reads es" "text_reads es'" using ul_step.prems(1) by simp_all
  from grep_body_trace [OF ul_step.hyps(1) t(1) ul_step.prems(2)]
  have b: "buf' = snd (split_lines buf (read_bytes fd es))" "buf_ok buf'" "written 1 es = matching pattern (fst (split_lines buf (read_bytes fd es)))"
    by simp_all
  from ul_step.hyps(3) [OF t(2) b(2)] have "e = Returned ()" "written 1 es' = matching pattern (fst (split_lines buf' (read_bytes fd es')))" by simp_all
  then show ?case using b(1,3)
    by (cases "split_lines buf (read_bytes fd es)", cases "split_lines buf' (read_bytes fd es')") (simp add: split_lines_append matching_def)
qed

text \<open>The same rounds the other way, to build a trace.\<close>

lemma grep_body_calls: "grep_body pattern fd l s \<noteq> Ok (Inl l') s'"
  by (simp add: grep_body_def usys_def)

lemma grep_unroll: "wloop (\<lambda>_. 0) (grep_body pattern fd) (Ok (Inl l) s) = wloop (\<lambda>_. 0) (grep_body pattern fd) (grep_body pattern fd l s)"
  by (rule wloop_unroll) (simp add: grep_body_calls)

lemma grep_stops: "utrace (wloop (\<lambda>_. 0) (grep_body pattern fd) (Ok (Inl buf) s)) [(SysRead fd (1023 - int (length buf)), 0, d)] (Returned ())"
  unfolding grep_unroll by (simp add: grep_body_def usys_def utrace_Swtch)

lemma grep_reads:
  assumes "r > 0" "\<And>s. utrace (wloop (\<lambda>_. 0) (grep_body pattern fd) (andthen (grep_lines pattern (buf @ d) s) (\<lambda>b s. Ok (Inl b) s))) es e"
  shows "utrace (wloop (\<lambda>_. 0) (grep_body pattern fd) (Ok (Inl buf) s)) ((SysRead fd (1023 - int (length buf)), r, d) # es) e"
  unfolding grep_unroll using assms by (simp add: grep_body_def usys_def utrace_Swtch)

lemma grep_hits:
  assumes "line_end p = Some q" "match pattern (take q p)"
    "\<And>s. utrace (wloop (\<lambda>_. 0) (grep_body pattern fd) (andthen (grep_lines pattern (drop (Suc q) p) s) (\<lambda>b s. Ok (Inl b) s))) es e"
  shows "utrace (wloop (\<lambda>_. 0) (grep_body pattern fd) (andthen (grep_lines pattern p s) (\<lambda>b s. Ok (Inl b) s))) ((SysWrite 1 (take (Suc q) p), r, d) # es) e"
  using assms by (subst grep_lines.simps) (simp add: usys_def utrace_Swtch)

lemma grep_keeps:
  assumes "line_end p = None" "\<And>s. utrace (wloop (\<lambda>_. 0) (grep_body pattern fd) (Ok (Inl p) s)) es e"
  shows "utrace (wloop (\<lambda>_. 0) (grep_body pattern fd) (andthen (grep_lines pattern p s) (\<lambda>b s. Ok (Inl b) s))) es e"
  using assms by (subst grep_lines.simps) simp

section \<open>What grep does\<close>

text \<open>C31. The matcher is exact: \<open>match\<close> says yes just when the text contains a stretch that the pattern describes (a
  character stands for itself, \<open>.\<close> for any, \<open>c*\<close> for any number of \<open>c\<close>), at its start if the pattern begins with \<open>^\<close>, and reaching its end if the
  pattern ends with \<open>$\<close>. It always returns.\<close>

theorem match_exact:
  "match re str \<longleftrightarrow> (if re \<noteq> [] \<and> hd re = 0x5e then prefix_match (atoms (tl re)) str
     else \<exists>w v. str = w @ v \<and> prefix_match (atoms re) v)"
  by (simp add: match_def matchhere_matchstar_eq match_from_eq)

text \<open>C32. However the input arrives, in whatever pieces \<open>read\<close> returns it, \<open>grep\<close> writes to descriptor 1 exactly the
  complete lines of what it has read that match, in order and each with its newline. It keeps an unfinished line of less than 1024 bytes in its
  buffer between reads.\<close>

theorem grep_prints:
  assumes "utrace (grep pattern fd s) es e" "text_reads es"
  shows "e = Returned () \<and> written 1 es = matching pattern (fst (split_lines [] (read_bytes fd es)))"
proof -
  from utrace_loop [OF grep_body_calls assms(1) [unfolded grep_def]] show ?thesis
    by (rule grep_loop_trace [OF _ assms(2)]) (simp add: buf_ok_def)
qed

definition demo_grep :: "uevent list" where
  "demo_grep = [(SysRead 3 1023, 4, [0x61, 0x62, 10, 0x63]), (SysWrite 1 [0x61, 0x62, 10], 3, []), (SysRead 3 1022, 2, [0x62, 10]),
     (SysWrite 1 [0x63, 0x62, 10], 3, []), (SysRead 3 1023, 0, [])]"

lemma demo_match: "match [0x62] [x, 0x62]"
proof -
  have "match_from [0x62] [0x62]" by (subst match_from.simps) simp
  then have "match_from [0x62] [x, 0x62]" by (subst match_from.simps) simp
  then show ?thesis by (simp add: match_def)
qed

lemma demo_line_end: "line_end [0x61, 0x62, 10, 0x63] = Some 2" "line_end [0x63, 0x62, 10] = Some 2" "line_end [0x63] = None" "line_end [] = None"
  by (simp_all add: line_end_def)

lemma demo_grep_trace: "utrace (grep [0x62] 3 s) demo_grep (Returned ())"
proof -
  let ?run = "\<lambda>r. wloop (\<lambda>_. 0) (grep_body [0x62] 3) r"
  let ?lines = "\<lambda>p s. ?run (andthen (grep_lines [0x62] p s) (\<lambda>b s. Ok (Inl b) s))"
  have 1: "utrace (?run (Ok (Inl []) s)) [(SysRead 3 1023, 0, [])] (Returned ())" for s
    using grep_stops [of "[0x62]" 3 "[]" s "[]"] by simp
  have 2: "utrace (?lines [] s) [(SysRead 3 1023, 0, [])] (Returned ())" for s
    by (rule grep_keeps [OF demo_line_end(4) 1])
  have 3: "utrace (?lines [0x63, 0x62, 10] s) (drop 3 demo_grep) (Returned ())" for s
    using grep_hits [OF demo_line_end(2), of "[0x62]" 3 _ "Returned ()" s 3 "[]"] 2 demo_match by (simp add: demo_grep_def)
  have 4: "utrace (?run (Ok (Inl [0x63]) s)) (drop 2 demo_grep) (Returned ())" for s
    using grep_reads [of 2 "[0x62]" 3 "[0x63]" "[0x62, 10]" "drop 3 demo_grep" "Returned ()" s] 3 by (simp add: demo_grep_def)
  have 5: "utrace (?lines [0x63] s) (drop 2 demo_grep) (Returned ())" for s
    by (rule grep_keeps [OF demo_line_end(3) 4])
  have 6: "utrace (?lines [0x61, 0x62, 10, 0x63] s) (drop 1 demo_grep) (Returned ())" for s
    using grep_hits [OF demo_line_end(1), of "[0x62]" 3 _ "Returned ()" s 3 "[]"] 5 demo_match by (simp add: demo_grep_def)
  show ?thesis unfolding grep_def
    using grep_reads [of 4 "[0x62]" 3 "[]" "[0x61, 0x62, 10, 0x63]" "drop 1 demo_grep" "Returned ()" s] 6 by (simp add: demo_grep_def)
qed

theorem grep_prints_witness:
  "utrace (grep [0x62] 3 \<lparr>u_call = SysFork, u_ret = 0, u_in = []\<rparr>) demo_grep (Returned ()) \<and> written 1 demo_grep = [0x61, 0x62, 10, 0x63, 0x62, 10]"
proof -
  have "text_reads demo_grep" by (simp add: demo_grep_def)
  from grep_prints [OF demo_grep_trace this] demo_grep_trace show ?thesis by (simp add: demo_grep_def matching_def demo_match)
qed

end
