(* ===== verification/Sh.thy ===== *)
theory Sh
  imports Ulib
begin

text \<open>
  The shell, \<open>user/sh.c\<close>. The parser works on a string, the bytes of \<open>buf\<close> before its NUL, with pointers into it as
  positions; \<open>es\<close> is its length, where the NUL is. A parsed command keeps the start and the end of every word, as the structures of the
  source do, and \<open>nulterminate\<close> then writes the NULs into the buffer. The constructors are those of a datatype: \<open>malloc\<close> is taken to
  succeed, as the source takes it to. A parser's result is a command and the position after it, or the message \<open>panic\<close> is called
  with. The recursive descent is bounded by fuel, enough of which is always there (\<open>parse_returns\<close>); the loops inside
  it end because a token is never empty.
\<close>

section \<open>Commands\<close>

type_synonym word_at = "nat \<times> nat"

datatype cmd =
    EXEC "word_at list"
  | REDIR cmd word_at uint32 int
  | PIPE cmd cmd
  | LIST cmd cmd
  | BACK cmd

definition MAXARGS :: nat where "MAXARGS = 10"

section \<open>Tokens\<close>

definition whitespace :: "byte list" where "whitespace = [0x20, 0x09, 0x0d, 0x0a, 0x0b]"

text \<open>\<open><|>&;()\<close>\<close>

definition symbols :: "byte list" where "symbols = [0x3c, 0x7c, 0x3e, 0x26, 0x3b, 0x28, 0x29]"

function skip_ws :: "byte list \<Rightarrow> nat \<Rightarrow> nat" where
  "skip_ws b s = (if s < length b \<and> b ! s \<in> set whitespace then skip_ws b (Suc s) else s)"
  by pat_completeness auto
termination by (relation "measure (\<lambda>(b, s). length b - s)") auto

function word_end :: "byte list \<Rightarrow> nat \<Rightarrow> nat" where
  "word_end b s = (if s < length b \<and> b ! s \<notin> set whitespace \<and> b ! s \<notin> set symbols then word_end b (Suc s) else s)"
  by pat_completeness auto
termination by (relation "measure (\<lambda>(b, s). length b - s)") auto

declare skip_ws.simps [simp del] word_end.simps [simp del]

definition char_at :: "byte list \<Rightarrow> nat \<Rightarrow> byte" where
  "char_at b s = (if s < length b then b ! s else 0)"

text \<open>The token, where it starts and ends, and where the next one starts. \<open>0x61\<close>, the letter \<open>a\<close>, is a word, \<open>0x2b\<close>, a plus, is \<open>>>\<close>.\<close>

definition gettoken :: "byte list \<Rightarrow> nat \<Rightarrow> byte \<times> nat \<times> nat \<times> nat" where
  "gettoken b ps =
     (let q = skip_ws b ps; c = char_at b q;
          (ret, s) =
            (if c = 0 then (c, q)
             else if c \<in> {0x7c, 0x28, 0x29, 0x3b, 0x26, 0x3c} then (c, Suc q)
             else if c = 0x3e then (if char_at b (Suc q) = 0x3e then (0x2b, Suc (Suc q)) else (c, Suc q))
             else (0x61, word_end b q))
      in (ret, q, s, skip_ws b s))"

definition peek :: "byte list \<Rightarrow> nat \<Rightarrow> byte list \<Rightarrow> bool \<times> nat" where
  "peek b ps toks = (let s = skip_ws b ps; c = char_at b s in (c \<noteq> 0 \<and> c \<in> set toks, s))"

lemma skip_ws_ge [simp]: "ps \<le> skip_ws b ps"
  by (induction b ps rule: skip_ws.induct) (subst skip_ws.simps, auto)

lemma skip_ws_le [simp]: "ps \<le> length b \<Longrightarrow> skip_ws b ps \<le> length b"
  by (induction b ps rule: skip_ws.induct) (subst skip_ws.simps, auto)

lemma skip_ws_stop: "skip_ws b ps < length b \<Longrightarrow> b ! skip_ws b ps \<notin> set whitespace"
proof (induction b ps rule: skip_ws.induct)
  case (1 b s)
  show ?case
  proof (cases "s < length b \<and> b ! s \<in> set whitespace")
    case True
    then have "skip_ws b s = skip_ws b (Suc s)" by (subst skip_ws.simps) simp
    then show ?thesis using 1 True by simp
  next
    case False
    then have "skip_ws b s = s" by (subst skip_ws.simps) auto
    then show ?thesis using 1(2) False by auto
  qed
qed

lemma skip_ws_idem [simp]: "skip_ws b (skip_ws b ps) = skip_ws b ps"
  using skip_ws_stop [of b ps] by (subst skip_ws.simps) auto

lemma word_end_ge [simp]: "s \<le> word_end b s"
  by (induction b s rule: word_end.induct) (subst word_end.simps, auto)

lemma word_end_le [simp]: "s \<le> length b \<Longrightarrow> word_end b s \<le> length b"
  by (induction b s rule: word_end.induct) (subst word_end.simps, auto)

text \<open>A token other than the end is not empty, so the position moves on.\<close>

lemma gettoken_advances:
  assumes "gettoken b ps = (tok, q, eq, ps')" "ps \<le> length b"
  shows "ps \<le> q \<and> q \<le> eq \<and> eq \<le> ps' \<and> ps' \<le> length b" "tok \<noteq> 0 \<Longrightarrow> q < eq"
proof -
  let ?c = "char_at b (skip_ws b ps)"
  have c: "skip_ws b ps < length b \<and> ?c \<notin> set whitespace" if "?c \<noteq> 0"
    using that skip_ws_stop [of b ps] by (auto simp: char_at_def split: if_splits)
  have w: "skip_ws b ps < word_end b (skip_ws b ps)" if "?c \<noteq> 0" "?c \<notin> set symbols"
    using c [OF that(1)] that by (subst word_end.simps) (auto simp: char_at_def intro: less_le_trans [OF lessI])
  have "q = skip_ws b ps" "ps' = skip_ws b eq" using assms(1) by (auto simp: gettoken_def Let_def split: prod.splits)
  moreover have "(tok \<noteq> 0 \<longrightarrow> q < eq) \<and> q \<le> eq \<and> eq \<le> length b"
  proof (cases "?c = 0")
    case True
    then show ?thesis using assms by (auto simp: gettoken_def Let_def)
  next
    case False
    then have len: "skip_ws b ps < length b" using c by simp
    show ?thesis
    proof (cases "?c \<in> set symbols")
      case True
      then show ?thesis using False len assms(1) by (auto simp: gettoken_def Let_def symbols_def char_at_def split: if_splits)
    next
      case no: False
      then show ?thesis using False len assms(1) w by (auto simp: gettoken_def Let_def symbols_def split: if_splits)
    qed
  qed
  ultimately show "ps \<le> q \<and> q \<le> eq \<and> eq \<le> ps' \<and> ps' \<le> length b" "tok \<noteq> 0 \<Longrightarrow> q < eq" by auto
qed

lemma peek_hit:
  assumes "peek b ps toks = (hit, ps')"
  shows "ps' = skip_ws b ps" "hit \<longleftrightarrow> ps' < length b \<and> b ! ps' \<noteq> 0 \<and> b ! ps' \<in> set toks"
  using assms by (auto simp: peek_def Let_def char_at_def split: if_splits)

lemma gettoken_after_peek:
  assumes "peek b ps toks = (True, ps')" "gettoken b ps' = (tok, q, eq, ps'')"
  shows "q = ps' \<and> ps' < eq \<and> eq \<le> ps'' \<and> ps'' \<le> length b" "tok \<noteq> 0"
proof -
  note h = peek_hit [OF assms(1)]
  have q: "q = ps'" and tok: "tok \<noteq> 0" using assms(2) h by (auto simp: gettoken_def Let_def char_at_def split: if_splits)
  then show "q = ps' \<and> ps' < eq \<and> eq \<le> ps'' \<and> ps'' \<le> length b" using gettoken_advances [OF assms(2)] h by simp
  show "tok \<noteq> 0" by (rule tok)
qed

section \<open>The parser\<close>

type_synonym 'a parsed = "string + 'a \<times> nat"

definition pbind :: "'a parsed option \<Rightarrow> ('a \<Rightarrow> nat \<Rightarrow> 'b parsed option) \<Rightarrow> 'b parsed option" where
  "pbind r f = (case r of None \<Rightarrow> None | Some (Inl m) \<Rightarrow> Some (Inl m) | Some (Inr (a, ps)) \<Rightarrow> f a ps)"

definition next_pos :: "byte list \<Rightarrow> nat \<Rightarrow> nat" where
  "next_pos b ps = snd (snd (snd (gettoken b ps)))"

lemma next_pos_advances:
  assumes "peek b ps toks = (True, ps')"
  shows "ps' < next_pos b ps'" "next_pos b ps' \<le> length b"
  using gettoken_after_peek [OF assms, of "fst (gettoken b ps')" "fst (snd (gettoken b ps'))" "fst (snd (snd (gettoken b ps')))" "next_pos b ps'"]
  by (simp_all add: next_pos_def)

function back_loop :: "byte list \<Rightarrow> cmd \<Rightarrow> nat \<Rightarrow> cmd \<times> nat" where
  "back_loop b cmd ps =
     (case peek b ps [0x26] of (hit, ps) \<Rightarrow>
        if hit then back_loop b (BACK cmd) (next_pos b ps) else (cmd, ps))"
  by pat_completeness auto
termination
proof (relation "measure (\<lambda>(b, cmd, ps). length b - ps)")
  fix b cmd ps hit ps'
  assume "(hit, ps') = peek b ps [0x26]" hit
  then have "peek b ps [0x26] = (True, ps')" by simp
  note a = next_pos_advances [OF this] and h = peek_hit [OF this]
  have "ps \<le> ps'" using h(1) by simp
  then show "((b, BACK cmd, next_pos b ps'), b, cmd, ps) \<in> measure (\<lambda>(b, cmd, ps). length b - ps)" using a by auto
qed simp

definition redir_of :: "byte \<Rightarrow> cmd \<Rightarrow> word_at \<Rightarrow> cmd" where
  "redir_of tok cmd w =
     (if tok = 0x3c then REDIR cmd w O_RDONLY 0
      else if tok = 0x3e then REDIR cmd w (O_WRONLY OR O_CREATE OR O_TRUNC) 1
      else if tok = 0x2b then REDIR cmd w (O_WRONLY OR O_CREATE) 1
      else cmd)"

function parseredirs :: "byte list \<Rightarrow> cmd \<Rightarrow> nat \<Rightarrow> cmd parsed" where
  "parseredirs b cmd ps =
     (case peek b ps [0x3c, 0x3e] of (hit, ps) \<Rightarrow>
        if hit then
          (case gettoken b ps of (tok, _, _, ps) \<Rightarrow>
           case gettoken b ps of (a, q, eq, ps) \<Rightarrow>
             if a \<noteq> 0x61 then Inl ''missing file for redirection'' else parseredirs b (redir_of tok cmd (q, eq)) ps)
        else Inr (cmd, ps))"
  by pat_completeness auto
termination
proof (relation "measure (\<lambda>(b, cmd, ps). length b - ps)", goal_cases)
  case (2 b cmd ps hit ps1 tok w q w' eq ps2 a v q' v' eq' ps3)
  then have "peek b ps [0x3c, 0x3e] = (True, ps1)" "gettoken b ps1 = (tok, q, eq, ps2)" "gettoken b ps2 = (a, q', eq', ps3)" by simp_all
  then have "ps1 < ps2" "ps2 \<le> length b" "ps2 \<le> ps3" "ps3 \<le> length b" "ps \<le> ps1"
    using gettoken_after_peek(1) [of b ps "[0x3c, 0x3e]" ps1 tok q eq ps2] gettoken_advances(1) [of b ps2 a q' eq' ps3] peek_hit(1) [of b ps "[0x3c, 0x3e]" True ps1]
    by auto
  then show ?case by auto
qed simp

text \<open>The words of a command go into its \<open>execcmd\<close>, which the redirections read so far may already enclose.\<close>

primrec add_arg :: "word_at \<Rightarrow> cmd \<Rightarrow> cmd" where
  "add_arg w (EXEC ws) = EXEC (ws @ [w])"
| "add_arg w (REDIR c f mode fd) = REDIR (add_arg w c) f mode fd"
| "add_arg w (PIPE l r) = PIPE l r"
| "add_arg w (LIST l r) = LIST l r"
| "add_arg w (BACK c) = BACK c"

function exec_loop :: "byte list \<Rightarrow> nat \<Rightarrow> cmd \<Rightarrow> nat \<Rightarrow> cmd parsed" where
  "exec_loop b argc ret ps =
     (case peek b ps [0x7c, 0x29, 0x26, 0x3b] of (hit, ps) \<Rightarrow>
        if hit then Inr (ret, ps)
        else
          (case gettoken b ps of (tok, q, eq, ps) \<Rightarrow>
             if tok = 0 then Inr (ret, ps)
             else if tok \<noteq> 0x61 then Inl ''syntax''
             else if Suc argc \<ge> MAXARGS then Inl ''too many args''
             else
               (case parseredirs b (add_arg (q, eq) ret) ps of
                  Inl m \<Rightarrow> Inl m
                | Inr (ret, ps) \<Rightarrow> exec_loop b (Suc argc) ret ps)))"
  by pat_completeness auto
termination by (relation "measure (\<lambda>(b, argc, ret, ps). MAXARGS - argc)") auto

declare back_loop.simps [simp del] parseredirs.simps [simp del] exec_loop.simps [simp del]

fun parseline :: "nat \<Rightarrow> byte list \<Rightarrow> nat \<Rightarrow> cmd parsed option"
  and parsepipe :: "nat \<Rightarrow> byte list \<Rightarrow> nat \<Rightarrow> cmd parsed option"
  and parseexec :: "nat \<Rightarrow> byte list \<Rightarrow> nat \<Rightarrow> cmd parsed option"
  and parseblock :: "nat \<Rightarrow> byte list \<Rightarrow> nat \<Rightarrow> cmd parsed option" where
  "parseline 0 b ps = None"
| "parseline (Suc n) b ps =
     pbind (parsepipe n b ps) (\<lambda>cmd ps.
     case back_loop b cmd ps of (cmd, ps) \<Rightarrow>
     case peek b ps [0x3b] of (hit, ps) \<Rightarrow>
       if hit then pbind (parseline n b (next_pos b ps)) (\<lambda>right ps. Some (Inr (LIST cmd right, ps)))
       else Some (Inr (cmd, ps)))"
| "parsepipe 0 b ps = None"
| "parsepipe (Suc n) b ps =
     pbind (parseexec n b ps) (\<lambda>cmd ps.
     case peek b ps [0x7c] of (hit, ps) \<Rightarrow>
       if hit then pbind (parsepipe n b (next_pos b ps)) (\<lambda>right ps. Some (Inr (PIPE cmd right, ps)))
       else Some (Inr (cmd, ps)))"
| "parseexec 0 b ps = None"
| "parseexec (Suc n) b ps =
     (case peek b ps [0x28] of (hit, ps) \<Rightarrow>
        if hit then parseblock n b ps
        else pbind (Some (parseredirs b (EXEC []) ps)) (\<lambda>ret ps. Some (exec_loop b 0 ret ps)))"
| "parseblock 0 b ps = None"
| "parseblock (Suc n) b ps =
     (case peek b ps [0x28] of (hit, ps) \<Rightarrow>
        if \<not> hit then Some (Inl ''parseblock'')
        else
          pbind (parseline n b (next_pos b ps)) (\<lambda>cmd ps.
          case peek b ps [0x29] of (hit, ps) \<Rightarrow>
            if \<not> hit then Some (Inl ''syntax - missing )'')
            else Some (parseredirs b cmd (next_pos b ps))))"

text \<open>\<open>parsecmd\<close> with the NULs still to be written: the command, what is left over, or the panic.\<close>

datatype parsed_line = Parsed cmd | Leftovers "byte list" | Paniced string

definition parse_fuel :: "byte list \<Rightarrow> nat" where
  "parse_fuel b = 4 * length b + 4"

definition parsecmd_string :: "byte list \<Rightarrow> parsed_line option" where
  "parsecmd_string b =
     (case parseline (parse_fuel b) b 0 of
        None \<Rightarrow> None
      | Some (Inl m) \<Rightarrow> Some (Paniced m)
      | Some (Inr (cmd, ps)) \<Rightarrow> (let s = skip_ws b ps in if s \<noteq> length b then Some (Leftovers (drop s b)) else Some (Parsed cmd)))"

primrec nulterminate :: "cmd \<Rightarrow> byte list \<Rightarrow> byte list" where
  "nulterminate (EXEC ws) m = fold (\<lambda>w m. m[snd w := 0]) ws m"
| "nulterminate (REDIR c f mode fd) m = (nulterminate c m)[snd f := 0]"
| "nulterminate (PIPE l r) m = nulterminate r (nulterminate l m)"
| "nulterminate (LIST l r) m = nulterminate r (nulterminate l m)"
| "nulterminate (BACK c) m = nulterminate c m"

section \<open>Running commands\<close>

definition sh_panic :: "string \<Rightarrow> ustate \<Rightarrow> 'a ures" where
  "sh_panic m s = andthen (fprintf 2 ''%s\<newline>'' [ArgS (Some (bstr m))] s) (\<lambda>_ s. uexit 1 s)"

definition fork1 :: "ustate \<Rightarrow> int ures" where
  "fork1 s = andthen (usys SysFork s) (\<lambda>pid s. if pid = -1 then sh_panic ''fork'' s else Ok pid s)"

definition ustr :: "byte list \<Rightarrow> nat \<Rightarrow> byte list" where
  "ustr m q = takeWhile (\<lambda>c. c \<noteq> 0) (drop q m)"

text \<open>The two descriptors \<open>pipe\<close> stores are in its answer, four bytes each.\<close>

definition pipe_fd :: "byte list \<Rightarrow> nat \<Rightarrow> int" where
  "pipe_fd d i = sint (get32 (bstream d) (4 * i))"

primrec runcmd :: "cmd \<Rightarrow> byte list \<Rightarrow> ustate \<Rightarrow> unit ures" where
  "runcmd (EXEC ws) m s =
     (if ws = [] then uexit 1 s
      else
        let argv = map (\<lambda>w. ustr m (fst w)) ws in
        andthen (usys (SysExec (hd argv) argv) s) (\<lambda>_ s.
        andthen (fprintf 2 ''exec %s failed\<newline>'' [ArgS (Some (hd argv))] s) (\<lambda>_ s.
        uexit 0 s)))"
| "runcmd (REDIR c f mode fd) m s =
     andthen (usys (SysClose fd) s) (\<lambda>_ s.
     andthen (usys (SysOpen (ustr m (fst f)) mode) s) (\<lambda>r s.
     if r < 0 then andthen (fprintf 2 ''open %s failed\<newline>'' [ArgS (Some (ustr m (fst f)))] s) (\<lambda>_ s. uexit 1 s)
     else runcmd c m s))"
| "runcmd (LIST l r) m s =
     andthen (fork1 s) (\<lambda>pid s.
     if pid = 0 then runcmd l m s
     else andthen (usys SysWait s) (\<lambda>_ s. runcmd r m s))"
| "runcmd (PIPE l r) m s =
     andthen (usys SysPipe s) (\<lambda>x s.
     if x < 0 then sh_panic ''pipe'' s
     else
       let p0 = pipe_fd (u_in s) 0; p1 = pipe_fd (u_in s) 1 in
       andthen (fork1 s) (\<lambda>pid s.
       if pid = 0 then
         andthen (udo (SysClose 1) s) (\<lambda>_ s.
         andthen (udo (SysDup p1) s) (\<lambda>_ s.
         andthen (udo (SysClose p0) s) (\<lambda>_ s.
         andthen (udo (SysClose p1) s) (\<lambda>_ s.
         runcmd l m s))))
       else
         andthen (fork1 s) (\<lambda>pid s.
         if pid = 0 then
           andthen (udo (SysClose 0) s) (\<lambda>_ s.
           andthen (udo (SysDup p0) s) (\<lambda>_ s.
           andthen (udo (SysClose p0) s) (\<lambda>_ s.
           andthen (udo (SysClose p1) s) (\<lambda>_ s.
           runcmd r m s))))
         else
           andthen (udo (SysClose p0) s) (\<lambda>_ s.
           andthen (udo (SysClose p1) s) (\<lambda>_ s.
           andthen (udo SysWait s) (\<lambda>_ s.
           andthen (udo SysWait s) (\<lambda>_ s.
           uexit 0 s)))))))"
| "runcmd (BACK c) m s =
     andthen (fork1 s) (\<lambda>pid s.
     if pid = 0 then runcmd c m s else uexit 0 s)"

text \<open>\<open>runcmd(parsecmd(buf))\<close> in the child.\<close>

definition parsecmd :: "byte list \<Rightarrow> ustate \<Rightarrow> cmd ures" where
  "parsecmd b s =
     (case parsecmd_string b of
        None \<Rightarrow> Spin
      | Some (Paniced m) \<Rightarrow> sh_panic m s
      | Some (Leftovers r) \<Rightarrow> andthen (fprintf 2 ''leftovers: %s\<newline>'' [ArgS (Some r)] s) (\<lambda>_ s. sh_panic ''syntax'' s)
      | Some (Parsed cmd) \<Rightarrow> Ok cmd s)"

definition getcmd :: "ustate \<Rightarrow> byte list ures" where
  "getcmd s = andthen (udo (SysWrite 2 [0x24, 0x20]) s) (\<lambda>_ s. andthen (gets 100 s) (\<lambda>l s. Ok (takeWhile (\<lambda>c. c \<noteq> 0) l) s))"

definition open_console :: "unit \<Rightarrow> ustate \<Rightarrow> (unit + unit) ures" where
  "open_console _ s =
     andthen (usys (SysOpen (bstr ''console'') O_RDWR) s) (\<lambda>fd s.
     if fd < 0 then Ok (Inr ()) s
     else if fd \<ge> 3 then andthen (udo (SysClose fd) s) (\<lambda>_ s. Ok (Inr ()) s)
     else Ok (Inl ()) s)"

definition sh_body :: "unit \<Rightarrow> ustate \<Rightarrow> (unit + unit) ures" where
  "sh_body _ s =
     andthen (getcmd s) (\<lambda>buf s.
     if buf = [] then Ok (Inr ()) s
     else if take 3 buf = [0x63, 0x64, 0x20] then
       let dir = drop 3 (butlast buf) in
       andthen (usys (SysChdir dir) s) (\<lambda>r s.
       if r < 0 then andthen (fprintf 2 ''cannot cd %s\<newline>'' [ArgS (Some dir)] s) (\<lambda>_ s. Ok (Inl ()) s) else Ok (Inl ()) s)
     else
       andthen (fork1 s) (\<lambda>pid s.
       if pid = 0 then
         andthen (parsecmd buf s) (\<lambda>cmd s.
         andthen (runcmd cmd (nulterminate cmd (buf @ [0])) s) (\<lambda>_ s. Ok (Inl ()) s))
       else andthen (udo SysWait s) (\<lambda>_ s. Ok (Inl ()) s)))"

definition sh_main :: "ustate \<Rightarrow> unit ures" where
  "sh_main s =
     andthen (wloop (\<lambda>_. 0) open_console (Ok (Inl ()) s)) (\<lambda>_ s.
     andthen (wloop (\<lambda>_. 0) sh_body (Ok (Inl ()) s)) (\<lambda>_ s.
     uexit 0 s))"

section \<open>What the parser returns\<close>

text \<open>A word is a maximal run of characters that are neither white space nor symbols; a command has at most nine of them, and
  the open modes and descriptors of its redirections are those of the three operators.\<close>

text \<open>The characters a word can have, spelled out: all but tab, newline, vertical tab, carriage return, space, and
  \<open>&\<close>, \<open>(\<close>, \<open>)\<close>, \<open>;\<close>, \<open><\<close>, \<open>>\<close>, \<open>|\<close>.\<close>

definition word_byte :: "byte \<Rightarrow> bool" where
  "word_byte c \<longleftrightarrow> c \<notin> {0x09, 0x0a, 0x0b, 0x0d, 0x20} \<and> c \<notin> {0x26, 0x28, 0x29, 0x3b, 0x3c, 0x3e, 0x7c}"

definition wf_word :: "byte list \<Rightarrow> word_at \<Rightarrow> bool" where
  "wf_word b w \<longleftrightarrow> fst w < snd w \<and> snd w \<le> length b
     \<and> (\<forall>i. fst w \<le> i \<and> i < snd w \<longrightarrow> word_byte (b ! i))
     \<and> (snd w = length b \<or> \<not> word_byte (b ! snd w))
     \<and> (fst w = 0 \<or> \<not> word_byte (b ! (fst w - 1)))"

primrec wf_cmd :: "byte list \<Rightarrow> cmd \<Rightarrow> bool" where
  "wf_cmd b (EXEC ws) = (length ws < MAXARGS \<and> list_all (wf_word b) ws)"
| "wf_cmd b (REDIR c f mode fd) = (wf_cmd b c \<and> wf_word b f
     \<and> (mode, fd) \<in> {(O_RDONLY, 0), (O_WRONLY OR O_CREATE OR O_TRUNC, 1), (O_WRONLY OR O_CREATE, 1)})"
| "wf_cmd b (PIPE l r) = (wf_cmd b l \<and> wf_cmd b r)"
| "wf_cmd b (LIST l r) = (wf_cmd b l \<and> wf_cmd b r)"
| "wf_cmd b (BACK c) = wf_cmd b c"

primrec leaf_args :: "cmd \<Rightarrow> nat option" where
  "leaf_args (EXEC ws) = Some (length ws)"
| "leaf_args (REDIR c f mode fd) = leaf_args c"
| "leaf_args (PIPE l r) = None"
| "leaf_args (LIST l r) = None"
| "leaf_args (BACK c) = None"

lemma word_end_chars:
  "s \<le> i \<Longrightarrow> i < word_end b s \<Longrightarrow> i < length b \<and> b ! i \<notin> set whitespace \<and> b ! i \<notin> set symbols"
proof (induction b s rule: word_end.induct)
  case (1 b s)
  show ?case
  proof (cases "s < length b \<and> b ! s \<notin> set whitespace \<and> b ! s \<notin> set symbols")
    case True
    then have "word_end b s = word_end b (Suc s)" by (subst word_end.simps) simp
    then show ?thesis using 1 True by (cases "i = s") auto
  next
    case False
    then have "word_end b s = s" by (subst word_end.simps) auto
    then show ?thesis using 1 by simp
  qed
qed

lemma word_end_stop: "word_end b s < length b \<Longrightarrow> b ! word_end b s \<in> set whitespace \<union> set symbols"
proof (induction b s rule: word_end.induct)
  case (1 b s)
  show ?case
  proof (cases "s < length b \<and> b ! s \<notin> set whitespace \<and> b ! s \<notin> set symbols")
    case True
    then have "word_end b s = word_end b (Suc s)" by (subst word_end.simps) simp
    then show ?thesis using 1 True by simp
  next
    case False
    then have "word_end b s = s" by (subst word_end.simps) auto
    then show ?thesis using 1 False by auto
  qed
qed

lemma word_byte_iff: "word_byte c \<longleftrightarrow> c \<notin> set whitespace \<and> c \<notin> set symbols"
  by (auto simp: word_byte_def whitespace_def symbols_def)

text \<open>Where the parser looks for the next token: never inside a word.\<close>

definition at_tok :: "byte list \<Rightarrow> nat \<Rightarrow> bool" where
  "at_tok b ps \<longleftrightarrow> ps \<le> length b \<and> (ps = 0 \<or> ps = length b \<or> \<not> word_byte (b ! (ps - 1)) \<or> \<not> word_byte (b ! ps))"

lemma at_tok_0 [simp]: "at_tok b 0"
  by (simp add: at_tok_def)

lemma at_tok_le: "at_tok b ps \<Longrightarrow> ps \<le> length b"
  by (simp add: at_tok_def)

lemma at_tok_skip [simp]: "at_tok b ps \<Longrightarrow> at_tok b (skip_ws b ps)"
proof (induction b ps rule: skip_ws.induct)
  case (1 b s)
  show ?case
  proof (cases "s < length b \<and> b ! s \<in> set whitespace")
    case True
    then have "at_tok b (Suc s)" by (simp add: at_tok_def word_byte_iff)
    then show ?thesis using 1 True by (subst skip_ws.simps) simp
  next
    case False
    then show ?thesis using 1(2) by (subst skip_ws.simps) auto
  qed
qed

lemma at_tok_gettoken:
  assumes "gettoken b ps = (tok, q, eq, ps')" "at_tok b ps"
  shows "at_tok b ps'"
proof -
  have le: "eq \<le> length b" "q \<le> eq" using gettoken_advances(1) [OF assms(1) at_tok_le [OF assms(2)]] by auto
  have q: "q = skip_ws b ps" "ps' = skip_ws b eq" using assms(1) by (auto simp: gettoken_def Let_def split: prod.splits)
  have "at_tok b eq"
  proof (cases "eq = q \<or> eq = word_end b q")
    case True
    have "at_tok b (word_end b q)" if "word_end b q \<le> length b"
      using that word_end_stop [of b q] by (auto simp: at_tok_def word_byte_iff)
    then show ?thesis using True assms(2) q(1) le by auto
  next
    case False
    then have "eq = Suc q \<and> b ! q \<in> set symbols \<or> eq = Suc (Suc q) \<and> b ! Suc q \<in> set symbols"
      using assms(1) q(1) le(1) by (auto simp: gettoken_def Let_def char_at_def symbols_def split: if_splits)
    then show ?thesis using le(1) by (auto simp: at_tok_def word_byte_iff)
  qed
  then show ?thesis by (simp add: q)
qed

lemma gettoken_moves:
  assumes "gettoken b ps = (tok, q, eq, ps')" "at_tok b ps"
  shows "ps \<le> q \<and> q \<le> eq \<and> eq \<le> ps' \<and> at_tok b ps'"
  using gettoken_advances(1) [OF assms(1) at_tok_le] at_tok_gettoken assms by blast

lemma peek_ge: "peek b ps toks = (hit, ps') \<Longrightarrow> ps \<le> ps'"
  by (metis peek_hit(1) skip_ws_ge)

lemma at_tok_peek:
  assumes "peek b ps toks = (hit, ps')" "at_tok b ps"
  shows "at_tok b ps'" "at_tok b (next_pos b ps')"
proof -
  show 1: "at_tok b ps'" using peek_hit(1) [OF assms(1)] assms(2) by simp
  obtain tok q eq ps'' where "gettoken b ps' = (tok, q, eq, ps'')" by (metis prod_cases4)
  then show "at_tok b (next_pos b ps')" using at_tok_gettoken 1 by (simp add: next_pos_def)
qed

lemma gettoken_word:
  assumes "gettoken b ps = (0x61, q, eq, ps')" "at_tok b ps"
  shows "wf_word b (q, eq)"
proof -
  have q: "eq = word_end b q" "q = skip_ws b ps" using assms(1) by (auto simp: gettoken_def Let_def split: if_splits)
  have adv: "q < eq" "eq \<le> length b" using gettoken_advances [OF assms(1) at_tok_le [OF assms(2)]] by auto
  have in_word: "word_byte (b ! i)" if "q \<le> i" "i < eq" for i
    using word_end_chars [of q i b] that q(1) by (simp add: word_byte_iff)
  have "eq = length b \<or> \<not> word_byte (b ! eq)" using word_end_stop [of b q] adv(2) q(1) by (auto simp: word_byte_iff)
  moreover have "q = 0 \<or> \<not> word_byte (b ! (q - 1))"
    using at_tok_skip [OF assms(2)] in_word [of q] adv q(2) by (auto simp: at_tok_def)
  ultimately show ?thesis using in_word adv by (simp add: wf_word_def)
qed

lemma add_arg_wf:
  "wf_cmd b c \<Longrightarrow> wf_word b w \<Longrightarrow> leaf_args c = Some n \<Longrightarrow> Suc n < MAXARGS \<Longrightarrow> wf_cmd b (add_arg w c) \<and> leaf_args (add_arg w c) = Some (Suc n)"
  by (induction c) auto

lemma redir_of_wf:
  "wf_cmd b c \<Longrightarrow> wf_word b w \<Longrightarrow> wf_cmd b (redir_of tok c w)" "leaf_args (redir_of tok c w) = leaf_args c"
  by (auto simp: redir_of_def)

lemma parseredirs_ok:
  "parseredirs b c ps = Inr (c', ps') \<Longrightarrow> at_tok b ps \<Longrightarrow> wf_cmd b c \<Longrightarrow> ps \<le> ps' \<and> at_tok b ps' \<and> wf_cmd b c' \<and> leaf_args c' = leaf_args c"
proof (induction b c ps rule: parseredirs.induct)
  case (1 b c ps)
  obtain hit ps1 where pk: "peek b ps [0x3c, 0x3e] = (hit, ps1)" by fastforce
  have ps1: "ps \<le> ps1" "at_tok b ps1" using peek_hit(1) [OF pk] at_tok_peek(1) [OF pk] 1(3) by simp_all
  show ?case
  proof (cases hit)
    case False
    then have "c' = c" "ps' = ps1" using 1(2) pk by (simp_all add: parseredirs.simps)
    then show ?thesis using ps1 1(4) by simp
  next
    case True
    obtain tok q eq ps2 where g: "gettoken b ps1 = (tok, q, eq, ps2)" by (metis prod_cases4)
    obtain a q' eq' ps3 where g': "gettoken b ps2 = (a, q', eq', ps3)" by (metis prod_cases4)
    note p2 = gettoken_moves [OF g ps1(2)]
    then have p3: "ps2 \<le> ps3" "at_tok b ps3" using gettoken_moves [OF g'] by simp_all
    have a: "a = 0x61" "parseredirs b (redir_of tok c (q', eq')) ps3 = Inr (c', ps')"
      using 1(2) pk True g g' by (auto simp: parseredirs.simps [of b c ps] split: if_splits)
    have "wf_word b (q', eq')" using gettoken_word g' a(1) p2 by blast
    then have "wf_cmd b (redir_of tok c (q', eq'))" using 1(4) by (simp add: redir_of_wf)
    then show ?thesis using 1(1) [OF pk [symmetric] True g [symmetric] refl refl g' [symmetric] refl refl] a p2 p3 ps1 by (simp add: redir_of_wf)
  qed
qed

lemma exec_loop_ok:
  "exec_loop b n c ps = Inr (c', ps') \<Longrightarrow> at_tok b ps \<Longrightarrow> wf_cmd b c \<Longrightarrow> leaf_args c = Some n \<Longrightarrow> ps \<le> ps' \<and> at_tok b ps' \<and> wf_cmd b c'"
proof (induction b n c ps rule: exec_loop.induct)
  case (1 b n c ps)
  obtain hit ps1 where pk: "peek b ps [0x7c, 0x29, 0x26, 0x3b] = (hit, ps1)" by fastforce
  have ps1: "ps \<le> ps1" "at_tok b ps1" using peek_hit(1) [OF pk] at_tok_peek(1) [OF pk] 1(3) by simp_all
  obtain tok q eq ps2 where g: "gettoken b ps1 = (tok, q, eq, ps2)" by (metis prod_cases4)
  note p2 = gettoken_moves [OF g ps1(2)]
  show ?case
  proof (cases "hit \<or> tok = 0")
    case True
    then have "c' = c" "ps' = ps1 \<or> ps' = ps2" using 1(2) pk g by (auto simp: exec_loop.simps split: if_splits)
    then show ?thesis using ps1 p2 1(4) by auto
  next
    case False
    then have a: "tok = 0x61" "Suc n < MAXARGS" using 1(2) pk g by (auto simp: exec_loop.simps split: if_splits)
    then obtain r ps3 where r: "parseredirs b (add_arg (q, eq) c) ps2 = Inr (r, ps3)" "exec_loop b (Suc n) r ps3 = Inr (c', ps')"
      using 1(2) pk g False by (auto simp: exec_loop.simps [of b n c ps] split: if_splits sum.splits)
    have w: "wf_word b (q, eq)" using gettoken_word g a(1) ps1(2) by blast
    note aa = add_arg_wf [OF 1(4) w 1(5) a(2)]
    have ok: "ps2 \<le> ps3 \<and> at_tok b ps3 \<and> wf_cmd b r \<and> leaf_args r = Some (Suc n)" using parseredirs_ok [OF r(1)] p2 aa by simp
    from 1(1) [OF pk [symmetric] _ g [symmetric] refl refl _ _ _ r(1) refl r(2)] show ?thesis using ok False a p2 ps1 by simp
  qed
qed

lemma back_loop_ok:
  "back_loop b c ps = (c', ps') \<Longrightarrow> at_tok b ps \<Longrightarrow> wf_cmd b c \<Longrightarrow> ps \<le> ps' \<and> at_tok b ps' \<and> wf_cmd b c'"
proof (induction b c ps rule: back_loop.induct)
  case (1 b c ps)
  obtain hit ps1 where pk: "peek b ps [0x26] = (hit, ps1)" by fastforce
  have ps1: "ps \<le> ps1" "at_tok b ps1" using peek_hit(1) [OF pk] at_tok_peek(1) [OF pk] 1(3) by simp_all
  show ?case
  proof (cases hit)
    case False
    then show ?thesis using 1(2,4) pk ps1 by (simp add: back_loop.simps)
  next
    case True
    then have "peek b ps [0x26] = (True, ps1)" using pk by simp
    note n = next_pos_advances(1) [OF this] at_tok_peek(2) [OF this 1(3)]
    have "back_loop b (BACK c) (next_pos b ps1) = (c', ps')" using 1(2) pk True by (simp add: back_loop.simps [of b c ps])
    from 1(1) [OF pk [symmetric] True this] show ?thesis using n ps1 1(4) by simp
  qed
qed

definition parse_ok :: "byte list \<Rightarrow> nat \<Rightarrow> cmd parsed option \<Rightarrow> bool" where
  "parse_ok b ps r \<longleftrightarrow> (\<forall>c ps'. r = Some (Inr (c, ps')) \<longrightarrow> ps \<le> ps' \<and> at_tok b ps' \<and> wf_cmd b c)"

lemma parse_ok_pbind:
  assumes "parse_ok b ps r" "\<And>c ps'. r = Some (Inr (c, ps')) \<Longrightarrow> ps \<le> ps' \<Longrightarrow> at_tok b ps' \<Longrightarrow> wf_cmd b c \<Longrightarrow> parse_ok b ps (f c ps')"
  shows "parse_ok b ps (pbind r f)"
  using assms by (auto simp: parse_ok_def pbind_def split: option.splits sum.splits)

lemma parse_ok_mono: "parse_ok b ps r \<Longrightarrow> ps' \<le> ps \<Longrightarrow> parse_ok b ps' r"
  by (fastforce simp: parse_ok_def)

lemma parse_okI: "ps \<le> ps' \<Longrightarrow> at_tok b ps' \<Longrightarrow> wf_cmd b c \<Longrightarrow> parse_ok b ps (Some (Inr (c, ps')))"
  by (simp add: parse_ok_def)

lemma parse_results:
  "at_tok b ps \<Longrightarrow> parse_ok b ps (parseline n b ps) \<and> parse_ok b ps (parsepipe n b ps) \<and> parse_ok b ps (parseexec n b ps) \<and> parse_ok b ps (parseblock n b ps)"
proof (induction n arbitrary: ps)
  case 0
  then show ?case by (simp add: parse_ok_def)
next
  case (Suc n)
  have step: "parse_ok b ps (case peek b ps1 toks of (hit, ps2) \<Rightarrow>
      if hit then pbind (p n b (next_pos b ps2)) (\<lambda>r ps. Some (Inr (K r, ps))) else Some (Inr (c, ps2)))"
    if ps1: "ps \<le> ps1" "at_tok b ps1" and wf: "wf_cmd b c" "\<And>r. wf_cmd b r \<Longrightarrow> wf_cmd b (K r)"
      and p: "\<And>ps. at_tok b ps \<Longrightarrow> parse_ok b ps (p n b ps)" for p ps1 toks K c
  proof (cases "peek b ps1 toks")
    case (Pair hit ps2)
    have ps2: "ps \<le> ps2" "at_tok b ps2" using peek_ge [OF Pair] at_tok_peek(1) [OF Pair ps1(2)] ps1(1) by simp_all
    show ?thesis
    proof (cases hit)
      case True
      then have pk: "peek b ps1 toks = (True, ps2)" using Pair by simp
      have n: "ps \<le> next_pos b ps2" "at_tok b (next_pos b ps2)" using next_pos_advances(1) [OF pk] at_tok_peek(2) [OF pk ps1(2)] ps2(1) by simp_all
      have "parse_ok b ps (pbind (p n b (next_pos b ps2)) (\<lambda>r ps. Some (Inr (K r, ps))))"
        by (rule parse_ok_pbind [OF parse_ok_mono [OF p [OF n(2)] n(1)]]) (rule parse_okI [OF _ _ wf(2)])
      then show ?thesis using pk by simp
    next
      case False
      then show ?thesis using Pair parse_okI [OF ps2 wf(1)] by simp
    qed
  qed
  have "parse_ok b ps (parsepipe (Suc n) b ps)"
    unfolding parsepipe.simps using Suc by (intro parse_ok_pbind step) simp_all
  moreover have "parse_ok b ps (parseline (Suc n) b ps)"
    unfolding parseline.simps
  proof (rule parse_ok_pbind)
    show "parse_ok b ps (parsepipe n b ps)" using Suc by simp
    fix c ps1
    assume 1: "ps \<le> ps1" "at_tok b ps1" "wf_cmd b c"
    obtain c' ps2 where bl: "back_loop b c ps1 = (c', ps2)" by fastforce
    have "ps \<le> ps2" "at_tok b ps2" "wf_cmd b c'" using back_loop_ok [OF bl 1(2,3)] 1(1) by simp_all
    then show "parse_ok b ps (case back_loop b c ps1 of (c, ps1) \<Rightarrow> case peek b ps1 [0x3b] of (hit, ps2) \<Rightarrow>
        if hit then pbind (parseline n b (next_pos b ps2)) (\<lambda>right ps. Some (Inr (LIST c right, ps))) else Some (Inr (c, ps2)))"
      unfolding bl prod.case using Suc.IH by (intro step) simp_all
  qed
  moreover have "parse_ok b ps (parseexec (Suc n) b ps)"
  proof -
    obtain hit ps1 where pk: "peek b ps [0x28] = (hit, ps1)" by fastforce
    have ps1: "ps \<le> ps1" "at_tok b ps1" using peek_hit(1) [OF pk] Suc.prems by simp_all
    have "parse_ok b ps (pbind (Some (parseredirs b (EXEC []) ps1)) (\<lambda>ret ps. Some (exec_loop b 0 ret ps)))"
      unfolding parse_ok_def
    proof (intro allI impI)
      fix c ps'
      assume "pbind (Some (parseredirs b (EXEC []) ps1)) (\<lambda>ret ps. Some (exec_loop b 0 ret ps)) = Some (Inr (c, ps'))"
      then obtain r ps2 where r: "parseredirs b (EXEC []) ps1 = Inr (r, ps2)" "exec_loop b 0 r ps2 = Inr (c, ps')"
        by (auto simp: pbind_def split: sum.splits)
      have "ps1 \<le> ps2 \<and> at_tok b ps2 \<and> wf_cmd b r \<and> leaf_args r = Some 0" using parseredirs_ok [OF r(1) ps1(2)] by (simp add: MAXARGS_def)
      then show "ps \<le> ps' \<and> at_tok b ps' \<and> wf_cmd b c" using exec_loop_ok [OF r(2)] ps1 by simp
    qed
    then show ?thesis using Suc.IH [OF ps1(2)] ps1(1) pk by (auto intro: parse_ok_mono)
  qed
  moreover have "parse_ok b ps (parseblock (Suc n) b ps)"
  proof (cases "peek b ps [0x28]")
    case (Pair hit ps1)
    show ?thesis
    proof (cases hit)
      case False
      then show ?thesis using Pair by (simp add: parse_ok_def)
    next
      case True
      then have pk: "peek b ps [0x28] = (True, ps1)" using Pair by simp
      have ps1: "ps \<le> next_pos b ps1" "at_tok b (next_pos b ps1)" 
        using next_pos_advances(1) [OF pk] peek_ge [OF pk] at_tok_peek(2) [OF pk Suc.prems] by simp_all
      have "parse_ok b ps (case peek b ps2 [0x29] of (hit, ps) \<Rightarrow>
          if \<not> hit then Some (Inl ''syntax - missing )'') else Some (parseredirs b c (next_pos b ps)))"
        if "ps \<le> ps2" "at_tok b ps2" "wf_cmd b c" for c ps2
      proof (cases "peek b ps2 [0x29]")
        case (Pair hit ps3)
        then show ?thesis
        proof (cases hit)
          case True
          then have pk': "peek b ps2 [0x29] = (True, ps3)" using Pair by simp
          have "ps \<le> next_pos b ps3" "at_tok b (next_pos b ps3)"
            using next_pos_advances(1) [OF pk'] peek_ge [OF pk'] at_tok_peek(2) [OF pk' that(2)] that(1) by simp_all
          then show ?thesis using pk' parseredirs_ok [of b c "next_pos b ps3"] that(3) by (fastforce simp: parse_ok_def)
        qed (simp add: parse_ok_def)
      qed
      then show ?thesis using pk Suc.IH [OF ps1(2)] ps1(1) by (auto intro!: parse_ok_pbind intro: parse_ok_mono)
    qed
  qed
  ultimately show ?case by blast
qed

text \<open>Each function needs a step of its own, and a whole turn of the four takes a character.\<close>

lemma pbind_returns: "r \<noteq> None \<Longrightarrow> (\<And>c ps. r = Some (Inr (c, ps)) \<Longrightarrow> f c ps \<noteq> None) \<Longrightarrow> pbind r f \<noteq> None"
  by (auto simp: pbind_def split: option.splits sum.splits)

lemma parse_enough_fuel:
  "at_tok b ps \<Longrightarrow> (4 * (length b - ps) + 3 < n \<longrightarrow> parseline n b ps \<noteq> None) \<and> (4 * (length b - ps) + 2 < n \<longrightarrow> parsepipe n b ps \<noteq> None)
    \<and> (4 * (length b - ps) + 1 < n \<longrightarrow> parseexec n b ps \<noteq> None) \<and> (4 * (length b - ps) < n \<longrightarrow> parseblock n b ps \<noteq> None)"
proof (induction n arbitrary: ps)
  case (Suc n)
  have shorter: "at_tok b (next_pos b ps2) \<and> 4 * (length b - next_pos b ps2) + 4 \<le> 4 * (length b - ps)"
    if "ps \<le> ps1" "at_tok b ps1" "peek b ps1 toks = (True, ps2)" for ps1 ps2 toks
    using next_pos_advances [OF that(3)] peek_ge [OF that(3)] at_tok_peek(2) [OF that(3,2)] at_tok_le [OF that(2)] that(1) by simp
  show ?case
  proof (intro conjI impI)
    assume n: "4 * (length b - ps) + 3 < Suc n"
    have "(case back_loop b c ps1 of (c, ps1) \<Rightarrow> case peek b ps1 [0x3b] of (hit, ps2) \<Rightarrow>
        if hit then pbind (parseline n b (next_pos b ps2)) (\<lambda>right ps. Some (Inr (LIST c right, ps))) else Some (Inr (c, ps2))) \<noteq> None"
      if "ps \<le> ps1" "at_tok b ps1" "wf_cmd b c" for ps1 c
    proof -
      obtain c' ps2 where bl: "back_loop b c ps1 = (c', ps2)" by fastforce
      obtain hit ps3 where pk: "peek b ps2 [0x3b] = (hit, ps3)" by fastforce
      have "ps \<le> ps2" "at_tok b ps2" using back_loop_ok [OF bl] that by simp_all
      then show ?thesis using shorter [of ps2 "[0x3b]" ps3] Suc.IH [of "next_pos b ps3"] n bl pk by (auto simp: pbind_def split: sum.splits prod.splits)
    qed
    moreover have "parsepipe n b ps \<noteq> None" using Suc n by simp
    ultimately show "parseline (Suc n) b ps \<noteq> None"
      using parse_results [OF Suc.prems, of n] unfolding parseline.simps by (intro pbind_returns) (auto simp: parse_ok_def)
  next
    assume n: "4 * (length b - ps) + 2 < Suc n"
    have "(case peek b ps1 [0x7c] of (hit, ps2) \<Rightarrow>
        if hit then pbind (parsepipe n b (next_pos b ps2)) (\<lambda>right ps. Some (Inr (PIPE c right, ps))) else Some (Inr (c, ps2))) \<noteq> None"
      if "ps \<le> ps1" "at_tok b ps1" for ps1 c
    proof -
      obtain hit ps3 where pk: "peek b ps1 [0x7c] = (hit, ps3)" by fastforce
      then show ?thesis using shorter [of ps1 "[0x7c]" ps3] Suc.IH [of "next_pos b ps3"] n that by (auto simp: pbind_def split: sum.splits prod.splits)
    qed
    moreover have "parseexec n b ps \<noteq> None" using Suc n by simp
    ultimately show "parsepipe (Suc n) b ps \<noteq> None"
      using parse_results [OF Suc.prems, of n] unfolding parsepipe.simps by (intro pbind_returns) (auto simp: parse_ok_def)
  next
    assume n: "4 * (length b - ps) + 1 < Suc n"
    obtain hit ps1 where pk: "peek b ps [0x28] = (hit, ps1)" by fastforce
    have "ps \<le> ps1" "at_tok b ps1" using peek_hit(1) [OF pk] Suc.prems by simp_all
    then have "parseblock n b ps1 \<noteq> None" using Suc.IH [of ps1] n by simp
    then show "parseexec (Suc n) b ps \<noteq> None" using pk by (auto simp: pbind_def split: sum.splits prod.splits)
  next
    assume n: "4 * (length b - ps) < Suc n"
    obtain hit ps1 where pk: "peek b ps [0x28] = (hit, ps1)" by fastforce
    have "parseline n b (next_pos b ps1) \<noteq> None" if hit
      using shorter [of ps "[0x28]" ps1] Suc.IH [of "next_pos b ps1"] n pk that Suc.prems by simp
    then show "parseblock (Suc n) b ps \<noteq> None" using pk by (auto simp: pbind_def split: sum.splits prod.splits)
  qed
qed simp

section \<open>The words in memory\<close>

primrec words :: "cmd \<Rightarrow> word_at list" where
  "words (EXEC ws) = ws"
| "words (REDIR c f mode fd) = words c @ [f]"
| "words (PIPE l r) = words l @ words r"
| "words (LIST l r) = words l @ words r"
| "words (BACK c) = words c"

definition slice :: "byte list \<Rightarrow> word_at \<Rightarrow> byte list" where
  "slice b w = take (snd w - fst w) (drop (fst w) b)"

lemma wf_words: "wf_cmd b c \<Longrightarrow> w \<in> set (words c) \<Longrightarrow> wf_word b w"
  by (induction c) (auto simp: list_all_iff)

lemma nulterminate_fold: "nulterminate c m = fold (\<lambda>w m. m[snd w := 0]) (words c) m"
  by (induction c arbitrary: m) auto

lemma fold_nuls:
  "length (fold (\<lambda>w m. m[snd w := 0]) ws m) = length m"
  "i < length m \<Longrightarrow> fold (\<lambda>w m. m[snd w := 0]) ws m ! i = (if i \<in> snd ` set ws then 0 else m ! i)"
proof (induction ws arbitrary: m)
  case (Cons w ws)
  {
    case 1
    then show ?case using Cons.IH(1) by simp
  next
    case 2
    then show ?case using Cons.IH(2) [of "m[snd w := 0]"] by (auto simp: nth_list_update)
  }
qed simp_all

lemma takeWhile_slice:
  assumes "q \<le> e" "e < length m" "m ! e = 0" "\<And>i. q \<le> i \<Longrightarrow> i < e \<Longrightarrow> m ! i \<noteq> 0"
  shows "ustr m q = take (e - q) (drop q m)"
proof -
  have "drop q m = take (e - q) (drop q m) @ m ! e # drop (Suc e) m"
    using id_take_nth_drop [of "e - q" "drop q m"] assms(1,2) by simp
  moreover have "\<forall>c \<in> set (take (e - q) (drop q m)). c \<noteq> 0" using assms(1,2,4) by (auto simp: in_set_conv_nth)
  ultimately show ?thesis unfolding ustr_def using assms(3) by (metis (mono_tags, lifting) takeWhile_append2 takeWhile.simps(2) append_Nil2)
qed

lemma nulterminate_words:
  assumes "wf_cmd b c" "0 \<notin> set b" "w \<in> set (words c)"
  shows "ustr (nulterminate c (b @ [0])) (fst w) = slice b w"
proof -
  let ?m = "nulterminate c (b @ [0])"
  obtain q e where w: "w = (q, e)" by fastforce
  have wf: "q < e" "e \<le> length b" "\<And>i. q \<le> i \<Longrightarrow> i < e \<Longrightarrow> word_byte (b ! i)" using wf_words [OF assms(1,3)] by (simp_all add: wf_word_def w)
  have m: "length ?m = Suc (length b)" "i < Suc (length b) \<Longrightarrow> ?m ! i = (if i \<in> snd ` set (words c) then 0 else (b @ [0]) ! i)" for i
    unfolding nulterminate_fold by (simp_all add: fold_nuls)
  have ends: "\<not> word_byte (b ! i)" if "i \<in> snd ` set (words c)" "i < length b" for i
    using that wf_words [OF assms(1)] unfolding wf_word_def by fastforce
  have keep: "?m ! i = b ! i" if "q \<le> i" "i < e" for i
    using ends [of i] that wf(1,2) wf(3) [OF that] m(2) [of i] by (auto simp: nth_append)
  have "e \<in> snd ` set (words c)" using assms(3) w by force
  then have "?m ! e = 0" using m(2) [of e] wf(2) by simp
  moreover have "?m ! i \<noteq> 0" if "q \<le> i" "i < e" for i using keep [OF that] assms(2) that wf(2) by (metis nth_mem order_less_le_trans)
  ultimately have "ustr ?m q = take (e - q) (drop q ?m)" using wf m(1) by (intro takeWhile_slice) auto
  also have "\<dots> = take (e - q) (drop q b)" using wf m(1) keep by (intro nth_equalityI) auto
  finally show ?thesis by (simp add: w slice_def)
qed

section \<open>Command trees as text\<close>

text \<open>A command with its words spelled out, and the line that writes it: every part of a compound command goes in parentheses.\<close>

datatype tree =
    TExec "byte list list"
  | TRedir tree "byte list" uint32 int
  | TPipe tree tree
  | TList tree tree
  | TBack tree

primrec cmd_tree :: "byte list \<Rightarrow> cmd \<Rightarrow> tree" where
  "cmd_tree b (EXEC ws) = TExec (map (slice b) ws)"
| "cmd_tree b (REDIR c f mode fd) = TRedir (cmd_tree b c) (slice b f) mode fd"
| "cmd_tree b (PIPE l r) = TPipe (cmd_tree b l) (cmd_tree b r)"
| "cmd_tree b (LIST l r) = TList (cmd_tree b l) (cmd_tree b r)"
| "cmd_tree b (BACK c) = TBack (cmd_tree b c)"

definition redir_op :: "uint32 \<Rightarrow> byte list" where
  "redir_op mode = (if mode = O_RDONLY then [0x3c] else if mode = O_WRONLY OR O_CREATE then [0x3e, 0x3e] else [0x3e])"

fun spaced :: "byte list list \<Rightarrow> byte list" where
  "spaced [] = []"
| "spaced [w] = w"
| "spaced (w # ws) = w @ [0x20] @ spaced ws"

primrec show_tree :: "tree \<Rightarrow> byte list" where
  "show_tree (TExec ws) = spaced ws"
| "show_tree (TRedir t f mode fd) = 0x28 # show_tree t @ 0x29 # redir_op mode @ f"
| "show_tree (TPipe l r) = 0x28 # show_tree l @ 0x29 # 0x7c # 0x28 # show_tree r @ [0x29]"
| "show_tree (TList l r) = 0x28 # show_tree l @ 0x29 # 0x3b # 0x28 # show_tree r @ [0x29]"
| "show_tree (TBack t) = 0x28 # show_tree t @ [0x29, 0x26]"

definition word_char :: "byte \<Rightarrow> bool" where
  "word_char c \<longleftrightarrow> c \<noteq> 0 \<and> c \<notin> set whitespace \<and> c \<notin> set symbols"

definition word_ok :: "byte list \<Rightarrow> bool" where
  "word_ok w \<longleftrightarrow> w \<noteq> [] \<and> list_all word_char w"

primrec tree_ok :: "tree \<Rightarrow> bool" where
  "tree_ok (TExec ws) = (length ws < MAXARGS \<and> list_all word_ok ws)"
| "tree_ok (TRedir t f mode fd) = (tree_ok t \<and> word_ok f
     \<and> (mode, fd) \<in> {(O_RDONLY, 0), (O_WRONLY OR O_CREATE OR O_TRUNC, 1), (O_WRONLY OR O_CREATE, 1)})"
| "tree_ok (TPipe l r) = (tree_ok l \<and> tree_ok r)"
| "tree_ok (TList l r) = (tree_ok l \<and> tree_ok r)"
| "tree_ok (TBack t) = tree_ok t"

text \<open>A piece of the line at a position, and the places where a subcommand ends.\<close>

definition seg :: "byte list \<Rightarrow> nat \<Rightarrow> byte list \<Rightarrow> bool" where
  "seg b p xs \<longleftrightarrow> (\<exists>u v. b = u @ xs @ v \<and> length u = p)"

definition on :: "byte list \<Rightarrow> nat \<Rightarrow> byte \<Rightarrow> bool" where
  "on b p c \<longleftrightarrow> p < length b \<and> b ! p = c"

definition stop :: "byte list \<Rightarrow> nat \<Rightarrow> bool" where
  "stop b p \<longleftrightarrow> p = length b \<or> on b p 0x29"

lemma seg_append: "seg b p (xs @ ys) \<Longrightarrow> seg b p xs" "seg b p (xs @ ys) \<Longrightarrow> seg b (p + length xs) ys"
proof -
  assume "seg b p (xs @ ys)"
  then obtain u v where u: "b = u @ xs @ ys @ v" "length u = p" by (auto simp: seg_def)
  then show "seg b p xs" unfolding seg_def by (intro exI [of _ u] exI [of _ "ys @ v"]) simp
  show "seg b (p + length xs) ys" unfolding seg_def using u by (intro exI [of _ "u @ xs"] exI [of _ v]) simp
qed

lemma seg_Cons: "seg b p (c # xs) \<Longrightarrow> on b p c" "seg b p (c # xs) \<Longrightarrow> seg b (Suc p) xs"
proof -
  assume s: "seg b p (c # xs)"
  then obtain u v where u: "b = u @ (c # xs) @ v" "length u = p" by (auto simp: seg_def)
  then show "on b p c" by (auto simp: on_def nth_append)
  show "seg b (Suc p) xs" using seg_append(2) [of b p "[c]" xs] s by simp
qed

lemma seg_slice: "seg b p w \<Longrightarrow> slice b (p, p + length w) = w"
  by (auto simp: seg_def slice_def)

lemma skip_ws_on: "on b p c \<Longrightarrow> c \<notin> set whitespace \<Longrightarrow> skip_ws b p = p"
  by (subst skip_ws.simps) (auto simp: on_def)

lemma skip_ws_end: "skip_ws b (length b) = length b"
  by (subst skip_ws.simps) simp

lemma skip_ws_space: "on b p 0x20 \<Longrightarrow> skip_ws b p = skip_ws b (Suc p)"
  by (subst skip_ws.simps) (auto simp: on_def whitespace_def)

lemma peek_on: "on b p c \<Longrightarrow> c \<notin> set whitespace \<Longrightarrow> peek b p toks = (c \<noteq> 0 \<and> c \<in> set toks, p)"
  using skip_ws_on [of b p c] by (auto simp: peek_def Let_def char_at_def on_def)

lemma stop_skip [simp]: "stop b p \<Longrightarrow> skip_ws b p = p"
  by (auto simp: stop_def skip_ws_end whitespace_def intro: skip_ws_on)

lemma peek_stop: "stop b p \<Longrightarrow> 0x29 \<notin> set toks \<Longrightarrow> peek b p toks = (False, p)"
  by (auto simp: stop_def peek_on whitespace_def) (simp add: peek_def skip_ws_end char_at_def)

lemma next_pos_on:
  "on b p c \<Longrightarrow> c \<in> {0x7c, 0x28, 0x29, 0x3b, 0x26} \<Longrightarrow> next_pos b p = skip_ws b (Suc p)"
proof -
  assume "on b p c" "c \<in> {0x7c, 0x28, 0x29, 0x3b, 0x26}"
  moreover from this have "skip_ws b p = p" using skip_ws_on [of b p c] by (auto simp: whitespace_def)
  ultimately show ?thesis by (auto simp: next_pos_def gettoken_def Let_def char_at_def on_def)
qed

lemma word_end_seg:
  assumes "seg b p w" "list_all word_char w" "p + length w = length b \<or> b ! (p + length w) \<in> set whitespace \<union> set symbols"
  shows "word_end b p = p + length w"
  using assms
proof (induction w arbitrary: p)
  case Nil
  then show ?case by (subst word_end.simps) auto
next
  case (Cons c w)
  have "on b p c" "word_end b (Suc p) = Suc p + length w" using Cons seg_Cons [OF Cons.prems(1)] by simp_all
  then show ?case using Cons.prems(2) by (subst word_end.simps) (auto simp: on_def word_char_def)
qed

lemma gettoken_seg:
  assumes w: "seg b p w" "word_ok w" and e: "p + length w = length b \<or> b ! (p + length w) \<in> set whitespace \<union> set symbols"
  shows "gettoken b p = (0x61, p, p + length w, skip_ws b (p + length w))"
proof -
  obtain c w' where cw: "w = c # w'" using w(2) by (cases w) (auto simp: word_ok_def)
  then have c: "on b p c" "word_char c" using seg_Cons w by (auto simp: word_ok_def)
  then have "skip_ws b p = p" by (auto intro!: skip_ws_on simp: word_char_def)
  moreover have "word_end b p = p + length w" using w e by (intro word_end_seg) (auto simp: word_ok_def)
  ultimately show ?thesis using c by (auto simp: gettoken_def Let_def char_at_def on_def word_char_def symbols_def)
qed

lemma word_okD:
  assumes "seg b p w" "word_ok w"
  shows "\<exists>c. on b p c \<and> word_char c" "skip_ws b p = p"
proof -
  obtain c w' where "w = c # w'" using assms(2) by (cases w) (auto simp: word_ok_def)
  then have c: "on b p c" "word_char c" using seg_Cons assms by (auto simp: word_ok_def)
  then show "\<exists>c. on b p c \<and> word_char c" by blast
  show "skip_ws b p = p" using c by (auto intro!: skip_ws_on simp: word_char_def)
qed

lemma peek_word: "seg b p w \<Longrightarrow> word_ok w \<Longrightarrow> set toks \<subseteq> set symbols \<Longrightarrow> peek b p toks = (False, p)"
  using word_okD(1) [of b p w] by (auto simp: peek_on word_char_def)

lemma stop_end: "stop b p \<Longrightarrow> p = length b \<or> b ! p \<in> set whitespace \<union> set symbols"
  by (auto simp: stop_def on_def symbols_def)

lemma parseredirs_none: "peek b p [0x3c, 0x3e] = (False, p) \<Longrightarrow> parseredirs b c p = Inr (c, p)"
  by (subst parseredirs.simps) simp

lemma seg_spaced:
  assumes "seg b p (spaced (w # ws))" "ws \<noteq> []"
  shows "on b (p + length w) 0x20" "seg b (Suc (p + length w)) (spaced ws)" "length (spaced (w # ws)) = Suc (length w + length (spaced ws))"
proof -
  have s: "spaced (w # ws) = w @ 0x20 # spaced ws" using assms(2) by (cases ws) auto
  then have "seg b (p + length w) (0x20 # spaced ws)" using seg_append(2) [of b p w] assms(1) by simp
  then show "on b (p + length w) 0x20" "seg b (Suc (p + length w)) (spaced ws)" by (simp_all add: seg_Cons)
  show "length (spaced (w # ws)) = Suc (length w + length (spaced ws))" by (simp add: s)
qed

lemma seg_first: "seg b p (spaced (w # ws)) \<Longrightarrow> seg b p w"
  by (cases ws) (auto dest: seg_append(1))

lemma exec_words:
  assumes "seg b p (spaced ws)" "list_all word_ok ws" "n + length ws < MAXARGS" "stop b (p + length (spaced ws))"
  shows "\<exists>vs. exec_loop b n (EXEC us) p = Inr (EXEC (us @ vs), p + length (spaced ws)) \<and> map (slice b) vs = ws"
  using assms
proof (induction ws arbitrary: p n us)
  case Nil
  then have s: "stop b p" by simp
  have "exec_loop b n (EXEC us) p = Inr (EXEC us, p)"
  proof (cases "p = length b")
    case True
    then have "peek b p [0x7c, 0x29, 0x26, 0x3b] = (False, p)" "gettoken b p = (0, p, p, p)"
      by (simp_all add: peek_def gettoken_def skip_ws_end char_at_def Let_def)
    then show ?thesis by (subst exec_loop.simps) simp
  next
    case False
    then have "peek b p [0x7c, 0x29, 0x26, 0x3b] = (True, p)" using s by (auto simp: stop_def peek_on whitespace_def)
    then show ?thesis by (subst exec_loop.simps) simp
  qed
  then show ?case by simp
next
  case (Cons w ws)
  let ?e = "p + length w"
  have w: "seg b p w" "word_ok w" using Cons.prems(1,2) by (simp_all add: seg_first)
  have pk: "peek b p [0x7c, 0x29, 0x26, 0x3b] = (False, p)" using peek_word [OF w] by (simp add: symbols_def)
  obtain p' where p': "gettoken b p = (0x61, p, ?e, p')" "seg b p' (spaced ws)" "p' + length (spaced ws) = p + length (spaced (w # ws))"
      "peek b p' [0x3c, 0x3e] = (False, p')"
  proof (cases "ws = []")
    case True
    then have s: "stop b ?e" using Cons.prems(4) by simp
    then have "gettoken b p = (0x61, p, ?e, ?e)" using gettoken_seg [OF w stop_end [OF s]] by simp
    moreover have "seg b ?e []" using seg_append(2) [of b p w "[]"] w(1) by simp
    ultimately show ?thesis using that [of ?e] True peek_stop [OF s, of "[0x3c, 0x3e]"] by simp
  next
    case False
    note sp = seg_spaced [OF Cons.prems(1) False]
    obtain v vs where ws: "ws = v # vs" using False by (cases ws) auto
    then have v: "seg b (Suc ?e) v" "word_ok v" using sp(2) Cons.prems(2) seg_first by auto
    have "gettoken b p = (0x61, p, ?e, Suc ?e)"
      using gettoken_seg [OF w] sp(1) skip_ws_space [OF sp(1)] word_okD(2) [OF v] by (simp add: on_def whitespace_def)
    then show ?thesis using that [of "Suc ?e"] sp(2,3) peek_word [OF v, of "[0x3c, 0x3e]"] by (simp add: symbols_def)
  qed
  have "parseredirs b (EXEC (us @ [(p, ?e)])) p' = Inr (EXEC (us @ [(p, ?e)]), p')" using p'(4) by (rule parseredirs_none)
  then have "exec_loop b n (EXEC us) p = exec_loop b (Suc n) (EXEC (us @ [(p, ?e)])) p'"
    using pk p'(1) Cons.prems(3) by (subst exec_loop.simps) simp
  moreover obtain vs where "exec_loop b (Suc n) (EXEC (us @ [(p, ?e)])) p' = Inr (EXEC ((us @ [(p, ?e)]) @ vs), p' + length (spaced ws))" "map (slice b) vs = ws"
    using Cons.IH [OF p'(2), of "Suc n" "us @ [(p, ?e)]"] Cons.prems p'(3) by auto
  ultimately show ?case using p'(3) seg_slice [OF w(1)] by (intro exI [of _ "(p, ?e) # vs"]) simp
qed

lemma redir_text:
  assumes "seg b p (redir_op mode @ f)" "word_ok f" "stop b (p + length (redir_op mode @ f))"
    and m: "(mode, fd) \<in> {(O_RDONLY, 0), (O_WRONLY OR O_CREATE OR O_TRUNC, 1), (O_WRONLY OR O_CREATE, 1)}"
  shows "\<exists>w. parseredirs b c p = Inr (REDIR c w mode fd, p + length (redir_op mode @ f)) \<and> slice b w = f"
proof -
  let ?q = "p + length (redir_op mode)" and ?e = "p + length (redir_op mode @ f)"
  have f: "seg b ?q f" using seg_append(2) [OF assms(1)] .
  obtain c0 where c0: "on b ?q c0" "word_char c0" using word_okD(1) [OF f assms(2)] by blast
  have op: "seg b p (redir_op mode)" using seg_append(1) [OF assms(1)] .
  have q: "skip_ws b ?q = ?q" by (rule word_okD(2) [OF f assms(2)])
  note modes = O_RDONLY_def O_WRONLY_def O_CREATE_def O_TRUNC_def
  obtain tok x where hd: "peek b p [0x3c, 0x3e] = (True, p)" and tok: "gettoken b p = (tok, p, x, ?q)" "redir_of tok c (?q, ?e) = REDIR c (?q, ?e) mode fd"
  proof -
    consider "mode = O_RDONLY" "fd = 0" "redir_op mode = [0x3c]"
      | "mode = O_WRONLY OR O_CREATE OR O_TRUNC" "fd = 1" "redir_op mode = [0x3e]"
      | "mode = O_WRONLY OR O_CREATE" "fd = 1" "redir_op mode = [0x3e, 0x3e]"
      using m by (auto simp: redir_op_def modes)
    then show ?thesis
    proof cases
      case 1
      then have o: "on b p 0x3c" "skip_ws b p = p" using op seg_Cons(1) [of b p "0x3c" "[]"] skip_ws_on [of b p "0x3c"] by (simp_all add: whitespace_def)
      have "gettoken b p = (0x3c, p, Suc p, ?q)" using o q 1 by (simp add: gettoken_def Let_def char_at_def on_def)
      then show ?thesis using that [of "0x3c" "Suc p"] o 1 by (simp add: peek_on whitespace_def redir_of_def)
    next
      case 2
      then have o: "on b p 0x3e" "skip_ws b p = p" using op seg_Cons(1) [of b p "0x3e" "[]"] skip_ws_on [of b p "0x3e"] by (simp_all add: whitespace_def)
      have "char_at b (Suc p) \<noteq> 0x3e" using c0 2 by (auto simp: on_def char_at_def word_char_def symbols_def)
      then have "gettoken b p = (0x3e, p, Suc p, ?q)" using o q 2 by (simp add: gettoken_def Let_def char_at_def on_def)
      then show ?thesis using that [of "0x3e" "Suc p"] o 2 by (simp add: peek_on whitespace_def redir_of_def)
    next
      case 3
      then have o: "on b p 0x3e" "skip_ws b p = p" "on b (Suc p) 0x3e"
        using op seg_Cons [of b p "0x3e" "[0x3e]"] seg_Cons(1) [of b "Suc p" "0x3e" "[]"] skip_ws_on [of b p "0x3e"] by (simp_all add: whitespace_def)
      have "gettoken b p = (0x2b, p, Suc (Suc p), ?q)" using o q 3 by (simp add: gettoken_def Let_def char_at_def on_def)
      then show ?thesis using that [of "0x2b" "Suc (Suc p)"] o 3 by (simp add: peek_on whitespace_def redir_of_def)
    qed
  qed
  have "gettoken b ?q = (0x61, ?q, ?e, ?e)" using gettoken_seg [OF f assms(2)] stop_end [OF assms(3)] assms(3) by (simp add: add.assoc)
  then have "parseredirs b c p = parseredirs b (REDIR c (?q, ?e) mode fd) ?e" using hd tok by (subst parseredirs.simps) simp
  also have "\<dots> = Inr (REDIR c (?q, ?e) mode fd, ?e)" using peek_stop [OF assms(3), of "[0x3c, 0x3e]"] by (intro parseredirs_none) simp
  finally show ?thesis using seg_slice [OF f] by (auto simp: add.assoc)
qed

text \<open>What the four functions do with a subcommand in parentheses.\<close>

definition parses :: "(nat \<Rightarrow> byte list \<Rightarrow> nat \<Rightarrow> cmd parsed option) \<Rightarrow> byte list \<Rightarrow> nat \<Rightarrow> tree \<Rightarrow> nat \<Rightarrow> bool" where
  "parses f b p t e \<longleftrightarrow> (\<exists>n0. \<forall>n \<ge> n0. \<exists>c. f n b p = Some (Inr (c, e)) \<and> cmd_tree b c = t)"

lemma parses_Suc:
  assumes "parses f b p t e" "\<And>n c. f n b p = Some (Inr (c, e)) \<Longrightarrow> cmd_tree b c = t \<Longrightarrow> \<exists>c'. g (Suc n) b p' = Some (Inr (c', e')) \<and> cmd_tree b c' = t'"
  shows "parses g b p' t' e'"
proof -
  obtain n0 where n0: "\<And>n. n0 \<le> n \<Longrightarrow> \<exists>c. f n b p = Some (Inr (c, e)) \<and> cmd_tree b c = t" using assms(1) by (auto simp: parses_def)
  have "\<exists>c. g n b p' = Some (Inr (c, e')) \<and> cmd_tree b c = t'" if "Suc n0 \<le> n" for n
    using n0 [of "n - 1"] assms(2) [of "n - 1"] that by (cases n) auto
  then show ?thesis unfolding parses_def by blast
qed

lemma parses_Suc2:
  assumes "parses f b p t e" "parses h b p2 t2 e2"
    "\<And>n c d. f n b p = Some (Inr (c, e)) \<Longrightarrow> cmd_tree b c = t \<Longrightarrow> h n b p2 = Some (Inr (d, e2)) \<Longrightarrow> cmd_tree b d = t2 \<Longrightarrow>
      \<exists>c'. g (Suc n) b p' = Some (Inr (c', e')) \<and> cmd_tree b c' = t'"
  shows "parses g b p' t' e'"
proof -
  obtain n1 n2 where n0: "\<And>n. n1 \<le> n \<Longrightarrow> \<exists>c. f n b p = Some (Inr (c, e)) \<and> cmd_tree b c = t"
      "\<And>n. n2 \<le> n \<Longrightarrow> \<exists>c. h n b p2 = Some (Inr (c, e2)) \<and> cmd_tree b c = t2" using assms(1,2) by (auto simp: parses_def)
  have "\<exists>c. g n b p' = Some (Inr (c, e')) \<and> cmd_tree b c = t'" if "Suc (max n1 n2) \<le> n" for n
    using n0(1) [of "n - 1"] n0(2) [of "n - 1"] assms(3) [of "n - 1"] that by (cases n) fastforce+
  then show ?thesis unfolding parses_def by blast
qed

lemma parses_block:
  assumes p: "on b p 0x28" "skip_ws b (Suc p) = Suc p" and t: "parses parseline b (Suc p) t e" and e: "on b e 0x29"
    and r: "\<And>c. cmd_tree b c = t \<Longrightarrow> \<exists>c'. parseredirs b c (skip_ws b (Suc e)) = Inr (c', e') \<and> cmd_tree b c' = t'"
  shows "parses parseexec b p t' e'"
proof -
  have pk: "peek b p [0x28] = (True, p)" "peek b e [0x29] = (True, e)" using p e by (simp_all add: peek_on whitespace_def)
  have np: "next_pos b p = Suc p" "next_pos b e = skip_ws b (Suc e)" using next_pos_on [OF p(1)] next_pos_on [OF e] p(2) by simp_all
  have "parses parseblock b p t' e'"
  proof (rule parses_Suc [OF t])
    fix n c assume c: "parseline n b (Suc p) = Some (Inr (c, e))" "cmd_tree b c = t"
    then obtain c' where "parseredirs b c (skip_ws b (Suc e)) = Inr (c', e')" "cmd_tree b c' = t'" using r by blast
    then show "\<exists>c'. parseblock (Suc n) b p = Some (Inr (c', e')) \<and> cmd_tree b c' = t'" using pk np c(1) by (simp add: pbind_def)
  qed
  then show ?thesis by (rule parses_Suc) (simp add: pk)
qed

lemma parses_pipe:
  assumes "parses parseexec b p t e" "peek b e [0x7c] = (False, e)"
  shows "parses parsepipe b p t e"
  using assms(1) by (rule parses_Suc) (simp add: pbind_def assms(2))

lemma parses_line:
  assumes "parses parsepipe b p t e" "peek b e [0x26] = (False, e)" "peek b e [0x3b] = (False, e)"
  shows "parses parseline b p t e"
proof -
  have "back_loop b c e = (c, e)" for c using assms(2) by (subst back_loop.simps) simp
  note bl = this
  show ?thesis
  proof (rule parses_Suc [OF assms(1)])
    fix n c assume "parsepipe n b p = Some (Inr (c, e))" "cmd_tree b c = t"
    then show "\<exists>c'. parseline (Suc n) b p = Some (Inr (c', e)) \<and> cmd_tree b c' = t" by (simp add: pbind_def bl assms(3))
  qed
qed

lemma show_tree_start: "seg b p (show_tree t) \<Longrightarrow> tree_ok t \<Longrightarrow> stop b (p + length (show_tree t)) \<Longrightarrow> skip_ws b p = p"
proof (cases t)
  case (TExec ws)
  assume s: "seg b p (show_tree t)" "tree_ok t" "stop b (p + length (show_tree t))"
  show ?thesis
  proof (cases ws)
    case Nil
    then show ?thesis using s TExec by simp
  next
    case (Cons w vs)
    then have "seg b p w" "word_ok w" using s TExec seg_first by auto
    then show ?thesis by (rule word_okD(2))
  qed
qed (auto dest!: seg_Cons(1) intro!: skip_ws_on simp: whitespace_def)

lemma block_text:
  assumes IH: "\<And>p. seg b p (show_tree t) \<Longrightarrow> stop b (p + length (show_tree t)) \<Longrightarrow> parses parseline b p t (p + length (show_tree t))"
    and t: "tree_ok t" and s: "seg b p (0x28 # show_tree t @ 0x29 # rest)"
    and r: "\<And>c. cmd_tree b c = t \<Longrightarrow> \<exists>c'. parseredirs b c (skip_ws b (p + length (show_tree t) + 2)) = Inr (c', e') \<and> cmd_tree b c' = t'"
  shows "parses parseexec b p t' e'"
proof -
  let ?e = "Suc p + length (show_tree t)"
  have o: "on b p 0x28" and st: "seg b (Suc p) (show_tree t)" and e: "on b ?e 0x29"
    using seg_Cons [OF s] seg_append [of b "Suc p" "show_tree t" "0x29 # rest"] seg_Cons(1) [of b ?e "0x29" rest] by auto
  have stop: "stop b ?e" using e by (simp add: stop_def)
  show ?thesis using r by (intro parses_block [OF o show_tree_start [OF st t stop] IH [OF st stop] e]) simp
qed

lemma no_redir:
  assumes "on b p c" "c \<notin> set whitespace" "c \<noteq> 0x3c" "c \<noteq> 0x3e"
  shows "parseredirs b d (skip_ws b p) = Inr (d, p)"
  using assms peek_on [of b p c "[0x3c, 0x3e]"] by (simp add: skip_ws_on parseredirs_none)

lemma no_redir_stop: "stop b p \<Longrightarrow> parseredirs b d (skip_ws b p) = Inr (d, p)"
  using peek_stop [of b p "[0x3c, 0x3e]"] by (simp add: parseredirs_none)

lemma seg_after: "seg b p (0x28 # show_tree t @ 0x29 # rest) \<Longrightarrow> seg b (p + length (show_tree t) + 2) rest"
  using seg_Cons(2) [of b p "0x28" "show_tree t @ 0x29 # rest"] seg_append(2) [of b "Suc p" "show_tree t" "0x29 # rest"]
    seg_Cons(2) [of b "Suc p + length (show_tree t)" "0x29" rest] by simp

lemma last_block:
  assumes "\<And>p. seg b p (show_tree t) \<Longrightarrow> stop b (p + length (show_tree t)) \<Longrightarrow> parses parseline b p t (p + length (show_tree t))"
    "tree_ok t" "seg b p (0x28 # show_tree t @ 0x29 # [])" "stop b e" "e = p + length (show_tree t) + 2"
  shows "parses parseexec b p t e"
proof (rule block_text [OF assms(1-3)])
  fix c assume "cmd_tree b c = t"
  then show "\<exists>c'. parseredirs b c (skip_ws b (p + length (show_tree t) + 2)) = Inr (c', e) \<and> cmd_tree b c' = t"
    using no_redir_stop [OF assms(4)] unfolding assms(5) by blast
qed

lemma middle_block:
  assumes "\<And>p. seg b p (show_tree t) \<Longrightarrow> stop b (p + length (show_tree t)) \<Longrightarrow> parses parseline b p t (p + length (show_tree t))"
    "tree_ok t" "seg b p (0x28 # show_tree t @ 0x29 # x # rest)" "e = p + length (show_tree t) + 2" "x \<in> {0x7c, 0x3b, 0x26}"
  shows "parses parseexec b p t e" "on b e x" "seg b (Suc e) rest" "next_pos b e = skip_ws b (Suc e)" "peek b e toks = (x \<in> set toks, e)"
proof -
  have s: "seg b e (x # rest)" using seg_after [OF assms(3)] assms(4) by simp
  show o: "on b e x" and "seg b (Suc e) rest" using seg_Cons [OF s] by simp_all
  have x: "x \<noteq> 0" "x \<notin> set whitespace" "x \<noteq> 0x3c" "x \<noteq> 0x3e" using assms(5) by (auto simp: whitespace_def)
  show "next_pos b e = skip_ws b (Suc e)" using next_pos_on [OF o] assms(5) by auto
  show "peek b e toks = (x \<in> set toks, e)" using peek_on [OF o x(2)] x(1) by simp
  show "parses parseexec b p t e"
  proof (rule block_text [OF assms(1-3)])
    fix c assume "cmd_tree b c = t"
    then show "\<exists>c'. parseredirs b c (skip_ws b (p + length (show_tree t) + 2)) = Inr (c', e) \<and> cmd_tree b c' = t"
      using no_redir [OF o x(2-4)] unfolding assms(4) by blast
  qed
qed

lemma parse_text:
  "tree_ok t \<Longrightarrow> seg b p (show_tree t) \<Longrightarrow> stop b (p + length (show_tree t)) \<Longrightarrow> parses parseline b p t (p + length (show_tree t))"
proof (induction t arbitrary: p)
  case (TExec ws)
  let ?e = "p + length (spaced ws)"
  have start: "skip_ws b p = p" using show_tree_start [of b p "TExec ws"] TExec by simp
  have first: "\<exists>c. on b p c \<and> word_char c \<or> stop b p"
    using TExec word_okD(1) [of b p] seg_first [of b p] by (cases ws) fastforce+
  have pk: "peek b p toks = (False, p)" if "set toks \<subseteq> set symbols" "0x29 \<notin> set toks" for toks
    using first that peek_stop [of b p toks] by (auto simp: peek_on word_char_def)
  have pr: "parseredirs b (EXEC []) p = Inr (EXEC [], p)" using pk [of "[0x3c, 0x3e]"] by (simp add: parseredirs_none symbols_def)
  obtain vs where vs: "exec_loop b 0 (EXEC []) p = Inr (EXEC vs, ?e)" "map (slice b) vs = ws"
    using exec_words [of b p ws 0 "[]"] TExec by auto
  have ex: "parseexec (Suc n) b p = Some (Inr (EXEC vs, ?e))" for n
    using pk [of "[0x28]"] pr vs(1) by (simp add: pbind_def symbols_def)
  have "parses parseexec b p (TExec ws) ?e"
    unfolding parses_def
  proof (intro exI [of _ 1] allI impI)
    fix n :: nat assume "1 \<le> n"
    then show "\<exists>c. parseexec n b p = Some (Inr (c, ?e)) \<and> cmd_tree b c = TExec ws" using ex [of "n - 1"] vs(2) by simp
  qed
  then show ?case using TExec.prems(3) by (auto intro!: parses_line parses_pipe peek_stop)
next
  case (TRedir t f mode fd)
  let ?r = "redir_op mode @ f"
  let ?q = "p + length (show_tree t) + 2"
  have s: "seg b p (0x28 # show_tree t @ 0x29 # ?r)" using TRedir.prems(2) by simp
  have sr: "seg b ?q ?r" using s by (rule seg_after)
  have e: "p + length (show_tree (TRedir t f mode fd)) = ?q + length ?r" by simp
  have op: "skip_ws b ?q = ?q"
    using sr seg_Cons(1) [of b ?q "0x3c"] seg_Cons(1) [of b ?q "0x3e"]
    by (auto simp: redir_op_def whitespace_def intro!: skip_ws_on split: if_splits)
  have "parses parseexec b p (TRedir t f mode fd) (?q + length ?r)"
  proof (rule block_text [OF _ _ s])
    fix c assume c: "cmd_tree b c = t"
    obtain w where "parseredirs b c ?q = Inr (REDIR c w mode fd, ?q + length ?r)" "slice b w = f"
      using redir_text [OF sr _ TRedir.prems(3) [unfolded e], of fd c] TRedir.prems(1) by (metis tree_ok.simps(2))
    then show "\<exists>c'. parseredirs b c (skip_ws b ?q) = Inr (c', ?q + length ?r) \<and> cmd_tree b c' = TRedir t f mode fd" using c op by auto
  qed (use TRedir in auto)
  then show ?case using TRedir.prems(3) unfolding e by (auto intro!: parses_line parses_pipe peek_stop)
next
  case (TPipe l r)
  define q where "q = p + length (show_tree l) + 2"
  let ?e = "p + length (show_tree (TPipe l r))"
  have e: "?e = Suc q + length (show_tree r) + 2" by (simp add: q_def)
  have s: "seg b p (0x28 # show_tree l @ 0x29 # 0x7c # 0x28 # show_tree r @ 0x29 # [])" using TPipe.prems(2) by simp
  note mid = middle_block [OF TPipe.IH(1) _ s q_def]
  have m: "parses parseexec b p l q" "seg b (Suc q) (0x28 # show_tree r @ 0x29 # [])" "next_pos b q = Suc q" "peek b q [0x7c] = (True, q)"
    using mid TPipe.prems(1) skip_ws_on [OF seg_Cons(1) [OF mid(3)]] by (simp_all add: whitespace_def)
  have "parses parseexec b (Suc q) r ?e" using TPipe.prems by (intro last_block [OF TPipe.IH(2) _ m(2) _ e]) simp_all
  then have r: "parses parsepipe b (Suc q) r ?e" using TPipe.prems(3) by (auto intro!: parses_pipe peek_stop)
  have "parses parsepipe b p (TPipe l r) ?e"
  proof (rule parses_Suc2 [OF m(1) r])
    fix n c d assume "parseexec n b p = Some (Inr (c, q))" "cmd_tree b c = l" "parsepipe n b (Suc q) = Some (Inr (d, ?e))" "cmd_tree b d = r"
    then show "\<exists>c'. parsepipe (Suc n) b p = Some (Inr (c', ?e)) \<and> cmd_tree b c' = TPipe l r" using m(3,4) by (simp add: pbind_def)
  qed
  then show ?case using TPipe.prems(3) by (auto intro!: parses_line peek_stop)
next
  case (TList l r)
  define q where "q = p + length (show_tree l) + 2"
  let ?e = "p + length (show_tree (TList l r))"
  have e: "?e = Suc q + length (show_tree r) + 2" by (simp add: q_def)
  have s: "seg b p (0x28 # show_tree l @ 0x29 # 0x3b # 0x28 # show_tree r @ 0x29 # [])" using TList.prems(2) by simp
  note mid = middle_block [OF TList.IH(1) _ s q_def]
  have m: "parses parseexec b p l q" "seg b (Suc q) (0x28 # show_tree r @ 0x29 # [])" "next_pos b q = Suc q" "peek b q [0x7c] = (False, q)"
      "peek b q [0x3b] = (True, q)" "peek b q [0x26] = (False, q)"
    using mid TList.prems(1) skip_ws_on [OF seg_Cons(1) [OF mid(3)]] by (simp_all add: whitespace_def)
  have l: "parses parsepipe b p l q" using m(1,4) by (rule parses_pipe)
  have "parses parseexec b (Suc q) r ?e" using TList.prems by (intro last_block [OF TList.IH(2) _ m(2) _ e]) simp_all
  then have r: "parses parseline b (Suc q) r ?e" using TList.prems(3) by (auto intro!: parses_line parses_pipe peek_stop)
  have bl: "back_loop b c q = (c, q)" for c using m(6) by (subst back_loop.simps) simp
  show ?case
  proof (rule parses_Suc2 [OF l r])
    fix n c d assume "parsepipe n b p = Some (Inr (c, q))" "cmd_tree b c = l" "parseline n b (Suc q) = Some (Inr (d, ?e))" "cmd_tree b d = r"
    then show "\<exists>c'. parseline (Suc n) b p = Some (Inr (c', ?e)) \<and> cmd_tree b c' = TList l r" using m(3,5) bl by (simp add: pbind_def)
  qed
next
  case (TBack t)
  define q where "q = p + length (show_tree t) + 2"
  let ?e = "p + length (show_tree (TBack t))"
  have e: "?e = Suc q" by (simp add: q_def)
  have s: "seg b p (0x28 # show_tree t @ 0x29 # 0x26 # [])" using TBack.prems(2) by simp
  have st: "stop b (Suc q)" using TBack.prems(3) e by simp
  have m: "parses parseexec b p t q" "next_pos b q = Suc q" "peek b q [0x7c] = (False, q)" "peek b q [0x26] = (True, q)"
    using middle_block [OF TBack.IH _ s q_def] TBack.prems(1) st by simp_all
  have pp: "parses parsepipe b p t q" using m(1,3) by (rule parses_pipe)
  have "back_loop b c (Suc q) = (c, Suc q)" for c using peek_stop [OF st, of "[0x26]"] by (subst back_loop.simps) simp
  then have bl: "back_loop b c q = (BACK c, Suc q)" for c using m(2,4) by (subst back_loop.simps) simp
  have pk: "peek b (Suc q) [0x3b] = (False, Suc q)" using peek_stop [OF st, of "[0x3b]"] by simp
  show ?case unfolding e
  proof (rule parses_Suc [OF pp])
    fix n c assume "parsepipe n b p = Some (Inr (c, q))" "cmd_tree b c = t"
    then show "\<exists>c'. parseline (Suc n) b p = Some (Inr (c', Suc q)) \<and> cmd_tree b c' = TBack t" using bl pk by (simp add: pbind_def)
  qed
qed

lemma pbind_mono:
  assumes "pbind r f = Some v" "\<And>w. r = Some w \<Longrightarrow> r' = Some w" "\<And>c ps v. f c ps = Some v \<Longrightarrow> f' c ps = Some v"
  shows "pbind r' f' = Some v"
  using assms by (auto simp: pbind_def split: option.splits sum.splits)

lemma parse_mono:
  "(parseline n b ps = Some r \<longrightarrow> parseline (Suc n) b ps = Some r) \<and> (parsepipe n b ps = Some r \<longrightarrow> parsepipe (Suc n) b ps = Some r)
    \<and> (parseexec n b ps = Some r \<longrightarrow> parseexec (Suc n) b ps = Some r) \<and> (parseblock n b ps = Some r \<longrightarrow> parseblock (Suc n) b ps = Some r)"
proof (induction n arbitrary: ps r)
  case (Suc n)
  have sub: "pbind (p (Suc n) b q) g = Some v" if "pbind (p n b q) g = Some v" "\<And>w. p n b q = Some w \<Longrightarrow> p (Suc n) b q = Some w" for p q g v
    using that by (elim pbind_mono) auto
  have blk: "parseblock (Suc n) b q = Some v" if "parseblock n b q = Some v" for q v using Suc.IH that by blast
  show ?case
  proof (intro conjI impI)
    assume "parseline (Suc n) b ps = Some r"
    then show "parseline (Suc (Suc n)) b ps = Some r"
      unfolding parseline.simps(2) [of "Suc n"] parseline.simps(2) [of n]
      by (rule pbind_mono) (use Suc.IH sub [of parseline] in \<open>auto split: prod.splits if_splits\<close>)
  next
    assume "parsepipe (Suc n) b ps = Some r"
    then show "parsepipe (Suc (Suc n)) b ps = Some r"
      unfolding parsepipe.simps(2) [of "Suc n"] parsepipe.simps(2) [of n]
      by (rule pbind_mono) (use Suc.IH sub [of parsepipe] in \<open>auto split: prod.splits if_splits\<close>)
  next
    assume "parseexec (Suc n) b ps = Some r"
    then show "parseexec (Suc (Suc n)) b ps = Some r"
      unfolding parseexec.simps(2) [of "Suc n"] parseexec.simps(2) [of n] using blk by (auto simp del: parseblock.simps split: prod.splits if_splits)
  next
    assume "parseblock (Suc n) b ps = Some r"
    then show "parseblock (Suc (Suc n)) b ps = Some r"
      unfolding parseblock.simps(2) [of "Suc n"] parseblock.simps(2) [of n] using Suc.IH sub [of parseline] by (auto split: prod.splits if_splits)
  qed
qed simp

lemma parseline_more:
  assumes "parseline n b ps = Some r" "n \<le> m"
  shows "parseline m b ps = Some r"
  using assms(2)
proof (induction rule: dec_induct)
  case (step k)
  then show ?case using parse_mono [of k b ps r] by blast
qed (rule assms(1))

lemma parseline_fuel: "\<exists>r. parseline (parse_fuel b) b 0 = Some r"
  using parse_enough_fuel [of b 0 "parse_fuel b"] by (auto simp: parse_fuel_def)

lemma parses_parsecmd:
  assumes "parses parseline b 0 t (length b)"
  shows "\<exists>c. parsecmd_string b = Some (Parsed c) \<and> cmd_tree b c = t"
proof -
  obtain n0 where n0: "\<And>n. n0 \<le> n \<Longrightarrow> \<exists>c. parseline n b 0 = Some (Inr (c, length b)) \<and> cmd_tree b c = t" using assms by (auto simp: parses_def)
  obtain r where r: "parseline (parse_fuel b) b 0 = Some r" using parseline_fuel by blast
  let ?m = "max n0 (parse_fuel b)"
  obtain c where c: "parseline ?m b 0 = Some (Inr (c, length b))" "cmd_tree b c = t" using n0 [of ?m] by auto
  have "r = Inr (c, length b)" using parseline_more [OF r, of ?m] c(1) by simp
  then show ?thesis using r c(2) by (simp add: parsecmd_string_def skip_ws_end)
qed

section \<open>Descriptors of a pipeline\<close>

text \<open>A process's descriptors after the calls of a trace, and what the kernel promises of them: \<open>close\<close> of an open one succeeds, \<open>dup\<close> of an
  open one returns the lowest that is free.\<close>

type_synonym 'o fdtable = "int \<Rightarrow> 'o option"

definition fd_event :: "uevent \<Rightarrow> 'o fdtable \<Rightarrow> 'o fdtable" where
  "fd_event x T = (case x of (c, r, d) \<Rightarrow> case c of
      SysClose fd \<Rightarrow> if r = 0 then T(fd := None) else T
    | SysDup fd \<Rightarrow> if r \<ge> 0 then T(r := T fd) else T
    | _ \<Rightarrow> T)"

definition fd_answer :: "'o fdtable \<Rightarrow> uevent \<Rightarrow> bool" where
  "fd_answer T x = (case x of (c, r, d) \<Rightarrow> case c of
      SysClose fd \<Rightarrow> T fd \<noteq> None \<longrightarrow> r = 0
    | SysDup fd \<Rightarrow> T fd \<noteq> None \<longrightarrow> r \<ge> 0 \<and> T r = None \<and> (\<forall>i. 0 \<le> i \<and> i < r \<longrightarrow> T i \<noteq> None)
    | _ \<Rightarrow> True)"

primrec fd_answers :: "'o fdtable \<Rightarrow> uevent list \<Rightarrow> bool" where
  "fd_answers T [] = True"
| "fd_answers T (x # es) = (fd_answer T x \<and> fd_answers (fd_event x T) es)"

lemma utrace_udo: "utrace (andthen (udo c s) f) es e \<longleftrightarrow> (\<exists>r d es'. es = (c, r, d) # es' \<and> utrace (f () (s\<lparr>u_call := c, u_ret := r, u_in := d\<rparr>)) es' e)"
  if "\<And>n. c \<noteq> SysExit n"
  using utrace_andthen_usys [OF that, of s "\<lambda>_ s. f () s"] by (simp add: udo_def andthen_assoc)

lemma utrace_fork1:
  "r \<noteq> -1 \<Longrightarrow> utrace (andthen (fork1 s) f) ((SysFork, r, d) # es) e \<longleftrightarrow> utrace (f r (s\<lparr>u_call := SysFork, u_ret := r, u_in := d\<rparr>)) es e"
  by (simp add: fork1_def andthen_assoc utrace_andthen_usys)

lemma child_calls:
  assumes "utrace (andthen (udo (SysClose k) s) (\<lambda>_ s. andthen (udo (SysDup q) s) (\<lambda>_ s. andthen (udo (SysClose p0) s) (\<lambda>_ s.
      andthen (udo (SysClose p1) s) (\<lambda>_ s. g s))))) es e"
    and T: "k \<in> {0, 1}" "\<forall>i. 0 \<le> i \<and> i \<le> k \<longrightarrow> T i \<noteq> None" "q \<in> {p0, p1}" "T p0 \<noteq> None" "T p1 \<noteq> None" "distinct [0, 1, p0, p1]"
    and ans: "fd_answers T es"
  shows "\<exists>es1 es2 s'. es = es1 @ es2 \<and> utrace (g s') es2 e \<and> fold fd_event es1 T = T(k := T q, p0 := None, p1 := None)"
proof -
  obtain r1 d1 r2 d2 r3 d3 r4 d4 es2 s' where es: "es = [(SysClose k, r1, d1), (SysDup q, r2, d2), (SysClose p0, r3, d3), (SysClose p1, r4, d4)] @ es2"
    and g: "utrace (g s') es2 e"
    using assms(1) by (auto simp: utrace_udo)
  let ?T = "T(k := None)"
  have k: "T k \<noteq> None" "0 \<le> k" "q \<noteq> k" "p0 \<noteq> k" "p1 \<noteq> k" using T by auto
  have 1: "r1 = 0" using ans k(1) by (simp add: es fd_answer_def)
  then have e1: "fd_event (SysClose k, r1, d1) T = ?T" by (simp add: fd_event_def)
  have q: "?T q \<noteq> None" using T(3-5) k(3) by auto
  have a2: "fd_answer ?T (SysDup q, r2, d2)" and rest: "fd_answers (fd_event (SysDup q, r2, d2) ?T) [(SysClose p0, r3, d3), (SysClose p1, r4, d4)]"
    using ans e1 by (simp_all add: es)
  have r2: "r2 \<ge> 0" "?T r2 = None" "\<forall>i. 0 \<le> i \<and> i < r2 \<longrightarrow> ?T i \<noteq> None" using a2 q by (simp_all add: fd_answer_def)
  have "r2 = k"
  proof (rule ccontr)
    assume ne: "r2 \<noteq> k"
    then have "T r2 = None" using r2(2) by simp
    then have "\<not> r2 \<le> k" using T(2) r2(1) by auto
    then show False using r2(3) k(2) by auto
  qed
  then have e2: "fd_event (SysDup q, r2, d2) ?T = T(k := T q)" using k by (simp add: fd_event_def)
  have "r3 = 0" "r4 = 0" using rest T(4-6) k unfolding e2 by (auto simp: fd_answer_def fd_event_def)
  then have "fold fd_event [(SysClose k, r1, d1), (SysDup q, r2, d2), (SysClose p0, r3, d3), (SysClose p1, r4, d4)] T = T(k := T q, p0 := None, p1 := None)"
    using e1 e2 by (simp add: fd_event_def)
  then show ?thesis using es g by blast
qed

section \<open>What the shell promises\<close>

text \<open>C34. The parser returns for every input line, with a command, with what it could not parse, or with the message of a
  \<open>panic\<close>: the recursive descent ends.\<close>

theorem parse_returns: "\<exists>r. parsecmd_string b = Some r"
proof -
  obtain r where "parseline (parse_fuel b) b 0 = Some r" using parseline_fuel by blast
  then show ?thesis by (cases r) (auto simp: parsecmd_string_def Let_def)
qed

text \<open>C35. What it returns is well formed: every word is a non-empty run of word characters inside the line, with a blank, a
  symbol or an end of the line on either side, a
  simple command has fewer than \<open>MAXARGS\<close> of them, so that the terminating null of \<open>argv\<close> fits, and each redirection
  carries the open mode and the descriptor of one of the three operators.\<close>

theorem parse_wf:
  assumes "parsecmd_string b = Some (Parsed c)"
  shows "wf_cmd b c"
proof -
  obtain ps where "parseline (parse_fuel b) b 0 = Some (Inr (c, ps))"
    using assms by (auto simp: parsecmd_string_def Let_def split: option.splits sum.splits if_splits)
  then show ?thesis using parse_results [of b 0 "parse_fuel b"] by (simp add: parse_ok_def)
qed

definition demo_line :: "byte list" where
  "demo_line = show_tree (TPipe (TExec [[0x6c, 0x73]]) (TRedir (TExec [[0x77, 0x63]]) [0x6f] (O_WRONLY OR O_CREATE OR O_TRUNC) 1))"

lemma demo_tree_ok: "tree_ok (TPipe (TExec [[0x6c, 0x73]]) (TRedir (TExec [[0x77, 0x63]]) [0x6f] (O_WRONLY OR O_CREATE OR O_TRUNC) 1))"
  by (simp add: MAXARGS_def word_ok_def word_char_def whitespace_def symbols_def)

lemma show_parsed:
  assumes "tree_ok t"
  shows "\<exists>c. parsecmd_string (show_tree t) = Some (Parsed c) \<and> cmd_tree (show_tree t) c = t"
proof -
  have "seg (show_tree t) 0 (show_tree t)" unfolding seg_def by (intro exI [of _ "[]"]) simp
  then show ?thesis using parse_text [OF assms, of "show_tree t" 0] by (intro parses_parsecmd) (simp add: stop_def)
qed

theorem parse_wf_witness: "\<exists>c. parsecmd_string demo_line = Some (Parsed c) \<and> wf_cmd demo_line c"
  using show_parsed [OF demo_tree_ok] parse_wf unfolding demo_line_def by blast

text \<open>C33. Every command tree can be typed: the line that writes it, with its subcommands in parentheses, parses to a command with exactly that
  tree, words, open modes and descriptors included.\<close>

theorem parse_show:
  assumes "tree_ok t"
  shows "\<exists>c. parsecmd_string (show_tree t) = Some (Parsed c) \<and> cmd_tree (show_tree t) c = t"
  using assms by (rule show_parsed)

theorem parse_show_witness: "\<exists>c. parsecmd_string demo_line = Some (Parsed c)"
  using parse_show [OF demo_tree_ok] unfolding demo_line_def by blast

text \<open>C36. \<open>nulterminate\<close> cuts the words out of the line in place: after it, the string that starts at each word of the command is that
  word. No NUL falls into another word, although all of them share one buffer.\<close>

theorem nulterminate_exact:
  assumes "parsecmd_string b = Some (Parsed c)" "0 \<notin> set b" "w \<in> set (words c)"
  shows "ustr (nulterminate c (b @ [0])) (fst w) = slice b w"
proof -
  obtain ps where "parseline (parse_fuel b) b 0 = Some (Inr (c, ps))"
    using assms by (auto simp: parsecmd_string_def Let_def split: option.splits sum.splits if_splits)
  then have "wf_cmd b c" using parse_results [of b 0 "parse_fuel b"] by (simp add: parse_ok_def)
  then show ?thesis using assms(2,3) by (rule nulterminate_words)
qed

lemma tree_words: "cmd_tree b c = TPipe (TExec [x]) t \<Longrightarrow> \<exists>w \<in> set (words c). slice b w = x"
proof (cases c)
  case (PIPE l r)
  assume "cmd_tree b c = TPipe (TExec [x]) t"
  then show ?thesis using PIPE by (cases l) auto
qed auto

theorem nulterminate_exact_witness:
  "\<exists>c w. parsecmd_string demo_line = Some (Parsed c) \<and> w \<in> set (words c) \<and> ustr (nulterminate c (demo_line @ [0])) (fst w) = [0x6c, 0x73]"
proof -
  obtain c where c: "parsecmd_string demo_line = Some (Parsed c)"
      "cmd_tree demo_line c = TPipe (TExec [[0x6c, 0x73]]) (TRedir (TExec [[0x77, 0x63]]) [0x6f] (O_WRONLY OR O_CREATE OR O_TRUNC) 1)"
    using show_parsed [OF demo_tree_ok] unfolding demo_line_def by blast
  then obtain w where w: "w \<in> set (words c)" "slice demo_line w = [0x6c, 0x73]" using tree_words by blast
  have "0 \<notin> set demo_line" by (simp add: demo_line_def redir_op_def O_RDONLY_def O_WRONLY_def O_CREATE_def O_TRUNC_def)
  from nulterminate_exact [OF c(1) this w(1)] w c(1) show ?thesis by (intro exI [of _ c] exI [of _ w]) simp
qed

text \<open>C37. A pipeline is wired as it should be. In a process whose descriptors 0 and 1 are open, when \<open>pipe\<close> has given \<open>p0\<close> and \<open>p1\<close>: the child
  that runs the left command has the write end as its descriptor 1, the child that runs the right one has the read end as its descriptor 0, and both
  have closed the other two, so that the reader sees the end of the data. Everything else is as in the shell.\<close>

theorem pipe_wiring:
  assumes "distinct [0, 1, pipe_fd d 0, pipe_fd d 1]" "T 0 \<noteq> None" "T 1 \<noteq> None" "T (pipe_fd d 0) = Some rd" "T (pipe_fd d 1) = Some wr"
    "fd_answers T es" "pid \<noteq> 0" "pid \<noteq> -1"
  shows "(utrace (runcmd (PIPE l r) m s) ((SysPipe, 0, d) # (SysFork, 0, d1) # es) e \<longrightarrow>
        (\<exists>es1 es2 s'. es = es1 @ es2 \<and> utrace (runcmd l m s') es2 e \<and> fold fd_event es1 T = T(1 := Some wr, pipe_fd d 0 := None, pipe_fd d 1 := None)))
    \<and> (utrace (runcmd (PIPE l r) m s) ((SysPipe, 0, d) # (SysFork, pid, d1) # (SysFork, 0, d2) # es) e \<longrightarrow>
        (\<exists>es1 es2 s'. es = es1 @ es2 \<and> utrace (runcmd r m s') es2 e \<and> fold fd_event es1 T = T(0 := Some rd, pipe_fd d 0 := None, pipe_fd d 1 := None)))"
proof -
  have one: "\<forall>i. 0 \<le> i \<and> i \<le> (1 :: int) \<longrightarrow> T i \<noteq> None"
  proof (intro allI impI)
    fix i :: int assume "0 \<le> i \<and> i \<le> 1"
    then have "i = 0 \<or> i = 1" by linarith
    then show "T i \<noteq> None" using assms(2,3) by auto
  qed
  show ?thesis
  proof (intro conjI impI)
    assume "utrace (runcmd (PIPE l r) m s) ((SysPipe, 0, d) # (SysFork, 0, d1) # es) e"
    then have "\<exists>s. utrace (andthen (udo (SysClose 1) s) (\<lambda>_ s. andthen (udo (SysDup (pipe_fd d 1)) s) (\<lambda>_ s. andthen (udo (SysClose (pipe_fd d 0)) s) (\<lambda>_ s.
      andthen (udo (SysClose (pipe_fd d 1)) s) (\<lambda>_ s. runcmd l m s))))) es e"
      by (auto simp: utrace_andthen_usys utrace_fork1 Let_def)
    then show "\<exists>es1 es2 s'. es = es1 @ es2 \<and> utrace (runcmd l m s') es2 e \<and> fold fd_event es1 T = T(1 := Some wr, pipe_fd d 0 := None, pipe_fd d 1 := None)"
      using child_calls [of 1 _ "pipe_fd d 1" "pipe_fd d 0" "pipe_fd d 1" "runcmd l m" es e T] assms one by auto
  next
    assume "utrace (runcmd (PIPE l r) m s) ((SysPipe, 0, d) # (SysFork, pid, d1) # (SysFork, 0, d2) # es) e"
    then have "\<exists>s. utrace (andthen (udo (SysClose 0) s) (\<lambda>_ s. andthen (udo (SysDup (pipe_fd d 0)) s) (\<lambda>_ s. andthen (udo (SysClose (pipe_fd d 0)) s) (\<lambda>_ s.
      andthen (udo (SysClose (pipe_fd d 1)) s) (\<lambda>_ s. runcmd r m s))))) es e"
      using assms(7,8) by (auto simp: utrace_andthen_usys utrace_fork1 Let_def)
    then show "\<exists>es1 es2 s'. es = es1 @ es2 \<and> utrace (runcmd r m s') es2 e \<and> fold fd_event es1 T = T(0 := Some rd, pipe_fd d 0 := None, pipe_fd d 1 := None)"
      using child_calls [of 0 _ "pipe_fd d 0" "pipe_fd d 0" "pipe_fd d 1" "runcmd r m" es e T] assms one by auto
  qed
qed

definition demo_fds :: "byte list" where
  "demo_fds = [3, 0, 0, 0, 4, 0, 0, 0]"

definition demo_table :: "nat fdtable" where
  "demo_table = [0 \<mapsto> 0, 1 \<mapsto> 1, 2 \<mapsto> 2, 3 \<mapsto> 3, 4 \<mapsto> 4]"

definition demo_calls :: "uevent list" where
  "demo_calls = [(SysClose 1, 0, []), (SysDup 4, 1, []), (SysClose 3, 0, []), (SysClose 4, 0, [])]"

lemma demo_pipe_fd: "pipe_fd demo_fds 0 = 3" "pipe_fd demo_fds 1 = 4" "pipe_fd demo_fds (Suc 0) = 4"
  by (simp_all add: pipe_fd_def demo_fds_def bstream_def get32_def le32_def)

lemma demo_answers: "fd_answers demo_table demo_calls"
proof -
  have "i = 0" if "0 \<le> i" "i < 1" for i :: int using that by linarith
  then show ?thesis by (auto simp: demo_calls_def demo_table_def fd_answer_def fd_event_def)
qed

theorem pipe_wiring_witness:
  "utrace (runcmd (PIPE (EXEC []) (EXEC [])) [] \<lparr>u_call = SysFork, u_ret = 0, u_in = []\<rparr>) ((SysPipe, 0, demo_fds) # (SysFork, 0, []) # demo_calls) (Exited 1)
    \<and> (\<exists>es1 es2. demo_calls = es1 @ es2 \<and> fold fd_event es1 demo_table = demo_table(1 := Some 4, 3 := None, 4 := None))"
proof -
  let ?s = "\<lparr>u_call = SysFork, u_ret = 0, u_in = []\<rparr>"
  have t: "utrace (runcmd (PIPE (EXEC []) (EXEC [])) [] ?s) ((SysPipe, 0, demo_fds) # (SysFork, 0, []) # demo_calls) (Exited 1)"
    by (simp add: utrace_andthen_usys utrace_fork1 utrace_udo Let_def demo_pipe_fd demo_calls_def)
  moreover have "distinct [0, 1, pipe_fd demo_fds 0, pipe_fd demo_fds 1]" "demo_table 0 \<noteq> None" "demo_table 1 \<noteq> None"
      "demo_table (pipe_fd demo_fds 0) = Some 3" "demo_table (pipe_fd demo_fds 1) = Some 4"
    by (simp_all add: demo_pipe_fd demo_table_def)
  note w = pipe_wiring [OF this demo_answers, of 7 "EXEC []" "EXEC []" "[]" ?s "[]" "Exited 1"]
  have "\<exists>es1 es2 s'. demo_calls = es1 @ es2 \<and> utrace (runcmd (EXEC []) [] s') es2 (Exited 1)
      \<and> fold fd_event es1 demo_table = demo_table(1 := Some 4, pipe_fd demo_fds 0 := None, pipe_fd demo_fds 1 := None)"
    by (rule mp [OF conjunct1 [OF w] t]) simp_all
  then have "\<exists>es1 es2. demo_calls = es1 @ es2 \<and> fold fd_event es1 demo_table = demo_table(1 := Some 4, 3 := None, 4 := None)"
    unfolding demo_pipe_fd by blast
  ultimately show ?thesis by blast
qed

end
