(* ===== verification/Uprogs.thy ===== *)
theory Uprogs
  imports Ulib
begin

text \<open>
  The small user programs: \<open>cat\<close>, \<open>echo\<close>, \<open>wc\<close>, \<open>ls\<close>, \<open>rm\<close>, \<open>kill\<close>, \<open>mkdir\<close>, \<open>ln\<close>, \<open>zombie\<close>, \<open>init\<close>, \<open>stressfs\<close> and \<open>forktest\<close>, each
  as its \<open>main\<close> on the list of its arguments, and the theorems about the two that transform their input, \<open>cat\<close> and \<open>wc\<close>.
  \<open>struct stat\<close> and \<open>struct dirent\<close> are the bytes the kernel stored.
\<close>

section \<open>cat, echo and wc\<close>

definition cat_body :: "int \<Rightarrow> unit \<Rightarrow> ustate \<Rightarrow> (unit + int) ures" where
  "cat_body fd _ s =
     andthen (usys (SysRead fd 512) s) (\<lambda>n s.
     if n > 0 then
       andthen (usys (SysWrite 1 (u_in s)) s) (\<lambda>r s.
       if r \<noteq> n then andthen (fprintf 2 ''cat: write error\<newline>'' [] s) (\<lambda>_ s. uexit 1 s)
       else Ok (Inl ()) s)
     else Ok (Inr n) s)"

definition cat :: "int \<Rightarrow> ustate \<Rightarrow> unit ures" where
  "cat fd s =
     andthen (wloop (\<lambda>_. 0) (cat_body fd) (Ok (Inl ()) s)) (\<lambda>n s.
     if n < 0 then andthen (fprintf 2 ''cat: read error\<newline>'' [] s) (\<lambda>_ s. uexit 1 s)
     else Ok () s)"

definition cat_main :: "byte list list \<Rightarrow> ustate \<Rightarrow> unit ures" where
  "cat_main argv s =
     (if length argv \<le> 1 then andthen (cat 0 s) (\<lambda>_ s. uexit 0 s)
      else
        andthen (for_each (tl argv) (\<lambda>name s.
          andthen (usys (SysOpen name O_RDONLY) s) (\<lambda>fd s.
          if fd < 0 then andthen (fprintf 2 ''cat: cannot open %s\<newline>'' [ArgS (Some name)] s) (\<lambda>_ s. uexit 1 s)
          else
            andthen (cat fd s) (\<lambda>_ s.
            andthen (udo (SysClose fd) s) (\<lambda>_ s. Ok (None :: unit option) s)))) s) (\<lambda>_ s.
        uexit 0 s))"

definition echo_main :: "byte list list \<Rightarrow> ustate \<Rightarrow> unit ures" where
  "echo_main argv s =
     andthen (for_each [1..<length argv] (\<lambda>i s.
       andthen (udo (SysWrite 1 (argv ! i)) s) (\<lambda>_ s.
       andthen (udo (SysWrite 1 [if i + 1 < length argv then 0x20 else 0x0a]) s) (\<lambda>_ s. Ok (None :: unit option) s))) s) (\<lambda>_ s.
     uexit 0 s)"

type_synonym counts = "uint32 \<times> uint32 \<times> uint32 \<times> bool"

definition wc_space :: "byte \<Rightarrow> bool" where
  "wc_space x \<longleftrightarrow> x \<in> set [0x20, 0x0d, 0x09, 0x0a, 0x0b]"

definition wc_step :: "byte \<Rightarrow> counts \<Rightarrow> counts" where
  "wc_step x cs = (case cs of (l, w, c, inword) \<Rightarrow>
     let c = c + 1;
         l = (if x = 0x0a then l + 1 else l)
     in if wc_space x then (l, w, c, False)
        else if \<not> inword then (l, w + 1, c, True)
        else (l, w, c, inword))"

definition wc_body :: "int \<Rightarrow> counts \<Rightarrow> ustate \<Rightarrow> (counts + counts \<times> int) ures" where
  "wc_body fd cs s =
     andthen (usys (SysRead fd 512) s) (\<lambda>n s.
     if n > 0 then Ok (Inl (fold wc_step (u_in s) cs)) s else Ok (Inr (cs, n)) s)"

definition wc :: "int \<Rightarrow> byte list \<Rightarrow> ustate \<Rightarrow> unit ures" where
  "wc fd name s =
     andthen (wloop (\<lambda>_. 0) (wc_body fd) (Ok (Inl (0, 0, 0, False)) s)) (\<lambda>x s.
     case x of ((l, w, c, _), n) \<Rightarrow>
       if n < 0 then andthen (uprintf ''wc: read error\<newline>'' [] s) (\<lambda>_ s. uexit 1 s)
       else uprintf ''%d %d %d %s\<newline>'' [ArgW l, ArgW w, ArgW c, ArgS (Some name)] s)"

definition wc_main :: "byte list list \<Rightarrow> ustate \<Rightarrow> unit ures" where
  "wc_main argv s =
     (if length argv \<le> 1 then andthen (wc 0 [] s) (\<lambda>_ s. uexit 0 s)
      else
        andthen (for_each (tl argv) (\<lambda>name s.
          andthen (usys (SysOpen name O_RDONLY) s) (\<lambda>fd s.
          if fd < 0 then andthen (uprintf ''wc: cannot open %s\<newline>'' [ArgS (Some name)] s) (\<lambda>_ s. uexit 1 s)
          else
            andthen (wc fd name s) (\<lambda>_ s.
            andthen (udo (SysClose fd) s) (\<lambda>_ s. Ok (None :: unit option) s)))) s) (\<lambda>_ s.
        uexit 0 s))"

section \<open>ls\<close>

definition fmtname :: "byte list \<Rightarrow> byte list" where
  "fmtname path =
     (let p = rev (takeWhile (\<lambda>c. c \<noteq> 0x2f) (rev path))
      in if length p \<ge> DIRSIZ then p else p @ replicate (DIRSIZ - length p) 0x20)"

definition st_ino :: "byte list \<Rightarrow> uint32" where "st_ino st = get32 (bstream st) 4"

definition st_type :: "byte list \<Rightarrow> uint16" where "st_type st = get16 (bstream st) 8"

definition st_size :: "byte list \<Rightarrow> uint32" where "st_size st = get32 (bstream st) 12"

definition ls_entry :: "int \<Rightarrow> byte list \<Rightarrow> unit \<Rightarrow> ustate \<Rightarrow> (unit + unit) ures" where
  "ls_entry fd path _ s =
     andthen (usys (SysRead fd 16) s) (\<lambda>n s.
     if n \<noteq> 16 then Ok (Inr ()) s
     else if get16 (bstream (u_in s)) 0 = 0 then Ok (Inl ()) s
     else
       let buf = path @ [0x2f] @ takeWhile (\<lambda>c. c \<noteq> 0) (take DIRSIZ (drop 2 (u_in s))) in
       andthen (ustat buf s) (\<lambda>x s.
       case x of (r, st) \<Rightarrow>
         if r < 0 then andthen (uprintf ''ls: cannot stat %s\<newline>'' [ArgS (Some buf)] s) (\<lambda>_ s. Ok (Inl ()) s)
         else
           andthen (uprintf ''%s %d %d %d\<newline>'' [ArgS (Some (fmtname buf)), ArgW (scast (st_type st)), ArgW (st_ino st), ArgW (st_size st)] s) (\<lambda>_ s.
           Ok (Inl ()) s)))"

definition ls :: "byte list \<Rightarrow> ustate \<Rightarrow> unit ures" where
  "ls path s =
     andthen (usys (SysOpen path O_RDONLY) s) (\<lambda>fd s.
     if fd < 0 then fprintf 2 ''ls: cannot open %s\<newline>'' [ArgS (Some path)] s
     else
       andthen (usys (SysFstat fd) s) (\<lambda>r s.
       if r < 0 then
         andthen (fprintf 2 ''ls: cannot stat %s\<newline>'' [ArgS (Some path)] s) (\<lambda>_ s. udo (SysClose fd) s)
       else
         let st = u_in s in
         andthen
           (if st_type st = T_DEVICE \<or> st_type st = T_FILE then
              uprintf ''%s %d %d %l\<newline>'' [ArgS (Some (fmtname path)), ArgW (scast (st_type st)), ArgW (st_ino st), ArgW (st_size st)] s
            else if st_type st = T_DIR then
              (if length path + 1 + DIRSIZ + 1 > 512 then uprintf ''ls: path too long\<newline>'' [] s
               else wloop (\<lambda>_. 0) (ls_entry fd path) (Ok (Inl ()) s))
            else Ok () s) (\<lambda>_ s.
         udo (SysClose fd) s)))"

definition ls_main :: "byte list list \<Rightarrow> ustate \<Rightarrow> unit ures" where
  "ls_main argv s =
     (if length argv < 2 then andthen (ls [0x2e] s) (\<lambda>_ s. uexit 0 s)
      else
        andthen (for_each (tl argv) (\<lambda>name s. andthen (ls name s) (\<lambda>_ s. Ok (None :: unit option) s)) s) (\<lambda>_ s.
        uexit 0 s))"

section \<open>rm, mkdir, ln, kill, zombie\<close>

definition each_arg :: "string \<Rightarrow> string \<Rightarrow> (byte list \<Rightarrow> ucall) \<Rightarrow> byte list list \<Rightarrow> ustate \<Rightarrow> unit ures" where
  "each_arg usage failed call argv s =
     (if length argv < 2 then andthen (fprintf 2 usage [] s) (\<lambda>_ s. uexit 1 s)
      else
        andthen (for_each (tl argv) (\<lambda>name s.
          andthen (usys (call name) s) (\<lambda>r s.
          if r < 0 then andthen (fprintf 2 failed [ArgS (Some name)] s) (\<lambda>_ s. Ok (Some ()) s)
          else Ok None s)) s) (\<lambda>_ s.
        uexit 0 s))"

definition rm_main :: "byte list list \<Rightarrow> ustate \<Rightarrow> unit ures" where
  "rm_main = each_arg ''Usage: rm files...\<newline>'' ''rm: %s failed to delete\<newline>'' SysUnlink"

definition mkdir_main :: "byte list list \<Rightarrow> ustate \<Rightarrow> unit ures" where
  "mkdir_main = each_arg ''Usage: mkdir files...\<newline>'' ''mkdir: %s failed to create\<newline>'' SysMkdir"

definition ln_main :: "byte list list \<Rightarrow> ustate \<Rightarrow> unit ures" where
  "ln_main argv s =
     (if length argv \<noteq> 3 then andthen (fprintf 2 ''Usage: ln old new\<newline>'' [] s) (\<lambda>_ s. uexit 1 s)
      else
        andthen (usys (SysLink (argv ! 1) (argv ! 2)) s) (\<lambda>r s.
        if r < 0 then andthen (fprintf 2 ''link %s %s: failed\<newline>'' [ArgS (Some (argv ! 1)), ArgS (Some (argv ! 2))] s) (\<lambda>_ s. uexit 0 s)
        else uexit 0 s))"

definition kill_main :: "byte list list \<Rightarrow> ustate \<Rightarrow> unit ures" where
  "kill_main argv s =
     (if length argv < 2 then andthen (fprintf 2 ''usage: kill pid...\<newline>'' [] s) (\<lambda>_ s. uexit 1 s)
      else
        andthen (for_each (tl argv) (\<lambda>arg s.
          case atoi (bstream arg) of
            None \<Rightarrow> Spin
          | Some n \<Rightarrow> andthen (udo (SysKill (sint n)) s) (\<lambda>_ s. Ok (None :: unit option) s)) s) (\<lambda>_ s.
        uexit 0 s))"

definition zombie_main :: "ustate \<Rightarrow> unit ures" where
  "zombie_main s =
     andthen (usys SysFork s) (\<lambda>pid s.
     if pid > 0 then andthen (udo (SysSleep 5) s) (\<lambda>_ s. uexit 0 s) else uexit 0 s)"

section \<open>init\<close>

definition init_wait :: "int \<Rightarrow> unit \<Rightarrow> ustate \<Rightarrow> (unit + unit) ures" where
  "init_wait pid _ s =
     andthen (usys SysWait s) (\<lambda>wpid s.
     if wpid = pid then Ok (Inr ()) s
     else if wpid < 0 then andthen (uprintf ''init: wait returned an error\<newline>'' [] s) (\<lambda>_ s. uexit 1 s)
     else Ok (Inl ()) s)"

definition init_body :: "unit \<Rightarrow> ustate \<Rightarrow> (unit + unit) ures" where
  "init_body _ s =
     andthen (uprintf ''init: starting sh\<newline>'' [] s) (\<lambda>_ s.
     andthen (usys SysFork s) (\<lambda>pid s.
     if pid < 0 then andthen (uprintf ''init: fork failed\<newline>'' [] s) (\<lambda>_ s. uexit 1 s)
     else if pid = 0 then
       andthen (udo (SysExec (bstr ''sh'') [bstr ''sh'']) s) (\<lambda>_ s.
       andthen (uprintf ''init: exec sh failed\<newline>'' [] s) (\<lambda>_ s. uexit 1 s))
     else
       andthen (wloop (\<lambda>_. 0) (init_wait pid) (Ok (Inl ()) s)) (\<lambda>_ s.
       Ok (Inl ()) s)))"

definition init_main :: "ustate \<Rightarrow> unit ures" where
  "init_main s =
     andthen (usys (SysOpen (bstr ''console'') O_RDWR) s) (\<lambda>r s.
     andthen
       (if r < 0 then
          andthen (udo (SysMknod (bstr ''console'') (of_nat CONSOLE) 0) s) (\<lambda>_ s.
          udo (SysOpen (bstr ''console'') O_RDWR) s)
        else Ok () s) (\<lambda>_ s.
     andthen (udo (SysDup 0) s) (\<lambda>_ s.
     andthen (udo (SysDup 0) s) (\<lambda>_ s.
     wloop (\<lambda>_. 0) init_body (Ok (Inl ()) s)))))"

section \<open>stressfs and forktest\<close>

definition stressfs_main :: "ustate \<Rightarrow> unit ures" where
  "stressfs_main s =
     andthen (uprintf ''stressfs starting\<newline>'' [] s) (\<lambda>_ s.
     andthen (for_each [0..<4] (\<lambda>i s. andthen (usys SysFork s) (\<lambda>pid s. Ok (if pid > 0 then Some i else None) s)) s) (\<lambda>r s.
     let i = (case r of None \<Rightarrow> 4 | Some i \<Rightarrow> i);
         path = bstr ''stressfs'' @ [0x30 + of_nat i]
     in
     andthen (uprintf ''write %d\<newline>'' [ArgW (of_nat i)] s) (\<lambda>_ s.
     andthen (usys (SysOpen path (O_CREATE OR O_RDWR)) s) (\<lambda>fd s.
     andthen (for_each [0..<20] (\<lambda>_ s. andthen (udo (SysWrite fd (replicate 512 0x61)) s) (\<lambda>_ s. Ok (None :: unit option) s)) s) (\<lambda>_ s.
     andthen (udo (SysClose fd) s) (\<lambda>_ s.
     andthen (uprintf ''read\<newline>'' [] s) (\<lambda>_ s.
     andthen (usys (SysOpen path O_RDONLY) s) (\<lambda>fd s.
     andthen (for_each [0..<20] (\<lambda>_ s. andthen (udo (SysRead fd 512) s) (\<lambda>_ s. Ok (None :: unit option) s)) s) (\<lambda>_ s.
     andthen (udo (SysClose fd) s) (\<lambda>_ s.
     andthen (udo SysWait s) (\<lambda>_ s.
     uexit 0 s)))))))))))"

definition print :: "string \<Rightarrow> ustate \<Rightarrow> unit ures" where
  "print m s = udo (SysWrite 1 (bstr m)) s"

definition forktest :: "ustate \<Rightarrow> unit ures" where
  "forktest s =
     andthen (print ''fork test\<newline>'' s) (\<lambda>_ s.
     andthen (for_each [0..<1000] (\<lambda>n s.
       andthen (usys SysFork s) (\<lambda>pid s. if pid < 0 then Ok (Some n) s else if pid = 0 then uexit 0 s else Ok None s)) s) (\<lambda>r s.
     case r of
       None \<Rightarrow> andthen (print ''fork claimed to work N times!\<newline>'' s) (\<lambda>_ s. uexit 1 s)
     | Some n \<Rightarrow>
         andthen (for_each [0..<n] (\<lambda>_ s.
           andthen (usys SysWait s) (\<lambda>r s.
           if r < 0 then andthen (print ''wait stopped early\<newline>'' s) (\<lambda>_ s. uexit 1 s) else Ok (None :: unit option) s)) s) (\<lambda>_ s.
         andthen (usys SysWait s) (\<lambda>r s.
         if r \<noteq> -1 then andthen (print ''wait got too many\<newline>'' s) (\<lambda>_ s. uexit 1 s)
         else print ''fork test OK\<newline>'' s))))"

definition forktest_main :: "ustate \<Rightarrow> unit ures" where
  "forktest_main s = andthen (forktest s) (\<lambda>_ s. uexit 0 s)"

section \<open>What cat copies\<close>

lemma fprintf_exits: "utrace (andthen (fprintf fd fmt ap s) (\<lambda>_ s. uexit n s)) es e \<Longrightarrow> e = Exited n"
  using utrace_fprintf [of fd fmt ap s "\<lambda>_ s. uexit n s" es e] by auto

lemma cat_round:
  assumes "utrace (cat_body fd u s) es e"
  shows "e = Exited 1 \<or> (\<exists>n. e = Returned (Inr n) \<and> read_bytes fd es = [] \<and> written 1 es = [])
    \<or> e = Returned (Inl ()) \<and> written 1 es = read_bytes fd es"
proof -
  obtain r d es' s' where es: "es = (SysRead fd 512, r, d) # es'"
    and t: "utrace (if r > 0 then andthen (usys (SysWrite 1 (u_in s')) s') (\<lambda>x s.
       if x \<noteq> r then andthen (fprintf 2 ''cat: write error\<newline>'' [] s) (\<lambda>_ s. uexit 1 s) else Ok (Inl ()) s) else Ok (Inr r) s') es' e" and d: "u_in s' = d"
    using assms by (auto simp: cat_body_def utrace_andthen_usys)
  show ?thesis
  proof (cases "r > 0")
    case True
    then obtain x d' es2 s2 where es': "es' = (SysWrite 1 d, x, d') # es2"
      and t2: "utrace (if x \<noteq> r then andthen (fprintf 2 ''cat: write error\<newline>'' [] s2) (\<lambda>_ s. uexit 1 s) else Ok (Inl ()) s2) es2 e"
      using t d by (auto simp: utrace_andthen_usys)
    show ?thesis
    proof (cases "x = r")
      case False
      then show ?thesis using t2 fprintf_exits [of 2 "''cat: write error\<newline>''" "[]" s2 1 es2 e] by simp
    qed (use t2 True in \<open>simp add: es es'\<close>)
  next
    case False
    then show ?thesis using t es by auto
  qed
qed

lemma cat_rounds:
  assumes "uloop (cat_body fd) u es e"
  shows "e = Exited 1 \<or> (\<exists>n. e = Returned n) \<and> written 1 es = read_bytes fd es"
  using assms
proof (induction "cat_body fd" u es e rule: uloop.induct)
  case (ul_step u s es u' es' e)
  then show ?case using cat_round [OF ul_step.hyps(1)] by auto
qed (use cat_round in fastforce)+

section \<open>What wc counts\<close>

definition blank :: "byte \<Rightarrow> bool" where
  "blank x \<longleftrightarrow> 0x09 \<le> x \<and> x \<le> 0x0d \<and> x \<noteq> 0x0c \<or> x = 0x20"

definition word_start :: "byte list \<Rightarrow> nat \<Rightarrow> bool" where
  "word_start xs i \<longleftrightarrow> \<not> blank (xs ! i) \<and> (i = 0 \<or> blank (xs ! (i - 1)))"

definition wc_words :: "byte list \<Rightarrow> nat" where
  "wc_words xs = length (filter (word_start xs) [0..<length xs])"

definition wc_lines :: "byte list \<Rightarrow> nat" where
  "wc_lines xs = length (filter (\<lambda>x. x = 0x0a) xs)"

lemma wc_space_blank: "wc_space x \<longleftrightarrow> blank x"
proof -
  have "\<forall>n \<in> set [0..<256]. wc_space (of_nat n) \<longleftrightarrow> blank (of_nat n)" by code_simp
  moreover have "unat x \<in> set [0..<256]" using unsigned_less [of x, where ?'a = nat] by simp
  ultimately have "wc_space (of_nat (unat x)) \<longleftrightarrow> blank (of_nat (unat x))" by (rule bspec)
  then show ?thesis by simp
qed

lemma wc_words_snoc: "wc_words (xs @ [x]) = wc_words xs + (if \<not> wc_space x \<and> (xs = [] \<or> wc_space (last xs)) then 1 else 0)"
proof -
  have "filter (word_start (xs @ [x])) [0..<length xs] = filter (word_start xs) [0..<length xs]"
    by (rule filter_cong) (auto simp: word_start_def nth_append)
  moreover have "word_start (xs @ [x]) (length xs) \<longleftrightarrow> \<not> wc_space x \<and> (xs = [] \<or> wc_space (last xs))"
    by (cases "xs = []") (auto simp: word_start_def nth_append last_conv_nth wc_space_blank)
  ultimately show ?thesis by (simp add: wc_words_def)
qed

lemma wc_fold:
  "fold wc_step xs (0, 0, 0, False) = (of_nat (wc_lines xs), of_nat (wc_words xs), of_nat (length xs), xs \<noteq> [] \<and> \<not> wc_space (last xs))"
proof (induction xs rule: rev_induct)
  case Nil
  then show ?case by (simp add: wc_lines_def wc_words_def)
next
  case (snoc x xs)
  then show ?case by (auto simp: wc_step_def Let_def wc_words_snoc wc_lines_def add.commute)
qed

text \<open>What the reads of a descriptor returned, in order.\<close>

definition read_results :: "int \<Rightarrow> uevent list \<Rightarrow> int list" where
  "read_results fd es = concat (map (\<lambda>(c, r, d). case c of SysRead fd' n \<Rightarrow> if fd' = fd then [r] else [] | _ \<Rightarrow> []) es)"

lemma read_results_simps [simp]:
  "read_results fd [] = []" "read_results fd (es @ es') = read_results fd es @ read_results fd es'"
  "read_results fd ((c, r, d) # es) = (case c of SysRead fd' n \<Rightarrow> if fd' = fd then [r] else [] | _ \<Rightarrow> []) @ read_results fd es"
  by (simp_all add: read_results_def)

lemma wc_rounds:
  assumes "uloop (wc_body fd) cs es e"
  shows "\<exists>n rs. e = Returned (fold wc_step (read_bytes fd es) cs, n) \<and> written 1 es = []
    \<and> read_results fd es = rs @ [n] \<and> (\<forall>r \<in> set rs. r > 0) \<and> n \<le> 0"
  using assms
proof (induction "wc_body fd" cs es e rule: uloop.induct)
  case (ul_done cs s es a)
  then show ?case by (auto simp: wc_body_def utrace_andthen_usys split: if_splits)
next
  case (ul_exit cs s es n)
  then show ?case by (auto simp: wc_body_def utrace_andthen_usys split: if_splits)
next
  case (ul_step cs s es cs' es' e)
  then have "cs' = fold wc_step (read_bytes fd es) cs" "written 1 es = []"
    "\<exists>r. read_results fd es = [r] \<and> r > 0" by (auto simp: wc_body_def utrace_andthen_usys split: if_splits)
  moreover obtain n rs where "e = Returned (fold wc_step (read_bytes fd es') cs', n)" "written 1 es' = []"
    "read_results fd es' = rs @ [n]" "\<forall>r \<in> set rs. r > 0" "n \<le> 0"
    using ul_step.hyps(3) by blast
  ultimately show ?case by (intro exI [of _ n] exI [of _ "read_results fd es @ rs"]) auto
qed

lemma uputs_reads: "map fst es = uputs_calls fd' cs \<Longrightarrow> read_bytes fd es = []"
proof (rule read_bytes_writes [where fd' = fd'], rule ballI)
  fix x assume "map fst es = uputs_calls fd' cs" "x \<in> set es"
  then have "fst x \<in> set (uputs_calls fd' cs)" by (metis image_eqI set_map)
  then show "\<exists>bs. fst x = SysWrite fd' bs" by (auto simp: uputs_calls_def)
qed

lemma uputs_results: "map fst es = uputs_calls fd' cs \<Longrightarrow> read_results fd es = []"
proof (induction cs arbitrary: es)
  case (Cons c cs)
  then show ?case by (cases es) (auto simp: uputs_calls_def)
qed (simp add: uputs_calls_def)

lemma utrace_uprintf:
  assumes "utrace (uprintf fmt ap s) es e"
  shows "e = Returned () \<and> written 1 es = vprintf_chars (bstr fmt) False ap \<and> read_bytes fd es = [] \<and> read_results fd es = []"
proof -
  obtain es1 es2 s' where es: "es = es1 @ es2" "map fst es1 = uputs_calls 1 (vprintf_chars (bstr fmt) False ap)" "utrace (Ok () s') es2 e"
    using utrace_uputs [of "vprintf_chars (bstr fmt) False ap" 1 s "\<lambda>_ s. Ok () s" es e] assms by (auto simp: uprintf_def fprintf_def)
  then show ?thesis using written_uputs [OF es(2), of 1] uputs_reads [OF es(2)] uputs_results [OF es(2)] by simp
qed

lemma utrace_print_exit:
  assumes "utrace (andthen (uprintf fmt ap s) (\<lambda>_ s. uexit c s)) es e"
  shows "e = Exited c \<and> written 1 es = vprintf_chars (bstr fmt) False ap \<and> read_results fd es = []"
  using utrace_andthen [OF assms refl] utrace_uprintf by fastforce

lemma wc_error_chars: "vprintf_chars (bstr ''wc: read error\<newline>'') False [] = bstr ''wc: read error\<newline>''"
  by code_simp

text \<open>A trace that prints, for the examples.\<close>

lemma uputs_trace:
  "(\<And>s. utrace (f None s) es e) \<Longrightarrow>
   utrace (andthen (for_each cs (\<lambda>c s. andthen (uputc fd c s) (\<lambda>_ s. Ok (None :: unit option) s)) s) f) (map (\<lambda>c. (SysWrite fd [c], 1, [])) cs @ es) e"
  by (induction cs arbitrary: s) (auto simp: uputc_def andthen_assoc utrace_andthen_usys)

lemma wc_body_calls: "wc_body fd l s \<noteq> Ok (Inl l') s'"
  by (simp add: wc_body_def usys_def)

section \<open>wc\<close>

text \<open>C38. \<open>wc\<close> reads until a read returns no byte and, if that was the end of the input, prints the number of newlines, of words and of bytes of
  all it read, however \<open>read\<close> cuts it into pieces: a word is a maximal run of bytes other than space, tab, newline, vertical tab and
  carriage return, may straddle two reads and is counted once. If that read failed, and only then, it prints the
  error message instead and exits with status 1.\<close>

theorem wc_counts:
  assumes "utrace (wc fd name s) es e"
  shows "\<exists>rs n. read_results fd es = rs @ [n] \<and> (\<forall>r \<in> set rs. r > 0) \<and> n \<le> 0
    \<and> (if n < 0 then e = Exited 1 \<and> written 1 es = bstr ''wc: read error\<newline>''
       else e = Returned () \<and> written 1 es = vprintf_chars (bstr ''%d %d %d %s\<newline>'') False
         [ArgW (of_nat (wc_lines (read_bytes fd es))), ArgW (of_nat (wc_words (read_bytes fd es))), ArgW (of_nat (length (read_bytes fd es))), ArgS (Some name)])"
proof -
  let ?f = "\<lambda>x s. case x of ((l, w, c, _), n) \<Rightarrow>
       if n < 0 then andthen (uprintf ''wc: read error\<newline>'' [] s) (\<lambda>_ s. uexit 1 s)
       else uprintf ''%d %d %d %s\<newline>'' [ArgW l, ArgW w, ArgW c, ArgS (Some name)] s"
  note rounds = wc_rounds [OF utrace_loop [OF wc_body_calls]]
  from utrace_andthen [OF assms wc_def] show ?thesis
  proof (elim disjE exE conjE)
    fix es1 es2 a s1
    assume es: "es = es1 @ es2" and t: "utrace (wloop (\<lambda>_. 0) (wc_body fd) (Ok (Inl (0, 0, 0, False)) s)) es1 (Returned a)" "utrace (?f a s1) es2 e"
    obtain n rs where a: "a = (fold wc_step (read_bytes fd es1) (0, 0, 0, False), n)" and w: "written 1 es1 = []"
      and rs: "read_results fd es1 = rs @ [n]" "\<forall>r \<in> set rs. r > 0" "n \<le> 0" using rounds [OF t(1)] by auto
    have "read_results fd es2 = [] \<and> (if n < 0 then e = Exited 1 \<and> written 1 es2 = bstr ''wc: read error\<newline>''
       else e = Returned () \<and> read_bytes fd es2 = [] \<and> written 1 es2 = vprintf_chars (bstr ''%d %d %d %s\<newline>'') False
         [ArgW (of_nat (wc_lines (read_bytes fd es1))), ArgW (of_nat (wc_words (read_bytes fd es1))), ArgW (of_nat (length (read_bytes fd es1))), ArgS (Some name)])"
    proof (cases "n < 0")
      case True
      then have "utrace (andthen (uprintf ''wc: read error\<newline>'' [] s1) (\<lambda>_ s. uexit 1 s)) es2 e"
        using t(2) by (simp add: a wc_fold)
      from utrace_print_exit [OF this, of fd] show ?thesis using True by (simp add: wc_error_chars)
    next
      case False
      then have "utrace (uprintf ''%d %d %d %s\<newline>'' [ArgW (of_nat (wc_lines (read_bytes fd es1))), ArgW (of_nat (wc_words (read_bytes fd es1))),
          ArgW (of_nat (length (read_bytes fd es1))), ArgS (Some name)] s1) es2 e" using t(2) by (simp add: a wc_fold)
      from utrace_uprintf [OF this, of fd] show ?thesis using False by simp
    qed
    then show ?thesis using rs w by (intro exI [of _ rs] exI [of _ n]) (auto simp: es)
  next
    fix n assume "utrace (wloop (\<lambda>_. 0) (wc_body fd) (Ok (Inl (0, 0, 0, False)) s)) es (Exited n)"
    then show ?thesis using rounds by fastforce
  qed
qed

definition demo_wc :: "uevent list" where
  "demo_wc = [(SysRead 3 512, 2, [0x61, 0x62]), (SysRead 3 512, 4, [0x63, 0x0a, 0x20, 0x64]), (SysRead 3 512, 0, [])]
     @ map (\<lambda>c. (SysWrite 1 [c], 1, [])) (vprintf_chars (bstr ''%d %d %d %s\<newline>'') False [ArgW 1, ArgW 2, ArgW 6, ArgS (Some [0x66])]) @ []"

lemma wc_unroll: "wloop (\<lambda>_. 0) (wc_body fd) (Ok (Inl cs) s) = wloop (\<lambda>_. 0) (wc_body fd) (wc_body fd cs s)"
  by (rule wloop_unroll) (simp add: wc_body_calls)

lemma wc_reads:
  "utrace (andthen (wloop (\<lambda>_. 0) (wc_body fd) (Ok (Inl cs) s)) f) ((SysRead fd 512, r, d) # es) e" if
  "r > 0 \<Longrightarrow> (\<And>s. utrace (andthen (wloop (\<lambda>_. 0) (wc_body fd) (Ok (Inl (fold wc_step d cs)) s)) f) es e)"
  "\<not> r > 0 \<Longrightarrow> (\<And>s. utrace (f (cs, r) s) es e)"
  unfolding wc_unroll [of fd cs] using that by (auto simp: wc_body_def usys_def utrace_Swtch)

theorem wc_counts_witness:
  "utrace (wc 3 [0x66] \<lparr>u_call = SysFork, u_ret = 0, u_in = []\<rparr>) demo_wc (Returned ())
    \<and> written 1 demo_wc = vprintf_chars (bstr ''%d %d %d %s\<newline>'') False [ArgW 1, ArgW 2, ArgW 6, ArgS (Some [0x66])]"
proof -
  let ?s = "\<lparr>u_call = SysFork, u_ret = 0, u_in = []\<rparr>"
  have p: "utrace (uprintf ''%d %d %d %s\<newline>'' [ArgW 1, ArgW 2, ArgW 6, ArgS (Some [0x66])] s) (drop 3 demo_wc) (Returned ())" for s
    unfolding uprintf_def fprintf_def using uputs_trace [of "\<lambda>_ s. Ok () s" "[]" "Returned ()"] by (simp add: demo_wc_def)
  have t: "utrace (wc 3 [0x66] ?s) demo_wc (Returned ())"
    unfolding wc_def by (subst demo_wc_def, simp only: append_Cons append_Nil) (intro wc_reads, use p in \<open>simp_all add: demo_wc_def wc_step_def wc_space_def Let_def\<close>)
  have r: "read_bytes 3 demo_wc = [0x61, 0x62, 0x63, 0x0a, 0x20, 0x64]"
    using read_bytes_writes [of "map (\<lambda>c. (SysWrite 1 [c], 1, [])) (vprintf_chars (bstr ''%d %d %d %s\<newline>'') False [ArgW 1, ArgW 2, ArgW 6, ArgS (Some [0x66])])" 1 3]
    by (simp add: demo_wc_def)
  from wc_counts [OF t] have "written 1 demo_wc = vprintf_chars (bstr ''%d %d %d %s\<newline>'') False
      [ArgW (of_nat (wc_lines (read_bytes 3 demo_wc))), ArgW (of_nat (wc_words (read_bytes 3 demo_wc))),
       ArgW (of_nat (length (read_bytes 3 demo_wc))), ArgS (Some [0x66])]"
    by (elim exE conjE) (simp split: if_splits)
  with t show ?thesis by (simp add: r wc_lines_def wc_words_def word_start_def blank_def)
qed

end
