(* ===== verification/Mkfs.thy ===== *)
theory Mkfs
  imports Dir
begin

text \<open>
  \<open>mkfs/mkfs.c\<close>: the program that builds the initial disk image. Its state is the image file, as sectors, with its
  length and the length \<open>mk_cap\<close> up to which the host lets it grow, and the program's global variables. The host is little-endian, as the
  target is. A run ends by returning, or in \<open>Panic\<close> where the code calls \<open>die\<close> or an assertion fails. An argument is a
  name with the pieces in which \<open>read\<close> delivers the file, \<open>None\<close> if \<open>open\<close> fails; the list of arguments begins with \<open>argv[1]\<close>, the image.

  The theorems say that the kernel finds in the image what \<open>mkfs\<close> was given: the layout of the disk, the files with their contents, the root
  directory, and a bitmap in which exactly the blocks in use are marked.
\<close>

section \<open>The program\<close>

record dinode =
  d_type :: uint16
  d_major :: uint16
  d_minor :: uint16
  d_nlink :: uint16
  d_size :: uint32
  d_addrs :: "nat \<Rightarrow> uint32"

record mkfs =
  mk_img :: "nat \<Rightarrow> block"
  mk_len :: nat
  mk_cap :: nat
  mk_sb :: superblock
  freeinode :: uint32
  freeblock :: uint32

type_synonym 'a mres = "(mkfs, 'a) res"

definition NINODES :: nat where [const_defs]: "NINODES = 200"
definition ninodeblocks :: nat where [const_defs]: "ninodeblocks = NINODES div IPB + 1"
definition nmeta :: nat where [const_defs]: "nmeta = 2 + LOGSIZE + ninodeblocks + (FSSIZE div (BSIZE * 8) + 1)"

definition xshort :: "uint16 \<Rightarrow> uint16" where
  "xshort x = le16 (ucast x) (ucast (drop_bit 8 x))"

definition xint :: "uint32 \<Rightarrow> uint32" where
  "xint x = le32 (ucast x) (ucast (drop_bit 8 x)) (ucast (drop_bit 16 x)) (ucast (drop_bit 24 x))"

text \<open>The sector at the offset \<open>sec * BSIZE\<close>, an unsigned product.\<close>

definition sect_at :: "uint32 \<Rightarrow> nat" where
  "sect_at sec = unat (sec * of_nat BSIZE) div BSIZE"

definition wsect :: "uint32 \<Rightarrow> block \<Rightarrow> mkfs \<Rightarrow> unit mres" where
  "wsect sec buf s =
     (let k = sect_at sec in
      if k < mk_cap s then Ok () (s\<lparr>mk_img := (mk_img s)(k := buf), mk_len := max (mk_len s) (Suc k)\<rparr>)
      else Panic ''write'')"

definition rsect :: "uint32 \<Rightarrow> mkfs \<Rightarrow> block mres" where
  "rsect sec s = (if sect_at sec < mk_len s then Ok (mk_img s (sect_at sec)) s else Panic ''read'')"

definition store_dinode :: "block \<Rightarrow> nat \<Rightarrow> dinode \<Rightarrow> block" where
  "store_dinode d off di =
     put32s (put32 (put16 (put16 (put16 (put16 d off (d_type di)) (off + 2) (d_major di)) (off + 4) (d_minor di))
       (off + 6) (d_nlink di)) (off + 8) (d_size di)) (off + 12) (NDIRECT + 1) (d_addrs di)"

definition load_dinode :: "block \<Rightarrow> nat \<Rightarrow> dinode" where
  "load_dinode d off = \<lparr>d_type = get16 d off, d_major = get16 d (off + 2), d_minor = get16 d (off + 4),
     d_nlink = get16 d (off + 6), d_size = get32 d (off + 8),
     d_addrs = (\<lambda>i. if i < NDIRECT + 1 then get32 d (off + 12 + 4 * i) else 0)\<rparr>"

definition winode :: "uint32 \<Rightarrow> dinode \<Rightarrow> mkfs \<Rightarrow> unit mres" where
  "winode inum di s =
     (let bn = IBLOCK inum (mk_sb s) in
      andthen (rsect bn s) (\<lambda>buf s. wsect bn (store_dinode buf (dip_off inum) di) s))"

definition rinode :: "uint32 \<Rightarrow> mkfs \<Rightarrow> dinode mres" where
  "rinode inum s =
     (let bn = IBLOCK inum (mk_sb s) in
      andthen (rsect bn s) (\<lambda>buf s. Ok (load_dinode buf (dip_off inum)) s))"

definition mk_ialloc :: "uint16 \<Rightarrow> mkfs \<Rightarrow> uint32 mres" where
  "mk_ialloc type s =
     (let inum = freeinode s;
          s = s\<lparr>freeinode := inum + 1\<rparr>;
          din = \<lparr>d_type = xshort type, d_major = 0, d_minor = 0, d_nlink = xshort 1, d_size = xint 0, d_addrs = (\<lambda>_. 0)\<rparr>
      in andthen (winode inum din s) (\<lambda>_ s. Ok inum s))"

definition mk_balloc :: "uint32 \<Rightarrow> mkfs \<Rightarrow> unit mres" where
  "mk_balloc used s =
     (if unat used < BSIZE * 8 then
        wsect (sb_bmapstart (mk_sb s))
          (fold (\<lambda>i buf. buf(i div 8 := buf (i div 8) OR push_bit (i mod 8) 1)) [0..<unat used] (\<lambda>_. 0)) s
      else Panic ''used < BSIZE*8'')"

text \<open>The block of the file block \<open>fbn\<close> in \<open>iappend\<close>, allocated if there is none.\<close>

definition iappend_block :: "dinode \<Rightarrow> nat \<Rightarrow> mkfs \<Rightarrow> (uint32 \<times> dinode) mres" where
  "iappend_block din fbn s =
     (if fbn < NDIRECT then
        (let (din, s) = (if xint (d_addrs din fbn) = 0
               then (din\<lparr>d_addrs := (d_addrs din)(fbn := xint (freeblock s))\<rparr>, s\<lparr>freeblock := freeblock s + 1\<rparr>)
               else (din, s))
         in Ok (xint (d_addrs din fbn), din) s)
      else
        (let (din, s) = (if xint (d_addrs din NDIRECT) = 0
               then (din\<lparr>d_addrs := (d_addrs din)(NDIRECT := xint (freeblock s))\<rparr>, s\<lparr>freeblock := freeblock s + 1\<rparr>)
               else (din, s))
         in andthen (rsect (xint (d_addrs din NDIRECT)) s) (\<lambda>indirect s.
            if get32 indirect (4 * (fbn - NDIRECT)) = 0 then
              (let indirect = put32 indirect (4 * (fbn - NDIRECT)) (xint (freeblock s));
                   s = s\<lparr>freeblock := freeblock s + 1\<rparr>
               in andthen (wsect (xint (d_addrs din NDIRECT)) indirect s) (\<lambda>_ s.
                  Ok (xint (get32 indirect (4 * (fbn - NDIRECT))), din) s))
            else Ok (xint (get32 indirect (4 * (fbn - NDIRECT))), din) s)))"

definition iappend_body ::
  "dinode \<times> uint32 \<times> byte list \<Rightarrow> mkfs \<Rightarrow> (dinode \<times> uint32 \<times> byte list + dinode \<times> uint32) mres" where
  "iappend_body l s =
     (case l of (din, off, p) \<Rightarrow>
      if p = [] then Ok (Inr (din, off)) s
      else
        (let fbn = off div of_nat BSIZE in
         if unat fbn < MAXFILE then
           andthen (iappend_block din (unat fbn) s) (\<lambda>(x, din) s.
             let n1 = min (of_nat (length p)) ((fbn + 1) * of_nat BSIZE - off) in
             andthen (rsect x s) (\<lambda>buf s.
             andthen (wsect x (blit buf (unat (off - fbn * of_nat BSIZE)) (unat n1) (bytes_of p)) s) (\<lambda>_ s.
             Ok (Inl (din, off + n1, drop (unat n1) p)) s)))
         else Panic ''fbn < MAXFILE''))"

definition iappend :: "uint32 \<Rightarrow> byte list \<Rightarrow> mkfs \<Rightarrow> unit mres" where
  "iappend inum p s =
     andthen (rinode inum s) (\<lambda>din s.
     andthen (wloop (\<lambda>(din, off, p). length p) iappend_body (Ok (Inl (din, xint (d_size din), p)) s)) (\<lambda>(din, off) s.
     winode inum (din\<lparr>d_size := xint off\<rparr>) s))"

definition dirent :: "uint32 \<Rightarrow> byte list \<Rightarrow> byte list" where
  "dirent inum name =
     (let d = xshort (ucast inum) in [byte_of 0 d, byte_of 1 d] @ map (strncpy (\<lambda>_. 0) (bytes_of name) (int DIRSIZ)) [0..<DIRSIZ])"

definition shortname :: "byte list \<Rightarrow> byte list" where
  "shortname a = (if take 5 a = bstr ''user/'' then drop 5 a else a)"

definition unscore :: "byte list \<Rightarrow> byte list" where
  "unscore a = (if take 1 a = bstr ''_'' then drop 1 a else a)"

definition mk_file :: "byte list \<times> byte list list option \<Rightarrow> mkfs \<Rightarrow> unit option mres" where
  "mk_file arg s =
     (let name = shortname (fst arg) in
      if bstr ''/'' ! 0 \<in> set name then Panic ''index(shortname, '/') == 0''
      else case snd arg of
        None \<Rightarrow> Panic ''open''
      | Some pieces \<Rightarrow>
          andthen (mk_ialloc T_FILE s) (\<lambda>inum s.
          andthen (iappend ROOTINO (dirent inum (unscore name)) s) (\<lambda>_ s.
          for_each pieces (\<lambda>p s. andthen (iappend inum p s) (\<lambda>_ s. Ok None s)) s)))"

definition mk_super :: superblock where
  "mk_super = \<lparr>sb_magic = FSMAGIC, sb_size = xint (of_nat FSSIZE), sb_nblocks = xint (of_nat (FSSIZE - nmeta)),
     sb_ninodes = xint (of_nat NINODES), sb_nlog = xint (of_nat LOGSIZE), sb_logstart = xint 2,
     sb_inodestart = xint (of_nat (2 + LOGSIZE)), sb_bmapstart = xint (of_nat (2 + LOGSIZE + ninodeblocks))\<rparr>"

definition store_sb :: "superblock \<Rightarrow> block" where
  "store_sb b = put32 (put32 (put32 (put32 (put32 (put32 (put32 (put32 (\<lambda>_. 0) 0 (sb_magic b)) 4 (sb_size b))
     8 (sb_nblocks b)) 12 (sb_ninodes b)) 16 (sb_nlog b)) 20 (sb_logstart b)) 24 (sb_inodestart b)) 28 (sb_bmapstart b)"

definition mkfs_main :: "nat \<Rightarrow> (byte list \<times> byte list list option) list \<Rightarrow> unit mres" where
  "mkfs_main cap argv =
     (case argv of
        [] \<Rightarrow> Panic ''Usage: mkfs fs.img files...''
      | (_, None) # _ \<Rightarrow> Panic ''open''
      | (_, Some _) # files \<Rightarrow>
          (let s = \<lparr>mk_img = (\<lambda>_ _. 0), mk_len = 0, mk_cap = cap, mk_sb = mk_super, freeinode = 1, freeblock = of_nat nmeta\<rparr> in
           andthen (for_each [0..<FSSIZE] (\<lambda>i s. andthen (wsect (of_nat i) (\<lambda>_. 0) s) (\<lambda>_ s. Ok (None :: unit option) s)) s) (\<lambda>_ s.
           andthen (wsect 1 (store_sb (mk_sb s)) s) (\<lambda>_ s.
           andthen (mk_ialloc T_DIR s) (\<lambda>rootino s.
           if rootino \<noteq> ROOTINO then Panic ''rootino == ROOTINO''
           else
             andthen (iappend rootino (dirent rootino (bstr ''.'')) s) (\<lambda>_ s.
             andthen (iappend rootino (dirent rootino (bstr ''..'')) s) (\<lambda>_ s.
             andthen (for_each files mk_file s) (\<lambda>_ s.
             andthen (rinode rootino s) (\<lambda>din s.
             let off = (xint (d_size din) div of_nat BSIZE + 1) * of_nat BSIZE in
             andthen (winode rootino (din\<lparr>d_size := xint off\<rparr>) s) (\<lambda>_ s.
             mk_balloc (freeblock s) s))))))))))"

section \<open>Pointers to blocks\<close>

text \<open>The pointers of a file are numbered: 0 to 11 are the direct ones, 12 is the indirect block, \<open>13 + j\<close> is entry \<open>j\<close> of the indirect
  block. \<open>uses n\<close> are those a file of \<open>n\<close> bytes needs.\<close>

definition ptr :: "(nat \<Rightarrow> block) \<Rightarrow> dinode \<Rightarrow> nat \<Rightarrow> uint32" where
  "ptr img di k = (if k < 13 then d_addrs di k else if d_addrs di 12 = 0 then 0 else get32 (img (unat (d_addrs di 12))) (4 * (k - 13)))"

definition slot :: "nat \<Rightarrow> nat" where
  "slot f = (if f < 12 then f else Suc f)"

definition uses :: "nat \<Rightarrow> nat set" where
  "uses n = slot ` {..<(n + 511) div 512} \<union> (if 12 * 512 < n then {12} else {})"

definition fcontent :: "(nat \<Rightarrow> block) \<Rightarrow> dinode \<Rightarrow> nat \<Rightarrow> byte list" where
  "fcontent img di n = map (\<lambda>m. img (unat (ptr img di (slot (m div 512)))) (m mod 512)) [0..<n]"

text \<open>The heap of blocks: each file has the pointers \<open>U i\<close>, no two of them are equal, they lie between the metadata and \<open>fb\<close>, and
  the blocks from \<open>fb\<close> on are zero.\<close>

definition fs_ok :: "(nat \<Rightarrow> dinode) \<Rightarrow> (nat \<Rightarrow> block) \<Rightarrow> nat \<Rightarrow> nat \<Rightarrow> (nat \<Rightarrow> nat set) \<Rightarrow> bool" where
  "fs_ok D img fi fb U \<longleftrightarrow>
     (\<forall>i\<in>{1..<fi}. U i \<subseteq> {..<141} \<and> (\<forall>k<141. ptr img (D i) k \<noteq> 0 \<longleftrightarrow> k \<in> U i)) \<and>
     (\<forall>i\<in>{1..<fi}. \<forall>k\<in>U i. nmeta \<le> unat (ptr img (D i) k) \<and> unat (ptr img (D i) k) < fb) \<and>
     (\<forall>i\<in>{1..<fi}. \<forall>j\<in>{1..<fi}. \<forall>k\<in>U i. \<forall>l\<in>U j. ptr img (D i) k = ptr img (D j) l \<longrightarrow> i = j \<and> k = l) \<and>
     (\<forall>b. fb \<le> b \<longrightarrow> img b = (\<lambda>_. 0)) \<and>
     fb = nmeta + (\<Sum>i=1..<fi. card (U i)) \<and> fb \<le> FSSIZE"

lemma xint_id [simp]: "xint x = x"
  using le32_bytes [of x] by (simp add: xint_def byte_of_def)

lemma xshort_id [simp]: "xshort x = x"
  using le16_bytes [of x] by (simp add: xshort_def byte_of_def)

lemma mk_consts [simp]:
  "nmeta = 45" "FSSIZE = 2000" "MAXFILE = 140" "NDIRECT = 12" "BSIZE = 512" "IPB = 8" "DINODE_SIZE = 64"
  by (simp_all add: const_defs)

lemma sect_at_small: "unat x < 8388608 \<Longrightarrow> sect_at x = unat x"
  by (simp add: sect_at_def unat_mult_lem [THEN iffD1])

lemma unat_next: "unat (x :: uint32) < 2000 \<Longrightarrow> unat (x + 1) = Suc (unat x)"
  by (subst unat_add_lem [THEN iffD1]) auto

lemma unat_blockno: "b \<le> FSSIZE \<Longrightarrow> unat (of_nat b :: uint32) = b"
  by (simp add: unat_of_nat take_bit_nat_eq_self)

lemma fs_okD:
  assumes "fs_ok D img fi fb U" "1 \<le> i" "i < fi"
  shows "k < 141 \<Longrightarrow> ptr img (D i) k = 0 \<longleftrightarrow> k \<notin> U i"
    and "k \<in> U i \<Longrightarrow> k < 141"
    and "k \<in> U i \<Longrightarrow> 45 \<le> unat (ptr img (D i) k)"
    and "k \<in> U i \<Longrightarrow> unat (ptr img (D i) k) < fb"
  using assms by (auto simp: fs_ok_def)

lemma fs_ok_inj:
  assumes "fs_ok D img fi fb U" "1 \<le> i" "i < fi" "1 \<le> j" "j < fi" "k \<in> U i" "l \<in> U j"
  shows "ptr img (D i) k = ptr img (D j) l \<longleftrightarrow> i = j \<and> k = l"
  using assms unfolding fs_ok_def by (auto simp del: One_nat_def)

lemma fs_ok_fb:
  assumes "fs_ok D img fi fb U"
  shows "45 \<le> fb" "fb \<le> 2000" "fb \<le> b \<Longrightarrow> img b = (\<lambda>_. 0)"
  using assms by (auto simp: fs_ok_def)

lemma fs_okI:
  assumes "\<And>i k. 1 \<le> i \<Longrightarrow> i < fi \<Longrightarrow> k \<in> U i \<Longrightarrow> k < 141"
    and "\<And>i k. 1 \<le> i \<Longrightarrow> i < fi \<Longrightarrow> k < 141 \<Longrightarrow> ptr img (D i) k = 0 \<longleftrightarrow> k \<notin> U i"
    and "\<And>i k. 1 \<le> i \<Longrightarrow> i < fi \<Longrightarrow> k \<in> U i \<Longrightarrow> 45 \<le> unat (ptr img (D i) k) \<and> unat (ptr img (D i) k) < fb"
    and "\<And>i j k l. 1 \<le> i \<Longrightarrow> i < fi \<Longrightarrow> 1 \<le> j \<Longrightarrow> j < fi \<Longrightarrow> k \<in> U i \<Longrightarrow> l \<in> U j \<Longrightarrow>
      ptr img (D i) k = ptr img (D j) l \<Longrightarrow> i = j \<and> k = l"
    and "\<And>b. fb \<le> b \<Longrightarrow> img b = (\<lambda>_. 0)"
    and "fb = 45 + (\<Sum>i=1..<fi. card (U i))" "fb \<le> 2000"
  shows "fs_ok D img fi fb U"
  unfolding fs_ok_def
  apply (intro conjI ballI allI impI subsetI)
  subgoal using assms(1) by auto
  subgoal using assms(2) by simp
  subgoal using assms(3) by simp
  subgoal using assms(3) by simp
  subgoal by (rule assms(4) [THEN conjunct1]) auto
  subgoal by (rule assms(4) [THEN conjunct2]) auto
  subgoal by (rule assms(5))
  subgoal using assms(6) by simp
  subgoal using assms(7) by simp
  done

lemma fs_ok_sum: "fs_ok D img fi fb U \<Longrightarrow> fb = 45 + (\<Sum>i=1..<fi. card (U i))"
  by (simp add: fs_ok_def)

lemma fs_ok_cong:
  assumes ok: "fs_ok D img fi fb U"
    and p: "\<And>i k. 1 \<le> i \<Longrightarrow> i < fi \<Longrightarrow> k < 141 \<Longrightarrow> ptr img' (D' i) k = ptr img (D i) k"
    and z: "\<And>b. fb \<le> b \<Longrightarrow> img' b = img b"
  shows "fs_ok D' img' fi fb U"
proof (rule fs_okI)
  note D = fs_okD [OF ok]
  fix i k
  assume i: "1 \<le> i" "i < fi"
  show "k < 141" if "k \<in> U i" using D(2) [OF i that] .
  show "ptr img' (D' i) k = 0 \<longleftrightarrow> k \<notin> U i" if "k < 141" using D(1) [OF i that] p [OF i that] by simp
  show "45 \<le> unat (ptr img' (D' i) k) \<and> unat (ptr img' (D' i) k) < fb" if "k \<in> U i"
    using D(3,4) [OF i that] p [OF i D(2) [OF i that]] by simp
  show "i = j \<and> k = l" if "1 \<le> j" "j < fi" "k \<in> U i" "l \<in> U j" "ptr img' (D' i) k = ptr img' (D' j) l" for j l
    using fs_ok_inj [OF ok i that(1-4)] that(5) p [OF i D(2) [OF i that(3)]] p [OF that(1,2) D(2) [OF that(1,2,4)]] by simp
next
  show "img' b = (\<lambda>_. 0)" if "fb \<le> b" for b
    using z [OF that] fs_ok_fb(3) [OF ok that] by simp
qed (use fs_ok_fb(2) [OF ok] fs_ok_sum [OF ok] in auto)

text \<open>One more pointer, to the block \<open>fb\<close>.\<close>

lemma fs_ok_alloc:
  assumes ok: "fs_ok D img fi fb U" and i: "1 \<le> i" "i < fi" "k < 141" "k \<notin> U i" and fb: "fb < FSSIZE"
    and p: "\<And>j l. 1 \<le> j \<Longrightarrow> j < fi \<Longrightarrow> l < 141 \<Longrightarrow>
      ptr img' (D' j) l = (if j = i \<and> l = k then of_nat fb else ptr img (D j) l)"
    and z: "\<And>b. fb < b \<Longrightarrow> img' b = img b"
  shows "fs_ok D' img' fi (Suc fb) (U(i := insert k (U i)))" (is "fs_ok _ _ _ _ ?U")
proof -
  note D = fs_okD [OF ok]
  have new: "unat (of_nat fb :: uint32) = fb"
    using fb by (intro unat_blockno) simp
  have ne: "ptr img (D j) l \<noteq> of_nat fb" "of_nat fb \<noteq> ptr img (D j) l" if "1 \<le> j" "j < fi" "l \<in> U j" for j l
    using D(4) [OF that] new by auto
  have nz: "(of_nat fb :: uint32) \<noteq> 0"
    using new fs_ok_fb(1) [OF ok] by auto
  have fin: "finite (U i)"
    using D(2) [OF i(1,2)] by (intro finite_subset [of "U i" "{..<141}"]) auto
  have p': "ptr img' (D' j) l = (if j = i \<and> l = k then of_nat fb else ptr img (D j) l)" "l < 141"
    if "1 \<le> j" "j < fi" "l \<in> ?U j" for j l
    using that i(3) D(2) [OF that(1,2)] p [OF that(1,2)] by (auto split: if_splits)
  have "(\<Sum>j=1..<fi. card (?U j)) = card (?U i) + (\<Sum>j\<in>{1..<fi} - {i}. card (?U j))"
    using i by (intro sum.remove) auto
  also have "(\<Sum>j\<in>{1..<fi} - {i}. card (?U j)) = (\<Sum>j\<in>{1..<fi} - {i}. card (U j))"
    by (intro sum.cong) auto
  also have "card (?U i) + \<dots> = Suc (\<Sum>j=1..<fi. card (U j))"
    using i fin sum.remove [of "{1..<fi}" i "\<lambda>j. card (U j)"] by simp
  finally have s: "Suc fb = 45 + (\<Sum>j=1..<fi. card (?U j))"
    using fs_ok_sum [OF ok] by simp
  show ?thesis
  proof (rule fs_okI)
    fix j l
    assume j: "1 \<le> j" "j < fi"
    show "l < 141" if "l \<in> ?U j" using p'(2) [OF j that] .
    show "ptr img' (D' j) l = 0 \<longleftrightarrow> l \<notin> ?U j" if "l < 141"
      using p [OF j that] D(1) [OF j that] nz by (simp split: if_splits)
    show "45 \<le> unat (ptr img' (D' j) l) \<and> unat (ptr img' (D' j) l) < Suc fb" if "l \<in> ?U j"
      using p'(1) [OF j that] D(3,4) [OF j, of l] that new fs_ok_fb(1) [OF ok] by (auto split: if_splits)
    show "j = j' \<and> l = l'" if "1 \<le> j'" "j' < fi" "l \<in> ?U j" "l' \<in> ?U j'" "ptr img' (D' j) l = ptr img' (D' j') l'" for j' l'
      using that(5) ne j that(1-4) fs_ok_inj [OF ok j that(1,2)] unfolding p'(1) [OF j that(3)] p'(1) [OF that(1,2,4)]
      by (auto split: if_splits)
  next
    show "img' b = (\<lambda>_. 0)" if "Suc fb \<le> b" for b
      using z [of b] fs_ok_fb(3) [OF ok, of b] that by simp
  qed (use fb s in auto)
qed

lemma fs_ok_direct:
  assumes ok: "fs_ok D img fi fb U" and i: "1 \<le> i" "i < fi" "k < 13" "k \<notin> U i" and fb: "fb < FSSIZE"
  shows "fs_ok (D(i := (D i)\<lparr>d_addrs := (d_addrs (D i))(k := of_nat fb)\<rparr>)) img fi (Suc fb) (U(i := insert k (U i)))"
proof (rule fs_ok_alloc [OF ok i(1,2) _ i(4) fb])
  have fb': "unat (of_nat fb :: uint32) = fb" "img fb = (\<lambda>_. 0)"
    using fb fs_ok_fb(3) [OF ok] by (auto intro!: unat_blockno)
  have "d_addrs (D i) k = 0"
    using fs_okD(1) [OF ok i(1,2), of k] i by (simp add: ptr_def)
  then show "ptr img ((D(i := (D i)\<lparr>d_addrs := (d_addrs (D i))(k := of_nat fb)\<rparr>)) j) l = (if j = i \<and> l = k then of_nat fb else ptr img (D j) l)"
    if "1 \<le> j" "j < fi" "l < 141" for j l
    using i fb' by (auto simp: ptr_def get32_def le32_def)
qed (use i in auto)

lemma ptr_put_entry:
  assumes ok: "fs_ok D img fi fb U" and i: "1 \<le> i" "i < fi" "13 \<le> k" "12 \<in> U i" and j: "1 \<le> j" "j < fi"
  defines "a \<equiv> unat (d_addrs (D i) 12)"
  shows "ptr (img(a := put32 (img a) (4 * (k - 13)) v)) (D j) l = (if j = i \<and> l = k then v else ptr img (D j) l)"
proof -
  have a: "d_addrs (D i) 12 \<noteq> 0"
    using fs_okD(1) [OF ok i(1,2), of 12] i(4) by (simp add: ptr_def)
  show ?thesis
  proof (cases "j = i")
    case True
    show ?thesis
    proof (cases "l < 13 \<or> l = k")
      case False
      then have "4 * (l - 13) + 4 \<le> 4 * (k - 13) \<or> 4 * (k - 13) + 4 \<le> 4 * (l - 13)"
        using i(3) by auto
      then show ?thesis
        using False True a by (simp add: ptr_def a_def get32_put32_nat_other)
    qed (use True a i(3) in \<open>auto simp: ptr_def a_def mem_simps\<close>)
  next
    case False
    have "unat (d_addrs (D j) 12) \<noteq> a" if "d_addrs (D j) 12 \<noteq> 0"
      using fs_okD(1) [OF ok j, of 12] fs_ok_inj [OF ok j i(1,2) _ i(4), of 12] that False
      by (simp add: ptr_def a_def word_unat_eq_iff)
    with False show ?thesis by (auto simp: ptr_def)
  qed
qed

lemma fs_ok_indirect:
  assumes ok: "fs_ok D img fi fb U" and i: "1 \<le> i" "i < fi" "13 \<le> k" "k < 141" "k \<notin> U i" "12 \<in> U i" and fb: "fb < FSSIZE"
  defines "a \<equiv> unat (d_addrs (D i) 12)"
  shows "fs_ok D (img(a := put32 (img a) (4 * (k - 13)) (of_nat fb))) fi (Suc fb) (U(i := insert k (U i)))"
proof (rule fs_ok_alloc [OF ok i(1,2,4,5) fb])
  show "(img(a := put32 (img a) (4 * (k - 13)) (of_nat fb))) b = img b" if "fb < b" for b
    using fs_okD(4) [OF ok i(1,2,6)] that by (simp add: ptr_def a_def)
qed (use ptr_put_entry [OF ok i(1,2,3,6)] in \<open>simp add: a_def\<close>)

text \<open>What a step of \<open>iappend\<close> leaves alone: the metadata, and the data blocks in use.\<close>

definition mk_frame :: "mkfs \<Rightarrow> mkfs \<Rightarrow> bool" where
  "mk_frame s s' \<longleftrightarrow> mk_len s' = mk_len s \<and> mk_cap s' = mk_cap s \<and> mk_sb s' = mk_sb s \<and> freeinode s' = freeinode s \<and>
     (\<forall>b<45. mk_img s' b = mk_img s b)"

definition keeps :: "(nat \<Rightarrow> dinode) \<Rightarrow> (nat \<Rightarrow> block) \<Rightarrow> (nat \<Rightarrow> dinode) \<Rightarrow> (nat \<Rightarrow> block) \<Rightarrow> nat \<Rightarrow> (nat \<Rightarrow> nat set) \<Rightarrow> bool" where
  "keeps D img D' img' fi U \<longleftrightarrow>
     (\<forall>j l. 1 \<le> j \<longrightarrow> j < fi \<longrightarrow> l \<in> U j \<longrightarrow> l \<noteq> 12 \<longrightarrow>
        ptr img' (D' j) l = ptr img (D j) l \<and> img' (unat (ptr img (D j) l)) = img (unat (ptr img (D j) l)))"

lemma mk_frame_refl [simp]: "mk_frame s s" "mk_frame s (s\<lparr>freeblock := b\<rparr>)"
  by (simp_all add: mk_frame_def)

lemma mk_frame_trans: "mk_frame s s' \<Longrightarrow> mk_frame s' s'' \<Longrightarrow> mk_frame s s''"
  by (simp add: mk_frame_def)

lemma keeps_trans:
  "keeps D img D' img' fi U \<Longrightarrow> keeps D' img' D'' img'' fi U' \<Longrightarrow> (\<And>j. U j \<subseteq> U' j) \<Longrightarrow> keeps D img D'' img'' fi U"
  unfolding keeps_def by (metis subsetD)

lemma keeps_refl [simp]: "keeps D img D img fi U"
  by (simp add: keeps_def)

text \<open>The pointers file block \<open>f\<close> needs.\<close>

definition need :: "nat \<Rightarrow> nat set" where
  "need f = (if f < 12 then {f} else {12, Suc f})"

text \<open>The step that gives \<open>addrs[k]\<close> a block if it has none.\<close>

lemma direct_step:
  assumes ok: "fs_ok D (mk_img s) fi (unat (freeblock s)) U" and i: "1 \<le> i" "i < fi" "k < 13"
    and cap: "k \<in> U i \<or> unat (freeblock s) < 2000"
    and r: "(din, s') = (if d_addrs (D i) k = 0
       then ((D i)\<lparr>d_addrs := (d_addrs (D i))(k := freeblock s)\<rparr>, s\<lparr>freeblock := freeblock s + 1\<rparr>) else (D i, s))"
  shows "fs_ok (D(i := din)) (mk_img s') fi (unat (freeblock s')) (U(i := insert k (U i)))"
    and "keeps D (mk_img s) (D(i := din)) (mk_img s') fi U" and "mk_frame s s'" and "mk_img s' = mk_img s"
    and "\<exists>a. din = (D i)\<lparr>d_addrs := a\<rparr>" and "freeblock s' = (if k \<in> U i then freeblock s else freeblock s + 1)"
proof -
  have k: "d_addrs (D i) k = 0 \<longleftrightarrow> k \<notin> U i"
    using fs_okD(1) [OF ok i(1,2), of k] i(3) by (simp add: ptr_def)
  have suc: "unat (freeblock s + 1) = Suc (unat (freeblock s))" if "k \<notin> U i"
    using cap that by (intro unat_next) auto
  note al = fs_ok_direct [OF ok i(1,2,3)]
  show "fs_ok (D(i := din)) (mk_img s') fi (unat (freeblock s')) (U(i := insert k (U i)))"
    using r k al cap ok by (auto simp: suc insert_absorb split: if_splits)
  show "mk_frame s s'" "mk_img s' = mk_img s" "\<exists>a. din = (D i)\<lparr>d_addrs := a\<rparr>"
      "freeblock s' = (if k \<in> U i then freeblock s else freeblock s + 1)"
    using r k by (auto split: if_splits intro: exI [of _ "d_addrs (D i)"])
  have "ptr (mk_img s) ((D(i := din)) j) l = ptr (mk_img s) (D j) l" if "1 \<le> j" "j < fi" "l \<in> U j" for j l
  proof (cases "j = i \<and> k \<notin> U i")
    case True
    then have "l \<noteq> k" "k = 12 \<Longrightarrow> l < 13"
      using that fs_okD(1) [OF ok that(1,2), of l] fs_okD(2) [OF ok that] k by (auto simp: ptr_def split: if_splits)
    then show ?thesis using True r k by (auto simp: ptr_def split: if_splits)
  qed (use r k in \<open>auto split: if_splits\<close>)
  then show "keeps D (mk_img s) (D(i := din)) (mk_img s') fi U"
    using \<open>mk_img s' = mk_img s\<close> by (simp add: keeps_def del: fun_upd_apply One_nat_def)
qed

text \<open>The step that gives an entry of the indirect block a block if it has none.\<close>

lemma rsect_ok: "unat x < mk_len s \<Longrightarrow> unat x < 2000 \<Longrightarrow> rsect x s = Ok (mk_img s (unat x)) s"
  by (simp add: rsect_def sect_at_small)

lemma wsect_ok:
  "unat x < mk_len s \<Longrightarrow> unat x < 2000 \<Longrightarrow> mk_len s \<le> mk_cap s \<Longrightarrow> wsect x buf s = Ok () (s\<lparr>mk_img := (mk_img s)(unat x := buf)\<rparr>)"
  by (simp add: wsect_def sect_at_small max_absorb1)

lemma indirect_step:
  assumes ok: "fs_ok D (mk_img s) fi (unat (freeblock s)) U" and i: "1 \<le> i" "i < fi" "12 \<in> U i" "D i = din" and f: "12 \<le> f" "f < 140"
    and cap: "Suc f \<in> U i \<or> unat (freeblock s) < 2000" and len: "mk_len s = 2000" "2000 \<le> mk_cap s"
  defines "a \<equiv> d_addrs din 12"
  shows "returns (andthen (rsect a s) (\<lambda>indirect s.
            if get32 indirect (4 * (f - 12)) = 0 then
              (let indirect = put32 indirect (4 * (f - 12)) (freeblock s);
                   s = s\<lparr>freeblock := freeblock s + 1\<rparr>
               in andthen (wsect a indirect s) (\<lambda>_ s. Ok (get32 indirect (4 * (f - 12)), din) s))
            else Ok (get32 indirect (4 * (f - 12)), din) s))
      (\<lambda>(x, din') s'. din' = din \<and> fs_ok D (mk_img s') fi (unat (freeblock s')) (U(i := insert (Suc f) (U i))) \<and>
         x = ptr (mk_img s') din (Suc f) \<and> keeps D (mk_img s) D (mk_img s') fi U \<and> mk_frame s s' \<and>
         (Suc f \<notin> U i \<longrightarrow> mk_img s' (unat x) = (\<lambda>_. 0)))"
proof -
  have a: "45 \<le> unat a" "unat a < unat (freeblock s)" "a \<noteq> 0"
    using fs_okD(1,3,4) [OF ok i(1,2), of 12] i(3) by (auto simp: ptr_def a_def i(4))
  have a2: "unat a < 2000" using a(2) fs_ok_fb(2) [OF ok] by simp
  have p: "ptr (mk_img s) (D i) (Suc f) = get32 (mk_img s (unat a)) (4 * (f - 12))"
    using a f by (simp add: ptr_def a_def i(4))
  have k: "ptr (mk_img s) (D i) (Suc f) = 0 \<longleftrightarrow> Suc f \<notin> U i"
    using fs_okD(1) [OF ok i(1,2), of "Suc f"] f by simp
  show ?thesis
  proof (cases "Suc f \<in> U i")
    case True
    then show ?thesis
      using p k a2 ok len by (simp add: rsect_ok insert_absorb i(4))
  next
    case False
    then have fb: "unat (freeblock s) < 2000" using cap by simp
    let ?img = "(mk_img s)(unat a := put32 (mk_img s (unat a)) (4 * (f - 12)) (freeblock s))"
    have ok': "fs_ok D ?img fi (Suc (unat (freeblock s))) (U(i := insert (Suc f) (U i)))"
      using fs_ok_indirect [OF ok i(1,2) _ _ False i(3)] f fb by (simp add: a_def i(4))
    have x: "ptr ?img (D i) (Suc f) = freeblock s"
      using a f by (simp add: ptr_def a_def i(4) mem_simps)
    have "ptr ?img (D j) l = ptr (mk_img s) (D j) l \<and> unat (ptr (mk_img s) (D j) l) \<noteq> unat a"
      if "1 \<le> j" "j < fi" "l \<in> U j" "l \<noteq> 12" for j l
      using that f False ptr_put_entry [OF ok i(1,2) _ i(3) that(1,2), of "Suc f" "freeblock s" l]
        fs_ok_inj [OF ok that(1,2) i(1,2) that(3) i(3)]
      by (auto simp: a_def i(4) ptr_def [of _ din 12] word_unat_eq_iff)
    then have "keeps D (mk_img s) D ?img fi U"
      by (simp add: keeps_def)
    moreover have "mk_img s (unat (freeblock s)) = (\<lambda>_. 0)"
      using fs_ok_fb(3) [OF ok] by simp
    ultimately show ?thesis
      using ok' x False p k a a2 len fb
      by (simp add: rsect_ok wsect_ok unat_next mem_simps mk_frame_def i(4))
  qed
qed

lemma iappend_block_ok:
  assumes ok: "fs_ok D (mk_img s) fi (unat (freeblock s)) U" and i: "1 \<le> i" "i < fi" and f: "f < 140"
    and cap: "unat (freeblock s) + card (need f - U i) \<le> 2000" and len: "mk_len s = 2000" "2000 \<le> mk_cap s"
  shows "returns (iappend_block (D i) f s) (\<lambda>(x, din) s'.
    fs_ok (D(i := din)) (mk_img s') fi (unat (freeblock s')) (U(i := U i \<union> need f)) \<and> x = ptr (mk_img s') din (slot f) \<and>
    keeps D (mk_img s) (D(i := din)) (mk_img s') fi U \<and> mk_frame s s' \<and> (\<exists>a. din = (D i)\<lparr>d_addrs := a\<rparr>) \<and>
    (slot f \<notin> U i \<longrightarrow> mk_img s' (unat x) = (\<lambda>_. 0)))"
proof -
  define k where "k = min f 12"
  obtain din s1 where r: "(din, s1) = (if d_addrs (D i) k = 0
       then ((D i)\<lparr>d_addrs := (d_addrs (D i))(k := freeblock s)\<rparr>, s\<lparr>freeblock := freeblock s + 1\<rparr>) else (D i, s))"
    by (metis surj_pair)
  have "0 < card (need f - U i)" if "k \<notin> U i"
    using that by (auto simp: card_gt_0_iff k_def need_def min_def split: if_splits)
  then have k: "k < 13" "k \<in> U i \<or> unat (freeblock s) < 2000"
    using cap by (simp add: k_def, cases "k \<in> U i") simp_all
  note d = direct_step [OF ok i k r]
  show ?thesis
  proof (cases "f < 12")
    case True
    then have "iappend_block (D i) f s = Ok (d_addrs din f, din) s1"
      using r by (auto simp: iappend_block_def k_def split: if_splits)
    moreover have "mk_img s1 (unat (d_addrs din f)) = (\<lambda>_. 0)" if "f \<notin> U i"
      using that r True fs_okD(1) [OF ok i, of f] fs_ok_fb(3) [OF ok] d(4) by (auto simp: k_def ptr_def min_def split: if_splits)
    ultimately show ?thesis
      using True d by (auto simp: need_def k_def slot_def ptr_def)
  next
    case False
    let ?D = "D(i := din)" and ?U = "U(i := insert 12 (U i))"
    have k12: "k = 12" using False by (simp add: k_def)
    have ok1: "fs_ok ?D (mk_img s1) fi (unat (freeblock s1)) ?U" using d(1) by (simp add: k12)
    have "unat (freeblock s1) = unat (freeblock s) + (if 12 \<in> U i then 0 else 1)"
      using d(6) k unat_next [of "freeblock s"] by (auto simp: k12)
    then have "Suc f \<in> ?U i \<or> unat (freeblock s1) < 2000"
      using cap False by (auto simp: need_def insert_Diff_if split: if_splits)
    moreover have "mk_len s1 = 2000" "2000 \<le> mk_cap s1" using d(3) len by (auto simp: mk_frame_def)
    ultimately have st: "returns (iappend_block (D i) f s) (\<lambda>(x, din') s'. din' = din \<and>
        fs_ok ?D (mk_img s') fi (unat (freeblock s')) (?U(i := insert (Suc f) (?U i))) \<and>
        x = ptr (mk_img s') din (Suc f) \<and> keeps ?D (mk_img s1) ?D (mk_img s') fi ?U \<and> mk_frame s1 s' \<and>
        (Suc f \<notin> ?U i \<longrightarrow> mk_img s' (unat x) = (\<lambda>_. 0)))"
      using indirect_step [OF ok1 i, of din f] False f
      by (simp only: iappend_block_def mk_consts xint_id r [unfolded k12, symmetric] Let_def prod.case if_False fun_upd_same) simp
    have "keeps D (mk_img s) ?D (mk_img s') fi U" if "keeps ?D (mk_img s1) ?D (mk_img s') fi ?U" for s'
      by (rule keeps_trans [OF d(2) that]) auto
    moreover have "insert (Suc f) (insert 12 (U i)) = U i \<union> need f"
      using False by (auto simp: need_def)
    ultimately show ?thesis
      using d(3,5) False by (intro returns_mono [OF st]) (auto simp: slot_def dest: mk_frame_trans)
  qed
qed

section \<open>Appending to a file\<close>

lemma slot_simps [simp]: "slot f \<noteq> 12" "slot f = slot g \<longleftrightarrow> f = g"
  by (auto simp: slot_def)

lemma uses_iff: "slot f \<in> uses n \<longleftrightarrow> f * 512 < n" "12 \<in> uses n \<longleftrightarrow> 6144 < n"
  by (auto simp: uses_def image_iff dest: slot_simps(1) [THEN notE, OF sym])

lemma uses_slots: "k \<in> uses n \<longleftrightarrow> (\<exists>f. k = slot f \<and> f * 512 < n) \<or> k = 12 \<and> 6144 < n"
  by (auto simp: uses_def image_iff)

lemma uses_byte: "m < n \<Longrightarrow> slot (m div 512) \<in> uses n"
  by (simp add: uses_iff)

lemma uses_mono: "m \<le> n \<Longrightarrow> uses m \<subseteq> uses n"
  by (auto simp: uses_slots)

lemma finite_uses [simp]: "finite (uses n)"
  by (simp add: uses_def)

lemma card_uses: "card (uses n) = (n + 511) div 512 + (if 6144 < n then 1 else 0)"
proof -
  have "inj_on slot A" for A by (simp add: inj_on_def)
  moreover have "12 \<notin> slot ` A" for A by (auto dest: slot_simps(1) [THEN notE, OF sym])
  ultimately show ?thesis by (simp add: uses_def card_image)
qed

lemma uses_0 [simp]: "uses 0 = {}"
  by (simp add: uses_def)

lemma need_uses:
  assumes "off < m" "m \<le> (off div 512 + 1) * 512"
  shows "uses off \<union> need (off div 512) = uses m"
proof -
  let ?f = "off div 512"
  have "need ?f = (if ?f < 12 then {slot ?f} else {12, slot ?f})"
    by (simp add: need_def slot_def)
  moreover have "g * 512 < m \<longleftrightarrow> g * 512 < off \<or> g = ?f" for g
    using assms by auto
  moreover have "6144 < m \<longleftrightarrow> 6144 < off \<or> 12 \<le> ?f"
    using assms by auto
  ultimately show ?thesis
    by (auto simp: uses_slots)
qed

text \<open>Storing into a data block of file \<open>i\<close> changes no pointer and no other data block.\<close>

lemma ptr_data:
  assumes ok: "fs_ok D img fi fb U" and i: "1 \<le> i" "i < fi" "slot f \<in> U i" and j: "1 \<le> j" "j < fi"
  defines "x \<equiv> unat (ptr img (D i) (slot f))"
  shows "ptr (img(x := b)) (D j) l = ptr img (D j) l"
    and "slot g \<in> U j \<Longrightarrow> unat (ptr img (D j) (slot g)) = x \<longleftrightarrow> j = i \<and> g = f"
proof -
  have "unat (d_addrs (D j) 12) \<noteq> x" if "d_addrs (D j) 12 \<noteq> 0"
    using fs_okD(1) [OF ok j, of 12] fs_ok_inj [OF ok j i(1,2) _ i(3), of 12] that slot_simps(1) [of f, symmetric]
    by (simp add: ptr_def [of _ _ 12] x_def word_unat_eq_iff)
  then show "ptr (img(x := b)) (D j) l = ptr img (D j) l"
    by (auto simp: ptr_def)
  show "unat (ptr img (D j) (slot g)) = x \<longleftrightarrow> j = i \<and> g = f" if "slot g \<in> U j"
    using fs_ok_inj [OF ok j i(1,2) that i(3)] by (simp add: x_def word_unat_eq_iff)
qed

lemma fs_ok_data:
  assumes ok: "fs_ok D img fi fb U" and i: "1 \<le> i" "i < fi" "slot f \<in> U i"
  shows "fs_ok D (img(unat (ptr img (D i) (slot f)) := b)) fi fb U"
proof (rule fs_ok_cong [OF ok])
  show "(img(unat (ptr img (D i) (slot f)) := b)) k = img k" if "fb \<le> k" for k
    using fs_okD(4) [OF ok i] that by simp
qed (use ptr_data(1) [OF ok i] in simp)

lemma fcontent_data:
  assumes ok: "fs_ok D img fi fb U" and i: "1 \<le> i" "i < fi" "slot f \<in> U i" and j: "1 \<le> j" "j < fi" "j \<noteq> i" "uses n \<subseteq> U j"
  shows "fcontent (img(unat (ptr img (D i) (slot f)) := b)) (D j) n = fcontent img (D j) n"
proof -
  have "slot (m div 512) \<in> U j" if "m < n" for m using uses_byte [OF that] j(4) by auto
  then show ?thesis
    using ptr_data [OF ok i j(1,2)] j(3) by (auto simp: fcontent_def)
qed

lemma fcontent_keeps:
  assumes "keeps D img D' img' fi U" "1 \<le> j" "j < fi" "uses n \<subseteq> U j"
  shows "fcontent img' (D' j) n = fcontent img (D j) n"
proof -
  have "slot (m div 512) \<in> U j" if "m < n" for m using uses_byte [OF that] assms(4) by auto
  then show ?thesis
    using assms by (auto simp: fcontent_def keeps_def)
qed

text \<open>The contents up to the end of the last block: the contents, then zeros.\<close>

definition rnd :: "nat \<Rightarrow> nat" where
  "rnd n = (n + 511) div 512 * 512"

definition pad :: "byte list \<Rightarrow> byte list" where
  "pad c = c @ replicate (rnd (length c) - length c) 0"

lemma rnd_ge: "n \<le> rnd n"
  by (simp add: rnd_def)

lemma rnd_iff: "f * 512 < rnd n \<longleftrightarrow> f * 512 < n"
  by (auto simp: rnd_def)

lemma uses_rnd [simp]: "uses (rnd n) = uses n"
  using rnd_iff [of _ n] rnd_iff [of 12 n] by (auto simp: uses_slots)

lemma length_pad [simp]: "length (pad c) = rnd (length c)"
  using rnd_ge [of "length c"] by (simp add: pad_def)

lemma nth_pad: "k < rnd (length c) \<Longrightarrow> pad c ! k = (if k < length c then c ! k else 0)"
  by (simp add: pad_def nth_append)

lemma rnd_piece: "off < m \<Longrightarrow> m \<le> (off div 512 + 1) * 512 \<Longrightarrow> rnd m = (off div 512 + 1) * 512"
  unfolding rnd_def by (rule arg_cong [where f = "\<lambda>x. x * 512"], rule div_nat_eqI) (auto simp: dividend_less_div_times)

lemma length_fcontent [simp]: "length (fcontent img di n) = n"
  by (simp add: fcontent_def)

lemma fcontent_append:
  assumes ok: "fs_ok D img fi fb U" and i: "1 \<le> i" "i < fi" and f: "f = off div 512" and n: "0 < n" "off + n \<le> (f + 1) * 512"
    and U: "uses (off + n) \<subseteq> U i" and c: "off + n \<le> length c"
    and old: "fcontent img (D i) (rnd off) = pad (take off c)"
    and new: "slot f \<notin> uses off \<Longrightarrow> img (unat (ptr img (D i) (slot f))) = (\<lambda>_. 0)"
  defines "x \<equiv> unat (ptr img (D i) (slot f))"
  shows "fcontent (img(x := blit (img x) (off - f * 512) n (bytes_of (drop off c)))) (D i) (rnd (off + n)) = pad (take (off + n) c)"
    (is "fcontent ?img _ _ = _")
proof (rule nth_equalityI)
  show "length (fcontent ?img (D i) (rnd (off + n))) = length (pad (take (off + n) c))"
    using c by simp
  fix m
  assume "m < length (fcontent ?img (D i) (rnd (off + n)))"
  then have m: "m < rnd (off + n)" by simp
  have fU: "slot f \<in> U i" using uses_byte [of off "off + n"] n U by (auto simp: f)
  note p = ptr_data [OF ok i fU i, folded x_def]
  have g: "unat (ptr img (D i) (slot (m div 512))) = x \<longleftrightarrow> m div 512 = f"
    using p(2) uses_byte [OF m] U by auto
  have q: "fcontent ?img (D i) (rnd (off + n)) ! m = ?img (unat (ptr img (D i) (slot (m div 512)))) (m mod 512)"
    using m p(1) by (simp add: fcontent_def del: upt_Suc fun_upd_apply)
  have r: "pad (take (off + n) c) ! m = (if m < off + n then c ! m else 0)"
    using m c by (simp add: nth_pad)
  have o: "img (unat (ptr img (D i) (slot (m div 512)))) (m mod 512) = (if m < off then c ! m else 0)" if "m < rnd off"
    using that arg_cong [OF old, of "\<lambda>l. l ! m"] c by (simp add: fcontent_def nth_pad)
  have md: "m = m div 512 * 512 + m mod 512" and od: "off = f * 512 + off mod 512" by (simp_all add: f)
  show "fcontent ?img (D i) (rnd (off + n)) ! m = pad (take (off + n) c) ! m"
  proof (cases "m div 512 = f")
    case False
    have "m < (f + 1) * 512" using m rnd_piece [of off "off + n"] n by (simp add: f)
    then have "m < f * 512" using False by (metis Suc_eq_plus1 div_less_iff_less_mult less_antisym zero_less_numeral)
    then have "m < off" "m < rnd off" using rnd_ge [of off] od by auto
    then show ?thesis using q r o g False by simp
  next
    case True
    have b: "off - f * 512 = off mod 512" using od by simp
    have old0: "img x (m mod 512) = (if m < off then c ! m else 0)"
    proof (cases "m < rnd off")
      case True
      then show ?thesis using o g \<open>m div 512 = f\<close> by simp
    next
      case False
      then have "\<not> f * 512 < off" using rnd_iff [of f off] rnd_piece [of "f * 512" off] m rnd_piece [of off "off + n"] n
        by (auto simp: f)
      then show ?thesis using new False rnd_ge [of off] by (simp add: uses_iff x_def)
    qed
    have "?img x (m mod 512) = (if off \<le> m \<and> m < off + n then c ! m else img x (m mod 512))"
    proof -
      have "m = f * 512 + m mod 512" using md True by simp
      then have "off mod 512 \<le> m mod 512 \<longleftrightarrow> off \<le> m" "m mod 512 < off mod 512 + n \<longleftrightarrow> m < off + n"
          "m mod 512 - off mod 512 = m - off"
        using od by linarith+
      then show ?thesis using c by (auto simp: blit_def bytes_of_def b)
    qed
    then show ?thesis using q r g True old0 by auto
  qed
qed

text \<open>The loop of \<open>iappend\<close>: what has been appended so far, and what is left, make up the new contents \<open>c\<close>.\<close>

definition app_inv :: "(nat \<Rightarrow> dinode) \<Rightarrow> mkfs \<Rightarrow> nat \<Rightarrow> nat \<Rightarrow> (nat \<Rightarrow> byte list) \<Rightarrow> byte list \<Rightarrow> dinode \<times> uint32 \<times> byte list \<Rightarrow> mkfs \<Rightarrow> bool" where
  "app_inv D s0 fi i C c l s \<longleftrightarrow> (case l of (din, off, p) \<Rightarrow>
     fs_ok (D(i := din)) (mk_img s) fi (unat (freeblock s)) (\<lambda>j. uses (if j = i then unat off else length (C j))) \<and>
     fcontent (mk_img s) din (rnd (unat off)) = pad (take (unat off) c) \<and> unat off \<le> length c \<and> p = drop (unat off) c \<and>
     (\<forall>j. 1 \<le> j \<longrightarrow> j < fi \<longrightarrow> j \<noteq> i \<longrightarrow> fcontent (mk_img s) (D j) (rnd (length (C j))) = pad (C j)) \<and>
     mk_frame s0 s \<and> (\<exists>a. din = (D i)\<lparr>d_addrs := a\<rparr>))"

lemma piece_words:
  assumes "unat (off :: uint32) + n \<le> 71680" "0 < n"
  defines "m \<equiv> min n ((unat off div 512 + 1) * 512 - unat off)"
  shows "unat (off div 512) = unat off div 512"
    and "unat (min (of_nat n) ((off div 512 + 1) * 512 - off)) = m"
    and "unat (off - off div 512 * 512) = unat off - unat off div 512 * 512"
    and "unat (off + min (of_nat n) ((off div 512 + 1) * 512 - off)) = unat off + m"
    and "0 < m" "m \<le> n" "unat off + m \<le> (unat off div 512 + 1) * 512"
proof -
  show d: "unat (off div 512) = unat off div 512" by (simp add: unat_div)
  have le: "unat off div 512 * 512 \<le> unat off" "unat off < (unat off div 512 + 1) * 512"
    by (simp_all add: div_times_less_eq_dividend dividend_less_div_times mult.commute)
  have p1: "unat ((off div 512 + 1) * 512) = (unat off div 512 + 1) * 512"
    using assms(1) le d by (simp add: unat_word_ariths)
  have p2: "unat (off div 512 * 512) = unat off div 512 * 512"
    using assms(1) le d by (simp add: unat_word_ariths)
  show "unat (off - off div 512 * 512) = unat off - unat off div 512 * 512"
    using le p2 by (simp add: unat_sub word_le_nat_alt)
  have p3: "unat ((off div 512 + 1) * 512 - off) = (unat off div 512 + 1) * 512 - unat off"
    using le p1 by (simp add: unat_sub word_le_nat_alt)
  have p4: "unat (of_nat n :: uint32) = n"
    using assms(1) by (simp add: unat_of_nat take_bit_nat_eq_self)
  show m: "unat (min (of_nat n) ((off div 512 + 1) * 512 - off)) = m"
    using p3 p4 by (simp add: min_def m_def word_le_nat_alt)
  show "0 < m" "m \<le> n" "unat off + m \<le> (unat off div 512 + 1) * 512"
    using le assms(2) by (auto simp: m_def)
  then show "unat (off + min (of_nat n) ((off div 512 + 1) * 512 - off)) = unat off + m"
    using assms(1) m by (simp add: unat_word_ariths)
qed

lemma cap_need:
  assumes i: "1 \<le> (i::nat)" "i < fi" and lt: "off < m" "m \<le> (off div 512 + 1) * 512" "m \<le> n"
    and cap: "(\<Sum>j=1..<fi. card (uses ((L(i := n)) j))) \<le> k"
  shows "(\<Sum>j=1..<fi. card (uses (if j = i then off else L j))) + card (need (off div 512) - uses off) \<le> k"
proof -
  let ?r = "\<Sum>j\<in>{1..<fi} - {i}. card (uses (L j))"
  have r: "(\<Sum>j=1..<fi. card (uses (if j = i then q else L j))) = card (uses q) + ?r" for q
    using i sum.remove [of "{1..<fi}" i "\<lambda>j. card (uses (if j = i then q else L j))"] by simp
  have "card (uses off) + card (need (off div 512) - uses off) = card (uses off \<union> (need (off div 512) - uses off))"
    by (rule card_Un_disjoint [symmetric]) (auto simp: need_def)
  also have "\<dots> = card (uses m)"
    using need_uses [OF lt(1,2)] by simp
  also have "\<dots> \<le> card (uses n)"
    using uses_mono [OF lt(3)] by (simp add: card_mono)
  finally show ?thesis
    using r [of off] r [of n] cap by (simp add: fun_upd_def)
qed

lemma app_store:
  assumes ok: "fs_ok (D(i := din)) (mk_img s) fi (unat (freeblock s)) (\<lambda>j. uses (if j = i then off + m else length (C j)))"
    and i: "1 \<le> i" "i < fi" and x: "x = ptr (mk_img s) din (slot (off div 512))"
    and m: "0 < m" "off + m \<le> (off div 512 + 1) * 512" and len: "mk_len s = 2000" "2000 \<le> mk_cap s"
    and C: "\<And>j. 1 \<le> j \<Longrightarrow> j < fi \<Longrightarrow> j \<noteq> i \<Longrightarrow> fcontent (mk_img s) (D j) (rnd (length (C j))) = pad (C j)"
    and c: "off + m \<le> length c" "p = drop off c" and old: "fcontent (mk_img s) din (rnd off) = pad (take off c)"
    and new: "slot (off div 512) \<notin> uses off \<Longrightarrow> mk_img s (unat x) = (\<lambda>_. 0)"
  obtains img where "rsect x s = Ok (mk_img s (unat x)) s"
    "wsect x (blit (mk_img s (unat x)) (off - off div 512 * 512) m (bytes_of p)) s = Ok () (s\<lparr>mk_img := img\<rparr>)"
    "fs_ok (D(i := din)) img fi (unat (freeblock s)) (\<lambda>j. uses (if j = i then off + m else length (C j)))"
    "fcontent img din (rnd (off + m)) = pad (take (off + m) c)"
    "\<And>j. 1 \<le> j \<Longrightarrow> j < fi \<Longrightarrow> j \<noteq> i \<Longrightarrow> fcontent img (D j) (rnd (length (C j))) = pad (C j)"
    "mk_frame s (s\<lparr>mk_img := img\<rparr>)"
proof
  let ?U = "\<lambda>j. uses (if j = i then off + m else length (C j))"
  let ?b = "blit (mk_img s (unat x)) (off - off div 512 * 512) m (bytes_of p)"
  let ?img = "(mk_img s)(unat x := ?b)"
  have f: "slot (off div 512) \<in> ?U i" using uses_byte [of off "off + m"] m by simp
  have x': "unat x = unat (ptr (mk_img s) ((D(i := din)) i) (slot (off div 512)))" by (simp add: x)
  have lt: "45 \<le> unat x" "unat x < 2000"
    using fs_okD(3,4) [OF ok i f] fs_ok_fb(2) [OF ok] x' by auto
  show "rsect x s = Ok (mk_img s (unat x)) s" "wsect x ?b s = Ok () (s\<lparr>mk_img := ?img\<rparr>)"
    using lt len by (simp_all add: rsect_ok wsect_ok)
  show "fs_ok (D(i := din)) ?img fi (unat (freeblock s)) ?U"
    unfolding x' by (rule fs_ok_data [OF ok i f])
  show "fcontent ?img din (rnd (off + m)) = pad (take (off + m) c)"
    using fcontent_append [OF ok i refl m _ c(1)] old new by (simp add: x c(2))
  show "fcontent ?img (D j) (rnd (length (C j))) = pad (C j)" if "1 \<le> j" "j < fi" "j \<noteq> i" for j
    using fcontent_data [OF ok i f that, of "rnd (length (C j))"] C [OF that] that(3) by (simp add: x)
  show "mk_frame s (s\<lparr>mk_img := ?img\<rparr>)"
    using lt by (simp add: mk_frame_def)
qed

lemma iappend_body_ok:
  assumes inv: "app_inv D s0 fi i C c (din, off, p) s" and i: "1 \<le> i" "i < fi" and p: "p \<noteq> []" and c: "length c \<le> 71680"
    and cap: "(\<Sum>j=1..<fi. card (uses (((\<lambda>j. length (C j))(i := length c)) j))) \<le> 1955"
    and len: "mk_len s0 = 2000" "2000 \<le> mk_cap s0"
  shows "returns (iappend_body (din, off, p) s) (\<lambda>v s'. case v of Inl l \<Rightarrow> app_inv D s0 fi i C c l s' \<and> length (snd (snd l)) < length p | Inr _ \<Rightarrow> False)"
proof -
  let ?D = "D(i := din)" and ?U = "\<lambda>j. uses (if j = i then unat off else length (C j))" and ?f = "unat off div 512"
  note I = inv [unfolded app_inv_def prod.case]
  have ok: "fs_ok ?D (mk_img s) fi (unat (freeblock s)) ?U" using I by simp
  have lc: "length c = unat off + length p" using I by auto
  define m where "m = min (length p) ((?f + 1) * 512 - unat off)"
  have pw: "unat off + length p \<le> 71680" "0 < length p" using lc c p by auto
  note w = piece_words [OF pw, folded m_def]
  have fr: "mk_len s = 2000" "2000 \<le> mk_cap s" using I len by (auto simp: mk_frame_def)
  have f: "?f < 140" by (rule less_mult_imp_div_less) (use pw in linarith)
  have "unat (freeblock s) + card (need ?f - ?U i) \<le> 2000"
    using cap_need [OF i _ w(7) _ cap] w(5,6) lc fs_ok_sum [OF ok] by (simp only: simp_thms if_True) auto
  then have blk: "returns (iappend_block din ?f s) (\<lambda>(x, din') s'.
    fs_ok (?D(i := din')) (mk_img s') fi (unat (freeblock s')) (?U(i := ?U i \<union> need ?f)) \<and> x = ptr (mk_img s') din' (slot ?f) \<and>
    keeps ?D (mk_img s) (?D(i := din')) (mk_img s') fi ?U \<and> mk_frame s s' \<and> (\<exists>a. din' = din\<lparr>d_addrs := a\<rparr>) \<and>
    (slot ?f \<notin> ?U i \<longrightarrow> mk_img s' (unat x) = (\<lambda>_. 0)))"
    using iappend_block_ok [OF ok i f _ fr] by simp
  then obtain x din' s1 where b: "iappend_block din ?f s = Ok (x, din') s1"
      "fs_ok (D(i := din')) (mk_img s1) fi (unat (freeblock s1)) (\<lambda>j. uses (if j = i then unat off + m else length (C j)))"
      "x = ptr (mk_img s1) din' (slot ?f)" "keeps ?D (mk_img s) (D(i := din')) (mk_img s1) fi ?U" "mk_frame s s1"
      "\<exists>a. din' = din\<lparr>d_addrs := a\<rparr>" "slot ?f \<notin> uses (unat off) \<Longrightarrow> mk_img s1 (unat x) = (\<lambda>_. 0)"
    using need_uses [of "unat off" "unat off + m"] w(5,7) by (auto simp: returns_iff fun_upd_def if_distrib cong: if_cong)
  have o: "\<exists>a. din' = (D i)\<lparr>d_addrs := a\<rparr>" using I b(6) by auto
  have fc: "fcontent (mk_img s1) din' (rnd (unat off)) = pad (take (unat off) c)"
      "\<And>j. 1 \<le> j \<Longrightarrow> j < fi \<Longrightarrow> j \<noteq> i \<Longrightarrow> fcontent (mk_img s1) (D j) (rnd (length (C j))) = pad (C j)"
    subgoal using fcontent_keeps [OF b(4) i, of "rnd (unat off)"] I by simp
    subgoal for j using fcontent_keeps [OF b(4), of j "rnd (length (C j))"] I by simp
    done
  have pc: "p = drop (unat off) c" using I by simp
  have mc: "unat off + m \<le> length c" "drop m p = drop (unat off + m) c"
    subgoal using w(6) lc by simp
    subgoal unfolding pc by (simp add: add.commute)
    done
  have fr1: "mk_len s1 = 2000" "2000 \<le> mk_cap s1" using b(5) fr by (auto simp: mk_frame_def)
  obtain img where st: "rsect x s1 = Ok (mk_img s1 (unat x)) s1"
    "wsect x (blit (mk_img s1 (unat x)) (unat off - ?f * 512) m (bytes_of p)) s1 = Ok () (s1\<lparr>mk_img := img\<rparr>)"
    "fs_ok (D(i := din')) img fi (unat (freeblock s1)) (\<lambda>j. uses (if j = i then unat off + m else length (C j)))"
    "fcontent img din' (rnd (unat off + m)) = pad (take (unat off + m) c)"
    "\<And>j. 1 \<le> j \<Longrightarrow> j < fi \<Longrightarrow> j \<noteq> i \<Longrightarrow> fcontent img (D j) (rnd (length (C j))) = pad (C j)"
    "mk_frame s1 (s1\<lparr>mk_img := img\<rparr>)"
    using app_store [OF b(2) i b(3) w(5,7) fr1 fc(2) _ _ fc(1) b(7)] mc(1) pc by blast
  have "mk_frame s0 (s1\<lparr>mk_img := img\<rparr>)"
    using mk_frame_trans [OF mk_frame_trans [OF _ b(5)] st(6)] I by blast
  then have "app_inv D s0 fi i C c (din', off + min (of_nat (length p)) ((off div 512 + 1) * 512 - off), drop m p) (s1\<lparr>mk_img := img\<rparr>)"
    unfolding app_inv_def prod.case w(4) using st(3,4,5) mc o by simp
  then show ?thesis
    using p f w(1,2,3,5) pw b(1) st(1,2) by (simp add: iappend_body_def)
qed

section \<open>Inodes\<close>

definition dino :: "mkfs \<Rightarrow> nat \<Rightarrow> dinode" where
  "dino s i = load_dinode (mk_img s (18 + i div 8)) (i mod 8 * 64)"

definition trim :: "dinode \<Rightarrow> dinode" where
  "trim di = di\<lparr>d_addrs := (\<lambda>k. if k < 13 then d_addrs di k else 0)\<rparr>"

lemma trim_simps [simp]:
  "ptr img (trim di) k = ptr img di k" "fcontent img (trim di) n = fcontent img di n" "d_size (trim di) = d_size di"
  "d_type (trim di) = d_type di" "d_nlink (trim di) = d_nlink di" "d_major (trim di) = d_major di" "d_minor (trim di) = d_minor di"
  by (simp_all add: trim_def ptr_def fcontent_def)

lemma store_dinode_outside: "k < off \<or> off + 64 \<le> k \<Longrightarrow> store_dinode d off di k = d k"
  by (auto simp: store_dinode_def put32s_outside put32_outside_nat put16_def)

lemma load_store_dinode: "load_dinode (store_dinode d off di) off = trim di"
proof (rule dinode.equality)
  have "get32 (store_dinode d off di) (off + 12 + 4 * k) = d_addrs di k" if "k < 13" for k
    using get32_put32s [of k 13 _ "off + 12"] that by (simp add: store_dinode_def)
  then show "d_addrs (load_dinode (store_dinode d off di) off) = d_addrs (trim di)"
    by (auto simp: load_dinode_def trim_def)
  show "d_size (load_dinode (store_dinode d off di) off) = d_size (trim di)"
    by (simp add: load_dinode_def store_dinode_def get32_put32s_other mem_simps)
qed (simp_all add: load_dinode_def store_dinode_def get16_def put32s_outside put32_outside_nat put16_def le16_bytes)

lemma load_store_other:
  assumes "off' + 64 \<le> off \<or> off + 64 \<le> off'"
  shows "load_dinode (store_dinode d off di) off' = load_dinode d off'"
  by (rule dinode.equality) (use assms in \<open>auto simp: load_dinode_def get16_def get32_def store_dinode_outside fun_eq_iff\<close>)

lemma inode_place:
  assumes "i < 208"
  shows "unat (IBLOCK (of_nat i) mk_super) = 18 + i div 8" "dip_off (of_nat i) = i mod 8 * 64" "18 + i div 8 < 44"
proof -
  have u: "unat (of_nat i :: uint32) = i" using assms by (simp add: unat_of_nat take_bit_nat_eq_self)
  show lt: "18 + i div 8 < 44" using assms by auto
  show "dip_off (of_nat i) = i mod 8 * 64"
    using u by (simp add: dip_off_def unat_mod)
  have "unat (of_nat i div 8 :: uint32) = i div 8" using u by (simp add: unat_div)
  then show "unat (IBLOCK (of_nat i) mk_super) = 18 + i div 8"
    using lt by (simp add: IBLOCK_def mk_super_def const_defs unat_word_ariths)
qed

lemma rinode_ok:
  assumes "i < 208" "mk_sb s = mk_super" "mk_len s = 2000"
  shows "rinode (of_nat i) s = Ok (dino s i) s"
  using inode_place [OF assms(1)] assms(2,3) by (simp add: rinode_def rsect_ok dino_def)

lemma winode_ok:
  assumes i: "i < 208" and s: "mk_sb s = mk_super" "mk_len s = 2000" "2000 \<le> mk_cap s"
  obtains img where "winode (of_nat i) di s = Ok () (s\<lparr>mk_img := img\<rparr>)"
    "\<And>b. b < 18 \<or> 44 \<le> b \<Longrightarrow> img b = mk_img s b"
    "dino (s\<lparr>mk_img := img\<rparr>) i = trim di" "\<And>j. j \<noteq> i \<Longrightarrow> dino (s\<lparr>mk_img := img\<rparr>) j = dino s j"
proof
  let ?b = "18 + i div 8"
  let ?img = "(mk_img s)(?b := store_dinode (mk_img s ?b) (i mod 8 * 64) di)"
  note p = inode_place [OF i]
  show "winode (of_nat i) di s = Ok () (s\<lparr>mk_img := ?img\<rparr>)"
    using p s by (simp add: winode_def rsect_ok wsect_ok)
  show "?img b = mk_img s b" if "b < 18 \<or> 44 \<le> b" for b using p(3) that by auto
  show "dino (s\<lparr>mk_img := ?img\<rparr>) i = trim di" by (simp add: dino_def load_store_dinode)
  show "dino (s\<lparr>mk_img := ?img\<rparr>) j = dino s j" if "j \<noteq> i" for j
  proof (cases "j div 8 = i div 8")
    case True
    then have "j mod 8 \<noteq> i mod 8" using that by (metis div_mult_mod_eq)
    then have "j mod 8 * 64 + 64 \<le> i mod 8 * 64 \<or> i mod 8 * 64 + 64 \<le> j mod 8 * 64" by auto
    then show ?thesis using True by (simp add: dino_def load_store_other)
  qed (simp add: dino_def)
qed

section \<open>The image as a set of files\<close>

text \<open>The image holds the files \<open>1\<close> to \<open>fi - 1\<close>, of type \<open>T i\<close> and with contents \<open>C i\<close>.\<close>

definition mk_ok :: "mkfs \<Rightarrow> nat \<Rightarrow> (nat \<Rightarrow> uint16) \<Rightarrow> (nat \<Rightarrow> byte list) \<Rightarrow> bool" where
  "mk_ok s fi T C \<longleftrightarrow>
     mk_sb s = mk_super \<and> mk_len s = 2000 \<and> 2000 \<le> mk_cap s \<and> freeinode s = of_nat fi \<and> 1 \<le> fi \<and> fi \<le> 200 \<and>
     fs_ok (dino s) (mk_img s) fi (unat (freeblock s)) (\<lambda>i. uses (length (C i))) \<and>
     (\<forall>i. 1 \<le> i \<longrightarrow> i < fi \<longrightarrow> length (C i) \<le> 71680 \<and> fcontent (mk_img s) (dino s i) (rnd (length (C i))) = pad (C i) \<and>
        d_type (dino s i) = T i \<and> d_nlink (dino s i) = 1 \<and> d_size (dino s i) = of_nat (length (C i))) \<and>
     (\<forall>i. i = 0 \<or> fi \<le> i \<and> i < 208 \<longrightarrow> d_type (dino s i) = 0) \<and>
     mk_img s 1 = store_sb mk_super \<and> (\<forall>b. b < 18 \<or> b = 44 \<longrightarrow> b \<noteq> 1 \<longrightarrow> mk_img s b = (\<lambda>_. 0))"

definition blocks :: "nat \<Rightarrow> (nat \<Rightarrow> byte list) \<Rightarrow> nat" where
  "blocks fi C = (\<Sum>i=1..<fi. card (uses (length (C i))))"

lemma fs_ok_meta:
  assumes ok: "fs_ok D img fi fb U" and D: "\<And>j k. 1 \<le> j \<Longrightarrow> j < fi \<Longrightarrow> ptr img (D' j) k = ptr img (D j) k"
    and img: "\<And>b. 45 \<le> b \<Longrightarrow> img' b = img b"
  shows "fs_ok D' img' fi fb U"
    and "1 \<le> j \<Longrightarrow> j < fi \<Longrightarrow> uses n \<subseteq> U j \<Longrightarrow> fcontent img' (D' j) n = fcontent img (D j) n"
proof -
  have p: "ptr img' (D' j) k = ptr img (D j) k" if "1 \<le> j" "j < fi" for j k
  proof -
    have "45 \<le> unat (d_addrs (D j) 12)" if "d_addrs (D j) 12 \<noteq> 0"
      using fs_okD(1,3) [OF ok \<open>1 \<le> j\<close> \<open>j < fi\<close>, of 12] that by (simp add: ptr_def)
    moreover have "d_addrs (D' j) 12 = d_addrs (D j) 12"
      using D [OF that, of 12] by (simp add: ptr_def)
    ultimately show ?thesis
      using D [OF that, of k] img by (auto simp: ptr_def split: if_splits)
  qed
  show "fs_ok D' img' fi fb U"
    by (rule fs_ok_cong [OF ok]) (use p img fs_ok_fb(1) [OF ok] in auto)
  show "fcontent img' (D' j) n = fcontent img (D j) n" if j: "1 \<le> j" "j < fi" "uses n \<subseteq> U j"
  proof -
    have "45 \<le> unat (ptr img (D j) (slot (m div 512)))" if "m < n" for m
      using fs_okD(3) [OF ok j(1,2)] uses_byte [OF that] j(3) by auto
    then show ?thesis using p [OF j(1,2)] img by (auto simp: fcontent_def)
  qed
qed

lemma iappend_loop:
  assumes inv: "app_inv D s fi i C c (din, off, p) s" and i: "1 \<le> i" "i < fi" and c: "length c \<le> 71680"
    and cap: "(\<Sum>j=1..<fi. card (uses (((\<lambda>j. length (C j))(i := length c)) j))) \<le> 1955"
    and len: "mk_len s = 2000" "2000 \<le> mk_cap s"
  shows "returns (wloop (\<lambda>(din, off, p). length p) iappend_body (Ok (Inl (din, off, p)) s))
     (\<lambda>r s'. app_inv D s fi i C c (fst r, snd r, []) s')"
proof (rule wloop_rule [where I = "app_inv D s fi i C c", OF inv])
  fix l s'
  assume I: "app_inv D s fi i C c l s'"
  obtain din off q where l: "l = (din, off, q)" by (cases l)
  show "returns (iappend_body l s') (\<lambda>v s'. case v of
      Inl l' \<Rightarrow> app_inv D s fi i C c l' s' \<and> (case l' of (din, off, p) \<Rightarrow> length p) < (case l of (din, off, p) \<Rightarrow> length p)
    | Inr r \<Rightarrow> app_inv D s fi i C c (fst r, snd r, []) s')"
  proof (cases "q = []")
    case False
    show ?thesis
      by (rule returns_mono [OF iappend_body_ok [OF I [unfolded l] i False c cap len, folded l]])
        (auto simp: l split: sum.splits prod.splits)
  qed (use I l in \<open>simp add: iappend_body_def\<close>)
qed

lemma mk_okD:
  assumes "mk_ok s fi T C"
  shows "mk_sb s = mk_super" "mk_len s = 2000" "2000 \<le> mk_cap s" "freeinode s = of_nat fi" "1 \<le> fi" "fi \<le> 200"
    and "fs_ok (dino s) (mk_img s) fi (unat (freeblock s)) (\<lambda>i. uses (length (C i)))"
    and "\<lbrakk>1 \<le> i; i < fi\<rbrakk> \<Longrightarrow> length (C i) \<le> 71680" "\<lbrakk>1 \<le> i; i < fi\<rbrakk> \<Longrightarrow> fcontent (mk_img s) (dino s i) (rnd (length (C i))) = pad (C i)"
    and "\<lbrakk>1 \<le> i; i < fi\<rbrakk> \<Longrightarrow> d_type (dino s i) = T i" "\<lbrakk>1 \<le> i; i < fi\<rbrakk> \<Longrightarrow> d_nlink (dino s i) = 1"
    and "\<lbrakk>1 \<le> i; i < fi\<rbrakk> \<Longrightarrow> d_size (dino s i) = of_nat (length (C i))"
    and "i = 0 \<or> fi \<le> i \<and> i < 208 \<Longrightarrow> d_type (dino s i) = 0"
    and "mk_img s 1 = store_sb mk_super" "b < 18 \<or> b = 44 \<Longrightarrow> b \<noteq> 1 \<Longrightarrow> mk_img s b = (\<lambda>_. 0)"
  using assms unfolding mk_ok_def by blast+

text \<open>The new contents of a file, once its inode is written.\<close>

lemma app_inv_winode:
  assumes ok: "mk_ok s fi T C" and i: "1 \<le> i" "i < fi" and c: "length c \<le> 71680"
    and I: "app_inv (dino s) s fi i C c (din, off, []) s1"
  shows "returns (winode (of_nat i) (din\<lparr>d_size := off\<rparr>) s1) (\<lambda>_ s'. mk_ok s' fi T (C(i := c)))"
proof -
  note O = mk_okD [OF ok]
  let ?D = "(dino s)(i := din)" and ?C = "C(i := c)"
  have I': "fs_ok ?D (mk_img s1) fi (unat (freeblock s1)) (\<lambda>j. uses (if j = i then unat off else length (C j)))"
      "fcontent (mk_img s1) din (rnd (unat off)) = pad (take (unat off) c)" "mk_frame s s1" "\<exists>a. din = (dino s i)\<lparr>d_addrs := a\<rparr>"
      "\<And>j. 1 \<le> j \<Longrightarrow> j < fi \<Longrightarrow> j \<noteq> i \<Longrightarrow> fcontent (mk_img s1) (dino s j) (rnd (length (C j))) = pad (C j)"
    using I by (simp_all add: app_inv_def)
  have off: "unat off = length c" using I by (simp add: app_inv_def)
  then have off': "off = of_nat (length c)" by (simp flip: off)
  have U: "(\<lambda>j. uses (if j = i then unat off else length (C j))) = (\<lambda>j. uses (length (?C j)))"
    by (rule ext) (simp add: off)
  have fr: "mk_sb s1 = mk_super" "mk_len s1 = 2000" "2000 \<le> mk_cap s1" "freeinode s1 = of_nat fi" "\<And>b. b < 45 \<Longrightarrow> mk_img s1 b = mk_img s b"
    using I'(3) O(1-4) by (auto simp: mk_frame_def)
  have i2: "i < 208" using i O(6) by simp
  obtain img where w: "winode (of_nat i) (din\<lparr>d_size := off\<rparr>) s1 = Ok () (s1\<lparr>mk_img := img\<rparr>)"
    "\<And>b. b < 18 \<or> 44 \<le> b \<Longrightarrow> img b = mk_img s1 b"
    "dino (s1\<lparr>mk_img := img\<rparr>) i = trim (din\<lparr>d_size := off\<rparr>)" "\<And>j. j \<noteq> i \<Longrightarrow> dino (s1\<lparr>mk_img := img\<rparr>) j = dino s1 j"
    using winode_ok [OF i2 fr(1-3), of "din\<lparr>d_size := off\<rparr>"] by blast
  let ?s = "s1\<lparr>mk_img := img\<rparr>"
  have d: "dino ?s j = (if j = i then trim (din\<lparr>d_size := off\<rparr>) else dino s j)" if "j < 208" for j
    using w(3,4) fr(5) that by (simp add: dino_def)
  have p: "ptr (mk_img s1) (dino ?s j) k = ptr (mk_img s1) (?D j) k" if "1 \<le> j" "j < fi" for j k
    using d [of j] that O(6) by (simp add: ptr_def [of _ "_\<lparr>d_size := off\<rparr>"] ptr_def [of _ din])
  note M = fs_ok_meta [OF I'(1) p w(2), unfolded U]
  have "fs_ok (dino ?s) img fi (unat (freeblock s1)) (\<lambda>j. uses (length (?C j)))"
    by (rule M(1)) auto
  moreover have "fcontent img (dino ?s j) (rnd (length (?C j))) = pad (?C j)" if "1 \<le> j" "j < fi" for j
    using M(2) [OF _ _ _ that, of "rnd (length (?C j))"] I'(2,5) off that by auto
  moreover have "d_type (dino ?s j) = T j \<and> d_nlink (dino ?s j) = 1 \<and> d_size (dino ?s j) = of_nat (length (?C j))" if "1 \<le> j" "j < fi" for j
    using d [of j] O(6,10-12) that I'(4) i off' by auto
  moreover have "d_type (dino ?s j) = 0" if "j = 0 \<or> fi \<le> j \<and> j < 208" for j
    using d [of j] O(13) [OF that] i that by auto
  ultimately show ?thesis
    unfolding w(1) returns_simps mk_ok_def using fr O(5,6,8,14,15) w(2) c by (auto simp del: One_nat_def)
qed

lemma iappend_ok:
  assumes ok: "mk_ok s fi T C" and i: "1 \<le> i" "i < fi" and sz: "length (C i @ p) \<le> 71680" and cap: "blocks fi (C(i := C i @ p)) \<le> 1955"
  shows "returns (iappend (of_nat i) p s) (\<lambda>_ s'. mk_ok s' fi T (C(i := C i @ p)))"
proof -
  note O = mk_okD [OF ok]
  have i2: "i < 208" using i O(6) by simp
  have sz0: "unat (d_size (dino s i)) = length (C i)"
    using O(8,12) [OF i] by (simp add: unat_of_nat take_bit_nat_eq_self)
  have U: "(\<lambda>j. uses (if j = i then length (C i) else length (C j))) = (\<lambda>j. uses (length (C j)))" by (rule ext) simp
  have "app_inv (dino s) s fi i C (C i @ p) (dino s i, d_size (dino s i), p) s"
    unfolding app_inv_def prod.case sz0 U using O(7,9) i by (auto intro: exI [of _ "d_addrs (dino s i)"])
  moreover have "(\<Sum>j=1..<fi. card (uses (((\<lambda>j. length (C j))(i := length (C i @ p))) j))) \<le> 1955"
    using cap by (simp add: blocks_def fun_upd_def if_distrib cong: if_cong)
  ultimately have "returns (wloop (\<lambda>(din, off, p). length p) iappend_body (Ok (Inl (dino s i, d_size (dino s i), p)) s))
     (\<lambda>r s'. app_inv (dino s) s fi i C (C i @ p) (fst r, snd r, []) s')"
    using iappend_loop [OF _ i sz _ O(2,3)] by blast
  then show ?thesis
    using app_inv_winode [OF ok i sz] rinode_ok [OF i2 O(1,2)]
    by (simp add: iappend_def returns_andthen split_beta) (auto elim!: returns_mono)
qed

lemma ptr_new [simp]: "d_addrs di = (\<lambda>_. 0) \<Longrightarrow> ptr img di k = 0"
  by (simp add: ptr_def)

lemma fs_ok_new:
  assumes ok: "fs_ok D img fi fb U" and D: "\<And>j. j < fi \<Longrightarrow> D' j = D j" "\<And>k. ptr img (D' fi) k = 0"
    and U: "\<And>j. j < fi \<Longrightarrow> U' j = U j" "U' fi = {}" and fi: "1 \<le> fi"
  shows "fs_ok D' img (Suc fi) fb U'"
proof (rule fs_okI)
  fix i k
  assume i: "1 \<le> i" "i < Suc fi"
  then have i': "i = fi \<or> i < fi" by auto
  show "k < 141" if "k \<in> U' i" using i' U D fs_okD(2) [OF ok i(1), of k] that by auto
  show "ptr img (D' i) k = 0 \<longleftrightarrow> k \<notin> U' i" if "k < 141" using i' U D fs_okD(1) [OF ok i(1), of k] that by auto
  show "45 \<le> unat (ptr img (D' i) k) \<and> unat (ptr img (D' i) k) < fb" if "k \<in> U' i"
    using i' U D fs_okD(3,4) [OF ok i(1), of k] that by auto
  show "i = j \<and> k = l" if j: "1 \<le> j" "j < Suc fi" and kl: "k \<in> U' i" "l \<in> U' j" "ptr img (D' i) k = ptr img (D' j) l" for j l
  proof -
    have "i < fi" "j < fi" using i' j(2) kl U(2) by (auto simp: less_Suc_eq)
    then show ?thesis using fs_ok_inj [OF ok i(1) _ j(1), of k l] kl U D by simp
  qed
next
  have "(\<Sum>i=1..<Suc fi. card (U' i)) = (\<Sum>i=1..<fi. card (U i))"
    using fi U by (simp add: sum.atLeastLessThan_Suc)
  then show "fb = 45 + (\<Sum>i=1..<Suc fi. card (U' i))" using fs_ok_sum [OF ok] by simp
qed (use fs_ok_fb [OF ok] in auto)

lemma mk_ialloc_ok:
  assumes ok: "mk_ok s fi T C" and fi: "fi < 200"
  shows "returns (mk_ialloc t s) (\<lambda>r s'. r = of_nat fi \<and> mk_ok s' (Suc fi) (T(fi := t)) (C(fi := [])))"
proof -
  note O = mk_okD [OF ok]
  let ?di = "\<lparr>d_type = t, d_major = 0, d_minor = 0, d_nlink = 1, d_size = 0, d_addrs = (\<lambda>_. 0)\<rparr>"
  let ?s = "s\<lparr>freeinode := of_nat fi + 1\<rparr>" and ?C = "C(fi := [])"
  have s: "fi < 208" "mk_sb ?s = mk_super" "mk_len ?s = 2000" "2000 \<le> mk_cap ?s" using O fi by auto
  obtain img where w: "winode (of_nat fi) ?di ?s = Ok () (?s\<lparr>mk_img := img\<rparr>)"
    "\<And>b. b < 18 \<or> 44 \<le> b \<Longrightarrow> img b = mk_img s b"
    "dino (?s\<lparr>mk_img := img\<rparr>) fi = trim ?di" "\<And>j. j \<noteq> fi \<Longrightarrow> dino (?s\<lparr>mk_img := img\<rparr>) j = dino s j"
    using winode_ok [OF s, of ?di] by (auto simp: dino_def)
  let ?s' = "?s\<lparr>mk_img := img\<rparr>"
  have ok0: "fs_ok ((dino s)(fi := trim ?di)) (mk_img s) (Suc fi) (unat (freeblock s)) (\<lambda>i. uses (length (?C i)))"
    by (rule fs_ok_new [OF O(7)]) (use O(5) in auto)
  have d: "dino ?s' = (dino s)(fi := trim ?di)" using w(3,4) by auto
  note M = fs_ok_meta [OF ok0 refl w(2)]
  have "fs_ok (dino ?s') img (Suc fi) (unat (freeblock s)) (\<lambda>i. uses (length (?C i)))"
    unfolding d by (rule M(1)) auto
  moreover have "length (?C j) \<le> 71680 \<and> fcontent img (dino ?s' j) (rnd (length (?C j))) = pad (?C j) \<and>
      d_type (dino ?s' j) = (T(fi := t)) j \<and> d_nlink (dino ?s' j) = 1 \<and> d_size (dino ?s' j) = of_nat (length (?C j))"
    if "1 \<le> j" "j < Suc fi" for j
  proof (cases "j = fi")
    case True
    then show ?thesis by (simp add: d fcontent_def pad_def rnd_def)
  next
    case False
    then have "j < fi" using that by simp
    then show ?thesis
      using M(2) [OF _ that, of "rnd (length (C j))"] O(8-12) [of j] that False unfolding d by simp
  qed
  moreover have "d_type (dino ?s' j) = 0" if "j = 0 \<or> Suc fi \<le> j \<and> j < 208" for j
    using O(13) [of j] O(5) that by (auto simp: d)
  ultimately have "mk_ok ?s' (Suc fi) (T(fi := t)) ?C"
    unfolding mk_ok_def using O(1-3,14,15) w(2) fi by (auto simp del: One_nat_def fun_upd_apply)
  then show ?thesis
    using w(1) O(4) by (simp add: mk_ialloc_def Let_def)
qed

text \<open>What one argument adds: a file with the concatenation of the pieces, and an entry of the root directory.\<close>

definition add_file :: "byte list \<times> byte list list \<Rightarrow> nat \<times> (nat \<Rightarrow> uint16) \<times> (nat \<Rightarrow> byte list) \<Rightarrow> nat \<times> (nat \<Rightarrow> uint16) \<times> (nat \<Rightarrow> byte list)" where
  "add_file a x = (case (a, x) of ((name, ps), (fi, T, C)) \<Rightarrow>
     (Suc fi, T(fi := T_FILE), C(fi := concat ps, 1 := C 1 @ dirent (of_nat fi) (unscore (shortname name)))))"

lemma blocks_mono:
  assumes "\<And>j. 1 \<le> j \<Longrightarrow> j < fi \<Longrightarrow> length (C j) \<le> length (C' j)" "fi \<le> fi'"
  shows "blocks fi C \<le> blocks fi' C'"
proof -
  have "blocks fi C \<le> blocks fi C'"
    unfolding blocks_def by (rule sum_mono) (use assms(1) in \<open>auto intro!: card_mono uses_mono\<close>)
  also have "\<dots> \<le> blocks fi' C'"
    unfolding blocks_def by (rule sum_mono2) (use assms(2) in auto)
  finally show ?thesis .
qed

lemma length_dirent [simp]: "length (dirent i n) = 16"
  by (simp add: dirent_def Let_def const_defs)

lemma pieces_ok:
  assumes "mk_ok s fi T C" "1 \<le> i" "i < fi" "length (C i @ concat ps) \<le> 71680" "blocks fi (C(i := C i @ concat ps)) \<le> 1955"
  shows "returns (for_each ps (\<lambda>p s. andthen (iappend (of_nat i) p s) (\<lambda>_ s. Ok (None :: unit option) s)) s)
    (\<lambda>r s'. r = None \<and> mk_ok s' fi T (C(i := C i @ concat ps)))"
  using assms
proof (induction ps arbitrary: s C)
  case (Cons p ps)
  have "blocks fi (C(i := C i @ p)) \<le> blocks fi (C(i := C i @ concat (p # ps)))"
    by (rule blocks_mono) auto
  then have "returns (iappend (of_nat i) p s) (\<lambda>_ s'. mk_ok s' fi T (C(i := C i @ p)))"
    using Cons.prems by (intro iappend_ok) (auto simp del: fun_upd_apply)
  then obtain u s1 where a: "iappend (of_nat i) p s = Ok u s1" "mk_ok s1 fi T (C(i := C i @ p))"
    by (auto simp: returns_iff)
  show ?case
    using Cons.IH [OF a(2)] Cons.prems a(1) by (simp del: fun_upd_apply add: fun_upd_same)
qed simp

lemma mk_file_ok:
  assumes ok: "mk_ok s fi T C" and fi: "1 < fi" "fi < 200" and name: "bstr ''/'' ! 0 \<notin> set (shortname name)"
    and sz: "length (concat ps) \<le> 71680" "length (C 1) + 16 \<le> 71680"
    and r: "add_file (name, ps) (fi, T, C) = (fi', T', C')" and cap: "blocks fi' C' \<le> 1955"
  shows "returns (mk_file (name, Some ps) s) (\<lambda>r s'. r = None \<and> mk_ok s' fi' T' C')"
proof -
  let ?C1 = "C(fi := [])" and ?de = "dirent (of_nat fi) (unscore (shortname name))"
  have r': "fi' = Suc fi" "T' = T(fi := T_FILE)" "C' = C(fi := concat ps, 1 := C 1 @ ?de)"
    using r by (auto simp: add_file_def)
  obtain s1 where a: "mk_ialloc T_FILE s = Ok (of_nat fi) s1" "mk_ok s1 fi' T' ?C1"
    using mk_ialloc_ok [OF ok fi(2), of T_FILE] by (auto simp: returns_iff r')
  have "blocks fi' (?C1(1 := ?C1 1 @ ?de)) \<le> blocks fi' C'"
    by (rule blocks_mono) (auto simp: r')
  then have "returns (iappend (of_nat 1) ?de s1) (\<lambda>_ s'. mk_ok s' fi' T' (?C1(1 := ?C1 1 @ ?de)))"
    using cap sz(2) fi by (intro iappend_ok [OF a(2)]) (auto simp: r')
  then obtain u s2 where b: "iappend ROOTINO ?de s1 = Ok u s2" "mk_ok s2 fi' T' (?C1(1 := ?C1 1 @ ?de))"
    by (auto simp: returns_iff const_defs)
  have C': "(?C1(1 := ?C1 1 @ ?de))(fi := (?C1(1 := ?C1 1 @ ?de)) fi @ concat ps) = C'"
    using fi by (auto simp: r')
  have "returns (for_each ps (\<lambda>p s. andthen (iappend (of_nat fi) p s) (\<lambda>_ s. Ok (None :: unit option) s)) s2)
    (\<lambda>r s'. r = None \<and> mk_ok s' fi' T' C')"
    using pieces_ok [OF b(2), of fi ps, unfolded C'] fi sz(1) cap by (simp add: r'(1))
  with a(1) b(1) name show ?thesis by (simp add: mk_file_def)
qed

lemma add_file_props:
  assumes "fold add_file files (fi, T, C) = (fi', T', C')" "1 < fi"
  shows "fi' = fi + length files"
    and "length (C' 1) = length (C 1) + 16 * length files"
    and "C' 1 = C 1 @ concat (map (\<lambda>k. dirent (of_nat (fi + k)) (unscore (shortname (fst (files ! k))))) [0..<length files])"
    and "\<And>k. 1 < k \<Longrightarrow> k < fi \<Longrightarrow> C' k = C k" "\<And>k. k < length files \<Longrightarrow> C' (fi + k) = concat (snd (files ! k))"
    and "\<And>k. k < fi \<Longrightarrow> T' k = T k" "\<And>k. k < length files \<Longrightarrow> T' (fi + k) = T_FILE"
proof -
  have "fi' = fi + length files \<and> length (C' 1) = length (C 1) + 16 * length files \<and>
     C' 1 = C 1 @ concat (map (\<lambda>k. dirent (of_nat (fi + k)) (unscore (shortname (fst (files ! k))))) [0..<length files]) \<and>
     (\<forall>k. 1 < k \<longrightarrow> k < fi \<longrightarrow> C' k = C k) \<and> (\<forall>k<length files. C' (fi + k) = concat (snd (files ! k))) \<and>
     (\<forall>k<fi. T' k = T k) \<and> (\<forall>k<length files. T' (fi + k) = T_FILE)"
    using assms
  proof (induction files arbitrary: fi T C)
    case (Cons a files)
    obtain name ps where a: "a = (name, ps)" by force
    let ?C = "C(fi := concat ps, 1 := C 1 @ dirent (of_nat fi) (unscore (shortname name)))"
    have IH: "fi' = Suc fi + length files \<and> length (C' 1) = length (?C 1) + 16 * length files \<and>
       C' 1 = ?C 1 @ concat (map (\<lambda>k. dirent (of_nat (Suc fi + k)) (unscore (shortname (fst (files ! k))))) [0..<length files]) \<and>
       (\<forall>k. 1 < k \<longrightarrow> k < Suc fi \<longrightarrow> C' k = ?C k) \<and> (\<forall>k<length files. C' (Suc fi + k) = concat (snd (files ! k))) \<and>
       (\<forall>k<Suc fi. T' k = (T(fi := T_FILE)) k) \<and> (\<forall>k<length files. T' (Suc fi + k) = T_FILE)"
      by (rule Cons.IH) (use Cons.prems in \<open>simp_all add: add_file_def a del: fun_upd_apply\<close>)
    have m: "map f [0..<Suc (length files)] = f 0 # map (\<lambda>k. f (Suc k)) [0..<length files]" for f :: "nat \<Rightarrow> byte list"
      by (simp add: upt_conv_Cons map_Suc_upt [symmetric] del: upt_Suc)
    have "\<forall>k<length (a # files). C' (fi + k) = concat (snd ((a # files) ! k)) \<and> T' (fi + k) = T_FILE"
    proof (intro allI impI)
      fix k
      assume "k < length (a # files)"
      then show "C' (fi + k) = concat (snd ((a # files) ! k)) \<and> T' (fi + k) = T_FILE"
        using IH Cons.prems(2) by (cases k) (auto simp: a)
    qed
    with IH Cons.prems(2) show ?case
      by (auto simp: a m add.left_commute simp del: upt_Suc)
  qed simp
  then show "fi' = fi + length files" "length (C' 1) = length (C 1) + 16 * length files"
    "C' 1 = C 1 @ concat (map (\<lambda>k. dirent (of_nat (fi + k)) (unscore (shortname (fst (files ! k))))) [0..<length files])"
    "\<And>k. 1 < k \<Longrightarrow> k < fi \<Longrightarrow> C' k = C k" "\<And>k. k < length files \<Longrightarrow> C' (fi + k) = concat (snd (files ! k))"
    "\<And>k. k < fi \<Longrightarrow> T' k = T k" "\<And>k. k < length files \<Longrightarrow> T' (fi + k) = T_FILE"
    by blast+
qed

section \<open>The whole program\<close>

lemma mk_files_ok:
  assumes "mk_ok s fi T C" "1 < fi" "fi + length files \<le> 200" "\<forall>(name, ps)\<in>set files. bstr ''/'' ! 0 \<notin> set (shortname name) \<and> length (concat ps) \<le> 71680"
    and "length (C 1) + 16 * length files \<le> 71680"
    and "fold add_file files (fi, T, C) = (fi', T', C')" "blocks fi' C' \<le> 1955"
  shows "returns (for_each (map (\<lambda>(n, ps). (n, Some ps)) files) mk_file s) (\<lambda>r s'. mk_ok s' fi' T' C')"
  using assms
proof (induction files arbitrary: s fi T C)
  case (Cons a files)
  obtain name ps where a: "a = (name, ps)" by force
  obtain fi1 T1 C1 where r: "add_file (name, ps) (fi, T, C) = (fi1, T1, C1)" by (metis prod_cases3)
  then have r': "fi1 = Suc fi" "length (C1 1) = length (C 1) + 16" "\<And>k. length (C k) \<le> length (C1 k) \<or> k = fi"
    by (auto simp: add_file_def)
  have f: "fold add_file files (fi1, T1, C1) = (fi', T', C')" using Cons.prems(6) r by (simp add: a)
  note P = add_file_props [OF f]
  have "length (C1 j) \<le> length (C' j)" if "1 \<le> j" "j < fi1" for j
    using P(2,4) [of] that Cons.prems(2) r'(1) by (cases "j = 1") auto
  then have "blocks fi1 C1 \<le> 1955"
    using blocks_mono [of fi1 C1 C' fi'] P(1) Cons.prems(2,7) r'(1) by simp
  then have "returns (mk_file (name, Some ps) s) (\<lambda>r s'. r = None \<and> mk_ok s' fi1 T1 C1)"
    using Cons.prems by (intro mk_file_ok [OF Cons.prems(1,2) _ _ _ _ r]) (auto simp: a)
  then obtain s1 where s1: "mk_file (name, Some ps) s = Ok None s1" "mk_ok s1 fi1 T1 C1"
    by (auto simp: returns_iff)
  show ?case
    using Cons.IH [OF s1(2) _ _ _ _ f] Cons.prems r' s1(1) by (simp add: a)
qed simp

lemma zeroed:
  assumes "mk_img s = (\<lambda>_ _. 0)" "mk_len s = 0" "2000 \<le> mk_cap s"
  shows "for_each [0..<2000] (\<lambda>i s. andthen (wsect (of_nat i) (\<lambda>_. 0) s) (\<lambda>_ s. Ok (None :: unit option) s)) s = Ok None (s\<lparr>mk_len := 2000\<rparr>)"
proof -
  have "returns (for_each [0..<2000] (\<lambda>i s. andthen (wsect (of_nat i) (\<lambda>_. 0) s) (\<lambda>_ s. Ok (None :: unit option) s)) s)
      (\<lambda>r s'. r = None \<and> s' = s\<lparr>mk_len := 2000\<rparr>)"
  proof (rule for_each_upt [where I = "\<lambda>k s'. s' = s\<lparr>mk_len := k\<rparr>"])
    fix k s'
    assume k: "k < 2000" and s': "s' = s\<lparr>mk_len := k\<rparr>"
    have "sect_at (of_nat k) = k" using k unat_blockno [of k] by (simp add: sect_at_small)
    moreover have "s\<lparr>mk_img := (mk_img s)(k := \<lambda>_. 0), mk_len := Suc k\<rparr> = s\<lparr>mk_len := Suc k\<rparr>"
      by (rule mkfs.equality) (auto simp: assms(1))
    ultimately show "returns (andthen (wsect (of_nat k) (\<lambda>_. 0) s') (\<lambda>_ s. Ok (None :: unit option) s)) (\<lambda>r s''. r = None \<and> s'' = s\<lparr>mk_len := Suc k\<rparr>)"
      using k assms(2,3) by (simp add: wsect_def s')
  qed (use assms in simp)
  then show ?thesis by (auto simp: returns_iff simp del: upt_rec_numeral)
qed

lemma empty_image_ok:
  assumes "mk_sb s = mk_super" "mk_len s = 2000" "2000 \<le> mk_cap s" "freeinode s = 1" "freeblock s = 45"
    and "mk_img s = (\<lambda>_ _. 0)(1 := store_sb mk_super)"
  shows "mk_ok s 1 T C"
proof -
  have "fs_ok (dino s) (mk_img s) 1 45 (\<lambda>i. uses (length (C i)))"
    by (rule fs_okI) (auto simp: assms(6))
  moreover have "d_type (dino s i) = 0" for i
    by (simp add: dino_def load_dinode_def assms(6) get16_def le16_def)
  ultimately show ?thesis
    using assms unfolding mk_ok_def by simp
qed

text \<open>Up to the correction of the size of the root directory.\<close>

definition root_dir :: "(byte list \<times> byte list list) list \<Rightarrow> byte list" where
  "root_dir files = dirent 1 (bstr ''.'') @ dirent 1 (bstr ''..'') @
     concat (map (\<lambda>k. dirent (of_nat (2 + k)) (unscore (shortname (fst (files ! k))))) [0..<length files])"

definition file_of :: "(byte list \<times> byte list list) list \<Rightarrow> nat \<Rightarrow> byte list" where
  "file_of files i = (if i = 1 then root_dir files else concat (snd (files ! (i - 2))))"

definition fits :: "nat \<Rightarrow> (byte list \<times> byte list list) list \<Rightarrow> bool" where
  "fits cap files \<longleftrightarrow> FSSIZE \<le> cap \<and> length files + 2 \<le> NINODES \<and>
     (\<forall>(name, ps)\<in>set files. bstr ''/'' ! 0 \<notin> set (shortname name) \<and> length (concat ps) \<le> MAXFILE * BSIZE) \<and>
     nmeta + (\<Sum>i=1..<2 + length files. (let n = length (file_of files i) in (n + 511) div 512 + (if 6144 < n then 1 else 0))) \<le> FSSIZE"

lemma fs_ok_U:
  assumes ok: "fs_ok D img fi fb U" and U: "\<And>i. 1 \<le> i \<Longrightarrow> i < fi \<Longrightarrow> U' i = U i"
  shows "fs_ok D img fi fb U'"
proof (rule fs_okI)
  show "fb = 45 + (\<Sum>i=1..<fi. card (U' i))" using fs_ok_sum [OF ok] U by simp
qed (use fs_okD [OF ok] fs_ok_fb [OF ok] fs_ok_inj [OF ok] U in auto)

lemma mk_ok_cong:
  assumes ok: "mk_ok s fi T C" and eq: "\<And>i. 1 \<le> i \<Longrightarrow> i < fi \<Longrightarrow> T' i = T i \<and> C' i = C i"
  shows "mk_ok s fi T' C'"
proof -
  note O = mk_okD [OF ok]
  have "fs_ok (dino s) (mk_img s) fi (unat (freeblock s)) (\<lambda>i. uses (length (C' i)))"
    by (rule fs_ok_U [OF O(7)]) (simp add: eq)
  then show ?thesis
    unfolding mk_ok_def using O(1-6,8-15) eq by (simp del: One_nat_def)
qed

abbreviation args :: "(byte list \<times> byte list list) list \<Rightarrow> (byte list \<times> byte list list option) list" where
  "args files \<equiv> map (\<lambda>(n, ps). (n, Some ps)) files"

lemma mkfs_files_ok:
  assumes "fits cap files"
  obtains s where "mk_ok s (2 + length files) (\<lambda>i. if i = 1 then T_DIR else T_FILE) (file_of files)"
    "mkfs_main cap ((img, Some x) # args files) =
       andthen (rinode 1 s) (\<lambda>din s.
         let off = (xint (d_size din) div of_nat BSIZE + 1) * of_nat BSIZE in
         andthen (winode 1 (din\<lparr>d_size := xint off\<rparr>) s) (\<lambda>_ s. mk_balloc (freeblock s) s))"
proof -
  let ?s = "\<lparr>mk_img = (\<lambda>_ _. 0), mk_len = 0, mk_cap = cap, mk_sb = mk_super, freeinode = 1, freeblock = of_nat nmeta\<rparr>"
  let ?s1 = "?s\<lparr>mk_len := 2000, mk_img := (\<lambda>_ _. 0)(1 := store_sb mk_super)\<rparr>"
  let ?d = "\<lambda>n. dirent 1 (bstr n)" and ?T = "\<lambda>_. T_DIR"
  have cap: "2000 \<le> cap" and nf: "length files \<le> 198" using assms by (auto simp: fits_def NINODES_def)
  obtain fi' T' C' where f: "fold add_file files (2, ?T, \<lambda>_. ?d ''.'' @ ?d ''..'') = (fi', T', C')" by (metis prod_cases3)
  note P = add_file_props [OF f, simplified]
  have C': "C' i = file_of files i" if "1 \<le> i" "i < fi'" for i
  proof (cases "i = 1")
    case False
    then have "i = Suc (Suc (i - 2))" using that by simp
    then show ?thesis using that P(1) P(5) [of "i - 2"] False by (simp add: file_of_def)
  qed (use P(3) in \<open>simp add: file_of_def root_dir_def\<close>)
  have bl: "blocks fi' C' \<le> 1955"
    using assms C' P(1) by (simp add: fits_def blocks_def card_uses Let_def)
  have s1: "mk_ok ?s1 1 ?T (\<lambda>_. [])" by (rule empty_image_ok) (use cap in \<open>auto simp: nmeta_def\<close>)
  obtain s2 where s2: "mk_ialloc T_DIR ?s1 = Ok 1 s2" "mk_ok s2 2 ?T (\<lambda>_. [])"
    using mk_ialloc_ok [OF s1, of T_DIR] by (auto simp: returns_iff numeral_2_eq_2 fun_upd_idem)
  have b1: "blocks 2 D = card (uses (length (D 1)))" for D by (simp add: blocks_def numeral_2_eq_2)
  obtain s3 where s3: "iappend 1 (?d ''.'') s2 = Ok () s3" "mk_ok s3 2 ?T ((\<lambda>_. [])(1 := ?d ''.''))"
    using iappend_ok [OF s2(2), of 1 "?d ''.''"] by (auto simp: returns_iff b1 card_uses)
  obtain s4 where s4: "iappend 1 (?d ''..'') s3 = Ok () s4" "mk_ok s4 2 ?T ((\<lambda>_. [])(1 := ?d ''.'' @ ?d ''..''))"
    using iappend_ok [OF s3(2), of 1 "?d ''..''"] by (auto simp: returns_iff b1 card_uses)
  have s4': "mk_ok s4 2 ?T (\<lambda>_. ?d ''.'' @ ?d ''..'')"
    by (rule mk_ok_cong [OF s4(2)]) auto
  have names: "\<forall>(name, ps)\<in>set files. bstr ''/'' ! 0 \<notin> set (shortname name) \<and> length (concat ps) \<le> 71680"
    using assms by (simp add: fits_def)
  have "returns (for_each (args files) mk_file s4) (\<lambda>r s'. mk_ok s' fi' T' C')"
    by (rule mk_files_ok [OF s4' _ _ names _ f bl]) (use nf in auto)
  then obtain r s5 where s5: "for_each (args files) mk_file s4 = Ok r s5" "mk_ok s5 fi' T' C'"
    by (auto simp: returns_iff)
  show ?thesis
  proof (rule that)
    have "T' i = (if i = 1 then T_DIR else T_FILE)" if "1 \<le> i" "i < fi'" for i
      using that P(1) P(6) [of 1] P(7) [of "i - 2"] by (cases i; cases "i - 1") auto
    then have "mk_ok s5 fi' (\<lambda>i. if i = 1 then T_DIR else T_FILE) (file_of files)"
      using C' by (intro mk_ok_cong [OF s5(2)]) simp
    then show "mk_ok s5 (2 + length files) (\<lambda>i. if i = 1 then T_DIR else T_FILE) (file_of files)"
      using P(1) by simp
    have "wsect 1 (store_sb mk_super) (?s\<lparr>mk_len := 2000\<rparr>) = Ok () ?s1"
      using cap by (simp add: wsect_ok)
    then show "mkfs_main cap ((img, Some x) # args files) = andthen (rinode 1 s5) (\<lambda>din s.
         let off = (xint (d_size din) div of_nat BSIZE + 1) * of_nat BSIZE in
         andthen (winode 1 (din\<lparr>d_size := xint off\<rparr>) s) (\<lambda>_ s. mk_balloc (freeblock s) s))"
      using zeroed [of ?s] cap s2(1) s3(1) s4(1) s5(1) by (simp add: mkfs_main_def ROOTINO_def del: upt_rec_numeral)
  qed
qed

lemma mkfs_final:
  assumes "fits cap files"
  obtains s img where "mk_ok s (2 + length files) (\<lambda>i. if i = 1 then T_DIR else T_FILE) (file_of files)"
    "mkfs_main cap ((name, Some x) # args files) = Ok () (s\<lparr>mk_img := img\<rparr>)"
    "\<And>b. b < 18 \<or> 45 \<le> b \<Longrightarrow> img b = mk_img s b"
    "dino (s\<lparr>mk_img := img\<rparr>) 1 = trim ((dino s 1)\<lparr>d_size := of_nat ((length (root_dir files) div 512 + 1) * 512)\<rparr>)"
    "\<And>j. j < 208 \<Longrightarrow> j \<noteq> 1 \<Longrightarrow> dino (s\<lparr>mk_img := img\<rparr>) j = dino s j"
    "img 44 = fold (\<lambda>i buf. buf(i div 8 := buf (i div 8) OR push_bit (i mod 8) 1)) [0..<unat (freeblock s)] (\<lambda>_. 0)"
proof -
  obtain s where ok: "mk_ok s (2 + length files) (\<lambda>i. if i = 1 then T_DIR else T_FILE) (file_of files)" and
    m: "mkfs_main cap ((name, Some x) # args files) =
       andthen (rinode 1 s) (\<lambda>din s.
         let off = (xint (d_size din) div of_nat BSIZE + 1) * of_nat BSIZE in
         andthen (winode 1 (din\<lparr>d_size := xint off\<rparr>) s) (\<lambda>_ s. mk_balloc (freeblock s) s))"
    using mkfs_files_ok [OF assms, of name x] by blast
  note O = mk_okD [OF ok]
  let ?n = "length (root_dir files)"
  have n: "d_size (dino s 1) = of_nat ?n" "?n \<le> 71680" using O(12) [of 1] O(8) [of 1] by (simp_all add: file_of_def)
  have u: "unat (of_nat ?n :: uint32) = ?n" using n(2) by (simp add: unat_of_nat take_bit_nat_eq_self)
  have off: "(d_size (dino s 1) div 512 + 1) * 512 = of_nat ((?n div 512 + 1) * 512)"
  proof -
    have "(of_nat ?n :: uint32) div 512 = of_nat (?n div 512)"
      by (rule word_unat_eq_iff [THEN iffD2]) (use n(2) u in \<open>simp add: unat_div unat_of_nat take_bit_nat_eq_self\<close>)
    then show ?thesis unfolding n(1) by (simp add: algebra_simps)
  qed
  let ?di = "(dino s 1)\<lparr>d_size := of_nat ((?n div 512 + 1) * 512)\<rparr>"
  obtain img where w: "winode 1 ?di s = Ok () (s\<lparr>mk_img := img\<rparr>)" "\<And>b. b < 18 \<or> 44 \<le> b \<Longrightarrow> img b = mk_img s b"
    "dino (s\<lparr>mk_img := img\<rparr>) 1 = trim ?di" "\<And>j. j \<noteq> 1 \<Longrightarrow> dino (s\<lparr>mk_img := img\<rparr>) j = dino s j"
    using winode_ok [of 1 s ?di] O(1-3) by auto
  have r1: "rinode 1 s = Ok (dino s 1) s" using rinode_ok [of 1 s] O(1,2) by simp
  let ?bm = "fold (\<lambda>i buf. buf(i div 8 := buf (i div 8) OR push_bit (i mod 8) 1)) [0..<unat (freeblock s)] (\<lambda>_. 0)"
  have bs: "sb_bmapstart mk_super = 44" by (simp add: mk_super_def const_defs)
  have ba: "mk_balloc (freeblock s) (s\<lparr>mk_img := img\<rparr>) = Ok () (s\<lparr>mk_img := img(44 := ?bm)\<rparr>)"
    using O(1-3) fs_ok_fb(2) [OF O(7)] by (simp add: mk_balloc_def bs wsect_ok)
  have dj: "dino (s\<lparr>mk_img := img(44 := ?bm)\<rparr>) j = dino (s\<lparr>mk_img := img\<rparr>) j" if "j < 208" for j
    using inode_place(3) [OF that] by (simp add: dino_def)
  have main: "mkfs_main cap ((name, Some x) # args files) = Ok () (s\<lparr>mk_img := img(44 := ?bm)\<rparr>)"
    unfolding m r1 andthen_simps Let_def xint_id mk_consts of_nat_numeral off w(1) using ba by simp
  show ?thesis
  proof (rule that [OF ok main])
    show "dino (s\<lparr>mk_img := img(44 := ?bm)\<rparr>) 1 = trim ?di" using dj [of 1] w(3) by simp
    show "dino (s\<lparr>mk_img := img(44 := ?bm)\<rparr>) j = dino s j" if "j < 208" "j \<noteq> 1" for j using dj [OF that(1)] w(4) [OF that(2)] by simp
  qed (use w(2) in auto)
qed

section \<open>What the kernel finds\<close>

text \<open>The inode, the addresses and the contents of a file as \<open>ilock\<close>, \<open>bmap\<close> and \<open>readi\<close> of \<open>kernel/fs.c\<close> find them on the disk.\<close>

definition kinode :: "(nat \<Rightarrow> block) \<Rightarrow> uint32 \<Rightarrow> inode" where
  "kinode img inum = get_dinode (img (unat (IBLOCK inum (dec_sb (img 1))))) (dip_off inum)
     \<lparr>i_dev = ROOTDEV, i_inum = inum, i_ref = 1, i_valid = False, i_type = 0, i_major = 0, i_minor = 0, i_nlink = 0,
      i_size = 0, i_addrs = (\<lambda>_. 0)\<rparr>"

definition kaddr :: "(nat \<Rightarrow> block) \<Rightarrow> inode \<Rightarrow> nat \<Rightarrow> uint32" where
  "kaddr img ip bn = (if bn < NDIRECT then i_addrs ip bn
     else if i_addrs ip NDIRECT = 0 then 0 else get32 (img (unat (i_addrs ip NDIRECT))) (4 * (bn - NDIRECT)))"

definition kread :: "(nat \<Rightarrow> block) \<Rightarrow> inode \<Rightarrow> byte list" where
  "kread img ip = map (\<lambda>m. img (unat (kaddr img ip (m div BSIZE))) (m mod BSIZE)) [0..<unat (i_size ip)]"

lemma dec_store_sb [simp]: "dec_sb (store_sb b) = b"
  by (simp add: dec_sb_def store_sb_def mem_simps get32_put32_nat_other)

lemma kinode_dino:
  assumes "mk_img s 1 = store_sb mk_super" "i < 208"
  defines "ip' \<equiv> kinode (mk_img s) (of_nat i)"
  shows "i_type ip' = d_type (dino s i)" "i_nlink ip' = d_nlink (dino s i)" "i_size ip' = d_size (dino s i)"
    and "k < 13 \<Longrightarrow> i_addrs ip' k = d_addrs (dino s i) k"
  using inode_place [OF assms(2)] assms(1) by (simp_all add: ip'_def kinode_def dino_def get_dinode_def load_dinode_def)

lemma kaddr_ptr:
  assumes "mk_img s 1 = store_sb mk_super" "i < 208"
  shows "kaddr (mk_img s) (kinode (mk_img s) (of_nat i)) bn = ptr (mk_img s) (dino s i) (slot bn)"
  using kinode_dino(4) [OF assms] by (simp add: kaddr_def ptr_def slot_def)

lemma kread_fcontent:
  assumes "mk_img s 1 = store_sb mk_super" "i < 208"
  shows "kread (mk_img s) (kinode (mk_img s) (of_nat i)) = fcontent (mk_img s) (dino s i) (unat (d_size (dino s i)))"
  using kaddr_ptr [OF assms] kinode_dino(3) [OF assms] by (simp add: kread_def fcontent_def)

lemma take_fcontent: "n \<le> m \<Longrightarrow> take n (fcontent img di m) = fcontent img di n"
  by (simp add: fcontent_def take_map)

lemma take_pad: "take (length c) (pad c) = c"
  by (simp add: pad_def)

lemma length_root_dir: "length (root_dir files) = 16 * (length files + 2)"
proof -
  have "length (concat (map f [0..<n])) = 16 * n" if "\<And>k. length (f k) = 16" for f :: "nat \<Rightarrow> byte list" and n
    using that by (induction n) auto
  then show ?thesis by (simp add: root_dir_def)
qed

text \<open>The state in which \<open>mkfs\<close> ends.\<close>

definition mk_image :: "mkfs \<Rightarrow> (byte list \<times> byte list list) list \<Rightarrow> bool" where
  "mk_image s files \<longleftrightarrow> length files \<le> 198 \<and> mk_img s 1 = store_sb mk_super \<and> mk_img s 2 = (\<lambda>_. 0) \<and>
     fs_ok (dino s) (mk_img s) (2 + length files) (unat (freeblock s)) (\<lambda>i. uses (length (file_of files i))) \<and>
     (\<forall>i. 1 \<le> i \<longrightarrow> i < 2 + length files \<longrightarrow> length (file_of files i) \<le> 71680 \<and>
        fcontent (mk_img s) (dino s i) (rnd (length (file_of files i))) = pad (file_of files i) \<and>
        d_type (dino s i) = (if i = 1 then T_DIR else T_FILE) \<and> d_nlink (dino s i) = 1 \<and>
        d_size (dino s i) = of_nat (if i = 1 then (length (root_dir files) div 512 + 1) * 512 else length (file_of files i))) \<and>
     mk_img s 44 = fold (\<lambda>i buf. buf(i div 8 := buf (i div 8) OR push_bit (i mod 8) 1)) [0..<unat (freeblock s)] (\<lambda>_. 0)"

lemma mkfs_image:
  assumes "fits cap files"
  shows "returns (mkfs_main cap ((name, Some x) # args files)) (\<lambda>_ s. mk_image s files)"
proof -
  obtain s img where ok: "mk_ok s (2 + length files) (\<lambda>i. if i = 1 then T_DIR else T_FILE) (file_of files)"
    and m: "mkfs_main cap ((name, Some x) # args files) = Ok () (s\<lparr>mk_img := img\<rparr>)"
    and b: "\<And>b. b < 18 \<or> 45 \<le> b \<Longrightarrow> img b = mk_img s b"
    and d: "dino (s\<lparr>mk_img := img\<rparr>) 1 = trim ((dino s 1)\<lparr>d_size := of_nat ((length (root_dir files) div 512 + 1) * 512)\<rparr>)"
      "\<And>j. j < 208 \<Longrightarrow> j \<noteq> 1 \<Longrightarrow> dino (s\<lparr>mk_img := img\<rparr>) j = dino s j"
    and bm: "img 44 = fold (\<lambda>i buf. buf(i div 8 := buf (i div 8) OR push_bit (i mod 8) 1)) [0..<unat (freeblock s)] (\<lambda>_. 0)"
    using mkfs_final [OF assms, of name x] by blast
  note O = mk_okD [OF ok]
  let ?s = "s\<lparr>mk_img := img\<rparr>"
  have p: "ptr (mk_img s) (dino ?s j) k = ptr (mk_img s) (dino s j) k" if "1 \<le> j" "j < 2 + length files" for j k
    using d that O(6) by (cases "j = 1") (simp_all add: ptr_def trim_def del: One_nat_def)
  have M: "fs_ok (dino ?s) img (2 + length files) (unat (freeblock s)) (\<lambda>i. uses (length (file_of files i)))"
    by (rule fs_ok_meta(1) [OF O(7) p]) (use b in auto)
  have F: "fcontent img (dino ?s j) (rnd (length (file_of files j))) = pad (file_of files j)" if "1 \<le> j" "j < 2 + length files" for j
  proof -
    have "fcontent img (dino ?s j) (rnd (length (file_of files j))) = fcontent (mk_img s) (dino s j) (rnd (length (file_of files j)))"
      by (rule fs_ok_meta(2) [OF O(7) p _ that]) (use b in auto)
    then show ?thesis using O(9) [OF that] by simp
  qed
  have "d_type (dino ?s i) = (if i = 1 then T_DIR else T_FILE) \<and> d_nlink (dino ?s i) = 1 \<and>
      d_size (dino ?s i) = of_nat (if i = 1 then (length (root_dir files) div 512 + 1) * 512 else length (file_of files i))"
    if "1 \<le> i" "i < 2 + length files" for i
    using d O(6) O(10-12) [OF that] that by (cases "i = 1") (simp_all del: One_nat_def of_nat_mult of_nat_add)
  then have "mk_image ?s files"
    unfolding mk_image_def using M F O(6,8,14,15) b bm by (simp del: One_nat_def of_nat_mult of_nat_add)
  with m show ?thesis by simp
qed

lemma mk_imageD:
  assumes "mk_image s files"
  shows "length files \<le> 198" "mk_img s 1 = store_sb mk_super" "mk_img s 2 = (\<lambda>_. 0)"
    and "fs_ok (dino s) (mk_img s) (2 + length files) (unat (freeblock s)) (\<lambda>i. uses (length (file_of files i)))"
    and "1 \<le> i \<Longrightarrow> i < 2 + length files \<Longrightarrow> length (file_of files i) \<le> 71680 \<and>
        fcontent (mk_img s) (dino s i) (rnd (length (file_of files i))) = pad (file_of files i) \<and>
        d_type (dino s i) = (if i = 1 then T_DIR else T_FILE) \<and> d_nlink (dino s i) = 1 \<and>
        d_size (dino s i) = of_nat (if i = 1 then (length (root_dir files) div 512 + 1) * 512 else length (file_of files i))"
    and "mk_img s 44 = fold (\<lambda>i buf. buf(i div 8 := buf (i div 8) OR push_bit (i mod 8) 1)) [0..<unat (freeblock s)] (\<lambda>_. 0)"
  using assms unfolding mk_image_def by blast+

lemma image_file:
  assumes I: "mk_image s files" and k: "k < length files"
  defines "ip' \<equiv> kinode (mk_img s) (of_nat (k + 2))"
  shows "i_type ip' = T_FILE \<and> i_nlink ip' = 1 \<and> kread (mk_img s) ip' = concat (snd (files ! k))"
proof -
  note D = mk_imageD [OF I]
  let ?c = "concat (snd (files ! k))"
  have f: "file_of files (k + 2) = ?c" by (simp add: file_of_def)
  have i: "k + 2 < 208" using D(1) k by simp
  note E = D(5) [of "k + 2", unfolded f]
  have "unat (d_size (dino s (k + 2))) = length ?c"
    using E k by (simp add: unat_of_nat take_bit_nat_eq_self)
  then have "kread (mk_img s) ip' = fcontent (mk_img s) (dino s (k + 2)) (length ?c)"
    unfolding ip'_def kread_fcontent [OF D(2) i] by simp
  also have "\<dots> = ?c"
    using take_fcontent [OF rnd_ge [of "length ?c"], of "mk_img s" "dino s (k + 2)"] take_pad [of ?c] E k by simp
  finally show ?thesis
    using kinode_dino(1,2) [OF D(2) i] E k by (simp add: ip'_def)
qed

lemma image_root:
  assumes I: "mk_image s files"
  defines "ip' \<equiv> kinode (mk_img s) 1" and "n \<equiv> length files + 2"
  shows "i_type ip' = T_DIR" "i_nlink ip' = 1" "unat (i_size ip') = (n div 32 + 1) * 512"
    and "n mod 32 \<noteq> 0 \<Longrightarrow> kread (mk_img s) ip' = pad (root_dir files)"
    and "n mod 32 = 0 \<Longrightarrow> kaddr (mk_img s) ip' (n div 32) = 0"
proof -
  note D = mk_imageD [OF I]
  note E = D(5) [of 1, simplified]
  have l: "length (root_dir files) = 16 * n" by (simp add: length_root_dir n_def)
  then have dv: "length (root_dir files) div 512 = n div 32" by (simp add: div_mult2_eq [of _ 16 32, simplified])
  have n: "n \<le> 200" using D(1) by (simp add: n_def)
  have ip: "i_type ip' = T_DIR" "i_nlink ip' = 1" "i_size ip' = d_size (dino s 1)"
    using kinode_dino(1-3) [OF D(2), of 1] E by (simp_all add: ip'_def)
  show "i_type ip' = T_DIR" "i_nlink ip' = 1" using ip by simp_all
  have "d_size (dino s 1) = of_nat ((n div 32 + 1) * 512)" using D(5) [of 1] dv by (simp del: of_nat_mult of_nat_add One_nat_def)
  moreover have "(n div 32 + 1) * 512 < 2 ^ 32" using n by (simp add: div_le_mono [of n 200 32, simplified] le_less_trans)
  ultimately show sz: "unat (i_size ip') = (n div 32 + 1) * 512"
    unfolding ip(3) by (simp add: unat_of_nat take_bit_nat_eq_self del: of_nat_mult of_nat_add)
  show "kread (mk_img s) ip' = pad (root_dir files)" if "n mod 32 \<noteq> 0"
  proof -
    have "16 * n = (n div 32) * 512 + 16 * (n mod 32)" "n mod 32 < 32"
      using div_mult_mod_eq [of n 32] by (linarith, simp)
    then have "rnd (length (root_dir files)) = (n div 32 + 1) * 512"
      using that rnd_piece [of "(n div 32) * 512" "16 * n"] l by simp
    then show ?thesis
      using kread_fcontent [OF D(2), of 1] E sz ip(3) by (simp add: ip'_def file_of_def)
  qed
  show "kaddr (mk_img s) ip' (n div 32) = 0" if "n mod 32 = 0"
  proof -
    have "\<not> n div 32 * 512 < 16 * n" using that div_mult_mod_eq [of n 32] by simp
    then have "slot (n div 32) \<notin> uses (length (file_of files 1))" by (simp add: uses_iff file_of_def l)
    moreover have "slot (n div 32) < 141" using n by (simp add: slot_def)
    ultimately show ?thesis
      using fs_okD(1) [OF D(4), of 1 "slot (n div 32)"] kaddr_ptr [OF D(2), of 1] by (simp add: ip'_def)
  qed
qed

text \<open>The bitmap.\<close>

lemma bitmap_fold:
  "bit ((fold (\<lambda>i buf. buf(i div 8 := buf (i div 8) OR push_bit (i mod 8) 1)) [0..<n] (\<lambda>_. 0 :: byte)) (b div 8)) (b mod 8) \<longleftrightarrow> b < n"
proof (induction n)
  case (Suc n)
  have "b div 8 = n div 8 \<and> b mod 8 = n mod 8 \<longleftrightarrow> b = n"
    by (metis div_mult_mod_eq)
  moreover have "n mod 8 < 8" by simp
  ultimately show ?case
    using Suc by (auto simp: bit_simps less_Suc_eq)
qed simp

definition kblocks :: "(nat \<Rightarrow> block) \<Rightarrow> inode \<Rightarrow> nat set" where
  "kblocks img ip = unat ` (insert (i_addrs ip NDIRECT) (kaddr img ip ` {..<MAXFILE}) - {0})"

lemma slots_all: "{..<141} = insert 12 (slot ` {..<140})"
proof -
  have "k = 12 \<or> (\<exists>f<140. k = slot f)" if "k < 141" for k
  proof (cases "k < 12")
    case False
    then have "k = 12 \<or> k - 1 < 140 \<and> k = slot (k - 1)" using that by (auto simp: slot_def)
    then show ?thesis by blast
  qed (auto simp: slot_def intro!: exI [of _ k])
  then have "{..<141} \<subseteq> insert 12 (slot ` {..<140})" by blast
  moreover have "insert 12 (slot ` {..<140}) \<subseteq> {..<141}" by (auto simp: slot_def)
  ultimately show ?thesis by (rule equalityI)
qed

lemma kblocks_ptr:
  assumes ok: "fs_ok (dino s) (mk_img s) fi fb U" and i: "1 \<le> i" "i < fi" "i < 208" and sb: "mk_img s 1 = store_sb mk_super"
  shows "kblocks (mk_img s) (kinode (mk_img s) (of_nat i)) = (\<lambda>k. unat (ptr (mk_img s) (dino s i) k)) ` U i"
proof -
  let ?p = "ptr (mk_img s) (dino s i)"
  have "insert (i_addrs (kinode (mk_img s) (of_nat i)) 12) (kaddr (mk_img s) (kinode (mk_img s) (of_nat i)) ` {..<140}) = ?p ` {..<141}"
    using kaddr_ptr [OF sb i(3)] kinode_dino(4) [OF sb i(3), of 12] by (simp add: slots_all image_image ptr_def [of _ _ 12])
  moreover have "?p ` {..<141} - {0} = ?p ` U i"
    using fs_okD(1,2) [OF ok i(1,2)] by auto
  ultimately show ?thesis by (simp add: kblocks_def image_image)
qed

lemma fs_ok_exact:
  assumes ok: "fs_ok D img fi fb U"
  shows "(\<Union>i\<in>{1..<fi}. (\<lambda>k. unat (ptr img (D i) k)) ` U i) = {45..<fb}"
proof -
  let ?f = "\<lambda>(i, k). unat (ptr img (D i) k)" and ?A = "SIGMA i:{1..<fi}. U i"
  have fin: "\<forall>i\<in>{1..<fi}. finite (U i)"
    using fs_okD(2) [OF ok] by (auto intro!: finite_subset [of _ "{..<141}"])
  have "inj_on ?f ?A"
    using fs_ok_inj [OF ok] by (auto simp: inj_on_def simp flip: word_unat_eq_iff)
  then have "card (?f ` ?A) = card ?A" by (rule card_image)
  also have "\<dots> = (\<Sum>i=1..<fi. card (U i))" using fin by simp
  also have "\<dots> = card {45..<fb}" using fs_ok_sum [OF ok] by simp
  finally have "?f ` ?A = {45..<fb}"
    using fs_okD(3,4) [OF ok] by (intro card_subset_eq) auto
  moreover have "?f ` ?A = (\<Union>i\<in>{1..<fi}. (\<lambda>k. unat (ptr img (D i) k)) ` U i)"
    unfolding Sigma_def image_UN by (simp add: UNION_singleton_eq_range)
  ultimately show ?thesis by simp
qed

section \<open>Properties\<close>

definition two_files :: "(byte list \<times> byte list list) list" where
  "two_files = [(bstr ''user/_cat'', [[1, 2], [3]]), (bstr ''README'', [])]"

text \<open>The name an argument stands for, and a directory entry, byte by byte.\<close>

definition named :: "byte list \<Rightarrow> byte list \<Rightarrow> bool" where
  "named a n \<longleftrightarrow> 0 \<notin> set n \<and> bstr ''/'' ! 0 \<notin> set n \<and>
     (a \<in> {bstr ''_'' @ n, bstr ''user/_'' @ n} \<or> a \<in> {n, bstr ''user/'' @ n} \<and> take 1 n \<noteq> bstr ''_'')"

definition entry :: "nat \<Rightarrow> byte list \<Rightarrow> byte list" where
  "entry i n = [of_nat (i mod 256), of_nat (i div 256)] @ take 14 (n @ replicate 14 0)"

lemma length_entry [simp]: "length (entry i n) = 16"
  by (simp add: entry_def)

lemma named_unscore: "named a n \<Longrightarrow> unscore (shortname a) = n"
proof -
  assume n: "named a n"
  have "take 5 n \<noteq> [117, 115, 101, 114, 47]"
    using n in_set_takeD [of 47 5 n] by (auto simp: named_def bstr_def)
  with n show ?thesis by (auto simp: named_def unscore_def shortname_def bstr_def)
qed

lemma dirent_entry:
  assumes "i < 2 ^ 16" "0 \<notin> set n"
  shows "dirent (of_nat i) n = entry i n"
proof -
  have "map (strncpy (\<lambda>_. 0) (bytes_of n) (int DIRSIZ)) [0..<DIRSIZ] = take 14 (n @ replicate 14 0)"
  proof (rule nth_equalityI)
    fix k
    assume "k < length (map (strncpy (\<lambda>_. 0) (bytes_of n) (int DIRSIZ)) [0..<DIRSIZ])"
    then have k: "k < 14" by (simp add: DIRSIZ_def)
    have "(\<exists>j < k. bytes_of n j = 0) \<longleftrightarrow> length n < k"
      using assms(2) by (auto simp: bytes_of_def in_set_conv_nth)
    then show "map (strncpy (\<lambda>_. 0) (bytes_of n) (int DIRSIZ)) [0..<DIRSIZ] ! k = take 14 (n @ replicate 14 0) ! k"
      using k by (auto simp: DIRSIZ_def strncpy_eq bytes_of_def nth_append)
  qed (simp add: DIRSIZ_def)
  moreover have "byte_of 0 (xshort (ucast (of_nat i :: uint32))) = of_nat (i mod 256)"
    by (rule bit_word_eqI) (auto simp: byte_of_def bit_simps bit_of_nat_iff simp flip: take_bit_eq_mod [where n = 8, simplified])
  moreover have "byte_of 1 (xshort (ucast (of_nat i :: uint32))) = of_nat (i div 256)"
    by (rule bit_word_eqI) (auto simp: byte_of_def bit_simps bit_of_nat_iff simp flip: drop_bit_eq_div [where n = 8, simplified])
  ultimately show ?thesis by (simp add: dirent_def entry_def Let_def)
qed

lemma root_entries:
  assumes "fits cap files" "list_all2 named (map fst files) ns"
  shows "root_dir files = concat (map2 entry (1 # [1..<length ns + 2]) (bstr ''.'' # bstr ''..'' # ns))"
proof -
  have n: "length ns = length files" "\<And>k. k < length files \<Longrightarrow> named (fst (files ! k)) (ns ! k)"
    using assms(2) by (auto simp: list_all2_conv_all_nth)
  have l: "length files + 2 \<le> 200" using assms(1) by (simp add: fits_def const_defs)
  have "map (\<lambda>k. dirent (of_nat (2 + k)) (unscore (shortname (fst (files ! k))))) [0..<length files] = map2 entry [2..<length ns + 2] ns"
  proof (rule nth_equalityI)
    fix k
    assume "k < length (map (\<lambda>k. dirent (of_nat (2 + k)) (unscore (shortname (fst (files ! k))))) [0..<length files])"
    then have k: "k < length files" by simp
    have "dirent (of_nat (2 + k)) (ns ! k) = entry (2 + k) (ns ! k)"
      using n(2) [OF k] k l by (intro dirent_entry) (simp_all add: named_def)
    then show "map (\<lambda>k. dirent (of_nat (2 + k)) (unscore (shortname (fst (files ! k))))) [0..<length files] ! k = map2 entry [2..<length ns + 2] ns ! k"
      using k n(1) named_unscore [OF n(2) [OF k]] by (simp del: upt_Suc of_nat_add add_2_eq_Suc add_2_eq_Suc')
  qed (simp add: n(1) del: upt_Suc)
  moreover have "dirent 1 (bstr ''.'') = entry 1 (bstr ''.'')" "dirent 1 (bstr ''..'') = entry 1 (bstr ''..'')"
    using dirent_entry [of 1] by (simp_all add: bstr_def)
  moreover have "[1..<length ns + 2] = 1 # [2..<length ns + 2]" 
    using upt_conv_Cons [of 1 "length ns + 2"] by (simp add: numeral_2_eq_2 del: upt_Suc)
  ultimately show ?thesis by (simp add: root_dir_def del: upt_Suc of_nat_add)
qed

lemma pad_zeros: "\<exists>z. pad c = c @ replicate z 0 \<and> z < 512 \<and> (length c + z) mod 512 = 0"
proof (intro exI conjI)
  show "pad c = c @ replicate (rnd (length c) - length c) 0" by (simp add: pad_def)
  show "rnd (length c) - length c < 512" by (simp add: rnd_def)
  show "(length c + (rnd (length c) - length c)) mod 512 = 0" using rnd_ge [of "length c"] by (simp add: rnd_def)
qed

lemma fits_thirty: "fits 2000 (replicate 30 (bstr ''f'', []))"
proof -
  let ?files = "replicate 30 (bstr ''f'', [] :: byte list list)"
  have "(\<Sum>i=1..<32. let n = length (file_of ?files i) in (n + 511) div 512 + (if 6144 < n then 1 else 0)) = (\<Sum>i=1..<32. if i = (1::nat) then 1 else 0 :: nat)"
  proof (rule sum.cong)
    fix i :: nat
    assume "i \<in> {1..<32}"
    then have "i = 1 \<or> ?files ! (i - 2) = (bstr ''f'', [])" by auto
    then show "(let n = length (file_of ?files i) in (n + 511) div 512 + (if 6144 < n then 1 else 0)) = (if i = 1 then 1 else 0 :: nat)"
      by (auto simp: file_of_def length_root_dir Let_def)
  qed simp
  then show ?thesis
    by (simp add: fits_def const_defs shortname_def bstr_def)
qed

lemma fits_two_files: "fits 2000 two_files"
proof -
  have "{1..<4} = {1, 2, 3 :: nat}" by auto
  then show ?thesis
    by (simp add: fits_def const_defs two_files_def shortname_def bstr_def file_of_def length_root_dir)
qed

text \<open>C24. \<open>mkfs\<close> ends, and the kernel finds the files it was given: with the superblock and the inodes it reads from the image, the file of
  argument \<open>k\<close> has inode number \<open>k + 2\<close>, is a plain file with one link, and reading it gives the pieces of the argument, in order.\<close>

theorem mkfs_files:
  assumes "fits cap files"
  shows "returns (mkfs_main cap ((name, Some x) # args files)) (\<lambda>_ s. \<forall>k<length files.
    let ip' = kinode (mk_img s) (of_nat (k + 2)) in
    i_type ip' = T_FILE \<and> i_nlink ip' = 1 \<and> kread (mk_img s) ip' = concat (snd (files ! k)))"
  by (rule returns_mono [OF mkfs_image [OF assms]]) (use image_file in \<open>simp add: Let_def del: of_nat_add\<close>)

theorem mkfs_files_witness:
  "fits 2000 two_files \<and>
   returns (mkfs_main 2000 (([], Some []) # args two_files)) (\<lambda>_ s. kread (mk_img s) (kinode (mk_img s) 2) = [1, 2, 3])"
  using fits_two_files returns_mono [OF mkfs_files [of 2000 two_files "[]" "[]"],
      of "\<lambda>_ s. kread (mk_img s) (kinode (mk_img s) 2) = [1, 2, 3]"]
  by (force simp: Let_def two_files_def)

text \<open>C26. The root directory as the kernel finds it: inode 1 is a directory with one link whose contents are the entries \<open>.\<close> and \<open>..\<close>, both
  of inode 1, and one for each argument, in order, of the inodes from 2 on. An entry is the inode number in two bytes, the lower first, and the
  first 14 bytes of the name, filled up with zeros; the name is that of the argument without \<open>user/\<close> and without a leading underscore.
  Zeros (free entries) follow up to the end of the block. This needs that the entries do not fill the last block.\<close>

theorem mkfs_root:
  assumes "fits cap files" and "(length files + 2) mod 32 \<noteq> 0" and "list_all2 named (map fst files) ns"
  shows "returns (mkfs_main cap ((name, Some x) # args files)) (\<lambda>_ s.
    let ip' = kinode (mk_img s) ROOTINO;
        es = concat (map2 entry (1 # [1..<length ns + 2]) (bstr ''.'' # bstr ''..'' # ns))
    in i_type ip' = T_DIR \<and> i_nlink ip' = 1
       \<and> (\<exists>z. kread (mk_img s) ip' = es @ replicate z 0 \<and> z < 512 \<and> (length es + z) mod 512 = 0))"
  unfolding Let_def root_entries [OF assms(1,3), symmetric]
  by (rule returns_mono [OF mkfs_image [OF assms(1)]])
     (use image_root(1,2,4) [of _ files] assms(2) pad_zeros [of "root_dir files"] in \<open>simp add: ROOTINO_def\<close>)

theorem mkfs_root_witness:
  "fits 2000 two_files \<and> (length two_files + 2) mod 32 \<noteq> 0 \<and> list_all2 named (map fst two_files) [bstr ''cat'', bstr ''README''] \<and>
   returns (mkfs_main 2000 (([], Some []) # args two_files)) (\<lambda>_ s.
     take 48 (kread (mk_img s) (kinode (mk_img s) ROOTINO)) = [1, 0] @ bstr ''.'' @ replicate 13 0 @ [1, 0] @ bstr ''..'' @ replicate 12 0
       @ [2, 0] @ bstr ''cat'' @ replicate 11 0)"
proof -
  have n: "list_all2 named (map fst two_files) [bstr ''cat'', bstr ''README'']"
    by (simp add: two_files_def named_def bstr_def)
  have m: "(length two_files + 2) mod 32 \<noteq> 0" by (simp add: two_files_def)
  have e: "entry 1 (bstr ''.'') = [1, 0] @ bstr ''.'' @ replicate 13 0" "entry 1 (bstr ''..'') = [1, 0] @ bstr ''..'' @ replicate 12 0"
    "entry 2 (bstr ''cat'') = [2, 0] @ bstr ''cat'' @ replicate 11 0" "[1..<Suc (Suc (Suc (Suc 0)))] = [1, 2, 3 :: nat]"
    by (simp_all add: entry_def bstr_def upt_rec)
  have es: "take 48 (concat (map2 entry (1 # [1..<length [bstr ''cat'', bstr ''README''] + 2])
      (bstr ''.'' # bstr ''..'' # [bstr ''cat'', bstr ''README''])) @ zs)
    = entry 1 (bstr ''.'') @ entry 1 (bstr ''..'') @ entry 2 (bstr ''cat'')" for zs
    using e(4) by (simp del: One_nat_def upt_Suc upt_rec_numeral)
  show ?thesis
  proof (intro conjI fits_two_files m n, rule returns_mono [OF mkfs_root [OF fits_two_files m n, of "[]" "[]"]], unfold Let_def, elim conjE exE)
    fix s z
    assume "kread (mk_img s) (kinode (mk_img s) ROOTINO) = concat (map2 entry (1 # [1..<length [bstr ''cat'', bstr ''README''] + 2])
      (bstr ''.'' # bstr ''..'' # [bstr ''cat'', bstr ''README''])) @ replicate z 0"
    then show "take 48 (kread (mk_img s) (kinode (mk_img s) ROOTINO)) = [1, 0] @ bstr ''.'' @ replicate 13 0 @ [1, 0] @ bstr ''..''
      @ replicate 12 0 @ [2, 0] @ bstr ''cat'' @ replicate 11 0"
      by (simp only: es) (simp only: e(1-3) append_assoc)
  qed
qed

text \<open>C27. If the entries of the root directory fill its last block, \<open>mkfs\<close> rounds the size up to a block more than there is: the last
  block of the directory, as its size has it, has no address.\<close>

theorem mkfs_root_hole:
  assumes "fits cap files" and "(length files + 2) mod 32 = 0"
  shows "returns (mkfs_main cap ((name, Some x) # args files)) (\<lambda>_ s.
    let ip' = kinode (mk_img s) ROOTINO in
    \<exists>bn. bn * BSIZE < unat (i_size ip') \<and> kaddr (mk_img s) ip' bn = 0)"
proof (rule returns_mono [OF mkfs_image [OF assms(1)]])
  fix s
  assume "mk_image s files"
  then show "let ip' = kinode (mk_img s) ROOTINO in \<exists>bn. bn * BSIZE < unat (i_size ip') \<and> kaddr (mk_img s) ip' bn = 0"
    using image_root(3,5) [of s files] assms(2) by (auto simp: Let_def ROOTINO_def intro!: exI [of _ "(length files + 2) div 32"])
qed

theorem mkfs_root_hole_witness:
  "fits 2000 (replicate 30 (bstr ''f'', [])) \<and>
   returns (mkfs_main 2000 (([], Some []) # args (replicate 30 (bstr ''f'', [])))) (\<lambda>_ s.
     let ip' = kinode (mk_img s) ROOTINO in
     \<exists>bn. bn * BSIZE < unat (i_size ip') \<and> kaddr (mk_img s) ip' bn = 0)"
  using fits_thirty mkfs_root_hole [of 2000 "replicate 30 (bstr ''f'', [])" "[]" "[]"] by simp

text \<open>C25. The layout of the image: the superblock the kernel reads is the one \<open>mkfs\<close> describes, the header of the log is empty, and the bitmap marks
  exactly the blocks of the metadata and those that belong to a file.\<close>

theorem mkfs_layout:
  assumes "fits cap files"
  shows "returns (mkfs_main cap ((name, Some x) # args files)) (\<lambda>_ s.
    dec_sb (mk_img s 1) = \<lparr>sb_magic = FSMAGIC, sb_size = 2000, sb_nblocks = 1955, sb_ninodes = 200, sb_nlog = 16,
      sb_logstart = 2, sb_inodestart = 18, sb_bmapstart = 44\<rparr> \<and>
    get32 (mk_img s 2) 0 = 0 \<and>
    (\<forall>b<BPB. mk_img s (unat (BBLOCK (of_nat b) (dec_sb (mk_img s 1)))) (b div 8) AND bmask b \<noteq> 0 \<longleftrightarrow>
       b < nmeta \<or> (\<exists>i\<in>{1..<2 + length files}. b \<in> kblocks (mk_img s) (kinode (mk_img s) (of_nat i)))))"
proof (rule returns_mono [OF mkfs_image [OF assms]], intro conjI allI impI)
  fix s
  assume "mk_image s files"
  note D = mk_imageD [OF this]
  have sb: "dec_sb (mk_img s 1) = mk_super" using D(2) by simp
  show "dec_sb (mk_img s 1) = \<lparr>sb_magic = FSMAGIC, sb_size = 2000, sb_nblocks = 1955, sb_ninodes = 200, sb_nlog = 16,
      sb_logstart = 2, sb_inodestart = 18, sb_bmapstart = 44\<rparr>"
    unfolding sb by (simp add: mk_super_def const_defs)
  show "get32 (mk_img s 2) 0 = 0" using D(3) by (simp add: get32_def le32_def)
  fix b
  assume b: "b < BPB"
  have "unat (BBLOCK (of_nat b) mk_super) = 44"
    using b by (simp add: BBLOCK_def mk_super_def const_defs unat_word_ariths unat_div unat_of_nat take_bit_nat_eq_self)
  moreover have "x AND bmask b \<noteq> 0 \<longleftrightarrow> bit x (b mod 8)" for x
    by (simp add: bmask_def push_bit_eq_mult and_exp_eq_0_iff_not_bit)
  moreover have "b < unat (freeblock s) \<longleftrightarrow> b < 45 \<or> b \<in> (\<Union>i\<in>{1..<2 + length files}. kblocks (mk_img s) (kinode (mk_img s) (of_nat i)))"
    using fs_ok_exact [OF D(4)] kblocks_ptr [OF D(4) _ _ _ D(2)] D(1) fs_ok_fb(1) [OF D(4)] by auto
  ultimately show "mk_img s (unat (BBLOCK (of_nat b) (dec_sb (mk_img s 1)))) (b div 8) AND bmask b \<noteq> 0 \<longleftrightarrow>
       b < nmeta \<or> (\<exists>i\<in>{1..<2 + length files}. b \<in> kblocks (mk_img s) (kinode (mk_img s) (of_nat i)))"
    unfolding sb using D(6) bitmap_fold by simp
qed

theorem mkfs_layout_witness:
  "fits 2000 two_files \<and>
   returns (mkfs_main 2000 (([], Some []) # args two_files)) (\<lambda>_ s.
     sb_bmapstart (dec_sb (mk_img s 1)) = 44 \<and> mk_img s (unat (BBLOCK (of_nat 44) (dec_sb (mk_img s 1)))) (44 div 8) AND bmask 44 \<noteq> 0)"
proof (intro conjI fits_two_files returns_mono [OF mkfs_layout [of 2000 two_files "[]" "[]"]])
qed (auto simp: fits_two_files BPB_def dest: spec [of _ 44])

end
