(* ===== verification/Spec2Isabelle.thy ===== *)
theory Spec2Isabelle
  imports Boot Memory Concurrency Pipeio Qemu Umalloc Grep Sh Uprogs Mkfs
begin

text \<open>
  A verification development for a 32-bit RISC-V port of xv6: the kernel, the two platforms it runs on, and its user
  library and programs, with the program that builds its disk image. Source paths below are relative to \<open>src/\<close>.

  \<^bold>\<open>The program.\<close> \<open>kernel/\<close> is a small Unix: locks and scheduling (\<open>spinlock.c\<close>, \<open>sleeplock.c\<close>, \<open>proc.c\<close>), physical and virtual
  memory (\<open>kalloc.c\<close>, \<open>vm.c\<close>, \<open>exec.c\<close>), a crash-safe file system in layers (\<open>bio.c\<close>, \<open>log.c\<close>, \<open>fs.c\<close>, \<open>file.c\<close>), pipes and the
  console, system calls and traps. Everything that touches a board is behind the functions of \<open>platform/common/platform.h\<close>,
  which \<open>platform/nemu\<close> and \<open>platform/qemu\<close> implement. \<open>user/\<close> holds the C library, the allocator, the shell and the
  programs, which reach the kernel by system calls only.

  \<^bold>\<open>How code is modelled.\<close> A kernel function is a HOL function on the record \<open>kstate\<close> (theory \<open>Kstate\<close>), whose fields are the kernel's
  global variables, the memory, the control registers of the hart and the device registers. Its outcome (theory \<open>Prelude\<close>) is a value of the
  codatatype \<open>res\<close>: \<open>Ok a s\<close>, a result and a state; \<open>Panic m\<close>; \<open>Spin\<close>, a loop that does not end; or \<open>Swtch s k\<close>, the
  place where \<open>sched\<close> gives up the CPU, with the continuation \<open>k\<close> that runs when the process is resumed in whatever state the others have left.
  \<open>andthen\<close> is sequencing, \<open>for_each\<close> a counted loop with early exit, \<open>wloop\<close> a \<open>while\<close>: between two points where the CPU is given up a loop may
  go round as often as a measure of its loop variable says, and one that goes round more often is \<open>Spin\<close>; the theorems say \<open>returns r P\<close>, that the code
  returns and \<open>P\<close> holds of what it returns. Addresses and \<open>uint32\<close>s are 32-bit words, with wrap-around; memory is a function from addresses to bytes, and
  structures that live in it (page tables, free pages, on-disk inodes) are read and written as bytes. A \<open>struct\<close> is a record, an array of them a function of the index, a lock or a
  sleep channel a constructor of a datatype. User programs (theory \<open>Usys\<close>) are the same outcomes over a state in which \<open>Swtch\<close> is a system call; a
  trace lists the calls and the kernel's answers, and theorems about programs quantify over all traces.

  \<^bold>\<open>Kernel: definitions.\<close>
  \<^item> \<open>Prelude\<close>: outcomes, loops, little-endian access to memory. \<open>Kstate\<close>: constants of \<open>param.h\<close>, \<open>fs.h\<close>, \<open>memlayout.h\<close>, \<open>riscv.h\<close>, and the state.
  \<^item> \<open>Spinlock\<close>, \<open>Sched\<close>, \<open>Sleeplock\<close>: \<open>spinlock.c\<close>; \<open>sched\<close>, \<open>scheduler\<close>, \<open>yield\<close>, \<open>sleep\<close>, \<open>wakeup\<close>, \<open>kill\<close> of \<open>proc.c\<close>; \<open>sleeplock.c\<close>.
  \<^item> \<open>Kstring\<close>, \<open>Printf\<close>: \<open>string.c\<close>, \<open>printf.c\<close>. \<open>Kalloc\<close>, \<open>Vm\<close>: \<open>kalloc.c\<close>, \<open>vm.c\<close>.
  \<^item> \<open>Bio\<close>, \<open>Log\<close>, \<open>Inode\<close>, \<open>Dir\<close>, \<open>File\<close>: \<open>bio.c\<close>, \<open>log.c\<close>, the inode and the directory half of \<open>fs.c\<close>, \<open>file.c\<close>.
  \<^item> \<open>Pipe\<close>, \<open>Console\<close>: \<open>pipe.c\<close>, \<open>console.c\<close>. \<open>Proc\<close>, \<open>Exec\<close>: processes, \<open>exec.c\<close>.
  \<^item> \<open>Syscall\<close>, \<open>Trap\<close>, \<open>Boot\<close>: \<open>syscall.c\<close>, \<open>sysproc.c\<close>, \<open>sysfile.c\<close>; \<open>trap.c\<close>; \<open>start.c\<close>, \<open>main.c\<close>.
  \<^item> \<open>Nemu\<close>, \<open>Qemu\<close>: the two \<open>platform.c\<close>. The kernel above is composed with NEMU; the QEMU versions carry the suffix \<open>_qemu\<close>.

  \<^bold>\<open>Kernel: what is shown.\<close>
  \<^item> \<open>Log\<close>, by the abstract redo log of \<open>Wal\<close> (locale \<open>redo_log\<close>, interpreted on the kernel's header block and log slots): a commit is atomic under a crash after any
    disk write, recovery can itself crash and be repeated, the last \<open>end_op\<close> commits, \<open>begin_op\<close> admits an operation only when none is outstanding and the log is empty, \<open>log_write\<close> keeps
    the block in the cache until then. It rests on \<open>Bio\<close>: the LRU list, \<open>bread\<close>, \<open>bwrite\<close>, \<open>brelse\<close> keep the cache coherent with the disk.
  \<^item> \<open>Memory\<close>, over \<open>Addrspace\<close>, \<open>Uvm\<close> and \<open>Usercopy\<close> and the locale \<open>page_allocator\<close> (interpreted on \<open>kalloc\<close> and \<open>kfree\<close> in \<open>Kalloc\<close>): page tables refine a map from
    virtual pages to entries; \<open>mappages\<close>, \<open>uvmunmap\<close>, \<open>uvmalloc\<close>, \<open>uvmcopy\<close> do to the map what they should and leak no page; \<open>copyout\<close>, \<open>copyin\<close> and \<open>copyinstr\<close> move the bytes
    a user program sees, across page boundaries; \<open>kinit\<close> frees every page; overlapping \<open>memmove\<close>.
  \<^item> \<open>Concurrency\<close>: interrupts stay off while a lock is held and come back as they were; the scheduler runs every runnable process in a round; no wakeup is lost between
    \<open>sleep\<close> and \<open>wakeup\<close>, with \<open>sleep\<close> as the list of its statements and any other code run between two of them while interrupts are on; sleep locks exclude; what
    \<open>kill\<close> does.
  \<^item> \<open>Pipeio\<close>, over the locales \<open>fifo\<close> and \<open>ring_buffer\<close> of \<open>Ring\<close>: a pipe delivers the bytes written in order, and its ends (closed, full, empty) behave as
    documented. \<open>Qemu\<close>: the transmit queue of the UART, the life of a virtio request from the descriptors it takes to the interrupt that completes it.
  \<^item> This theory: \<open>skipelem\<close> takes paths apart as splitting at the slashes does; \<open>printint\<close> prints the number.

  \<^bold>\<open>User level: definitions and what is shown.\<close>
  \<^item> \<open>Usys\<close>, \<open>Ulib\<close>: \<open>usys.pl\<close>, \<open>ulib.c\<close>, \<open>printf.c\<close>; \<open>atoi\<close> reads back what \<open>printint\<close> prints.
  \<^item> \<open>Umalloc\<close>: \<open>umalloc.c\<close> on byte memory. \<open>malloc\<close> and \<open>free\<close> end and keep the circular list sorted, merged and disjoint from the blocks handed out,
    for all requests that \<open>sbrk\<close>, whose argument is an \<open>int\<close>, can express; what happens with larger ones (\<open>sbrk_negative\<close>).
  \<^item> \<open>Grep\<close>: the matcher decides the language of the pattern; the line loop prints the matching lines however the input is cut up.
  \<^item> \<open>Sh\<close>: the parser ends on every line, its results are well formed and it inverts a printer of command trees; \<open>nulterminate\<close> cuts the words
    out in place; a pipeline's children have the right descriptors.
  \<^item> \<open>Uprogs\<close>: \<open>cat\<close>, \<open>echo\<close>, \<open>wc\<close>, \<open>ls\<close>, \<open>rm\<close>, \<open>mkdir\<close>, \<open>ln\<close>, \<open>kill\<close>, \<open>zombie\<close>, \<open>init\<close>, \<open>stressfs\<close>, \<open>forktest\<close>; what \<open>wc\<close> counts and \<open>cat\<close> copies.

  \<^bold>\<open>The disk image.\<close> \<open>Mkfs\<close> models \<open>mkfs/mkfs.c\<close>. An invariant (\<open>mk_ok\<close>) says which files the image holds; allocation, \<open>ialloc\<close> and \<open>iappend\<close> refine
  operations on that set of files, and the theorems say what the kernel finds: the superblock, the contents of the files, the root
  directory, and a bitmap that marks exactly the blocks in use. \<open>mkfs_root_hole\<close> states when the size of the root directory comes out a block too large. The predicate \<open>fits\<close>
  collects what the arguments must satisfy: at most 198 files, each at most \<open>MAXFILE\<close> blocks, and enough blocks for all.

  \<^bold>\<open>Bounds and fuel.\<close> The measure of a \<open>wloop\<close> is stated with the loop and proved to decrease where a theorem says that the loop returns; a loop that waits
  has the measure 0, since each round gives up the CPU. Loops over memory that may be malformed (\<open>strlen\<close>, the free list of \<open>malloc\<close>) are
  \<open>partial_function (option)\<close> and the theorems say that they return. The shell's recursive descent has fuel \<open>4 * length b + 4\<close>, four calls for each
  character, which \<open>parse_returns\<close> shows to be enough; more fuel gives the same result (\<open>parse_mono\<close>). The digit loops of the two \<open>printint\<close> have fuel 32, a digit for each bit; that the
  digits and the sign fit the buffer of 16 is part of \<open>printint_value\<close>.

  \<^bold>\<open>Parameters.\<close> What devices put into their registers, and when interrupts arrive, is part of the state or of the states a resumed process may find; answers of
  the kernel to user programs are those of a trace, and whether the kernel has pages for the calls of \<open>sbrk\<close> the allocator makes is a list. What a theorem relies on is a named hypothesis (\<open>core_ok\<close>, \<open>text_reads\<close>, \<open>fd_answers\<close>).

  \<^bold>\<open>Not modelled.\<close>
  \<^item> Assembly (\<open>entry.S\<close>, \<open>kernelvec.S\<close>, \<open>swtch.S\<close>, \<open>trampoline.S\<close>, \<open>timervec.S\<close>, \<open>initcode.S\<close>): it needs a semantics of the instruction set. Its effect on C code is: \<open>swtch\<close> is
    \<open>Swtch\<close>, the trampoline is the return from \<open>usertrapret\<close>, the entry code calls \<open>start\<close>.
  \<^item> \<open>uart.c\<close>, \<open>plic.c\<close> and \<open>sdcard.c\<close> are linked into the kernel (\<open>KERNEL_SRCS\<close> of the \<open>Makefile\<close>) but nothing calls them: the devices
    are reached through the platform layer, whose own UART, interrupt-controller and disk code is modelled. \<open>virtio_disk.c\<close> and \<open>ramdisk.c\<close> are not in any build; \<open>ramdisk.c\<close> uses
    \<open>b->flags\<close> and \<open>RAMDISK\<close>, which the headers no longer define.
  \<^item> \<open>user/usertests.c\<close> and \<open>user/grind.c\<close>: tests, thousands of calls whose expected outcome is what the theorems about the kernel state.
  \<^item> Interrupts in the middle of kernel code, except in \<open>sleep\<close>: a function is one step up to the point where it gives up the CPU, as it is while it holds a lock. The file system's reads and
    writes of a block (\<open>platform_disk_read\<close>, \<open>platform_disk_write\<close>) are single transfers; the commands the two drivers send are modelled in \<open>Nemu\<close> and \<open>Qemu\<close>.
  \<^item> More than one hart, compiler and memory-order effects, the caches and the TLB: \<open>NCPU\<close> is 1 in this port, and code runs in program order.
\<close>

section \<open>Paths and numbers\<close>

text \<open>C39. \<open>skipelem\<close> takes the path apart as splitting it at the slashes does: it fails exactly when no element is left, and otherwise copies the
  first element into the name buffer and returns a rest with the other elements, which is empty exactly when there are none; by that
  \<open>namex\<close> knows that it has reached the last element.\<close>

theorem skipelem_split:
  "case skipelem path name of
     None \<Rightarrow> path_elems path = []
   | Some (rest, name') \<Rightarrow> \<exists>e. path_elems path = e # path_elems rest \<and> name' = set_name name e \<and> (rest = [] \<longleftrightarrow> path_elems rest = [])"
proof (cases "path_elems path")
  case Nil
  then show ?thesis by (simp add: skipelem_elems)
next
  case (Cons e es)
  let ?r = "dropWhile (\<lambda>c. c = SLASH) (dropWhile (\<lambda>c. c \<noteq> SLASH) (dropWhile (\<lambda>c. c = SLASH) path))"
  have "?r = [] \<longleftrightarrow> path_elems ?r = []"
    unfolding dropWhile_slash_empty_iff path_elems_slashes ..
  then show ?thesis
    using Cons path_elems_rest [OF Cons] unfolding skipelem_elems by simp
qed

lemma unat_abs_sint: "int (unat (if sint x < 0 then - x else x)) = \<bar>sint (x :: uint32)\<bar>"
proof -
  have "(if sint x < 0 then - x else x) = word_of_int \<bar>sint x\<bar>"
    by (simp add: abs_if)
  moreover have "\<bar>sint x\<bar> < 2 ^ 32"
    using sint_ge [of x] sint_lt [of x] by simp
  ultimately show ?thesis
    by (simp add: uint_word_of_int_eq take_bit_int_eq_self)
qed

text \<open>C40. The kernel's \<open>printint\<close>, in the bases \<open>printf\<close> calls it with (10 and 16, both signed) and with \<open>sign = 0\<close>, prints the number: for the
  smallest \<open>int\<close> too, a minus sign stands exactly before the negative numbers and the digits after it are digits of the base, without
  leading zeros, that read back as the absolute value (unsigned: as the value). With the sign, they fit in the buffer of sixteen characters.\<close>

theorem printint_value:
  assumes "base = 10 \<or> base = 16"
  shows "\<exists>ds. printint_chars xx base sign = (if sign \<and> sint xx < 0 then bstr ''-'' else []) @ rev ds
     \<and> int (digits_val base ds) = (if sign then \<bar>sint xx\<bar> else uint xx)
     \<and> set ds \<subseteq> set (take base (bstr ''0123456789abcdef''))
     \<and> ds \<noteq> [] \<and> (last ds = 0x30 \<longrightarrow> ds = [0x30])
     \<and> length (printint_chars xx base sign) \<le> 16"
proof -
  let ?x = "if sign \<and> sint xx < 0 then - xx else xx"
  let ?ds = "printint_digits 32 base (unat ?x)"
  have b: "1 < base" "base \<le> 16" using assms by auto
  have lt: "unat y < base ^ 32" "unat y < base ^ Suc 9" for y :: uint32
    using uint_lt2p [of y] assms by (auto simp flip: of_nat_less_iff [where 'a = int])
  have "digits_val base ?ds = unat ?x" by (rule digits_val_printint [OF b lt(1)])
  moreover have "int (unat ?x) = (if sign then \<bar>sint xx\<bar> else uint xx)"
    using unat_abs_sint [of xx] by auto
  moreover have "set ?ds \<subseteq> set (take base (bstr ''0123456789abcdef''))"
    using printint_digits_set b by simp
  moreover have "length ?ds \<le> 10" using printint_digits_length [OF lt(2)] by simp
  moreover have "?ds \<noteq> [] \<and> (last ?ds = 0x30 \<longrightarrow> ?ds = [0x30])"
  proof (cases "unat ?x = 0")
    case True
    then show ?thesis by (simp add: numeral_eq_Suc digit_zero(1))
  next
    case False
    then show ?thesis using printint_digits_last [OF b _ lt(1), of ?x] by auto
  qed
  moreover have "printint_chars xx base sign = (if sign \<and> sint xx < 0 then bstr ''-'' else []) @ rev ?ds"
    by (auto simp: printint_chars_def bstr_def Let_def)
  moreover have "length (if sign \<and> sint xx < 0 then bstr ''-'' else []) \<le> 1" by (simp add: bstr_def)
  ultimately show ?thesis by (intro exI [of _ ?ds]) auto
qed

theorem printint_value_witness:
  "\<exists>ds. printint_chars (- 0x80000000) 16 True = bstr ''-'' @ rev ds \<and> int (digits_val 16 ds) = 0x80000000 \<and> length ds \<le> 15"
  using printint_value [of 16 "- 0x80000000" True] by (auto simp: bstr_def)

end
